(* ===== verification/Udx_Prelude.thy ===== *)
theory Udx_Prelude
  imports Complex_Main "HOL-Library.Word" "HOL-Library.Monad_Syntax"
begin

text \<open>
  Shared vocabulary of the development: the fixed-width integer types of
  \<^verbatim>\<open>stdint.h\<close>, the option-valued assertion used wherever the C code calls
  \<^verbatim>\<open>assert\<close> or would dereference memory it does not own, the simp
  collections of the components, and the generic facts on words and lists that several
  components use.
\<close>

unbundle bit_operations_syntax

section \<open>Machine integers\<close>

type_synonym u8 = "8 word"
type_synonym u16 = "16 word"
type_synonym u32 = "32 word"
type_synonym u64 = "64 word"
type_synonym f64 = rat

text \<open>A heap address; \<open>NULL\<close> is the null pointer.\<close>

type_synonym addr = nat

abbreviation (input) NULL :: addr where
  "NULL \<equiv> 0"

section \<open>Proof collections\<close>

named_theorems seq_simps \<open>serial-number arithmetic\<close>
named_theorems heap_simps \<open>reads and writes of the pointer heaps\<close>

section \<open>Assertions\<close>

text \<open>
  \<open>c_assert b\<close> is C's \<^verbatim>\<open>assert(b)\<close>: \<open>None\<close> stands for an aborted
  program. A theorem that an operation returns \<open>Some\<close> therefore includes that none of
  its assertions can fail.
\<close>

definition c_assert :: "bool \<Rightarrow> unit option" where
  "c_assert b = (if b then Some () else None)"

lemma c_assert_True [simp]: "b \<Longrightarrow> c_assert b = Some ()"
  by (simp add: c_assert_def)

lemma c_assert_eq_Some [simp]: "c_assert b = Some u \<longleftrightarrow> b"
  by (simp add: c_assert_def)

lemma c_assert_bind_eq_Some [simp]:
  "Option.bind (c_assert b) f = Some x \<longleftrightarrow> b \<and> f () = Some x"
  by (simp add: c_assert_def)

lemma option_eqI: "(\<And>v. x = Some v \<longleftrightarrow> y = Some v) \<Longrightarrow> x = y"
  by (cases x; cases y) auto

section \<open>Words\<close>

lemma uint_ucast_u64: "uint (ucast (w :: u32) :: u64) = uint w"
  using uint_bounded [of w] by (simp add: unsigned_ucast_eq take_bit_int_eq_self)

lemma unat_u32_less [simp]: "unat (w :: u32) < 4294967296"
  using unsigned_less [of w] by simp

lemma u32_of_nat_eq_0: "n < 2 ^ 32 \<Longrightarrow> (of_nat n :: u32) = 0 \<longleftrightarrow> n = 0"
  by (auto simp: word_of_nat_eq_0_iff dest: dvd_imp_le)

lemma word_and_mask_eq_mod:
  "unat ((w :: 'a::len word) AND mask n) = unat w mod 2 ^ n"
  by (simp only: take_bit_eq_mask [symmetric] unsigned_take_bit_eq) (simp add: take_bit_eq_mod)

lemma u32_neq_add_1 [simp]: "(w :: u32) + 1 \<noteq> w"
  by simp

text \<open>A 32-bit word read as two's complement.\<close>

lemma sint_u32: "sint (w :: u32) = (if unat w < 2 ^ 31 then int (unat w) else int (unat w) - 2 ^ 32)"
proof -
  define n where "n = unat w"
  then have u: "uint w = int n" and n: "n < 4294967296" by simp_all
  have "sint w = (uint w + 2 ^ 31) mod 2 ^ 32 - 2 ^ 31"
    by (simp add: sint_uint signed_take_bit_eq_take_bit_shift take_bit_eq_mod)
  moreover have "(int n + 2 ^ 31) mod 2 ^ 32 = (if n < 2 ^ 31 then int n + 2 ^ 31 else int n - 2 ^ 31)"
  proof (cases "n < 2 ^ 31")
    case True
    then show ?thesis by (simp add: mod_pos_pos_trivial)
  next
    case False
    have "(int n + 2 ^ 31) mod 2 ^ 32 = (int n + 2 ^ 31 - 2 ^ 32) mod 2 ^ 32"
      by (rule minus_mod_self2 [symmetric])
    with False n show ?thesis by (simp add: mod_pos_pos_trivial)
  qed
  ultimately have "sint w = (if n < 2 ^ 31 then int n else int n - 2 ^ 32)"
    by (simp add: u)
  then show ?thesis by (simp only: n_def)
qed

section \<open>Lists\<close>

lemma last_notin_butlast: "distinct zs \<Longrightarrow> zs \<noteq> [] \<Longrightarrow> last zs \<notin> set (butlast zs)"
  by (induction zs) (auto split: if_splits)

lemma hd_notin_tl: "distinct zs \<Longrightarrow> zs \<noteq> [] \<Longrightarrow> hd zs \<notin> set (tl zs)"
  by (cases zs) auto

lemma mem_list_update_iff:
  assumes "i < length xs"
  shows "y \<in> set (xs[i := x]) \<longleftrightarrow> y = x \<or> (\<exists>j < length xs. j \<noteq> i \<and> xs ! j = y)"
proof
  assume "y \<in> set (xs[i := x])"
  then obtain j where "j < length xs" "xs[i := x] ! j = y" by (auto simp: in_set_conv_nth)
  with assms show "y = x \<or> (\<exists>j < length xs. j \<noteq> i \<and> xs ! j = y)" by (cases "j = i") auto
next
  assume "y = x \<or> (\<exists>j < length xs. j \<noteq> i \<and> xs ! j = y)"
  then show "y \<in> set (xs[i := x])"
  proof
    assume "\<exists>j < length xs. j \<noteq> i \<and> xs ! j = y"
    then obtain j where "j < length xs" "j \<noteq> i" "xs ! j = y" by blast
    then show ?thesis using nth_mem [of j "xs[i := x]"] by simp
  qed (use assms in \<open>simp add: set_update_memI\<close>)
qed

end
