(* ===== verification/Udx_Link.thy ===== *)
theory Udx_Link
  imports Udx_Prelude
begin

text \<open>
  \<^verbatim>\<open>src/link.h\<close>: the null-terminated doubly linked lists of sockets, streams and
  interface listeners. The macros take the head variable \<open>l\<close> and a node \<open>v\<close>; here the head
  is passed and returned together with the heap. \<open>list_at h p l xs\<close> says that the list
  starting at \<open>l\<close>, entered from \<open>p\<close>, consists of the nodes \<open>xs\<close>.
\<close>

section \<open>The macros\<close>

record link_heap =
  l_next :: "addr \<Rightarrow> addr"
  l_prev :: "addr \<Rightarrow> addr"

definition put_next :: "addr \<Rightarrow> addr \<Rightarrow> link_heap \<Rightarrow> link_heap" where
  "put_next p v h = h\<lparr>l_next := (l_next h)(p := v)\<rparr>"

definition put_prev :: "addr \<Rightarrow> addr \<Rightarrow> link_heap \<Rightarrow> link_heap" where
  "put_prev p v h = h\<lparr>l_prev := (l_prev h)(p := v)\<rparr>"

definition udx__link_add :: "addr \<Rightarrow> addr \<Rightarrow> link_heap \<Rightarrow> addr \<times> link_heap" where
  "udx__link_add l v h =
     (let h = (if l = NULL then put_next v NULL (put_prev v NULL h)
               else put_prev l v (put_next v l (put_prev v NULL h)))
      in (v, h))"

definition udx__link_remove :: "addr \<Rightarrow> addr \<Rightarrow> link_heap \<Rightarrow> addr \<times> link_heap" where
  "udx__link_remove l v h =
     (let h = (if l_next h v \<noteq> NULL then put_prev (l_next h v) (l_prev h v) h else h)
      in if l_prev h v = NULL then (l_next h v, h)
         else (l, put_next (l_prev h v) (l_next h v) h))"

text \<open>
  \<^verbatim>\<open>udx__link_foreach\<close> with a body that may change the list: the nodes it visits within a
  number of steps, and the state it ends in. The step reads \<open>el->next\<close> after the body ran.
\<close>

fun udx__link_foreach :: "(addr \<Rightarrow> addr \<times> link_heap \<Rightarrow> addr \<times> link_heap) \<Rightarrow> nat \<Rightarrow> addr \<Rightarrow> addr \<times> link_heap
    \<Rightarrow> (addr list \<times> addr \<times> link_heap) option" where
  "udx__link_foreach body 0 el s = None"
| "udx__link_foreach body (Suc n) el s =
     (if el = NULL then Some ([], s)
      else let s' = body el s in
        map_option (map_prod ((#) el) id) (udx__link_foreach body n (l_next (snd s') el) s'))"

section \<open>The list a chain holds\<close>

text \<open>\<open>seg h p l xs n\<close>: the nodes \<open>xs\<close>, entered at \<open>l\<close> from \<open>p\<close>, lead to \<open>n\<close>.\<close>

fun seg :: "link_heap \<Rightarrow> addr \<Rightarrow> addr \<Rightarrow> addr list \<Rightarrow> addr \<Rightarrow> bool" where
  "seg h p l [] n \<longleftrightarrow> l = n"
| "seg h p l (x # xs) n \<longleftrightarrow> l = x \<and> x \<noteq> NULL \<and> l_prev h x = p \<and> seg h x (l_next h x) xs n"

definition list_at :: "link_heap \<Rightarrow> addr \<Rightarrow> addr list \<Rightarrow> bool" where
  "list_at h l xs \<longleftrightarrow> seg h NULL l xs NULL \<and> distinct xs"

lemma put_simps [simp]:
  "l_next (put_next p v h) = (l_next h)(p := v)" "l_prev (put_next p v h) = l_prev h"
  "l_next (put_prev p v h) = l_next h" "l_prev (put_prev p v h) = (l_prev h)(p := v)"
  by (simp_all add: put_next_def put_prev_def)

lemma seg_frame:
  assumes "\<And>a. a \<in> set xs \<Longrightarrow> l_next h' a = l_next h a"
    and "\<And>a. a \<in> set xs \<Longrightarrow> l_prev h' a = l_prev h a"
  shows "seg h' p l xs n = seg h p l xs n"
  using assms by (induction xs arbitrary: p l) auto

lemma seg_append: "seg h p l (xs @ ys) n \<longleftrightarrow> (\<exists>m. seg h p l xs m \<and> seg h (last (p # xs)) m ys n)"
  by (induction xs arbitrary: p l) auto

lemma seg_put_next:
  assumes "seg h p l (us @ [u]) m" and "distinct (us @ [u])"
  shows "seg (put_next u m' h) p l (us @ [u]) m'"
proof -
  obtain k where k: "seg h p l us k" "seg h (last (p # us)) k [u] m"
    using assms(1) unfolding seg_append by blast
  moreover have "seg (put_next u m' h) p l us k = seg h p l us k"
    using assms(2) by (intro seg_frame) auto
  ultimately show ?thesis unfolding seg_append by auto
qed

lemma seg_put_prev:
  assumes "seg h p m ys NULL" and "distinct ys"
  shows "seg (if m \<noteq> NULL then put_prev m p' h else h) p' m ys NULL"
proof (cases ys)
  case Nil
  with assms show ?thesis by simp
next
  case (Cons y zs)
  moreover have "seg (put_prev y p' h) y (l_next h y) zs NULL = seg h y (l_next h y) zs NULL"
    using Cons assms(2) by (intro seg_frame) auto
  ultimately show ?thesis using assms by auto
qed

lemma seg_last_prev: "seg h p l (xs @ v # ys) n \<Longrightarrow> l_prev h v = last (p # xs)"
  by (auto simp: seg_append)

section \<open>The macros implement list operations\<close>

lemma link_add_at:
  assumes "list_at h l xs" and "v \<noteq> NULL" "v \<notin> set xs"
  shows "list_at (snd (udx__link_add l v h)) (fst (udx__link_add l v h)) (v # xs)"
proof -
  let ?h = "put_next v l (put_prev v NULL h)"
  have "seg ?h NULL l xs NULL = seg h NULL l xs NULL"
    using assms by (intro seg_frame) auto
  then have "seg (if l \<noteq> NULL then put_prev l v ?h else ?h) v l xs NULL"
    using assms by (intro seg_put_prev) (auto simp: list_at_def)
  moreover have "l \<noteq> v" using assms by (cases xs) (auto simp: list_at_def)
  ultimately show ?thesis
    using assms by (auto simp: list_at_def udx__link_add_def Let_def split: if_splits)
qed

text \<open>Removal works at the front, in the middle and at the end alike.\<close>

lemma link_remove_at:
  assumes "list_at h l (xs @ v # ys)"
  shows "list_at (snd (udx__link_remove l v h)) (fst (udx__link_remove l v h)) (xs @ ys)"
proof -
  have d: "distinct (xs @ ys)" "v \<notin> set (xs @ ys)" and s: "seg h NULL l (xs @ v # ys) NULL"
    using assms by (auto simp: list_at_def)
  then have xs: "seg h NULL l xs v" and ys: "seg h v (l_next h v) ys NULL"
    and v: "l_prev h v = last (NULL # xs)" "v \<noteq> NULL"
    by (auto simp: seg_append)
  define h1 where h1: "h1 = (if l_next h v \<noteq> NULL then put_prev (l_next h v) (l_prev h v) h else h)"
  have next_in: "l_next h v = NULL \<or> l_next h v \<in> set ys" using ys by (cases ys) auto
  have ys1: "seg h1 (last (NULL # xs)) (l_next h v) ys NULL"
    using seg_put_prev [OF ys, of "last (NULL # xs)"] d v by (auto simp: h1)
  have xs1: "seg h1 NULL l xs v = seg h NULL l xs v"
    using d next_in by (intro seg_frame) (auto simp: h1)
  have h1_v: "l_next h1 = l_next h" "l_prev h1 v = l_prev h v" using next_in d by (auto simp: h1)
  have rm: "udx__link_remove l v h = (if l_prev h1 v = NULL then (l_next h1 v, h1)
      else (l, put_next (l_prev h1 v) (l_next h1 v) h1))"
    by (simp only: udx__link_remove_def Let_def h1)
  show ?thesis
  proof (cases xs rule: rev_cases)
    case Nil
    with ys1 v xs d h1_v show ?thesis
      unfolding rm by (simp add: list_at_def)
  next
    case (snoc us u)
    then have "u \<noteq> NULL" using xs by (auto simp: seg_append)
    let ?h = "put_next u (l_next h v) h1"
    have "seg ?h NULL l xs (l_next h v)"
      using seg_put_next [of h1 NULL l us u v "l_next h v"] xs xs1 d snoc by auto
    moreover have "seg ?h (last (NULL # xs)) (l_next h v) ys NULL = seg h1 (last (NULL # xs)) (l_next h v) ys NULL"
      using d snoc by (intro seg_frame) auto
    ultimately show ?thesis
      using ys1 snoc v d h1_v \<open>u \<noteq> NULL\<close>
      unfolding rm by (auto simp: list_at_def seg_append)
  qed
qed

text \<open>
  A removed node keeps its own \<^verbatim>\<open>next\<close> pointer, so the loops of \<^verbatim>\<open>udx_teardown\<close> may
  remove the node they visit: they still visit every node once and leave the list empty.
\<close>

lemma link_remove_keeps_next:
  "l_prev h v \<noteq> v \<Longrightarrow> l_next (snd (udx__link_remove l v h)) v = l_next h v"
  by (auto simp: udx__link_remove_def Let_def)

lemma link_foreach_remove:
  assumes "list_at h l xs"
  shows "\<exists>h'. udx__link_foreach (\<lambda>el (l, h). udx__link_remove l el h) (Suc (length xs)) l (l, h) =
      Some (xs, NULL, h')"
  using assms
proof (induction xs arbitrary: h l)
  case Nil
  then show ?case by (simp add: list_at_def)
next
  case (Cons x xs)
  obtain l1 h1 where r: "udx__link_remove l x h = (l1, h1)" by fastforce
  have at: "list_at h1 l1 xs" using link_remove_at [of h l "[]" x xs] Cons.prems r by simp
  have x: "l = x" "x \<noteq> NULL" "l_prev h x = NULL" using Cons.prems by (auto simp: list_at_def)
  then have "l1 = l_next h x" "l_next h1 x = l_next h x"
    using r link_remove_keeps_next [of h x l]
    by (auto simp: udx__link_remove_def Let_def split: if_splits)
  moreover obtain h' where
    "udx__link_foreach (\<lambda>el (l, h). udx__link_remove l el h) (Suc (length xs)) l1 (l1, h1) = Some (xs, NULL, h')"
    using Cons.IH [OF at] by blast
  ultimately show ?case
    using x r by (subst list.size(4), subst udx__link_foreach.simps(2)) (simp del: udx__link_foreach.simps)
qed

section \<open>Properties\<close>

text \<open>The link macros keep a doubly linked list: adding puts a node in front, and removing any node, wherever it is,
  leaves the others in order.\<close>

theorem link_add_remove:
  assumes "list_at h l (xs @ v # ys)" and "new \<noteq> NULL" "new \<notin> set (xs @ v # ys)"
  shows "case udx__link_add l new h of (l1, h1) \<Rightarrow> list_at h1 l1 (new # xs @ v # ys)
    \<and> (case udx__link_remove l1 v h1 of (l2, h2) \<Rightarrow> list_at h2 l2 (new # xs @ ys))"
  using link_add_at [OF assms(1), of new] assms
    link_remove_at [of "snd (udx__link_add l new h)" "fst (udx__link_add l new h)" "new # xs" v ys]
  by (simp add: split_beta)

definition empty_links :: link_heap where
  "empty_links = \<lparr>l_next = (\<lambda>_. 0), l_prev = (\<lambda>_. 0)\<rparr>"

lemma empty_links_at: "list_at empty_links 5 [5]"
  by (simp add: empty_links_def list_at_def)

theorem link_add_remove_witness:
  "case udx__link_add 5 7 empty_links of (l1, h1) \<Rightarrow>
     (case udx__link_remove l1 5 h1 of (l2, h2) \<Rightarrow> list_at h2 l2 [7])"
  using link_add_remove [of empty_links 5 "[]" 5 "[]" 7] by (simp add: split_beta empty_links_at)

text \<open>The teardown loop, which removes each node while iterating over the list, visits every node once, in order,
  and leaves the list empty: a node being removed keeps its own next pointer.\<close>

theorem link_teardown:
  assumes "list_at h l xs"
  shows "\<exists>h'. udx__link_foreach (\<lambda>el (l, h). udx__link_remove l el h) (Suc (length xs)) l (l, h) = Some (xs, NULL, h')"
  using link_foreach_remove [OF assms] .

theorem link_teardown_witness:
  "\<exists>h'. udx__link_foreach (\<lambda>el (l, h). udx__link_remove l el h) 2 5 (5, empty_links) = Some ([5], NULL, h')"
  using link_teardown [of empty_links 5 "[5]"] empty_links_at by (simp add: numeral_2_eq_2)

end
