(* ===== verification/Udx_Keyed_Map.thy ===== *)
theory Udx_Keyed_Map
  imports Udx_Prelude
begin

text \<open>
  The interface of the two containers that find an object by a number stored in the object
  itself: the circular buffer of \<^verbatim>\<open>cirbuf.c\<close> (packets by sequence number, relaying
  streams by local id) and the hash table of \<^verbatim>\<open>udx_stream_table.c\<close> (streams and time-wait
  entries by local id). \<open>storable m v\<close> is the condition under which storing \<open>v\<close> is safe.
\<close>

locale keyed_map =
  fixes inv :: "'m \<Rightarrow> bool"
    and find :: "'m \<Rightarrow> 'k \<Rightarrow> 'v option"
    and key :: "'v \<Rightarrow> 'k"
    and storable :: "'m \<Rightarrow> 'v \<Rightarrow> bool"
    and store :: "'v \<Rightarrow> 'm \<Rightarrow> 'm option"
    and drop_key :: "'k \<Rightarrow> 'm \<Rightarrow> 'v option \<times> 'm"
  assumes find_key: "inv m \<Longrightarrow> find m k = Some v \<Longrightarrow> key v = k"
    and store_law: "inv m \<Longrightarrow> storable m v \<Longrightarrow>
      \<exists>m'. store v m = Some m' \<and> inv m' \<and> find m' = (find m)(key v \<mapsto> v)"
    and drop_result: "inv m \<Longrightarrow> fst (drop_key k m) = find m k"
    and drop_inv: "inv m \<Longrightarrow> inv (snd (drop_key k m))"
    and drop_find: "inv m \<Longrightarrow> find (snd (drop_key k m)) = (find m)(k := None)"
begin

lemma find_after_store:
  assumes "inv m" and "storable m v"
  shows "\<exists>m'. store v m = Some m' \<and> find m' (key v) = Some v \<and>
    (\<forall>k. k \<noteq> key v \<longrightarrow> find m' k = find m k)"
  using store_law [OF assms] by auto

lemma drop_after_store:
  assumes "inv m" and "storable m v"
  shows "\<exists>m'. store v m = Some m' \<and> fst (drop_key (key v) m') = Some v"
  using store_law [OF assms] drop_result by fastforce

text \<open>
  The clean-up loops: remove every key of a list, collecting what was there. Nothing stored
  under another key is touched, and nothing stays behind.
\<close>

fun drop_keys :: "'k list \<Rightarrow> 'm \<Rightarrow> 'v list \<times> 'm" where
  "drop_keys [] m = ([], m)"
| "drop_keys (k # ks) m =
     (let (r, m') = drop_key k m; (rs, m'') = drop_keys ks m'
      in (case r of None \<Rightarrow> rs | Some v \<Rightarrow> v # rs, m''))"

lemma drop_keys_law:
  "inv m \<Longrightarrow> inv (snd (drop_keys ks m)) \<and>
     find (snd (drop_keys ks m)) = (\<lambda>k. if k \<in> set ks then None else find m k)"
proof (induction ks arbitrary: m)
  case Nil
  then show ?case by simp
next
  case (Cons k ks)
  obtain r m' where k: "drop_key k m = (r, m')" by fastforce
  then have m': "inv m'" "find m' = (find m)(k := None)"
    using drop_inv [OF Cons.prems, of k] drop_find [OF Cons.prems, of k] by auto
  show ?case using Cons.IH [OF m'(1)] k m'(2) by (auto simp: split_beta)
qed

lemma drop_keys_results:
  "inv m \<Longrightarrow> distinct ks \<Longrightarrow> fst (drop_keys ks m) = List.map_filter (find m) ks"
proof (induction ks arbitrary: m)
  case Nil
  then show ?case by (simp add: List.map_filter_simps)
next
  case (Cons k ks)
  obtain r m' where k: "drop_key k m = (r, m')" by fastforce
  then have m': "inv m'" "r = find m k" "find m' = (find m)(k := None)"
    using drop_inv [OF Cons.prems(1), of k] drop_find [OF Cons.prems(1), of k]
      drop_result [OF Cons.prems(1), of k] by auto
  have "List.map_filter (find m') ks = List.map_filter (find m) ks"
    using Cons.prems(2) m'(3) by (auto simp: List.map_filter_def intro!: map_cong filter_cong)
  with Cons.IH [OF m'(1)] Cons.prems(2) k m'(2) show ?case
    by (auto simp: split_beta List.map_filter_simps split: option.splits)
qed

end

end
