(* ===== verification/Udx_Cirbuf.thy ===== *)
theory Udx_Cirbuf
  imports Udx_Keyed_Map
begin

text \<open>
  \<^verbatim>\<open>src/cirbuf.c\<close>: a growable circular buffer indexed by the low bits of a sequence
  number. The elements are pointers to structures that start with their sequence number;
  here they are values of any type \<open>'v\<close>, and \<open>sq v\<close> is the read \<^verbatim>\<open>v->seq\<close>. An access
  outside the allocated array is \<open>None\<close>.
\<close>

section \<open>The operations\<close>

record 'v cirbuf =
  cb_size :: u32
  cb_mask :: u32
  cb_values :: "'v option list"

definition udx__cirbuf_init :: "u32 \<Rightarrow> 'v cirbuf" where
  "udx__cirbuf_init initial_size =
     \<lparr>cb_size = initial_size, cb_mask = initial_size - 1,
      cb_values = replicate (unat initial_size) None\<rparr>"

definition udx__cirbuf_destroy :: "'v cirbuf \<Rightarrow> 'v cirbuf" where
  "udx__cirbuf_destroy c = c\<lparr>cb_size := 0, cb_mask := 0, cb_values := []\<rparr>"

text \<open>One store \<^verbatim>\<open>values[i] = val\<close>, and the loop that copies the old array over.\<close>

definition cirbuf_put :: "u32 \<Rightarrow> 'v \<Rightarrow> 'v option list \<Rightarrow> 'v option list option" where
  "cirbuf_put i v vs = (if unat i < length vs then Some (vs[unat i := Some v]) else None)"

fun cirbuf_copy :: "('v \<Rightarrow> u32) \<Rightarrow> u32 \<Rightarrow> 'v option list \<Rightarrow> 'v option list \<Rightarrow> 'v option list option" where
  "cirbuf_copy sq m [] vs = Some vs"
| "cirbuf_copy sq m (None # os) vs = cirbuf_copy sq m os vs"
| "cirbuf_copy sq m (Some v # os) vs = Option.bind (cirbuf_put (sq v AND m) v vs) (cirbuf_copy sq m os)"

text \<open>
  The loop that doubles the size until the two sequence numbers fall into different slots;
  the size is a 32-bit word and wraps. The first argument bounds the number of tests.
\<close>

fun cirbuf_grow :: "nat \<Rightarrow> u32 \<Rightarrow> u32 \<Rightarrow> u32 \<Rightarrow> u32 \<Rightarrow> (u32 \<times> u32) option" where
  "cirbuf_grow 0 a b sz m = None"
| "cirbuf_grow (Suc n) a b sz m =
     (if a AND m = b AND m then cirbuf_grow n a b (sz * 2) (sz * 2 - 1) else Some (sz, m))"

definition udx__cirbuf_set :: "('v \<Rightarrow> u32) \<Rightarrow> 'v \<Rightarrow> 'v cirbuf \<Rightarrow> 'v cirbuf option" where
  "udx__cirbuf_set sq val c =
     (let i = sq val AND cb_mask c in
      if \<not> unat i < length (cb_values c) then None else
      case cb_values c ! unat i of
        None \<Rightarrow> Some (c\<lparr>cb_values := (cb_values c)[unat i := Some val]\<rparr>)
      | Some v \<Rightarrow>
          if sq v = sq val then Some (c\<lparr>cb_values := (cb_values c)[unat i := Some val]\<rparr>)
          else do {
            (sz, m) \<leftarrow> cirbuf_grow 33 (sq v) (sq val) (cb_size c) (cb_mask c);
            vs \<leftarrow> cirbuf_put (sq val AND m) val (replicate (unat sz) None);
            vs \<leftarrow> cirbuf_copy sq m (cb_values c) vs;
            Some \<lparr>cb_size = sz, cb_mask = m, cb_values = vs\<rparr>
          })"

definition udx__cirbuf_get :: "('v \<Rightarrow> u32) \<Rightarrow> 'v cirbuf \<Rightarrow> u32 \<Rightarrow> 'v option" where
  "udx__cirbuf_get sq c seq =
     (case cb_values c ! unat (seq AND cb_mask c) of
        None \<Rightarrow> None
      | Some v \<Rightarrow> if sq v \<noteq> seq then None else Some v)"

definition udx__cirbuf_remove :: "('v \<Rightarrow> u32) \<Rightarrow> u32 \<Rightarrow> 'v cirbuf \<Rightarrow> 'v option \<times> 'v cirbuf" where
  "udx__cirbuf_remove sq seq c =
     (let i = unat (seq AND cb_mask c) in
      case cb_values c ! i of
        None \<Rightarrow> (None, c)
      | Some v \<Rightarrow> if sq v \<noteq> seq then (None, c) else (Some v, c\<lparr>cb_values := (cb_values c)[i := None]\<rparr>))"

section \<open>Invariant\<close>

text \<open>
  The size is a power of two that the word can hold, the mask selects its low bits, and
  every element sits in the slot its sequence number selects.
\<close>

definition cirbuf_inv :: "('v \<Rightarrow> u32) \<Rightarrow> 'v cirbuf \<Rightarrow> bool" where
  "cirbuf_inv sq c \<longleftrightarrow> (\<exists>n < 32. cb_size c = 2 ^ n \<and> cb_mask c = 2 ^ n - 1
     \<and> length (cb_values c) = 2 ^ n
     \<and> (\<forall>i < 2 ^ n. \<forall>v. cb_values c ! i = Some v \<longrightarrow> unat (sq v) mod 2 ^ n = i))"

lemma and_pow2: "unat ((s :: u32) AND (2 ^ n - 1)) = unat s mod 2 ^ n"
  using word_and_mask_eq_mod [of s n] by (simp add: mask_eq_exp_minus_1)

lemma and_pow2_eq_iff:
  "(s :: u32) AND (2 ^ n - 1) = t AND (2 ^ n - 1) \<longleftrightarrow> unat s mod 2 ^ n = unat t mod 2 ^ n"
  by (simp only: word_unat_eq_iff and_pow2)

lemma unat_pow2: "n < 32 \<Longrightarrow> unat (2 ^ n :: u32) = 2 ^ n"
proof -
  assume "n < 32"
  then have "(2 :: nat) ^ n < 2 ^ 32" by (rule power_strict_increasing) simp
  then have "unat (of_nat (2 ^ n) :: u32) = 2 ^ n"
    by (simp only: unsigned_of_nat) (simp add: take_bit_nat_eq_self \<open>n < 32\<close>)
  then show ?thesis by simp
qed

section \<open>Growing\<close>

text \<open>
  Two different sequence numbers are told apart by some number of low bits, at most 32, so
  the loop ends; with 33 tests there is always one to spare.
\<close>

lemma cirbuf_grow_law:
  assumes "a \<noteq> b" and "n \<le> 32" and "33 - n \<le> k"
  shows "\<exists>m. n \<le> m \<and> m \<le> 32 \<and> cirbuf_grow k a b (2 ^ n) (2 ^ n - 1) = Some (2 ^ m, 2 ^ m - 1)
    \<and> unat a mod 2 ^ m \<noteq> unat b mod 2 ^ m \<and> (\<forall>j. n \<le> j \<and> j < m \<longrightarrow> unat a mod 2 ^ j = unat b mod 2 ^ j)"
  using assms(2,3)
proof (induction k arbitrary: n)
  case 0
  then show ?case by simp
next
  case (Suc k)
  show ?case
  proof (cases "unat a mod 2 ^ n = unat b mod 2 ^ n")
    case False
    then show ?thesis using Suc.prems by (intro exI [of _ n]) (auto simp: and_pow2_eq_iff)
  next
    case True
    have "n \<noteq> 32"
      using True \<open>a \<noteq> b\<close> by (auto simp: word_unat_eq_iff)
    then obtain m where m: "Suc n \<le> m" "m \<le> 32"
      "cirbuf_grow k a b (2 ^ Suc n) (2 ^ Suc n - 1) = Some (2 ^ m, 2 ^ m - 1)"
      "unat a mod 2 ^ m \<noteq> unat b mod 2 ^ m"
      "\<forall>j. Suc n \<le> j \<and> j < m \<longrightarrow> unat a mod 2 ^ j = unat b mod 2 ^ j"
      using Suc.IH [of "Suc n"] Suc.prems \<open>n \<noteq> 32\<close> by (auto simp: le_diff_conv)
    have "\<forall>j. n \<le> j \<and> j < m \<longrightarrow> unat a mod 2 ^ j = unat b mod 2 ^ j"
      using m(5) True by (metis le_antisym not_less_eq_eq)
    with m True show ?thesis
      by (intro exI [of _ m]) (auto simp: and_pow2_eq_iff mult.commute)
  qed
qed

section \<open>Copying\<close>

definition slot :: "('v \<Rightarrow> u32) \<Rightarrow> nat \<Rightarrow> 'v \<Rightarrow> nat" where
  "slot sq n v = unat (sq v) mod 2 ^ n"

lemma slot_less [simp]: "slot sq n v < 2 ^ n"
  by (simp add: slot_def)

lemma slot_mono: "n \<le> m \<Longrightarrow> slot sq m v = slot sq m w \<Longrightarrow> slot sq n v = slot sq n w"
proof -
  assume "n \<le> m"
  then have "(2 :: nat) ^ n dvd 2 ^ m" by (rule le_imp_power_dvd)
  then have "slot sq n v = slot sq m v mod 2 ^ n" for v
    by (simp add: slot_def mod_mod_cancel)
  then show "slot sq m v = slot sq m w \<Longrightarrow> slot sq n v = slot sq n w" by simp
qed

text \<open>No two elements of an array share a slot.\<close>

fun separate :: "('v \<Rightarrow> nat) \<Rightarrow> 'v option list \<Rightarrow> bool" where
  "separate sl [] \<longleftrightarrow> True"
| "separate sl (None # os) \<longleftrightarrow> separate sl os"
| "separate sl (Some v # os) \<longleftrightarrow> (\<forall>w. Some w \<in> set os \<longrightarrow> sl w \<noteq> sl v) \<and> separate sl os"

lemma separate_indexed:
  assumes "\<And>i v. i < length os \<Longrightarrow> os ! i = Some v \<Longrightarrow> g v = off + i"
    and "\<And>v w. sl v = sl w \<Longrightarrow> g v = g w"
  shows "separate sl os"
  using assms(1)
proof (induction os arbitrary: off)
  case Nil
  then show ?case by simp
next
  case (Cons x os)
  have rest: "g v = Suc off + i" if "i < length os" "os ! i = Some v" for i v
    using Cons.prems [of "Suc i" v] that by simp
  have "separate sl os" by (rule Cons.IH [OF rest])
  moreover have "sl w \<noteq> sl v" if x: "x = Some v" and w: "Some w \<in> set os" for v w
  proof -
    obtain i where "i < length os" "os ! i = Some w" using w by (auto simp: in_set_conv_nth)
    then have "g w = Suc off + i" by (rule rest)
    moreover have "g v = off" using Cons.prems [of 0 v] x by simp
    ultimately show ?thesis using assms(2) [of w v] by auto
  qed
  ultimately show ?case by (cases x) auto
qed

lemma cirbuf_copy_law:
  assumes "separate (slot sq m) os" and "length vs = 2 ^ m"
  shows "\<exists>vs'. cirbuf_copy sq (2 ^ m - 1) os vs = Some vs' \<and> length vs' = 2 ^ m
    \<and> (\<forall>v. Some v \<in> set os \<longrightarrow> vs' ! slot sq m v = Some v)
    \<and> (\<forall>j. (\<forall>v. Some v \<in> set os \<longrightarrow> slot sq m v \<noteq> j) \<longrightarrow> vs' ! j = vs ! j)"
  using assms
proof (induction sq "2 ^ m - 1 :: u32" os vs rule: cirbuf_copy.induct)
  case (3 sq v os vs)
  let ?vs = "vs[slot sq m v := Some v]"
  have lt: "slot sq m v < length vs" using 3(3) by (simp add: slot_def)
  then have put: "cirbuf_put (sq v AND (2 ^ m - 1)) v vs = Some ?vs"
    by (simp add: cirbuf_put_def and_pow2 slot_def)
  moreover obtain vs' where vs': "cirbuf_copy sq (2 ^ m - 1) os ?vs = Some vs'" "length vs' = 2 ^ m"
    "\<And>w. Some w \<in> set os \<Longrightarrow> vs' ! slot sq m w = Some w"
    "\<And>j. \<forall>w. Some w \<in> set os \<longrightarrow> slot sq m w \<noteq> j \<Longrightarrow> vs' ! j = ?vs ! j"
    using 3 put by auto
  moreover have "vs' ! slot sq m v = Some v" using vs'(4) [of "slot sq m v"] 3(2) lt by simp
  ultimately show ?case by auto
qed auto

section \<open>Correctness\<close>

lemma cirbuf_get_iff:
  assumes "cirbuf_inv sq c"
  shows "udx__cirbuf_get sq c s = Some v \<longleftrightarrow> Some v \<in> set (cb_values c) \<and> sq v = s"
proof -
  obtain n where n: "cb_mask c = 2 ^ n - 1" "length (cb_values c) = 2 ^ n"
    "\<And>i v. i < 2 ^ n \<Longrightarrow> cb_values c ! i = Some v \<Longrightarrow> unat (sq v) mod 2 ^ n = i"
    using assms by (auto simp: cirbuf_inv_def)
  have "cb_values c ! (unat s mod 2 ^ n) = Some v" if mem: "Some v \<in> set (cb_values c)" "sq v = s"
  proof -
    obtain i where "i < 2 ^ n" "cb_values c ! i = Some v" using mem n(2) by (auto simp: in_set_conv_nth)
    with n(3) [OF this] mem show ?thesis by simp
  qed
  moreover have "Some v \<in> set (cb_values c)" if "cb_values c ! (unat s mod 2 ^ n) = Some v"
    using nth_mem [of "unat s mod 2 ^ n" "cb_values c"] n(2) that by simp
  moreover have "udx__cirbuf_get sq c s = Some v \<longleftrightarrow> cb_values c ! (unat s mod 2 ^ n) = Some v \<and> sq v = s"
    by (auto simp: udx__cirbuf_get_def n(1) and_pow2 split: option.splits)
  ultimately show ?thesis by blast
qed

lemma cirbuf_init_inv:
  "n < 32 \<Longrightarrow> cirbuf_inv sq (udx__cirbuf_init (2 ^ n))"
  by (auto simp: cirbuf_inv_def udx__cirbuf_init_def unat_pow2 intro!: exI [of _ n])

lemma cirbuf_init_get:
  "n < 32 \<Longrightarrow> udx__cirbuf_get sq (udx__cirbuf_init (2 ^ n)) s = None"
  by (simp add: udx__cirbuf_get_def udx__cirbuf_init_def and_pow2 unat_pow2)

text \<open>
  Storing is safe as long as no stored number differs from the new one in the top bit only:
  then the size stays a power of two below \<open>2 ^ 32\<close>.
\<close>

definition cirbuf_storable :: "('v \<Rightarrow> u32) \<Rightarrow> 'v cirbuf \<Rightarrow> 'v \<Rightarrow> bool" where
  "cirbuf_storable sq c val \<longleftrightarrow>
     (\<forall>v. Some v \<in> set (cb_values c) \<longrightarrow> unat (sq v) mod 2 ^ 31 = unat (sq val) mod 2 ^ 31 \<longrightarrow> sq v = sq val)"

lemma cirbuf_rebuild:
  assumes n: "n \<le> m" "m < 32" "length os = 2 ^ n"
    "\<And>i v. i < 2 ^ n \<Longrightarrow> os ! i = Some v \<Longrightarrow> slot sq n v = i"
    and v0: "os ! slot sq n val = Some v0" "slot sq m v0 \<noteq> slot sq m val"
  shows "\<exists>vs. Option.bind (cirbuf_put (sq val AND (2 ^ m - 1)) val (replicate (2 ^ m) None))
       (cirbuf_copy sq (2 ^ m - 1) os) = Some vs
    \<and> cirbuf_inv sq \<lparr>cb_size = 2 ^ m, cb_mask = 2 ^ m - 1, cb_values = vs\<rparr>
    \<and> (\<forall>w. Some w \<in> set vs \<longleftrightarrow> w = val \<or> Some w \<in> set os)"
proof -
  let ?vs = "(replicate (2 ^ m) None)[slot sq m val := Some val]"
  have put: "cirbuf_put (sq val AND (2 ^ m - 1)) val (replicate (2 ^ m) None) = Some ?vs"
    by (simp add: cirbuf_put_def and_pow2 slot_def)
  have "separate (slot sq m) os"
    by (rule separate_indexed [where g = "slot sq n" and off = 0])
      (use n slot_mono [OF n(1)] in auto)
  then obtain vs where vs: "cirbuf_copy sq (2 ^ m - 1) os ?vs = Some vs" "length vs = 2 ^ m"
    "\<And>v. Some v \<in> set os \<Longrightarrow> vs ! slot sq m v = Some v"
    "\<And>j. \<forall>v. Some v \<in> set os \<longrightarrow> slot sq m v \<noteq> j \<Longrightarrow> vs ! j = ?vs ! j"
    using cirbuf_copy_law [of sq m os ?vs] by auto
  have "slot sq m v \<noteq> slot sq m val" if mem: "Some v \<in> set os" for v
  proof
    assume eq: "slot sq m v = slot sq m val"
    obtain i where "i < 2 ^ n" "os ! i = Some v" using mem n(3) by (auto simp: in_set_conv_nth)
    moreover have "slot sq n v = slot sq n val" using slot_mono [OF n(1) eq] .
    ultimately have "v = v0" using n(4) v0(1) by fastforce
    with eq v0(2) show False by simp
  qed
  then have val: "vs ! slot sq m val = Some val" using vs(4) by simp
  have at: "w = val \<or> Some w \<in> set os" "slot sq m w = j" if "j < 2 ^ m" "vs ! j = Some w" for j w
  proof -
    show "w = val \<or> Some w \<in> set os"
      using that vs(3) vs(4) [of j] by (cases "\<exists>v. Some v \<in> set os \<and> slot sq m v = j")
        (auto simp: nth_list_update split: if_splits)
    show "slot sq m w = j"
      using that vs(3) vs(4) [of j] by (cases "\<exists>v. Some v \<in> set os \<and> slot sq m v = j")
        (auto simp: nth_list_update split: if_splits)
  qed
  have "Some w \<in> set vs" if "vs ! slot sq m w = Some w" for w
    using nth_mem [of "slot sq m w" vs] vs(2) that by simp
  moreover have "w = val \<or> Some w \<in> set os" if "Some w \<in> set vs" for w
    using that at(1) vs(2) unfolding in_set_conv_nth by metis
  ultimately have mem: "Some w \<in> set vs \<longleftrightarrow> w = val \<or> Some w \<in> set os" for w
    using val vs(3) by blast
  have "cirbuf_inv sq \<lparr>cb_size = 2 ^ m, cb_mask = 2 ^ m - 1, cb_values = vs\<rparr>"
    using n(2) vs(2) at(2) by (auto simp: cirbuf_inv_def slot_def intro!: exI [of _ m])
  with put vs(1) mem show ?thesis by auto
qed

lemma cirbuf_invE:
  assumes "cirbuf_inv sq c"
  obtains n where "n < 32" "cb_size c = 2 ^ n" "cb_mask c = 2 ^ n - 1" "length (cb_values c) = 2 ^ n"
    "\<And>i v. i < 2 ^ n \<Longrightarrow> cb_values c ! i = Some v \<Longrightarrow> slot sq n v = i"
    "\<And>v. unat (sq v AND (2 ^ n - 1)) = slot sq n v"
  using assms by (auto simp: cirbuf_inv_def slot_def and_pow2)

text \<open>What the contents are after a store: the new element and every other number's.\<close>

definition cirbuf_stored :: "('v \<Rightarrow> u32) \<Rightarrow> 'v \<Rightarrow> 'v cirbuf \<Rightarrow> 'v cirbuf option \<Rightarrow> bool" where
  "cirbuf_stored sq val c r \<longleftrightarrow> (\<exists>c'. r = Some c' \<and> cirbuf_inv sq c' \<and>
     (\<forall>w. Some w \<in> set (cb_values c') \<longleftrightarrow> w = val \<or> Some w \<in> set (cb_values c) \<and> sq w \<noteq> sq val))"

lemma cirbuf_set_in_place:
  assumes inv: "cirbuf_inv sq c"
    and free: "\<And>v. cb_values c ! unat (sq val AND cb_mask c) = Some v \<Longrightarrow> sq v = sq val"
  shows "cirbuf_stored sq val c (udx__cirbuf_set sq val c)"
proof -
  obtain n where n: "n < 32" "cb_size c = 2 ^ n" "cb_mask c = 2 ^ n - 1" "length (cb_values c) = 2 ^ n"
    "\<And>i v. i < 2 ^ n \<Longrightarrow> cb_values c ! i = Some v \<Longrightarrow> slot sq n v = i"
    "\<And>v. unat (sq v AND (2 ^ n - 1)) = slot sq n v" using cirbuf_invE [OF inv] by blast
  let ?i = "slot sq n val"
  let ?c = "c\<lparr>cb_values := (cb_values c)[?i := Some val]\<rparr>"
  have set: "udx__cirbuf_set sq val c = Some ?c"
    using free n(3,4,6) by (auto simp: udx__cirbuf_set_def Let_def split: option.splits)
  have "Some w \<in> set (cb_values ?c) \<longleftrightarrow> w = val \<or> Some w \<in> set (cb_values c) \<and> sq w \<noteq> sq val" for w
  proof -
    have "\<exists>j < 2 ^ n. j \<noteq> ?i \<and> cb_values c ! j = Some w" if "Some w \<in> set (cb_values c)" "sq w \<noteq> sq val"
      using that free n(3,4,6) by (auto simp: in_set_conv_nth)
    moreover have "Some w \<in> set (cb_values c) \<and> sq w \<noteq> sq val" if "j < 2 ^ n" "j \<noteq> ?i" "cb_values c ! j = Some w" for j
      using n(5) [OF that(1,3)] that nth_mem [of j "cb_values c"] n(4) by (auto simp: slot_def)
    ultimately show ?thesis
      using mem_list_update_iff [of ?i "cb_values c" "Some w" "Some val"] n(4) by auto
  qed
  moreover have "cirbuf_inv sq ?c"
    using n by (auto simp: cirbuf_inv_def slot_def nth_list_update intro!: exI [of _ n])
  ultimately show ?thesis using set by (simp add: cirbuf_stored_def)
qed

lemma cirbuf_set_grow:
  assumes inv: "cirbuf_inv sq c"
    and v0: "cb_values c ! unat (sq val AND cb_mask c) = Some v0" "sq v0 \<noteq> sq val"
  shows "if unat (sq v0) mod 2 ^ 31 = unat (sq val) mod 2 ^ 31 then udx__cirbuf_set sq val c = None
    else cirbuf_stored sq val c (udx__cirbuf_set sq val c)"
proof -
  obtain n where n: "n < 32" "cb_size c = 2 ^ n" "cb_mask c = 2 ^ n - 1" "length (cb_values c) = 2 ^ n"
    "\<And>i v. i < 2 ^ n \<Longrightarrow> cb_values c ! i = Some v \<Longrightarrow> slot sq n v = i"
    "\<And>v. unat (sq v AND (2 ^ n - 1)) = slot sq n v" using cirbuf_invE [OF inv] by blast
  have v0': "cb_values c ! slot sq n val = Some v0" using v0 n(3,6) by simp
  obtain m where m: "n \<le> m" "m \<le> 32"
    "cirbuf_grow 33 (sq v0) (sq val) (2 ^ n) (2 ^ n - 1) = Some (2 ^ m, 2 ^ m - 1)"
    "slot sq m v0 \<noteq> slot sq m val" "\<forall>j. n \<le> j \<and> j < m \<longrightarrow> slot sq j v0 = slot sq j val"
    using cirbuf_grow_law [OF v0(2), of n 33] n(1) by (auto simp: slot_def)
  have set: "udx__cirbuf_set sq val c = map_option (\<lambda>vs. \<lparr>cb_size = 2 ^ m, cb_mask = 2 ^ m - 1, cb_values = vs\<rparr>)
      (Option.bind (cirbuf_put (sq val AND (2 ^ m - 1)) val (replicate (unat (2 ^ m :: u32)) None))
         (cirbuf_copy sq (2 ^ m - 1) (cb_values c)))"
    using v0 v0' m(3) n by (auto simp: udx__cirbuf_set_def Let_def map_conv_bind_option comp_def)
  have top: "m = 32 \<longleftrightarrow> unat (sq v0) mod 2 ^ 31 = unat (sq val) mod 2 ^ 31"
  proof
    show "m = 32 \<Longrightarrow> unat (sq v0) mod 2 ^ 31 = unat (sq val) mod 2 ^ 31"
      using m(5) [rule_format, of 31] n(1) by (simp add: slot_def)
    show "m = 32" if eq: "unat (sq v0) mod 2 ^ 31 = unat (sq val) mod 2 ^ 31"
    proof (rule ccontr)
      assume "m \<noteq> 32"
      then have "slot sq m v0 = slot sq m val" using slot_mono [of m 31 sq v0 val] m(2) eq by (simp add: slot_def)
      then show False using m(4) by simp
    qed
  qed
  show ?thesis
  proof (cases "m = 32")
    case True
    with set have "udx__cirbuf_set sq val c = None" by (simp add: cirbuf_put_def)
    with True top show ?thesis by simp
  next
    case False
    then have "m < 32" using m(2) by simp
    have "sq w \<noteq> sq val" if "Some w \<in> set (cb_values c)" for w
      using cirbuf_get_iff [OF inv, of "sq val" w] that v0 by (auto simp: udx__cirbuf_get_def)
    with cirbuf_rebuild [OF m(1) \<open>m < 32\<close> n(4,5) v0' m(4)] False top set \<open>m < 32\<close> show ?thesis
      by (auto simp: cirbuf_stored_def unat_pow2)
  qed
qed

lemma cirbuf_set_members:
  assumes "cirbuf_inv sq c" and "cirbuf_storable sq c val"
  shows "cirbuf_stored sq val c (udx__cirbuf_set sq val c)"
proof (cases "\<exists>v0. cb_values c ! unat (sq val AND cb_mask c) = Some v0 \<and> sq v0 \<noteq> sq val")
  case True
  then obtain v0 where v0: "cb_values c ! unat (sq val AND cb_mask c) = Some v0" "sq v0 \<noteq> sq val" by blast
  then have "Some v0 \<in> set (cb_values c)"
    using nth_mem [of "unat (sq val AND cb_mask c)" "cb_values c"] cirbuf_invE [OF assms(1)]
    by (metis slot_less)
  with assms(2) v0(2) cirbuf_set_grow [OF assms(1) v0] show ?thesis
    by (auto simp: cirbuf_storable_def split: if_splits)
qed (use cirbuf_set_in_place [OF assms(1)] in blast)

lemma cirbuf_set_law:
  assumes "cirbuf_inv sq c" and "cirbuf_storable sq c val"
  shows "\<exists>c'. udx__cirbuf_set sq val c = Some c' \<and> cirbuf_inv sq c'
    \<and> udx__cirbuf_get sq c' = (udx__cirbuf_get sq c)(sq val \<mapsto> val)"
proof -
  obtain c' where c': "udx__cirbuf_set sq val c = Some c'" "cirbuf_inv sq c'"
    "\<And>w. Some w \<in> set (cb_values c') \<longleftrightarrow> w = val \<or> Some w \<in> set (cb_values c) \<and> sq w \<noteq> sq val"
    using cirbuf_set_members [OF assms] by (auto simp: cirbuf_stored_def)
  have "udx__cirbuf_get sq c' s = ((udx__cirbuf_get sq c)(sq val \<mapsto> val)) s" for s
    by (rule option_eqI) (auto simp: cirbuf_get_iff [OF c'(2)] cirbuf_get_iff [OF assms(1)] c'(3))
  with c' show ?thesis by blast
qed

lemma cirbuf_remove_fst: "fst (udx__cirbuf_remove sq s c) = udx__cirbuf_get sq c s"
  by (auto simp: udx__cirbuf_remove_def udx__cirbuf_get_def Let_def split: option.splits)

lemma cirbuf_remove_law:
  assumes "cirbuf_inv sq c"
  shows "cirbuf_inv sq (snd (udx__cirbuf_remove sq s c))"
    and "udx__cirbuf_get sq (snd (udx__cirbuf_remove sq s c)) = (udx__cirbuf_get sq c)(s := None)"
proof -
  obtain n where n: "n < 32" "cb_size c = 2 ^ n" "cb_mask c = 2 ^ n - 1" "length (cb_values c) = 2 ^ n"
    "\<And>i v. i < 2 ^ n \<Longrightarrow> cb_values c ! i = Some v \<Longrightarrow> slot sq n v = i"
    "\<And>v. unat (sq v AND (2 ^ n - 1)) = slot sq n v" using cirbuf_invE [OF assms] by blast
  let ?i = "unat s mod 2 ^ n"
  let ?c = "snd (udx__cirbuf_remove sq s c)"
  have c: "?c = (if udx__cirbuf_get sq c s = None then c else c\<lparr>cb_values := (cb_values c)[?i := None]\<rparr>)"
    by (auto simp: udx__cirbuf_remove_def udx__cirbuf_get_def Let_def n(3) and_pow2 split: option.splits)
  show inv: "cirbuf_inv sq ?c"
    using n assms by (auto simp: c cirbuf_inv_def slot_def nth_list_update intro!: exI [of _ n])
  show "udx__cirbuf_get sq ?c = (udx__cirbuf_get sq c)(s := None)"
  proof (cases "udx__cirbuf_get sq c s")
    case None
    then show ?thesis by (auto simp: c)
  next
    case (Some v)
    then have v: "cb_values c ! ?i = Some v" "sq v = s"
      by (auto simp: udx__cirbuf_get_def n(3) and_pow2 split: option.splits if_splits)
    have "udx__cirbuf_get sq ?c t = (if t = s then None else udx__cirbuf_get sq c t)" for t
      using v n(3,4) Some by (cases "unat t mod 2 ^ n = ?i") (auto simp: c udx__cirbuf_get_def and_pow2)
    then show ?thesis by auto
  qed
qed

interpretation cirbuf_map: keyed_map "cirbuf_inv sq" "udx__cirbuf_get sq" sq "cirbuf_storable sq"
  "udx__cirbuf_set sq" "udx__cirbuf_remove sq" for sq :: "'v \<Rightarrow> u32"
  by unfold_locales
    (auto simp: cirbuf_get_iff cirbuf_set_law cirbuf_remove_fst cirbuf_remove_law)

text \<open>
  Numbers inside a window of \<open>2 ^ 31\<close>, as the sequence numbers of packets in flight are,
  never meet the bad case.
\<close>

lemma cirbuf_storable_window:
  assumes "\<And>v. Some v \<in> set (cb_values c) \<Longrightarrow> unat (sq v - base) < 2 ^ 31" and "unat (sq val - base) < 2 ^ 31"
  shows "cirbuf_storable sq c val"
  unfolding cirbuf_storable_def
proof (intro allI impI)
  fix v assume v: "Some v \<in> set (cb_values c)" and eq: "unat (sq v) mod 2 ^ 31 = unat (sq val) mod 2 ^ 31"
  define x y where xy: "x = unat (sq v)" "y = unat (sq val)"
  have "x < 2 ^ 32" "y < 2 ^ 32" "x mod 2 ^ 31 = y mod 2 ^ 31" using eq by (simp_all add: xy)
  then have "x = y \<or> x = y + 2 ^ 31 \<or> y = x + 2 ^ 31" by (auto simp: mod_if split: if_splits)
  then have "unat (sq v - sq val) \<in> {0, 2 ^ 31}"
    unfolding unat_sub_if' xy [symmetric] by auto
  moreover have "sq v - sq val = (sq v - base) - (sq val - base)" by simp
  then have "unat (sq v - sq val) \<noteq> 2 ^ 31"
    using assms(1) [OF v] assms(2) by (simp only: unat_sub_if' [of "sq v - base"]) (auto split: if_splits)
  ultimately have "sq v - sq val = 0" by (simp add: unat_eq_zero)
  then show "sq v = sq val" by simp
qed

section \<open>Properties\<close>

text \<open>C20. The circular buffer is a map by sequence number: storing an element of a window of \<open>2 ^ 31\<close> numbers never fails,
  whether it lands in a free slot, replaces its own number or makes the buffer grow; afterwards its number finds it,
  every other number finds what it found before, and removing the number gives the element back.\<close>

theorem cirbuf_set_get_remove:
  assumes "cirbuf_inv sq c"
    and "\<forall>v. Some v \<in> set (cb_values c) \<longrightarrow> unat (sq v - base) < 2 ^ 31" and "unat (sq val - base) < 2 ^ 31"
  shows "\<exists>c'. udx__cirbuf_set sq val c = Some c' \<and> cirbuf_inv sq c'
    \<and> udx__cirbuf_get sq c' (sq val) = Some val \<and> (\<forall>s. s \<noteq> sq val \<longrightarrow> udx__cirbuf_get sq c' s = udx__cirbuf_get sq c s)
    \<and> fst (udx__cirbuf_remove sq (sq val) c') = Some val
    \<and> udx__cirbuf_get sq (snd (udx__cirbuf_remove sq (sq val) c')) (sq val) = None"
proof -
  have st: "cirbuf_storable sq c val" by (rule cirbuf_storable_window [of c sq base]) (use assms in blast)+
  obtain c' where c': "udx__cirbuf_set sq val c = Some c'" "cirbuf_inv sq c'"
    "udx__cirbuf_get sq c' = (udx__cirbuf_get sq c)(sq val \<mapsto> val)"
    using cirbuf_map.store_law [OF assms(1) st] by blast
  then show ?thesis
    using cirbuf_map.drop_result [OF c'(2), of "sq val"] cirbuf_map.drop_find [OF c'(2), of "sq val"] by auto
qed

theorem cirbuf_set_get_remove_witness:
  "\<exists>c'. udx__cirbuf_set id 0xFFFFFFFF (udx__cirbuf_init 16) = Some c' \<and> udx__cirbuf_get id c' 0xFFFFFFFF = Some 0xFFFFFFFF"
  using cirbuf_set_get_remove [of id "udx__cirbuf_init 16" "0xFFFFFFF0" "0xFFFFFFFF"] cirbuf_init_inv [of 4 id]
  by (auto simp: udx__cirbuf_init_def)



end
