(* ===== verification/Udx_Stream_Table.thy ===== *)
theory Udx_Stream_Table
  imports Udx_Keyed_Map
begin

text \<open>
  \<^verbatim>\<open>src/udx_stream_table.c\<close>: the hash table from local stream ids to entries (streams and
  time-wait records), 1024 buckets of chains threaded through \<^verbatim>\<open>hash_next\<close>. The lookup
  returns the address of the pointer to the entry found or of the final null pointer, so
  that \<^verbatim>\<open>set\<close> and \<^verbatim>\<open>remove\<close> can overwrite it: here a \<open>slot_ref\<close>.
\<close>

section \<open>The operations\<close>

datatype entry_type = UDX_ENTRY_UNUSED | UDX_ENTRY_STREAM | UDX_ENTRY_TIMEWAIT

record udx_stream_entry =
  e_local_id :: u32
  e_hash_next :: addr
  e_entry_type :: entry_type

record udx_table =
  t_bucket :: "nat \<Rightarrow> addr"
  t_entry :: "addr \<Rightarrow> udx_stream_entry"

datatype slot_ref = Bucket nat | HashNext addr

fun deref :: "udx_table \<Rightarrow> slot_ref \<Rightarrow> addr" where
  "deref h (Bucket i) = t_bucket h i"
| "deref h (HashNext a) = e_hash_next (t_entry h a)"

fun assign :: "slot_ref \<Rightarrow> addr \<Rightarrow> udx_table \<Rightarrow> udx_table" where
  "assign (Bucket i) v h = h\<lparr>t_bucket := (t_bucket h)(i := v)\<rparr>"
| "assign (HashNext a) v h = h\<lparr>t_entry := (t_entry h)(a := (t_entry h a)\<lparr>e_hash_next := v\<rparr>)\<rparr>"

partial_function (option) table_walk :: "udx_table \<Rightarrow> u32 \<Rightarrow> slot_ref \<Rightarrow> slot_ref option" where
  "table_walk h local_id p =
     (if deref h p = NULL then Some p
      else if e_local_id (t_entry h (deref h p)) = local_id then Some p
      else table_walk h local_id (HashNext (deref h p)))"

definition table_index :: "u32 \<Rightarrow> nat" where
  "table_index local_id = unat local_id mod 1024"

definition table_lookup :: "udx_table \<Rightarrow> u32 \<Rightarrow> slot_ref option" where
  "table_lookup h local_id = table_walk h local_id (Bucket (table_index local_id))"

definition udx_stream_entry_get :: "udx_table \<Rightarrow> u32 \<Rightarrow> addr option" where
  "udx_stream_entry_get h local_id = map_option (deref h) (table_lookup h local_id)"

definition udx_stream_entry_set :: "udx_table \<Rightarrow> addr \<Rightarrow> (addr \<times> udx_table) option" where
  "udx_stream_entry_set h new =
     do {
       p \<leftarrow> table_lookup h (e_local_id (t_entry h new));
       if deref h p \<noteq> NULL then do {
         let old = deref h p;
         let h = assign (HashNext new) (e_hash_next (t_entry h old)) h;
         Some (old, assign p new h)
       } else Some (NULL, assign (HashNext new) NULL (assign p new h))
     }"

definition udx_stream_entry_remove :: "udx_table \<Rightarrow> u32 \<Rightarrow> (addr \<times> udx_table) option" where
  "udx_stream_entry_remove h local_id =
     do {
       p \<leftarrow> table_lookup h local_id;
       let ret = deref h p;
       Some (ret, if ret \<noteq> NULL then assign p (e_hash_next (t_entry h ret)) h else h)
     }"

section \<open>Chains\<close>

fun hash_chain :: "udx_table \<Rightarrow> addr \<Rightarrow> addr list \<Rightarrow> bool" where
  "hash_chain h a [] \<longleftrightarrow> a = NULL"
| "hash_chain h a (x # xs) \<longleftrightarrow> a = x \<and> x \<noteq> NULL \<and> hash_chain h (e_hash_next (t_entry h x)) xs"

text \<open>
  \<open>table_rel ids C h\<close>: bucket \<open>i\<close> holds the chain \<open>C i\<close>; the entries have the ids \<open>ids\<close> says,
  every entry is in the bucket of its id and no id occurs twice.
\<close>

definition table_rel :: "(addr \<Rightarrow> u32) \<Rightarrow> (nat \<Rightarrow> addr list) \<Rightarrow> udx_table \<Rightarrow> bool" where
  "table_rel ids C h \<longleftrightarrow> (\<forall>a. e_local_id (t_entry h a) = ids a)
     \<and> (\<forall>i < 1024. hash_chain h (t_bucket h i) (C i) \<and> distinct (map ids (C i))
          \<and> (\<forall>a \<in> set (C i). table_index (ids a) = i))"

text \<open>The pointer that leads to position \<open>k\<close> of a chain.\<close>

definition chain_ref :: "slot_ref \<Rightarrow> addr list \<Rightarrow> slot_ref" where
  "chain_ref p xs = (if xs = [] then p else HashNext (last xs))"

lemma chain_ref_simps [simp]:
  "chain_ref p [] = p" "chain_ref p (x # xs) = chain_ref (HashNext x) xs"
  by (auto simp: chain_ref_def)

lemma table_walk_skip:
  assumes "hash_chain h (deref h p) (xs @ ys)" and "\<forall>x \<in> set xs. e_local_id (t_entry h x) \<noteq> k"
  shows "table_walk h k p = table_walk h k (chain_ref p xs) \<and> hash_chain h (deref h (chain_ref p xs)) ys"
  using assms
proof (induction xs arbitrary: p)
  case Nil
  then show ?case by simp
next
  case (Cons x xs)
  then have "deref h p = x" "x \<noteq> NULL" by auto
  then have "table_walk h k p = table_walk h k (HashNext x)"
    using Cons.prems by (subst table_walk.simps) simp
  with Cons.IH [of "HashNext x"] Cons.prems show ?case by simp
qed

text \<open>The walk stops at the entry with the id, or at the end of the chain.\<close>

lemma table_walk_hit:
  assumes "hash_chain h (deref h p) (xs @ a # ys)" and "\<forall>x \<in> set xs. e_local_id (t_entry h x) \<noteq> k"
    and "e_local_id (t_entry h a) = k"
  shows "table_walk h k p = Some (chain_ref p xs)" and "deref h (chain_ref p xs) = a"
  using table_walk_skip [OF assms(1,2)] assms(3) table_walk.simps [of h k "chain_ref p xs"] by auto

lemma table_walk_end:
  assumes "hash_chain h (deref h p) xs" and "\<forall>x \<in> set xs. e_local_id (t_entry h x) \<noteq> k"
  shows "table_walk h k p = Some (chain_ref p xs)" and "deref h (chain_ref p xs) = NULL"
  using table_walk_skip [of h p xs "[]"] assms table_walk.simps [of h k "chain_ref p xs"] by auto

lemma hash_chain_frame:
  assumes "\<And>x. x \<in> set xs \<Longrightarrow> e_hash_next (t_entry h' x) = e_hash_next (t_entry h x)"
  shows "hash_chain h' a xs = hash_chain h a xs"
  using assms by (induction xs arbitrary: a) auto

lemma assign_ids [simp]: "e_local_id (t_entry (assign p v h) a) = e_local_id (t_entry h a)"
  by (cases p) auto

lemma assign_next: "e_hash_next (t_entry (assign p v h) a) = (if p = HashNext a then v else e_hash_next (t_entry h a))"
  by (cases p) auto

lemma assign_bucket: "t_bucket (assign p v h) i = (if p = Bucket i then v else t_bucket h i)"
  by (cases p) auto

text \<open>Overwriting the pointer after \<open>xs\<close> replaces what follows \<open>xs\<close>.\<close>

lemma hash_chain_assign:
  assumes "hash_chain h (deref h p) (xs @ ys)" and "distinct xs" and "\<forall>b \<in> set xs. p \<noteq> HashNext b"
    and "hash_chain (assign (chain_ref p xs) v h) v zs"
  shows "hash_chain (assign (chain_ref p xs) v h) (deref (assign (chain_ref p xs) v h) p) (xs @ zs)"
  using assms
proof (induction xs arbitrary: p)
  case Nil
  then show ?case by (cases p) auto
next
  case (Cons x xs)
  let ?h = "assign (chain_ref (HashNext x) xs) v h"
  have ne: "chain_ref (HashNext x) xs \<noteq> p"
    using Cons.prems(3) by (auto simp: chain_ref_def split: if_splits)
  then have "deref ?h p = deref h p" by (cases p) (auto simp: assign_next assign_bucket)
  moreover have "hash_chain ?h (deref ?h (HashNext x)) (xs @ zs)"
    using Cons.prems by (intro Cons.IH) auto
  ultimately show ?case using Cons.prems(1) by simp
qed

section \<open>Correctness\<close>

lemma table_relD:
  assumes "table_rel ids C h" and "i < 1024"
  shows "hash_chain h (deref h (Bucket i)) (C i)" "distinct (map ids (C i))" "distinct (C i)"
    "\<And>a. e_local_id (t_entry h a) = ids a" "\<And>a. a \<in> set (C i) \<Longrightarrow> table_index (ids a) = i"
  using assms by (auto simp: table_rel_def distinct_map)

lemma table_index_less [simp]: "table_index k < 1024"
  by (simp add: table_index_def)

lemma table_get_found:
  assumes "table_rel ids C h" and "a \<in> set (C (table_index (ids a)))"
  shows "udx_stream_entry_get h (ids a) = Some a"
proof -
  note r = table_relD [OF assms(1) table_index_less]
  obtain xs ys where C: "C (table_index (ids a)) = xs @ a # ys" using split_list [OF assms(2)] by blast
  have "\<forall>x \<in> set xs. e_local_id (t_entry h x) \<noteq> ids a"
    using r(2) [of "ids a"] C r(4) by (auto simp: image_iff)
  with table_walk_hit [of h "Bucket (table_index (ids a))" xs a ys "ids a"] r(1) [of "ids a"] C r(4)
  show ?thesis by (simp add: udx_stream_entry_get_def table_lookup_def)
qed

lemma table_get_missing:
  assumes "table_rel ids C h" and "k \<notin> ids ` set (C (table_index k))"
  shows "udx_stream_entry_get h k = Some NULL"
proof -
  note r = table_relD [OF assms(1) table_index_less]
  have "\<forall>x \<in> set (C (table_index k)). e_local_id (t_entry h x) \<noteq> k" using assms(2) r(4) by auto
  with table_walk_end [of h "Bucket (table_index k)" "C (table_index k)" k] r(1) [of k]
  show ?thesis by (simp add: udx_stream_entry_get_def table_lookup_def)
qed

text \<open>
  The part of the table seen by a walk for \<open>k\<close>: the entries before the one found, and the
  rest of the chain after it.
\<close>

lemma table_lookup_split:
  assumes rel: "table_rel ids C h"
  obtains (hit) xs a ys where "C (table_index k) = xs @ a # ys" "ids a = k" "k \<notin> ids ` set xs"
      "table_lookup h k = Some (chain_ref (Bucket (table_index k)) xs)"
      "deref h (chain_ref (Bucket (table_index k)) xs) = a" "a \<noteq> NULL" "hash_chain h (e_hash_next (t_entry h a)) ys"
  | (miss) "k \<notin> ids ` set (C (table_index k))"
      "table_lookup h k = Some (chain_ref (Bucket (table_index k)) (C (table_index k)))"
      "deref h (chain_ref (Bucket (table_index k)) (C (table_index k))) = NULL"
proof (cases "k \<in> ids ` set (C (table_index k))")
  case False
  note r = table_relD [OF rel table_index_less [of k]]
  have "\<forall>x \<in> set (C (table_index k)). e_local_id (t_entry h x) \<noteq> k" using False r(4) by auto
  from table_walk_end [OF r(1) this] False show ?thesis by (intro miss) (simp_all add: table_lookup_def)
next
  case True
  note r = table_relD [OF rel table_index_less [of k]]
  obtain xs a ys where C: "C (table_index k) = xs @ a # ys" "ids a = k" "\<forall>x \<in> set xs. ids x \<noteq> k"
    using True split_list_first_prop [of "C (table_index k)" "\<lambda>a. ids a = k"] by auto
  have chain: "hash_chain h (deref h (Bucket (table_index k))) (xs @ a # ys)" using r(1) C(1) by simp
  have skip: "\<forall>x \<in> set xs. e_local_id (t_entry h x) \<noteq> k" using C(3) r(4) by simp
  from table_walk_hit [OF chain skip] table_walk_skip [OF chain skip] C r(4) show ?thesis
    by (intro hit [of xs a ys]) (auto simp: table_lookup_def)
qed

text \<open>Changing one chain and nothing else.\<close>

lemma table_rel_update:
  assumes rel: "table_rel ids C h" and "i < 1024"
    and "hash_chain h' (t_bucket h' i) zs" "distinct (map ids zs)" "\<forall>a \<in> set zs. table_index (ids a) = i"
    and "\<And>a. e_local_id (t_entry h' a) = e_local_id (t_entry h a)"
    and "\<And>j. j \<noteq> i \<Longrightarrow> t_bucket h' j = t_bucket h j"
    and "\<And>j a. j < 1024 \<Longrightarrow> j \<noteq> i \<Longrightarrow> a \<in> set (C j) \<Longrightarrow> e_hash_next (t_entry h' a) = e_hash_next (t_entry h a)"
  shows "table_rel ids (C(i := zs)) h'"
  unfolding table_rel_def
proof (intro conjI allI impI)
  fix j :: nat assume "j < 1024"
  show "hash_chain h' (t_bucket h' j) ((C(i := zs)) j)"
  proof (cases "j = i")
    case False
    then have "hash_chain h' (t_bucket h' j) (C j) = hash_chain h (t_bucket h' j) (C j)"
      using assms(8) \<open>j < 1024\<close> by (intro hash_chain_frame) auto
    with False assms(7) [OF False] table_relD(1) [OF rel \<open>j < 1024\<close>] show ?thesis by simp
  qed (use assms(3) in simp)
qed (use assms(4-6) rel in \<open>auto simp: table_rel_def\<close>)

lemma chain_ref_bucket: "chain_ref (Bucket i) xs = Bucket j \<Longrightarrow> i = j"
  by (auto simp: chain_ref_def split: if_splits)

lemma chain_ref_next: "chain_ref (Bucket i) xs = HashNext a \<Longrightarrow> a \<in> set xs"
  by (auto simp: chain_ref_def split: if_splits)

lemma table_chains_disjoint:
  assumes "table_rel ids C h" and "i < 1024" "j < 1024" "i \<noteq> j" and "a \<in> set (C i)"
  shows "a \<notin> set (C j)"
  using table_relD(5) [OF assms(1,2,5)] table_relD(5) [OF assms(1,3)] assms(4) by blast

lemma table_remove_law:
  assumes rel: "table_rel ids C h"
  shows "\<exists>h' xs a ys. udx_stream_entry_remove h k = Some (a, h')
    \<and> (if k \<in> ids ` set (C (table_index k))
       then C (table_index k) = xs @ a # ys \<and> ids a = k \<and> a \<noteq> NULL \<and> table_rel ids (C(table_index k := xs @ ys)) h'
       else a = NULL \<and> h' = h)"
  using rel
proof (cases rule: table_lookup_split [where k = k])
  case (hit xs a ys)
  let ?i = "table_index k" and ?p = "chain_ref (Bucket (table_index k)) xs"
  let ?h = "assign ?p (e_hash_next (t_entry h a)) h"
  note r = table_relD [OF rel table_index_less [of k]]
  have d: "distinct (xs @ a # ys)" using r(3) hit(1) by simp
  have ys: "hash_chain ?h (e_hash_next (t_entry h a)) ys"
    using hit(7) d by (subst hash_chain_frame [of ys ?h h]) (auto simp: assign_next dest: chain_ref_next)
  have "table_rel ids (C(?i := xs @ ys)) ?h"
  proof (rule table_rel_update [OF rel table_index_less])
    show "hash_chain ?h (t_bucket ?h ?i) (xs @ ys)"
      using hash_chain_assign [of h "Bucket ?i" xs "a # ys", OF _ _ _ ys] r(1) hit(1) d by simp
    show "e_hash_next (t_entry ?h b) = e_hash_next (t_entry h b)" if "j < 1024" "j \<noteq> ?i" "b \<in> set (C j)" for j b
      using table_chains_disjoint [OF rel that(1) table_index_less that(2,3)] hit(1)
      by (auto simp: assign_next dest: chain_ref_next)
  qed (use r(2,5) hit(1) in \<open>auto simp: assign_bucket dest: chain_ref_bucket\<close>)
  moreover have "k \<in> ids ` set (C ?i)" using hit(1,2) by auto
  ultimately show ?thesis using hit by (auto simp: udx_stream_entry_remove_def)
next
  case miss
  then show ?thesis by (auto simp: udx_stream_entry_remove_def)
qed

lemma assign_commute:
  "p \<noteq> q \<Longrightarrow> assign p a (assign q b h) = assign q b (assign p a h)"
  by (cases p; cases q) (auto simp: fun_upd_twist)

text \<open>Linking a new entry in after \<open>xs\<close>, in front of \<open>ys\<close>.\<close>

lemma table_link:
  assumes rel: "table_rel ids C h" and C: "C (table_index (ids new)) = xs @ rest"
    and ys: "hash_chain h w ys" "set ys \<subseteq> set rest" "distinct (map ids (xs @ ys))" "ids new \<notin> ids ` set (xs @ ys)"
    and new: "new \<noteq> NULL" "\<And>i. i < 1024 \<Longrightarrow> new \<notin> set (C i)"
  shows "table_rel ids (C(table_index (ids new) := xs @ new # ys))
     (assign (chain_ref (Bucket (table_index (ids new))) xs) new (assign (HashNext new) w h))"
proof -
  let ?i = "table_index (ids new)"
  let ?p = "chain_ref (Bucket ?i) xs"
  let ?h1 = "assign (HashNext new) w h" and ?h = "assign ?p new (assign (HashNext new) w h)"
  note r = table_relD [OF rel table_index_less [of "ids new"]]
  have d: "distinct (xs @ rest)" "new \<notin> set (xs @ rest)" using r(3) C new(2) [of ?i] by simp_all
  have h1: "hash_chain ?h1 (deref ?h1 (Bucket ?i)) (xs @ rest)"
    using r(1) C d by (subst hash_chain_frame [of _ ?h1 h]) (auto simp: assign_bucket assign_next)
  have "hash_chain ?h w ys"
    using ys(1,2) d by (subst hash_chain_frame [of ys ?h h]) (auto simp: assign_next dest: chain_ref_next)
  then have tail: "hash_chain ?h new (new # ys)"
    using new(1) d by (auto simp: assign_next dest: chain_ref_next)
  show ?thesis
  proof (rule table_rel_update [OF rel table_index_less])
    show "hash_chain ?h (t_bucket ?h ?i) (xs @ new # ys)"
      using hash_chain_assign [OF h1 _ _ tail] d by simp
    show "e_hash_next (t_entry ?h b) = e_hash_next (t_entry h b)" if "j < 1024" "j \<noteq> ?i" "b \<in> set (C j)" for j b
      using table_chains_disjoint [OF rel that(1) table_index_less that(2,3)] C new(2) [OF that(1)] that(3)
      by (auto simp: assign_next dest: chain_ref_next)
    show "\<forall>a \<in> set (xs @ new # ys). table_index (ids a) = ?i"
      using r(5) C ys(2) by auto
  qed (use ys in \<open>auto simp: assign_bucket dest: chain_ref_bucket\<close>)
qed

lemma table_set_law:
  assumes rel: "table_rel ids C h" and new: "new \<noteq> NULL" "\<And>i. i < 1024 \<Longrightarrow> new \<notin> set (C i)"
  shows "\<exists>h' xs ys old. udx_stream_entry_set h new = Some (old, h')
    \<and> table_rel ids (C(table_index (ids new) := xs @ new # ys)) h'
    \<and> (if ids new \<in> ids ` set (C (table_index (ids new)))
       then C (table_index (ids new)) = xs @ old # ys \<and> ids old = ids new \<and> old \<noteq> NULL
       else C (table_index (ids new)) = xs \<and> ys = [] \<and> old = NULL)"
  using rel
proof (cases rule: table_lookup_split [where k = "ids new"])
  case (hit xs a ys)
  note r = table_relD [OF rel table_index_less [of "ids new"]]
  have "ids new \<in> ids ` set (C (table_index (ids new)))" "distinct (map ids (xs @ ys))" "ids new \<notin> ids ` set (xs @ ys)"
    using r(2) hit(1-3) by auto
  moreover have "udx_stream_entry_set h new = Some (a, assign (chain_ref (Bucket (table_index (ids new))) xs) new
      (assign (HashNext new) (e_hash_next (t_entry h a)) h))"
    using hit r(4) by (auto simp: udx_stream_entry_set_def)
  ultimately show ?thesis
    using table_link [OF rel hit(1) hit(7) _ _ _ new] hit by fastforce
next
  case miss
  let ?i = "table_index (ids new)"
  let ?p = "chain_ref (Bucket ?i) (C ?i)"
  note r = table_relD [OF rel table_index_less [of "ids new"]]
  have "?p \<noteq> HashNext new" using new(2) [of ?i] by (auto dest: chain_ref_next)
  then have "assign ?p new (assign (HashNext new) NULL h) = assign (HashNext new) NULL (assign ?p new h)"
    by (rule assign_commute)
  then have "udx_stream_entry_set h new = Some (NULL, assign ?p new (assign (HashNext new) NULL h))"
    using miss r(4) by (simp add: udx_stream_entry_set_def del: assign.simps)
  moreover have "table_rel ids (C(?i := C ?i @ [new])) (assign ?p new (assign (HashNext new) NULL h))"
    using table_link [OF rel _ _ _ _ _ new, of "C ?i" "[]" NULL "[]"] r(2) miss(1) by simp
  ultimately show ?thesis using miss(1) by auto
qed

section \<open>The table as a map\<close>

definition table_inv :: "(addr \<Rightarrow> u32) \<Rightarrow> udx_table \<Rightarrow> bool" where
  "table_inv ids h \<longleftrightarrow> (\<exists>C. table_rel ids C h)"

definition table_fresh :: "(addr \<Rightarrow> u32) \<Rightarrow> udx_table \<Rightarrow> addr \<Rightarrow> bool" where
  "table_fresh ids h a \<longleftrightarrow> a \<noteq> NULL \<and> (\<forall>C i. table_rel ids C h \<longrightarrow> i < 1024 \<longrightarrow> a \<notin> set (C i))"

definition table_find :: "udx_table \<Rightarrow> u32 \<Rightarrow> addr option" where
  "table_find h k = (case udx_stream_entry_get h k of None \<Rightarrow> None | Some a \<Rightarrow> if a = NULL then None else Some a)"

lemma hash_chain_nonnull: "hash_chain h a xs \<Longrightarrow> NULL \<notin> set xs"
  by (induction xs arbitrary: a) auto

lemma table_find_iff:
  assumes "table_rel ids C h"
  shows "table_find h k = Some a \<longleftrightarrow> a \<in> set (C (table_index k)) \<and> ids a = k"
proof (cases "k \<in> ids ` set (C (table_index k))")
  case True
  then obtain b where b: "b \<in> set (C (table_index k))" "ids b = k" by auto
  note r = table_relD [OF assms table_index_less [of k]]
  have "NULL \<notin> set (C (table_index k))" using r(1) by (rule hash_chain_nonnull)
  with b(1) have "b \<noteq> NULL" by metis
  have inj: "inj_on ids (set (C (table_index k)))" using r(2) by (simp add: distinct_map)
  have "table_find h k = Some b"
    using table_get_found [OF assms, of b] b \<open>b \<noteq> NULL\<close> by (simp add: table_find_def)
  moreover have "a = b" if "a \<in> set (C (table_index k))" "ids a = k"
    using inj_onD [OF inj _ that(1) b(1)] that(2) b(2) by simp
  ultimately show ?thesis using b by auto
next
  case False
  then show ?thesis using table_get_missing [OF assms False] by (auto simp: table_find_def)
qed

definition table_store :: "addr \<Rightarrow> udx_table \<Rightarrow> udx_table option" where
  "table_store new h = map_option snd (udx_stream_entry_set h new)"

definition table_drop :: "u32 \<Rightarrow> udx_table \<Rightarrow> addr option \<times> udx_table" where
  "table_drop k h = (case udx_stream_entry_remove h k of None \<Rightarrow> (None, h)
     | Some (a, h') \<Rightarrow> (if a = NULL then None else Some a, h'))"

lemma table_store_law:
  assumes "table_inv ids h" and "table_fresh ids h new"
  shows "\<exists>h'. table_store new h = Some h' \<and> table_inv ids h' \<and> table_find h' = (table_find h)(ids new \<mapsto> new)"
proof -
  obtain C where rel: "table_rel ids C h" using assms(1) by (auto simp: table_inv_def)
  have new: "new \<noteq> NULL" "\<And>i. i < 1024 \<Longrightarrow> new \<notin> set (C i)" using assms(2) rel by (auto simp: table_fresh_def)
  obtain h' xs ys old where s: "udx_stream_entry_set h new = Some (old, h')"
    "table_rel ids (C(table_index (ids new) := xs @ new # ys)) h'"
    "if ids new \<in> ids ` set (C (table_index (ids new)))
       then C (table_index (ids new)) = xs @ old # ys \<and> ids old = ids new \<and> old \<noteq> NULL
       else C (table_index (ids new)) = xs \<and> ys = [] \<and> old = NULL"
    using table_set_law [OF rel new] by blast
  have "distinct (map ids (xs @ new # ys))"
    using table_relD(2) [OF s(2), of "table_index (ids new)"] by simp
  then have ne: "ids v \<noteq> ids new" if "v \<in> set xs \<union> set ys" for v
    using that by (auto simp: image_iff)
  have old: "v \<in> set (C (table_index (ids new))) \<longleftrightarrow> v \<in> set (xs @ new # ys)" if "ids v \<noteq> ids new" for v
  proof (cases "ids new \<in> ids ` set (C (table_index (ids new)))")
    case True
    with s(3) have "C (table_index (ids new)) = xs @ old # ys" "ids old = ids new" by simp_all
    with that show ?thesis by auto
  next
    case False
    with s(3) have "C (table_index (ids new)) = xs" "ys = []" by simp_all
    with that show ?thesis by auto
  qed
  have "table_find h' k = Some v \<longleftrightarrow> ((table_find h)(ids new \<mapsto> new)) k = Some v" for k v
  proof (cases "k = ids new")
    case True
    then show ?thesis unfolding table_find_iff [OF s(2)] using ne [of v] by auto
  next
    case False
    then have "v \<in> set ((C(table_index (ids new) := xs @ new # ys)) (table_index k)) \<and> ids v = k
      \<longleftrightarrow> v \<in> set (C (table_index k)) \<and> ids v = k"
      using old [of v] by (cases "table_index k = table_index (ids new)"; cases "ids v = k") simp_all
    with False show ?thesis by (simp add: table_find_iff [OF s(2)] table_find_iff [OF rel])
  qed
  then have "table_find h' k = ((table_find h)(ids new \<mapsto> new)) k" for k
    by (rule option_eqI)
  then have "table_find h' = (table_find h)(ids new \<mapsto> new)" by blast
  with s(1,2) show ?thesis by (auto simp: table_store_def table_inv_def)
qed

lemma table_drop_law:
  assumes "table_inv ids h"
  shows "fst (table_drop k h) = table_find h k" and "table_inv ids (snd (table_drop k h))"
    and "table_find (snd (table_drop k h)) = (table_find h)(k := None)"
proof -
  obtain C where rel: "table_rel ids C h" using assms by (auto simp: table_inv_def)
  obtain h' xs a ys where r: "udx_stream_entry_remove h k = Some (a, h')"
    "if k \<in> ids ` set (C (table_index k))
     then C (table_index k) = xs @ a # ys \<and> ids a = k \<and> a \<noteq> NULL \<and> table_rel ids (C(table_index k := xs @ ys)) h'
     else a = NULL \<and> h' = h"
    using table_remove_law [OF rel] by blast
  have "fst (table_drop k h) = table_find h k \<and> table_inv ids h' \<and> table_find h' = (table_find h)(k := None)"
  proof (cases "k \<in> ids ` set (C (table_index k))")
    case True
    with r have C: "C (table_index k) = xs @ a # ys" "ids a = k" "a \<noteq> NULL"
      and rel': "table_rel ids (C(table_index k := xs @ ys)) h'" by auto
    have "distinct (map ids (xs @ a # ys))" using table_relD(2) [OF rel table_index_less [of k]] C by simp
    then have ne: "ids v \<noteq> k" if "v \<in> set xs \<union> set ys" for v using that C(2) by (auto simp: image_iff)
    have "table_find h k = Some a" using C table_find_iff [OF rel] by simp
    moreover have "table_find h' j = ((table_find h)(k := None)) j" for j
      using ne C by (intro option_eqI, cases "j = k")
        (auto simp: table_find_iff [OF rel] table_find_iff [OF rel'])
    ultimately show ?thesis using r(1) C rel' by (auto simp: table_drop_def table_inv_def)
  next
    case False
    have "table_find h k \<noteq> Some v" for v
      unfolding table_find_iff [OF rel] using False by (metis image_eqI)
    then have "table_find h k = None" by blast
    with False r assms show ?thesis by (auto simp: table_drop_def)
  qed
  then show "fst (table_drop k h) = table_find h k" "table_inv ids (snd (table_drop k h))"
    "table_find (snd (table_drop k h)) = (table_find h)(k := None)"
    using r(1) by (simp_all add: table_drop_def)
qed

lemma table_find_key: "table_inv ids h \<Longrightarrow> table_find h k = Some a \<Longrightarrow> ids a = k"
  by (auto simp: table_inv_def table_find_iff)

interpretation stream_table: keyed_map "table_inv ids" table_find ids "table_fresh ids" table_store table_drop
  for ids :: "addr \<Rightarrow> u32"
  by unfold_locales (auto simp: table_find_key table_store_law table_drop_law)

section \<open>Properties\<close>

text \<open>C22. Looking up a stream id follows one chain of the hash table, ends, and returns the entry with the id if it is
  in the table and null otherwise.\<close>

theorem table_get_exact:
  assumes "table_rel ids C h"
  shows "udx_stream_entry_get h k =
    Some (case find (\<lambda>a. ids a = k) (C (table_index k)) of None \<Rightarrow> NULL | Some a \<Rightarrow> a)"
proof (cases "find (\<lambda>a. ids a = k) (C (table_index k))")
  case None
  then have "k \<notin> ids ` set (C (table_index k))" by (auto simp: find_None_iff)
  with None table_get_missing [OF assms this] show ?thesis by simp
next
  case (Some a)
  then have "a \<in> set (C (table_index k))" "ids a = k" by (auto simp: find_Some_iff)
  with Some table_get_found [OF assms, of a] show ?thesis by simp
qed

definition table_1027 :: udx_table where
  "table_1027 = \<lparr>t_bucket = (\<lambda>i. if i = 3 then 7 else NULL),
     t_entry = (\<lambda>a. \<lparr>e_local_id = (if a = 7 then 1027 else 3), e_hash_next = NULL, e_entry_type = UDX_ENTRY_STREAM\<rparr>)\<rparr>"

lemma table_1027_rel:
  "table_rel (\<lambda>a. if a = 7 then 1027 else 3) (\<lambda>i. if i = 3 then [7] else []) table_1027"
  by (auto simp: table_rel_def table_1027_def table_index_def)

theorem table_get_exact_witness: "udx_stream_entry_get table_1027 1027 = Some 7 \<and> udx_stream_entry_get table_1027 3 = Some NULL"
  using table_get_exact [OF table_1027_rel, of 1027] table_get_exact [OF table_1027_rel, of 3]
  by (simp add: table_index_def)

text \<open>C23. Registering an entry makes its id lead to it and changes no other id (an entry that had the id is replaced in its
  chain); removing an id returns what it led to, and after that it leads nowhere while all others are as before.\<close>

theorem table_set_remove:
  assumes "table_inv ids h" and "table_fresh ids h new"
  shows "\<exists>h'. table_store new h = Some h' \<and> table_find h' = (table_find h)(ids new \<mapsto> new)
    \<and> fst (table_drop k h') = table_find h' k \<and> table_find (snd (table_drop k h')) = (table_find h')(k := None)"
proof -
  obtain h' where h': "table_store new h = Some h'" "table_inv ids h'" "table_find h' = (table_find h)(ids new \<mapsto> new)"
    using stream_table.store_law [OF assms] by blast
  then show ?thesis using stream_table.drop_result [OF h'(2)] stream_table.drop_find [OF h'(2)] by blast
qed

theorem table_set_remove_witness:
  "\<exists>h'. table_store 9 table_1027 = Some h' \<and> table_find h' 3 = Some 9 \<and> table_find h' 1027 = Some 7
    \<and> table_find (snd (table_drop 1027 h')) 1027 = None"
proof -
  let ?ids = "\<lambda>a. if a = 7 then 1027 else 3 :: u32"
  have inv: "table_inv ?ids table_1027" using table_1027_rel by (auto simp: table_inv_def)
  have f: "table_find table_1027 1027 = Some 7" "table_find table_1027 3 = None"
    by (simp_all add: table_find_iff [OF table_1027_rel] table_index_def option.the_def not_Some_eq [symmetric] del: not_Some_eq)
  have "table_fresh ?ids table_1027 9"
    unfolding table_fresh_def
  proof (intro conjI allI impI)
    fix C i assume rel: "table_rel ?ids C table_1027" and "i < (1024 :: nat)"
    show "9 \<notin> set (C i)"
    proof
      assume "9 \<in> set (C i)"
      then have "9 \<in> set (C (table_index 3))" using table_relD(5) [OF rel \<open>i < 1024\<close>, of 9] by (simp add: table_index_def)
      then have "table_find table_1027 3 = Some 9" by (simp add: table_find_iff [OF rel])
      then show False using f(2) by simp
    qed
  qed simp
  then show ?thesis using table_set_remove [OF inv, of 9 1027] f by auto
qed

end
