(* ===== verification/Udx_Internal.thy ===== *)
theory Udx_Internal
  imports Udx_Prelude
begin

text \<open>
  \<^verbatim>\<open>src/internal.h\<close>: the inline arithmetic every other file uses. The heart of it is
  serial-number arithmetic: sequence numbers are 32-bit words that wrap around, and two of
  them are compared by the sign of their difference read as an \<^verbatim>\<open>int32_t\<close>. The
  interface \<open>window_order\<close> states what the clients rely on: inside a window of less than
  \<open>2 ^ 31\<close> numbers the comparison is a strict linear order. It is interpreted for
  \<open>seq_compare\<close> and for RACK's \<open>rack_sent_after\<close>.
\<close>

section \<open>The operations\<close>

definition max_uint32 :: "u32 \<Rightarrow> u32 \<Rightarrow> u32" where
  "max_uint32 a b = (if a < b then b else a)"

definition min_uint32 :: "u32 \<Rightarrow> u32 \<Rightarrow> u32" where
  "min_uint32 a b = (if a < b then a else b)"

definition max_int32 :: "int \<Rightarrow> int \<Rightarrow> int" where
  "max_int32 a b = (if a < b then b else a)"

definition max_int64 :: "int \<Rightarrow> int \<Rightarrow> int" where
  "max_int64 a b = (if a < b then b else a)"

definition min_uint64 :: "u64 \<Rightarrow> u64 \<Rightarrow> u64" where
  "min_uint64 a b = (if a < b then a else b)"

definition max_uint64 :: "u64 \<Rightarrow> u64 \<Rightarrow> u64" where
  "max_uint64 a b = (if a < b then b else a)"

text \<open>The result of \<^verbatim>\<open>seq_diff\<close> is an \<^verbatim>\<open>int32_t\<close>: the integer it denotes.\<close>

definition seq_diff :: "u32 \<Rightarrow> u32 \<Rightarrow> int" where
  "seq_diff a b = sint (a - b)"

definition seq_compare :: "u32 \<Rightarrow> u32 \<Rightarrow> int" where
  "seq_compare a b = (let d = seq_diff a b in if d < 0 then -1 else if d > 0 then 1 else 0)"

definition rack_sent_after :: "u64 \<Rightarrow> u32 \<Rightarrow> u64 \<Rightarrow> u32 \<Rightarrow> bool" where
  "rack_sent_after t1 seq1 t2 seq2 \<longleftrightarrow> t1 > t2 \<or> (t1 = t2 \<and> seq_compare seq2 seq1 < 0)"

text \<open>\<^verbatim>\<open>seq_max\<close> of \<^verbatim>\<open>udx.c\<close> belongs to the same group.\<close>

definition seq_max :: "u32 \<Rightarrow> u32 \<Rightarrow> u32" where
  "seq_max a b = (if seq_compare a b < 0 then b else a)"

section \<open>Minimum and maximum\<close>

lemma max_uint32_eq [simp]: "max_uint32 a b = max a b"
  by (auto simp: max_uint32_def max_def)

lemma min_uint32_eq [simp]: "min_uint32 a b = min a b"
  by (auto simp: min_uint32_def min_def)

lemma max_int32_eq [simp]: "max_int32 a b = max a b"
  by (auto simp: max_int32_def)

lemma max_int64_eq [simp]: "max_int64 a b = max a b"
  by (auto simp: max_int64_def)

lemma min_uint64_eq [simp]: "min_uint64 a b = min a b"
  by (auto simp: min_uint64_def min_def)

lemma max_uint64_eq [simp]: "max_uint64 a b = max a b"
  by (auto simp: max_uint64_def max_def)

section \<open>Sequence numbers\<close>

lemma seq_diff_shift [seq_simps]: "seq_diff (a + k) (b + k) = seq_diff a b"
  by (simp add: seq_diff_def)

lemma seq_diff_self [simp]: "seq_diff a a = 0"
  by (simp add: seq_diff_def)

lemma seq_diff_eq_0_iff [simp]: "seq_diff a b = 0 \<longleftrightarrow> a = b"
  by (simp add: seq_diff_def signed_eq_0_iff)

lemma seq_diff_bounds: "- (2 ^ 31) \<le> seq_diff a b" "seq_diff a b < 2 ^ 31"
  using sint_ge [of "a - b"] sint_lt [of "a - b"] by (simp_all add: seq_diff_def)

lemma seq_compare_iffs [simp]:
  "seq_compare a b < 0 \<longleftrightarrow> seq_diff a b < 0"
  "seq_compare a b > 0 \<longleftrightarrow> seq_diff a b > 0"
  "seq_compare a b \<le> 0 \<longleftrightarrow> seq_diff a b \<le> 0"
  "seq_compare a b \<ge> 0 \<longleftrightarrow> seq_diff a b \<ge> 0"
  by (auto simp: seq_compare_def Let_def)

text \<open>The distance of a sequence number from the start of a window.\<close>

definition seq_off :: "u32 \<Rightarrow> u32 \<Rightarrow> nat" where
  "seq_off base x = unat (x - base)"

lemma seq_off_self [simp]: "seq_off b b = 0"
  by (simp add: seq_off_def)

lemma seq_off_eq_iff: "seq_off b x = seq_off b y \<longleftrightarrow> x = y"
  by (simp add: seq_off_def word_unat_eq_iff [symmetric])

text \<open>
  The fundamental fact: inside a window of \<open>2 ^ 31\<close> numbers above any base, wrapped or
  not, the signed difference is the difference of the distances from the base.
\<close>

lemma seq_diff_window:
  assumes "seq_off base a < 2 ^ 31" and "seq_off base b < 2 ^ 31"
  shows "seq_diff a b = int (seq_off base a) - int (seq_off base b)"
proof -
  have "a - b = (a - base) - (b - base)" by simp
  then have "unat (a - b) = (if seq_off base b \<le> seq_off base a
      then seq_off base a - seq_off base b else seq_off base a + 2 ^ 32 - seq_off base b)"
    by (simp only: unat_sub_if' seq_off_def) simp
  with assms show ?thesis
    by (auto simp: seq_diff_def sint_u32)
qed

lemma seq_off_Suc: "seq_off b x + 1 < 2 ^ 32 \<Longrightarrow> seq_off b (x + 1) = seq_off b x + 1"
proof -
  assume "seq_off b x + 1 < 2 ^ 32"
  moreover have "x + 1 - b = (x - b) + 1" by simp
  ultimately show ?thesis
    by (simp only: seq_off_def) (simp add: unat_word_ariths)
qed

section \<open>The order a window of sequence numbers has\<close>

text \<open>
  What the clients of the comparison rely on. \<open>pick\<close> is the code's pattern for keeping
  the later of two values (\<^verbatim>\<open>seq_max\<close>, and the update of RACK's most recently sent
  packet).
\<close>

locale window_order =
  fixes before :: "'a \<Rightarrow> 'a \<Rightarrow> bool"
    and inside :: "'a \<Rightarrow> bool"
  assumes before_irrefl: "inside x \<Longrightarrow> \<not> before x x"
    and before_trans: "inside x \<Longrightarrow> inside y \<Longrightarrow> inside z \<Longrightarrow> before x y \<Longrightarrow> before y z \<Longrightarrow> before x z"
    and before_total: "inside x \<Longrightarrow> inside y \<Longrightarrow> x \<noteq> y \<Longrightarrow> before x y \<or> before y x"
begin

definition pick :: "'a \<Rightarrow> 'a \<Rightarrow> 'a" where
  "pick x acc = (if before acc x then x else acc)"

lemma before_asym: "inside x \<Longrightarrow> inside y \<Longrightarrow> before x y \<Longrightarrow> \<not> before y x"
  using before_irrefl before_trans by blast

lemma pick_inside: "inside x \<Longrightarrow> inside acc \<Longrightarrow> inside (pick x acc)"
  by (simp add: pick_def)

lemma fold_pick_inside: "inside acc \<Longrightarrow> \<forall>x\<in>set xs. inside x \<Longrightarrow> inside (fold pick xs acc)"
  by (induction xs arbitrary: acc) (auto simp: pick_inside)

lemma fold_pick_mem: "fold pick xs acc \<in> insert acc (set xs)"
  by (induction xs arbitrary: acc) (auto simp: pick_def)

text \<open>Folding the pattern over a run of values keeps a latest one, whatever the order.\<close>

lemma fold_pick_latest:
  assumes "inside acc" and "\<forall>x\<in>set xs. inside x" and "y \<in> insert acc (set xs)"
  shows "\<not> before (fold pick xs acc) y"
  using assms
proof (induction xs arbitrary: acc y)
  case Nil
  then show ?case by (simp add: before_irrefl)
next
  case (Cons x xs)
  have ins: "inside (pick x acc)" "\<forall>x\<in>set xs. inside x" using Cons.prems by (auto simp: pick_inside)
  have step: "\<not> before (fold pick xs (pick x acc)) z" if "z \<in> insert (pick x acc) (set xs)" for z
    using Cons.IH [OF ins that] .
  let ?r = "fold pick xs (pick x acc)"
  have r: "inside ?r" using ins by (rule fold_pick_inside)
  have "y \<in> insert (pick x acc) (set xs) \<or> y \<in> {x, acc} - {pick x acc}"
    using Cons.prems(3) by auto
  moreover have "before y (pick x acc) \<and> inside y" if "y \<in> {x, acc} - {pick x acc}"
    using that Cons.prems(1,2) before_total [of x acc] by (auto simp: pick_def split: if_splits)
  ultimately consider "y \<in> insert (pick x acc) (set xs)" | "before y (pick x acc)" "inside y"
    by blast
  then show ?case
  proof cases
    case 1
    then show ?thesis using step by simp
  next
    case 2
    then have "before ?r y \<Longrightarrow> before ?r (pick x acc)"
      using r ins(1) before_trans by blast
    with step [of "pick x acc"] show ?thesis by auto
  qed
qed

end

interpretation seq_win: window_order "\<lambda>a b. seq_compare a b < 0" "\<lambda>x. seq_off base x < 2 ^ 31"
  for base
proof unfold_locales
  fix x :: u32 show "\<not> seq_compare x x < 0" by simp
next
  fix x y z :: u32
  assume w: "seq_off base x < 2 ^ 31" "seq_off base y < 2 ^ 31" "seq_off base z < 2 ^ 31"
  assume "seq_compare x y < 0" "seq_compare y z < 0"
  with w show "seq_compare x z < 0" by (simp add: seq_diff_window [of base])
next
  fix x y :: u32
  assume w: "seq_off base x < 2 ^ 31" "seq_off base y < 2 ^ 31" and "x \<noteq> y"
  then have "seq_off base x \<noteq> seq_off base y" by (simp add: seq_off_eq_iff)
  with w show "seq_compare x y < 0 \<or> seq_compare y x < 0"
    by (auto simp: seq_diff_window [of base])
qed

interpretation rack_win: window_order
  "\<lambda>(t1, s1) (t2, s2). rack_sent_after t2 s2 t1 s1" "\<lambda>(t, s). seq_off base s < 2 ^ 31"
  for base
proof (unfold_locales, goal_cases)
  case (1 x)
  then show ?case by (auto simp: rack_sent_after_def)
next
  case (2 x y z)
  then show ?case by (auto simp: rack_sent_after_def seq_diff_window [of base])
next
  case (3 x y)
  obtain t1 s1 t2 s2 where xy: "x = (t1, s1)" "y = (t2, s2)" by (metis surj_pair)
  show ?case
  proof (cases "t1 = t2")
    case True
    with 3 xy show ?thesis
      using seq_win.before_total [of base s1 s2] by (auto simp: rack_sent_after_def)
  next
    case False
    with xy show ?thesis by (auto simp: rack_sent_after_def)
  qed
qed

lemma seq_max_pick: "seq_max a b = seq_win.pick b a"
  by (simp only: seq_max_def seq_win.pick_def)

section \<open>Properties\<close>

text \<open>C35. Sequence numbers wrap around, yet their comparison is right: inside any window of \<open>2 ^ 31\<close> numbers, wherever it
  starts, \<open>seq_compare\<close> orders two numbers as their distances from the start of the window do.\<close>

theorem seq_compare_window:
  assumes "seq_off base a < 2 ^ 31" and "seq_off base b < 2 ^ 31"
  shows "(seq_compare a b < 0 \<longleftrightarrow> seq_off base a < seq_off base b)
    \<and> (seq_compare a b = 0 \<longleftrightarrow> a = b) \<and> (seq_compare a b > 0 \<longleftrightarrow> seq_off base a > seq_off base b)"
  using seq_diff_window [OF assms] seq_off_eq_iff [of base a b]
  by (auto simp: seq_compare_def Let_def)

theorem seq_compare_window_witness: "seq_compare 0xFFFFFFFF 5 < 0"
  using seq_compare_window [of "0xFFFFFFF0" "0xFFFFFFFF" 5] by (simp add: seq_off_def)

text \<open>Keeping the later of two numbers with \<open>seq_max\<close> along a run of acknowledgements, in whatever order they
  come, ends with a number of the run that is not before any other.\<close>

theorem seq_max_latest:
  assumes "seq_off base acc < 2 ^ 31" and "\<forall>x \<in> set xs. seq_off base x < 2 ^ 31"
  shows "fold (\<lambda>x m. seq_max m x) xs acc \<in> insert acc (set xs)
    \<and> (\<forall>x \<in> insert acc (set xs). seq_compare (fold (\<lambda>x m. seq_max m x) xs acc) x \<ge> 0)"
proof -
  have pick: "(\<lambda>x m. seq_max m x) = seq_win.pick" by (intro ext) (rule seq_max_pick)
  show ?thesis
    unfolding pick using seq_win.fold_pick_mem [of xs acc] seq_win.fold_pick_latest [of base acc xs] assms
    by (auto simp: not_less)
qed

theorem seq_max_latest_witness:
  "fold (\<lambda>x m. seq_max m x) [3, 0xFFFFFFFF] 0xFFFFFFFE \<in> {0xFFFFFFFE, 3, 0xFFFFFFFF}
   \<and> seq_compare (fold (\<lambda>x m. seq_max m x) [3, 0xFFFFFFFF] 0xFFFFFFFE) 3 \<ge> 0"
  using seq_max_latest [of "0xFFFFFFF0" "0xFFFFFFFE" "[3, 0xFFFFFFFF]"] by (simp add: seq_off_def)

text \<open>RACK compares packets by send time and, at equal times, by number; the pattern that keeps the most recently
  sent packet yields one that no other packet of the run was sent after.\<close>

theorem rack_latest_sent:
  assumes "seq_off base (snd acc) < 2 ^ 31" and "\<forall>x \<in> set xs. seq_off base (snd x) < 2 ^ 31"
    and "(t, s) = fold (\<lambda>x m. if rack_sent_after (fst x) (snd x) (fst m) (snd m) then x else m) xs acc"
  shows "\<forall>x \<in> insert acc (set xs). \<not> rack_sent_after (fst x) (snd x) t s"
proof -
  have pick: "(\<lambda>x m. if rack_sent_after (fst x) (snd x) (fst m) (snd m) then x else m) = rack_win.pick"
    by (intro ext) (simp add: rack_win.pick_def split_beta)
  show ?thesis
  proof
    fix x assume "x \<in> insert acc (set xs)"
    then have "\<not> (case fold rack_win.pick xs acc of (t1, s1) \<Rightarrow> \<lambda>(t2, s2). rack_sent_after t2 s2 t1 s1) x"
      using rack_win.fold_pick_latest [of base acc xs x] assms(1,2) by (auto simp: split_beta)
    then show "\<not> rack_sent_after (fst x) (snd x) t s"
      using assms(3) unfolding pick by (metis (lifting) case_prod_unfold fst_conv snd_conv)
  qed
qed

theorem rack_latest_sent_witness:
  "\<not> rack_sent_after 10 4 12 5 \<and> \<not> rack_sent_after 12 3 12 5"
proof -
  have "(12, 5) = fold (\<lambda>x m. if rack_sent_after (fst x) (snd x) (fst m) (snd m) then x else m) [(12, 3), (12, 5)] (10, 4)"
    by (simp add: rack_sent_after_def seq_diff_def)
  then show ?thesis using rack_latest_sent [of 0 "(10, 4)" "[(12, 3), (12, 5)]" 12 5] by (simp add: seq_off_def)
qed

end
