(* ===== verification/Udx_Wire.thy ===== *)
theory Udx_Wire
  imports Udx_Internal
begin

text \<open>
  The wire format: \<open>src/endian.c\<close>, the header writer \<open>udx_write_header\<close>, the selective
  acknowledgement blocks \<open>send_ack\<close> appends, and the part of \<open>process_packet\<close> that reads them back.
  The model keeps the casts between \<open>uint8_t *\<close> and \<open>uint32_t *\<close>: a word is stored to and
  loaded from four bytes in the byte order of the host, which is a parameter, and the code swaps
  when it finds itself on a big-endian host.  What is shown: the bytes on the wire do not depend on
  the host, and every header a stream writes is read back field by field by any host.
\<close>

section \<open>Memory and byte order\<close>

datatype udx__endianness_t = UDX_LE | UDX_BE

definition le_bytes :: "u32 \<Rightarrow> u8 list" where
  "le_bytes w = [ucast w, ucast (drop_bit 8 w), ucast (drop_bit 16 w), ucast (drop_bit 24 w)]"

fun le_word :: "u8 list \<Rightarrow> u32" where
  "le_word [] = 0"
| "le_word (b # bs) = ucast b OR push_bit 8 (le_word bs)"

text \<open>Storing and loading a \<open>uint32_t\<close> through a byte pointer on a host of the given byte order.\<close>

definition mem_store :: "udx__endianness_t \<Rightarrow> u32 \<Rightarrow> u8 list" where
  "mem_store host w = (case host of UDX_LE \<Rightarrow> le_bytes w | UDX_BE \<Rightarrow> rev (le_bytes w))"

definition mem_load :: "udx__endianness_t \<Rightarrow> u8 list \<Rightarrow> u32" where
  "mem_load host bs = (case host of UDX_LE \<Rightarrow> le_word bs | UDX_BE \<Rightarrow> le_word (rev bs))"

text \<open>\<open>udx__endianness\<close> reads the two bytes 1, 0 of a union as a \<open>uint16_t\<close>.\<close>

definition udx__endianness :: "udx__endianness_t \<Rightarrow> udx__endianness_t" where
  "udx__endianness host = (if mem_load host [1, 0] = 1 then UDX_LE else UDX_BE)"

definition udx__is_le :: "udx__endianness_t \<Rightarrow> bool" where
  "udx__is_le host \<longleftrightarrow> udx__endianness host = UDX_LE"

definition udx__is_be :: "udx__endianness_t \<Rightarrow> bool" where
  "udx__is_be host \<longleftrightarrow> udx__endianness host = UDX_BE"

definition udx__swap_uint32 :: "u32 \<Rightarrow> u32" where
  "udx__swap_uint32 x =
     push_bit 24 (x AND 0x000000ff) OR
     push_bit 8 (x AND 0x0000ff00) OR
     drop_bit 8 (x AND 0x00ff0000) OR
     drop_bit 24 (x AND 0xff000000)"

definition udx__swap_uint32_if_be :: "udx__endianness_t \<Rightarrow> u32 \<Rightarrow> u32" where
  "udx__swap_uint32_if_be host n = (if udx__is_le host then n else udx__swap_uint32 n)"

lemma endianness_host [simp]: "udx__endianness host = host"
  by (cases host) (simp_all add: udx__endianness_def mem_load_def)

lemma host_is_le: "udx__is_le host \<longleftrightarrow> host = UDX_LE"
  by (simp add: udx__is_le_def)

lemma length_le_bytes [simp]: "length (le_bytes w) = 4"
  by (simp add: le_bytes_def)

lemma length_mem_store [simp]: "length (mem_store host w) = 4"
  by (simp add: mem_store_def split: udx__endianness_t.split)

lemma word_eq_bits:
  fixes v w :: "'a::len word"
  assumes "LENGTH('a) = n" and "\<forall>k \<in> set ns. bit v k = bit w k" and "set ns = {..<n}"
  shows "v = w"
  using assms by (intro bit_word_eqI) auto

lemma lessThan_8: "set [0,1,2,3,4,5,6,7 :: nat] = {..<8}"
  by auto

lemma lessThan_32: "set [0,1,2,3,4,5,6,7,8,9,10,11,12,13,14,15,16,17,18,19,20,21,22,23,24,25,26,27,28,29,30,31 :: nat]
    = {..<32}"
  by (simp only: lessThan_atLeast0 atLeastLessThan_upt) (simp add: upt_rec eval_nat_numeral)

lemmas u8_eq_bits = word_eq_bits [where 'a = 8 and n = 8, OF _ _ lessThan_8, simplified]
lemmas u32_eq_bits = word_eq_bits [where 'a = 32 and n = 32, OF _ _ lessThan_32, simplified]

lemma le_word_bytes [simp]: "le_word (le_bytes w) = w"
  by (rule u32_eq_bits) (simp_all add: le_bytes_def bit_simps)

lemma le_word_rev_bytes: "le_word (rev (le_bytes w)) = udx__swap_uint32 w"
  by (rule u32_eq_bits) (simp_all add: le_bytes_def udx__swap_uint32_def bit_simps)

lemma le_bytes_swap: "le_bytes (udx__swap_uint32 w) = rev (le_bytes w)"
  unfolding le_bytes_def udx__swap_uint32_def
  by (simp; intro conjI; rule u8_eq_bits; simp add: bit_simps)

lemma swap_swap [simp]: "udx__swap_uint32 (udx__swap_uint32 w) = w"
  using le_word_bytes [of w] by (metis le_bytes_swap le_word_rev_bytes rev_swap)

text \<open>What reaches the wire is the little-endian encoding, whatever the host; and it reads back.\<close>

lemma store_swapped [simp]: "mem_store host (udx__swap_uint32_if_be host w) = le_bytes w"
  by (cases host) (simp_all add: mem_store_def udx__swap_uint32_if_be_def host_is_le le_bytes_swap)

lemma load_swapped [simp]: "udx__swap_uint32_if_be host (mem_load host (le_bytes w)) = w"
  by (cases host) (simp_all add: mem_load_def udx__swap_uint32_if_be_def host_is_le le_word_rev_bytes)

section \<open>Headers\<close>

definition UDX_HEADER_SIZE :: nat where "UDX_HEADER_SIZE = 20"
definition UDX_MAGIC_BYTE :: u8 where "UDX_MAGIC_BYTE = 255"
definition UDX_VERSION :: u8 where "UDX_VERSION = 1"
definition UDX_MAX_SACKS :: nat where "UDX_MAX_SACKS = 50"

definition UDX_HEADER_DATA :: u8 where "UDX_HEADER_DATA = 1"
definition UDX_HEADER_END :: u8 where "UDX_HEADER_END = 2"
definition UDX_HEADER_SACK :: u8 where "UDX_HEADER_SACK = 4"
definition UDX_HEADER_MESSAGE :: u8 where "UDX_HEADER_MESSAGE = 8"
definition UDX_HEADER_DESTROY :: u8 where "UDX_HEADER_DESTROY = 16"
definition UDX_HEADER_HEARTBEAT :: u8 where "UDX_HEADER_HEARTBEAT = 32"
definition UDX_HEADER_DATA_OR_END :: u8 where "UDX_HEADER_DATA_OR_END = UDX_HEADER_DATA OR UDX_HEADER_END"

lemmas header_flag_defs = UDX_HEADER_DATA_def UDX_HEADER_END_def UDX_HEADER_SACK_def UDX_HEADER_MESSAGE_def
  UDX_HEADER_DESTROY_def UDX_HEADER_HEARTBEAT_def UDX_HEADER_DATA_OR_END_def

text \<open>The fields of the 20 byte header, as \<open>process_packet\<close> reads them into its locals.\<close>

record udx_header =
  h_type :: u8
  h_data_offset :: u8
  h_id :: u32
  h_rwnd :: u32
  h_seq :: u32
  h_ack :: u32

text \<open>\<open>udx_write_header\<close>, with the values it reads from the stream as arguments.\<close>

definition header_bytes :: "udx__endianness_t \<Rightarrow> u8 \<Rightarrow> u32 \<Rightarrow> u32 \<Rightarrow> u32 \<Rightarrow> u32 \<Rightarrow> u8 list" where
  "header_bytes host type remote_id rwnd seq ack =
    [UDX_MAGIC_BYTE, UDX_VERSION, type, 0]
    @ mem_store host (udx__swap_uint32_if_be host remote_id)
    @ mem_store host (udx__swap_uint32_if_be host rwnd)
    @ mem_store host (udx__swap_uint32_if_be host seq)
    @ mem_store host (udx__swap_uint32_if_be host ack)"

text \<open>Reads and writes of the words of a packet: \<open>((uint32_t * ) buf)[off / 4]\<close>.\<close>

definition read_word :: "udx__endianness_t \<Rightarrow> u8 list \<Rightarrow> nat \<Rightarrow> u32" where
  "read_word host buf off = udx__swap_uint32_if_be host (mem_load host (take 4 (drop off buf)))"

definition patch_word :: "udx__endianness_t \<Rightarrow> nat \<Rightarrow> u32 \<Rightarrow> u8 list \<Rightarrow> u8 list" where
  "patch_word host off w buf = take off buf @ mem_store host (udx__swap_uint32_if_be host w) @ drop (off + 4) buf"

definition read_header :: "udx__endianness_t \<Rightarrow> u8 list \<Rightarrow> udx_header option" where
  "read_header host buf =
    (if length buf < UDX_HEADER_SIZE then None
     else if buf ! 0 \<noteq> UDX_MAGIC_BYTE \<or> buf ! 1 \<noteq> UDX_VERSION then None
     else Some \<lparr>h_type = buf ! 2, h_data_offset = buf ! 3,
       h_id = read_word host buf 4, h_rwnd = read_word host buf 8,
       h_seq = read_word host buf 12, h_ack = read_word host buf 16\<rparr>)"

text \<open>The number of selective acknowledgement blocks behind the header, and the blocks.\<close>

definition nsack_blocks :: "u8 list \<Rightarrow> udx_header \<Rightarrow> nat" where
  "nsack_blocks buf h =
    (if h_type h AND UDX_HEADER_SACK = 0 then 0
     else let payload_len = length buf - UDX_HEADER_SIZE;
              header_len = (if h_data_offset h > 0 \<and> unat (h_data_offset h) < payload_len
                            then unat (h_data_offset h) else payload_len)
          in header_len div 8)"

definition read_sacks :: "udx__endianness_t \<Rightarrow> u8 list \<Rightarrow> udx_header \<Rightarrow> (u32 \<times> u32) list" where
  "read_sacks host buf h =
    map (\<lambda>i. (read_word host buf (UDX_HEADER_SIZE + 8 * i), read_word host buf (UDX_HEADER_SIZE + 8 * i + 4)))
      [0..<nsack_blocks buf h]"

text \<open>The payload; \<open>None\<close> when the data offset points beyond the packet.\<close>

definition read_payload :: "u8 list \<Rightarrow> udx_header \<Rightarrow> u8 list option" where
  "read_payload buf h =
    (let rest = drop UDX_HEADER_SIZE buf; off = unat (h_data_offset h)
     in if off \<noteq> 0 then (if off > length rest then None else Some (drop off rest)) else Some rest)"

text \<open>The packet of \<open>send_ack\<close>: a header and at most \<open>UDX_MAX_SACKS\<close> blocks.\<close>

definition sack_bytes :: "udx__endianness_t \<Rightarrow> (u32 \<times> u32) list \<Rightarrow> u8 list" where
  "sack_bytes host blocks =
    concat (map (\<lambda>(s, e). mem_store host (udx__swap_uint32_if_be host s) @ mem_store host (udx__swap_uint32_if_be host e)) blocks)"

definition ack_packet_bytes :: "udx__endianness_t \<Rightarrow> (u32 \<times> u32) list \<Rightarrow> u32 \<Rightarrow> u32 \<Rightarrow> u32 \<Rightarrow> u32 \<Rightarrow> u8 list" where
  "ack_packet_bytes host blocks remote_id rwnd seq ack =
    (let sacks = take UDX_MAX_SACKS blocks
     in header_bytes host (if sacks \<noteq> [] then UDX_HEADER_SACK else 0) remote_id rwnd seq ack @ sack_bytes host sacks)"

section \<open>Round trips\<close>

lemma header_bytes_wire:
  "header_bytes host type remote_id rwnd seq ack =
    [255, 1, type, 0] @ le_bytes remote_id @ le_bytes rwnd @ le_bytes seq @ le_bytes ack"
  by (simp add: header_bytes_def UDX_MAGIC_BYTE_def UDX_VERSION_def)

lemma length_header_bytes [simp]: "length (header_bytes host type remote_id rwnd seq ack) = 20"
  by (simp add: header_bytes_wire)

lemma read_word_at:
  "length xs = off \<Longrightarrow> read_word host (xs @ le_bytes w @ ys) off = w"
  by (simp add: read_word_def)

lemma read_header_wire:
  "read_header host ([255, 1, type, off] @ le_bytes remote_id @ le_bytes rwnd @ le_bytes seq @ le_bytes ack @ rest)
    = Some \<lparr>h_type = type, h_data_offset = off, h_id = remote_id, h_rwnd = rwnd, h_seq = seq, h_ack = ack\<rparr>"
proof -
  let ?p = "[255, 1, type, off] :: u8 list"
  have "read_word host (?p @ le_bytes remote_id @ le_bytes rwnd @ le_bytes seq @ le_bytes ack @ rest) 4 = remote_id"
    by (rule read_word_at) simp
  moreover have "read_word host (?p @ le_bytes remote_id @ le_bytes rwnd @ le_bytes seq @ le_bytes ack @ rest) 8 = rwnd"
    using read_word_at [of "?p @ le_bytes remote_id" 8] by simp
  moreover have "read_word host (?p @ le_bytes remote_id @ le_bytes rwnd @ le_bytes seq @ le_bytes ack @ rest) 12 = seq"
    using read_word_at [of "?p @ le_bytes remote_id @ le_bytes rwnd" 12] by simp
  moreover have "read_word host (?p @ le_bytes remote_id @ le_bytes rwnd @ le_bytes seq @ le_bytes ack @ rest) 16 = ack"
    using read_word_at [of "?p @ le_bytes remote_id @ le_bytes rwnd @ le_bytes seq" 16] by simp
  ultimately show ?thesis
    by (simp add: read_header_def UDX_HEADER_SIZE_def UDX_MAGIC_BYTE_def UDX_VERSION_def)
qed

lemma read_header_bytes:
  "read_header host' (header_bytes host type remote_id rwnd seq ack @ rest)
    = Some \<lparr>h_type = type, h_data_offset = 0, h_id = remote_id, h_rwnd = rwnd, h_seq = seq, h_ack = ack\<rparr>"
  using read_header_wire by (simp add: header_bytes_wire)

lemma length_sack_bytes [simp]: "length (sack_bytes host blocks) = 8 * length blocks"
  by (induction blocks) (auto simp: sack_bytes_def)

lemma read_sack_bytes:
  "i < length blocks \<Longrightarrow> length xs = off \<Longrightarrow>
   (read_word host' (xs @ sack_bytes host blocks) (off + 8 * i),
    read_word host' (xs @ sack_bytes host blocks) (off + 8 * i + 4)) = blocks ! i"
proof (induction blocks arbitrary: i xs off)
  case (Cons b bs)
  obtain s e where b: "b = (s, e)" by force
  have bytes: "xs @ sack_bytes host (b # bs) = xs @ le_bytes s @ le_bytes e @ sack_bytes host bs"
    by (simp add: sack_bytes_def b)
  show ?case
  proof (cases i)
    case 0
    have "read_word host' (xs @ le_bytes s @ le_bytes e @ sack_bytes host bs) off = s"
      using Cons.prems by (intro read_word_at)
    moreover have "read_word host' (xs @ le_bytes s @ le_bytes e @ sack_bytes host bs) (off + 4) = e"
      using Cons.prems read_word_at [of "xs @ le_bytes s" "off + 4"] by simp
    ultimately show ?thesis using 0 b bytes by simp
  next
    case (Suc j)
    have "(read_word host' ((xs @ le_bytes s @ le_bytes e) @ sack_bytes host bs) (off + 8 + 8 * j),
      read_word host' ((xs @ le_bytes s @ le_bytes e) @ sack_bytes host bs) (off + 8 + 8 * j + 4)) = bs ! j"
      using Cons.prems Suc by (intro Cons.IH) simp_all
    then show ?thesis using Suc b bytes by (simp add: algebra_simps)
  qed
qed simp

lemma read_ack_packet:
  assumes "blocks \<noteq> []" and "h = \<lparr>h_type = UDX_HEADER_SACK, h_data_offset = 0, h_id = remote_id, h_rwnd = rwnd, h_seq = seq, h_ack = ack\<rparr>"
  shows "read_header host' (ack_packet_bytes host blocks remote_id rwnd seq ack) = Some h"
    and "read_sacks host' (ack_packet_bytes host blocks remote_id rwnd seq ack) h = take UDX_MAX_SACKS blocks"
proof -
  let ?hd = "header_bytes host UDX_HEADER_SACK remote_id rwnd seq ack"
  let ?bs = "take UDX_MAX_SACKS blocks"
  have ne: "?bs \<noteq> []" using assms(1) by (simp add: UDX_MAX_SACKS_def)
  then have pkt: "ack_packet_bytes host blocks remote_id rwnd seq ack = ?hd @ sack_bytes host ?bs"
    by (simp add: ack_packet_bytes_def Let_def)
  show "read_header host' (ack_packet_bytes host blocks remote_id rwnd seq ack) = Some h"
    unfolding pkt assms(2) by (rule read_header_bytes)
  have n: "nsack_blocks (?hd @ sack_bytes host ?bs) h = length ?bs"
    by (simp add: nsack_blocks_def assms(2) header_flag_defs UDX_HEADER_SIZE_def)
  show "read_sacks host' (ack_packet_bytes host blocks remote_id rwnd seq ack) h = ?bs"
    unfolding pkt read_sacks_def n
    using read_sack_bytes [of _ ?bs ?hd 20 host' host]
    by (intro nth_equalityI) (simp_all add: UDX_HEADER_SIZE_def add.commute)
qed

text \<open>
  A path MTU probe carries its padding between header and payload and the padding length in byte 3
  of the header.
\<close>

definition probe_packet :: "u8 list \<Rightarrow> u8 \<Rightarrow> u8 list \<Rightarrow> u8 list" where
  "probe_packet header padding payload = header[3 := padding] @ replicate (unat padding) 0 @ payload"

lemma header_bytes_set_offset:
  "(header_bytes host type remote_id rwnd seq ack)[3 := off] =
    [255, 1, type, off] @ le_bytes remote_id @ le_bytes rwnd @ le_bytes seq @ le_bytes ack"
  by (simp add: header_bytes_wire)

lemma read_probe_packet:
  assumes "h = \<lparr>h_type = type, h_data_offset = padding, h_id = remote_id, h_rwnd = rwnd, h_seq = seq, h_ack = ack\<rparr>"
  shows "read_header host' (probe_packet (header_bytes host type remote_id rwnd seq ack) padding payload) = Some h"
    and "read_payload (probe_packet (header_bytes host type remote_id rwnd seq ack) padding payload) h = Some payload"
proof -
  show "read_header host' (probe_packet (header_bytes host type remote_id rwnd seq ack) padding payload) = Some h"
    using read_header_wire assms by (simp add: probe_packet_def header_bytes_set_offset)
  have "drop 20 (probe_packet (header_bytes host type remote_id rwnd seq ack) padding payload)
      = replicate (unat padding) 0 @ payload"
    by (simp add: probe_packet_def)
  then show "read_payload (probe_packet (header_bytes host type remote_id rwnd seq ack) padding payload) h = Some payload"
    by (simp add: read_payload_def UDX_HEADER_SIZE_def assms Let_def)
qed

lemma patch_word_at:
  "length xs = off \<Longrightarrow> length old = 4 \<Longrightarrow> patch_word host off w (xs @ old @ ys) = xs @ le_bytes w @ ys"
  by (simp add: patch_word_def)

text \<open>A retransmission refreshes the receive window (offset 8) and the acknowledgement (offset 16); a relay
  replaces the stream id (offset 4).\<close>

lemma retransmit_header:
  "patch_word host 16 ack' (patch_word host 8 rwnd' (header_bytes host type remote_id rwnd seq ack))
    = header_bytes host type remote_id rwnd' seq ack'"
proof -
  have "patch_word host 8 rwnd' (header_bytes host type remote_id rwnd seq ack)
      = ([255, 1, type, 0] @ le_bytes remote_id) @ le_bytes rwnd' @ le_bytes seq @ le_bytes ack"
    unfolding header_bytes_wire
    using patch_word_at [of "[255, 1, type, 0] @ le_bytes remote_id" 8 "le_bytes rwnd"] by simp
  then show ?thesis
    using patch_word_at [of "[255, 1, type, 0] @ le_bytes remote_id @ le_bytes rwnd' @ le_bytes seq" 16 "le_bytes ack" host ack' "[]"]
    by (simp add: header_bytes_wire)
qed

lemma relay_header:
  "patch_word host 4 id' (header_bytes host type remote_id rwnd seq ack @ rest) = header_bytes host type id' rwnd seq ack @ rest"
  using patch_word_at [of "[255, 1, type, 0]" 4 "le_bytes remote_id"] by (simp add: header_bytes_wire)

section \<open>Properties\<close>

text \<open>C27. What one host writes, any host reads: the header a stream writes is read back field by field whatever the byte orders
  of the two machines, and the bytes do not depend on the writer's.\<close>

theorem header_roundtrip:
  "read_header host' (header_bytes host type remote_id rwnd seq ack @ payload)
     = Some \<lparr>h_type = type, h_data_offset = 0, h_id = remote_id, h_rwnd = rwnd, h_seq = seq, h_ack = ack\<rparr>
   \<and> header_bytes host type remote_id rwnd seq ack = header_bytes host' type remote_id rwnd seq ack"
  by (simp only: read_header_bytes) (simp add: header_bytes_wire)

text \<open>C28. An acknowledgement carries the out-of-order ranges: the receiver recovers the header and, block by block, the first
  \<open>UDX_MAX_SACKS\<close> of them, whatever the byte orders.\<close>

theorem ack_roundtrip:
  assumes "blocks \<noteq> []"
  shows "\<exists>h. read_header host' (ack_packet_bytes host blocks remote_id rwnd seq ack) = Some h
    \<and> h_id h = remote_id \<and> h_rwnd h = rwnd \<and> h_seq h = seq \<and> h_ack h = ack
    \<and> read_sacks host' (ack_packet_bytes host blocks remote_id rwnd seq ack) h = take UDX_MAX_SACKS blocks"
  using read_ack_packet [OF assms refl, of host' host remote_id rwnd seq ack] by (intro exI conjI) simp_all

theorem ack_roundtrip_witness:
  "\<exists>h. read_header UDX_BE (ack_packet_bytes UDX_LE [(5, 9), (0xFFFFFFFF, 2)] 7 0 1 2) = Some h
    \<and> read_sacks UDX_BE (ack_packet_bytes UDX_LE [(5, 9), (0xFFFFFFFF, 2)] 7 0 1 2) h = [(5, 9), (0xFFFFFFFF, 2)]"
  using ack_roundtrip [of "[(5, 9), (0xFFFFFFFF, 2)]" UDX_BE UDX_LE 7 0 1 2] by (auto simp: UDX_MAX_SACKS_def)


text \<open>Retransmitting refreshes only the receive window and the acknowledgement of the stored header, and relaying replaces
  only the stream id: the type, the sequence number and the payload stay.\<close>

theorem patched_headers:
  "patch_word host 16 ack' (patch_word host 8 rwnd' (header_bytes host0 type remote_id rwnd seq ack))
     = header_bytes host type remote_id rwnd' seq ack'
   \<and> patch_word host 4 id' (header_bytes host0 type remote_id rwnd seq ack @ payload) = header_bytes host type id' rwnd seq ack @ payload"
proof -
  have h: "header_bytes host0 = header_bytes host" by (intro ext) (simp add: header_bytes_wire)
  show ?thesis unfolding h by (simp only: retransmit_header relay_header simp_thms)
qed

end
