(* ===== verification/Udx_Win_Filter.thy ===== *)
theory Udx_Win_Filter
  imports Udx_Prelude
begin

text \<open>
  The windowed minimum and maximum filters of \<open>src/win_filter.c\<close> and \<open>src/win_filter_f64.c\<close>
  (Kathleen Nichols' algorithm: the best, second best and third best sample, in order of time).
  The two C files are the same code at two value types, \<open>uint32_t\<close> and \<open>double\<close>; the model is
  polymorphic in the value type, with the \<open>double\<close> functions as instances whose return
  value is converted to \<open>uint32_t\<close> the way their C return type does.  Times are \<open>uint64_t\<close>, the age
  \<open>dt\<close> is truncated to \<open>uint32_t\<close> as in the code.

  The locale \<open>extremum\<close> proves the filter once for any total preorder on the values and is
  interpreted for the maximum and for the minimum.  The result: under a non-decreasing clock and
  a window below \<open>2^31\<close>, what the filter reports is the exact extremum of a run of the most recent
  samples, all of which lie inside the window, and an extremum sample is not lost while it is
  inside the window.
\<close>

section \<open>Data and operations\<close>

record 'v win_filter_entry =
  wf_t :: u64
  wf_v :: 'v

record 'v win_filter =
  wf_e0 :: "'v win_filter_entry"
  wf_e1 :: "'v win_filter_entry"
  wf_e2 :: "'v win_filter_entry"

definition wf_entry :: "u64 \<Rightarrow> 'v \<Rightarrow> 'v win_filter_entry" where
  "wf_entry t v = \<lparr>wf_t = t, wf_v = v\<rparr>"

definition win_filter_get :: "'v win_filter \<Rightarrow> 'v" where
  "win_filter_get w = wf_v (wf_e0 w)"

definition win_filter_apply_common :: "'v win_filter \<Rightarrow> u32 \<Rightarrow> u64 \<Rightarrow> 'v \<Rightarrow> 'v \<times> 'v win_filter" where
  "win_filter_apply_common w win t v =
    (let dt = ucast (t - wf_t (wf_e0 w)) :: u32;
         new = wf_entry t v;
         w' =
          (if dt > win then
             (let w1 = \<lparr>wf_e0 = wf_e1 w, wf_e1 = wf_e2 w, wf_e2 = new\<rparr> in
              if t - wf_t (wf_e0 w1) > ucast win
              then \<lparr>wf_e0 = wf_e1 w1, wf_e1 = wf_e2 w1, wf_e2 = new\<rparr>
              else w1)
           else if wf_t (wf_e1 w) = wf_t (wf_e0 w) \<and> dt > win div 4
           then w\<lparr>wf_e2 := new, wf_e1 := new\<rparr>
           else if wf_t (wf_e2 w) = wf_t (wf_e1 w) \<and> dt > win div 2
           then w\<lparr>wf_e2 := new\<rparr>
           else w)
     in (wf_v (wf_e0 w'), w'))"

definition win_filter_reset :: "'v win_filter \<Rightarrow> u64 \<Rightarrow> 'v \<Rightarrow> 'v \<times> 'v win_filter" where
  "win_filter_reset w t v =
    (let val = wf_entry t v; w' = \<lparr>wf_e0 = val, wf_e1 = val, wf_e2 = val\<rparr> in (wf_v (wf_e0 w'), w'))"

definition win_filter_apply_max :: "'v::linorder win_filter \<Rightarrow> u32 \<Rightarrow> u64 \<Rightarrow> 'v \<Rightarrow> 'v \<times> 'v win_filter" where
  "win_filter_apply_max w win t v =
    (if v \<ge> wf_v (wf_e0 w) \<or> t - wf_t (wf_e2 w) > ucast win then win_filter_reset w t v
     else let new = wf_entry t v;
              w1 = (if v \<ge> wf_v (wf_e1 w) then w\<lparr>wf_e2 := new, wf_e1 := new\<rparr>
                     else if v \<ge> wf_v (wf_e2 w) then w\<lparr>wf_e2 := new\<rparr> else w)
          in win_filter_apply_common w1 win t v)"

definition win_filter_apply_min :: "'v::linorder win_filter \<Rightarrow> u32 \<Rightarrow> u64 \<Rightarrow> 'v \<Rightarrow> 'v \<times> 'v win_filter" where
  "win_filter_apply_min w win t v =
    (if v \<le> wf_v (wf_e0 w) \<or> t - wf_t (wf_e2 w) > ucast win then win_filter_reset w t v
     else let new = wf_entry t v;
              w1 = (if v \<le> wf_v (wf_e1 w) then w\<lparr>wf_e2 := new, wf_e1 := new\<rparr>
                     else if v \<le> wf_v (wf_e2 w) then w\<lparr>wf_e2 := new\<rparr> else w)
          in win_filter_apply_common w1 win t v)"

text \<open>The \<open>double\<close> filter: the C functions return \<open>uint32_t\<close>, so their value is truncated.\<close>

definition f64_to_u32 :: "f64 \<Rightarrow> u32" where
  "f64_to_u32 x = word_of_int \<lfloor>x\<rfloor>"

definition win_filter_f64_get :: "f64 win_filter \<Rightarrow> f64" where
  "win_filter_f64_get w = wf_v (wf_e0 w)"

definition win_filter_f64_apply_common :: "f64 win_filter \<Rightarrow> u32 \<Rightarrow> u64 \<Rightarrow> f64 \<Rightarrow> u32 \<times> f64 win_filter" where
  "win_filter_f64_apply_common w win t v = map_prod f64_to_u32 id (win_filter_apply_common w win t v)"

definition win_filter_f64_reset :: "f64 win_filter \<Rightarrow> u64 \<Rightarrow> f64 \<Rightarrow> u32 \<times> f64 win_filter" where
  "win_filter_f64_reset w t v = map_prod f64_to_u32 id (win_filter_reset w t v)"

definition win_filter_f64_apply_max :: "f64 win_filter \<Rightarrow> u32 \<Rightarrow> u64 \<Rightarrow> f64 \<Rightarrow> u32 \<times> f64 win_filter" where
  "win_filter_f64_apply_max w win t v =
    (if v \<ge> wf_v (wf_e0 w) \<or> t - wf_t (wf_e2 w) > ucast win then win_filter_f64_reset w t v
     else let new = wf_entry t v;
              w1 = (if v \<ge> wf_v (wf_e1 w) then w\<lparr>wf_e2 := new, wf_e1 := new\<rparr>
                     else if v \<ge> wf_v (wf_e2 w) then w\<lparr>wf_e2 := new\<rparr> else w)
          in win_filter_f64_apply_common w1 win t v)"

definition win_filter_f64_apply_min :: "f64 win_filter \<Rightarrow> u32 \<Rightarrow> u64 \<Rightarrow> f64 \<Rightarrow> u32 \<times> f64 win_filter" where
  "win_filter_f64_apply_min w win t v =
    (if v \<le> wf_v (wf_e0 w) \<or> t - wf_t (wf_e2 w) > ucast win then win_filter_f64_reset w t v
     else let new = wf_entry t v;
              w1 = (if v \<le> wf_v (wf_e1 w) then w\<lparr>wf_e2 := new, wf_e1 := new\<rparr>
                     else if v \<le> wf_v (wf_e2 w) then w\<lparr>wf_e2 := new\<rparr> else w)
          in win_filter_f64_apply_common w1 win t v)"

lemmas win_filter_defs = win_filter_apply_common_def win_filter_reset_def wf_entry_def Let_def

section \<open>The invariant\<close>

text \<open>\<open>wf_leads ge H e\<close>: the sample \<open>e\<close> of the history \<open>H\<close> is at least as good as every later one.\<close>

definition wf_leads :: "('v \<Rightarrow> 'v \<Rightarrow> bool) \<Rightarrow> 'v win_filter_entry list \<Rightarrow> 'v win_filter_entry \<Rightarrow> bool" where
  "wf_leads ge H e \<longleftrightarrow> (\<exists>past recent. H = past @ e # recent \<and> (\<forall>s \<in> set recent. ge (wf_v e) (wf_v s)))"

definition wf_clocked :: "'v win_filter_entry list \<Rightarrow> bool" where
  "wf_clocked H \<longleftrightarrow> sorted (map wf_t H)"

definition wf_inv :: "('v \<Rightarrow> 'v \<Rightarrow> bool) \<Rightarrow> u32 \<Rightarrow> 'v win_filter_entry list \<Rightarrow> 'v win_filter \<Rightarrow> bool" where
  "wf_inv ge win H w \<longleftrightarrow> wf_leads ge H (wf_e0 w) \<and> wf_leads ge H (wf_e1 w) \<and> wf_leads ge H (wf_e2 w)
     \<and> wf_t (wf_e0 w) \<le> wf_t (wf_e1 w) \<and> wf_t (wf_e1 w) \<le> wf_t (wf_e2 w)
     \<and> ge (wf_v (wf_e0 w)) (wf_v (wf_e1 w)) \<and> ge (wf_v (wf_e1 w)) (wf_v (wf_e2 w))
     \<and> wf_t (last H) - wf_t (wf_e0 w) \<le> ucast win"

text \<open>One step of the filter for a comparison \<open>ge\<close>: the common shape of the two C functions.\<close>

definition wf_step :: "('v \<Rightarrow> 'v \<Rightarrow> bool) \<Rightarrow> u32 \<Rightarrow> 'v win_filter_entry \<Rightarrow> 'v win_filter \<Rightarrow> 'v win_filter" where
  "wf_step ge win new w =
    (if ge (wf_v new) (wf_v (wf_e0 w)) \<or> wf_t new - wf_t (wf_e2 w) > ucast win
     then snd (win_filter_reset w (wf_t new) (wf_v new))
     else snd (win_filter_apply_common
       (if ge (wf_v new) (wf_v (wf_e1 w)) then w\<lparr>wf_e2 := new, wf_e1 := new\<rparr>
        else if ge (wf_v new) (wf_v (wf_e2 w)) then w\<lparr>wf_e2 := new\<rparr> else w) win (wf_t new) (wf_v new)))"

lemma wf_step_max: "snd (win_filter_apply_max w win t v) = wf_step (\<ge>) win (wf_entry t v) w"
  by (simp add: win_filter_apply_max_def wf_step_def wf_entry_def Let_def)

lemma wf_step_min: "snd (win_filter_apply_min w win t v) = wf_step (\<le>) win (wf_entry t v) w"
  by (simp add: win_filter_apply_min_def wf_step_def wf_entry_def Let_def)

lemma wf_step_f64_max: "snd (win_filter_f64_apply_max w win t v) = wf_step (\<ge>) win (wf_entry t v) w"
  by (simp add: win_filter_f64_apply_max_def win_filter_f64_reset_def win_filter_f64_apply_common_def
      wf_step_def wf_entry_def Let_def)

lemma wf_step_f64_min: "snd (win_filter_f64_apply_min w win t v) = wf_step (\<le>) win (wf_entry t v) w"
  by (simp add: win_filter_f64_apply_min_def win_filter_f64_reset_def win_filter_f64_apply_common_def
      wf_step_def wf_entry_def Let_def)

lemma wf_leads_mem: "wf_leads ge H e \<Longrightarrow> e \<in> set H"
  by (auto simp: wf_leads_def)

lemma wf_leads_new: "wf_leads ge (H @ [new]) new"
  unfolding wf_leads_def by (intro exI [of _ H] exI [of _ "[]"]) simp

lemma wf_entry_eta [simp]: "wf_entry (wf_t e) (wf_v e) = e"
  by (simp add: wf_entry_def)

lemma wf_leads_snoc:
  assumes "wf_leads ge H e" and "ge (wf_v e) (wf_v new)"
  shows "wf_leads ge (H @ [new]) e"
proof -
  obtain past recent where "H = past @ e # recent" "\<forall>s \<in> set recent. ge (wf_v e) (wf_v s)"
    using assms(1) by (auto simp: wf_leads_def)
  then have "H @ [new] = past @ e # (recent @ [new])" "\<forall>s \<in> set (recent @ [new]). ge (wf_v e) (wf_v s)"
    using assms(2) by auto
  then show ?thesis unfolding wf_leads_def by blast
qed

lemma wf_clocked_snoc: "wf_clocked (H @ [new]) \<longleftrightarrow> wf_clocked H \<and> (\<forall>s \<in> set H. wf_t s \<le> wf_t new)"
  by (auto simp: wf_clocked_def sorted_append)

lemma wf_clocked_last: "wf_clocked H \<Longrightarrow> s \<in> set H \<Longrightarrow> wf_t s \<le> wf_t (last H)"
  by (cases H rule: rev_cases) (auto simp: wf_clocked_snoc)

text \<open>While the newest entry is inside the window, the age of the oldest fits 32 bits.\<close>

lemma wf_age_fits:
  fixes t t' t0 t2 :: u64 and win :: u32
  assumes "t0 \<le> t2" "t2 \<le> t'" "t' \<le> t" "t' - t0 \<le> ucast win" "t - t2 \<le> ucast win" "win < 2 ^ 31"
  shows "uint (ucast (t - t0) :: u32) = uint (t - t0)"
proof -
  have wd: "uint (ucast win :: u64) = uint win" by (rule uint_ucast_u64)
  have "uint win < 2 ^ 31" using assms(6) by (simp add: word_less_def)
  moreover have "uint (t - t0) = uint t - uint t0" "uint (t' - t0) = uint t' - uint t0" "uint (t - t2) = uint t - uint t2"
    using assms(1-3) by (simp_all add: uint_sub_if' word_le_def)
  ultimately have "uint (t - t0) < 2 ^ 32" using assms wd by (simp add: word_le_def)
  then show ?thesis by (simp add: unsigned_ucast_eq take_bit_int_eq_self)
qed

lemma wf_common_keeps:
  "\<not> win < ucast (t - wf_t (wf_e0 w)) \<Longrightarrow> wf_e0 (snd (win_filter_apply_common w win t v)) = wf_e0 w"
  by (simp add: win_filter_apply_common_def Let_def)

locale extremum =
  fixes ge :: "'v \<Rightarrow> 'v \<Rightarrow> bool"
  assumes ge_total: "ge x y \<or> ge y x" and ge_trans: "ge x y \<Longrightarrow> ge y z \<Longrightarrow> ge x z"
begin

lemma ge_refl: "ge x x"
  using ge_total by blast

lemma reset_inv:
  "wf_inv ge win [wf_entry t v] (snd (win_filter_reset w t v))"
  "wf_inv ge win (H @ [new]) (snd (win_filter_reset w (wf_t new) (wf_v new)))"
  using wf_leads_new [of ge "[]" "wf_entry t v"]
  by (simp_all add: wf_inv_def win_filter_reset_def Let_def ge_refl wf_leads_new)

text \<open>Before \<open>win_filter_apply_common\<close>: each entry leads the extended history.\<close>

lemma update_leads:
  assumes "wf_inv ge win H w" and "\<not> ge (wf_v new) (wf_v (wf_e0 w))" and "wf_clocked (H @ [new])"
    and w1: "w1 = (if ge (wf_v new) (wf_v (wf_e1 w)) then w\<lparr>wf_e2 := new, wf_e1 := new\<rparr>
        else if ge (wf_v new) (wf_v (wf_e2 w)) then w\<lparr>wf_e2 := new\<rparr> else w)"
  shows "wf_leads ge (H @ [new]) (wf_e0 w1) \<and> wf_leads ge (H @ [new]) (wf_e1 w1) \<and> wf_leads ge (H @ [new]) (wf_e2 w1)"
    and "wf_t (wf_e0 w1) \<le> wf_t (wf_e1 w1) \<and> wf_t (wf_e1 w1) \<le> wf_t (wf_e2 w1) \<and> wf_t (wf_e2 w1) \<le> wf_t new"
    and "ge (wf_v (wf_e0 w1)) (wf_v (wf_e1 w1)) \<and> ge (wf_v (wf_e1 w1)) (wf_v (wf_e2 w1)) \<and> ge (wf_v (wf_e2 w1)) (wf_v new)"
proof -
  have i: "wf_leads ge H (wf_e0 w)" "wf_leads ge H (wf_e1 w)" "wf_leads ge H (wf_e2 w)"
    "wf_t (wf_e0 w) \<le> wf_t (wf_e1 w)" "wf_t (wf_e1 w) \<le> wf_t (wf_e2 w)"
    "ge (wf_v (wf_e0 w)) (wf_v (wf_e1 w))" "ge (wf_v (wf_e1 w)) (wf_v (wf_e2 w))"
    using assms(1) by (simp_all add: wf_inv_def)
  have t: "wf_t (wf_e0 w) \<le> wf_t new" "wf_t (wf_e1 w) \<le> wf_t new" "wf_t (wf_e2 w) \<le> wf_t new"
    using assms(3) i(1-3) by (auto simp: wf_clocked_snoc dest: wf_leads_mem)
  have v: "ge (wf_v (wf_e0 w)) (wf_v new)"
    "\<not> ge (wf_v new) (wf_v (wf_e1 w)) \<Longrightarrow> ge (wf_v (wf_e1 w)) (wf_v new)"
    "\<not> ge (wf_v new) (wf_v (wf_e2 w)) \<Longrightarrow> ge (wf_v (wf_e2 w)) (wf_v new)"
    using assms(2) ge_total by blast+
  show "wf_leads ge (H @ [new]) (wf_e0 w1) \<and> wf_leads ge (H @ [new]) (wf_e1 w1) \<and> wf_leads ge (H @ [new]) (wf_e2 w1)"
    using i v by (simp add: w1 wf_leads_new wf_leads_snoc)
  show "wf_t (wf_e0 w1) \<le> wf_t (wf_e1 w1) \<and> wf_t (wf_e1 w1) \<le> wf_t (wf_e2 w1) \<and> wf_t (wf_e2 w1) \<le> wf_t new"
    using i t by (simp add: w1)
  show "ge (wf_v (wf_e0 w1)) (wf_v (wf_e1 w1)) \<and> ge (wf_v (wf_e1 w1)) (wf_v (wf_e2 w1)) \<and> ge (wf_v (wf_e2 w1)) (wf_v new)"
    using i v by (simp add: w1 ge_refl)
qed

text \<open>\<open>win_filter_apply_common\<close> ages the entries.\<close>

lemma common_inv:
  assumes "wf_leads ge H' (wf_e0 w) \<and> wf_leads ge H' (wf_e1 w) \<and> wf_leads ge H' (wf_e2 w)"
    and "wf_t (wf_e0 w) \<le> wf_t (wf_e1 w) \<and> wf_t (wf_e1 w) \<le> wf_t (wf_e2 w) \<and> wf_t (wf_e2 w) \<le> t"
    and "ge (wf_v (wf_e0 w)) (wf_v (wf_e1 w)) \<and> ge (wf_v (wf_e1 w)) (wf_v (wf_e2 w)) \<and> ge (wf_v (wf_e2 w)) v"
    and "H' = H @ [wf_entry t v]"
    and age: "uint (ucast (t - wf_t (wf_e0 w)) :: u32) = uint (t - wf_t (wf_e0 w))" and "t - wf_t (wf_e2 w) \<le> ucast win"
  shows "wf_inv ge win H' (snd (win_filter_apply_common w win t v))"
proof -
  have new: "wf_leads ge H' (wf_entry t v)" "wf_t (last H') = t" "wf_t (wf_entry t v) = t" "wf_v (wf_entry t v) = v"
    using assms(4) wf_leads_new by (simp_all add: wf_entry_def)
  have wd: "uint (ucast win :: u64) = uint win" by (rule uint_ucast_u64)
  have dt: "win < ucast (t - wf_t (wf_e0 w)) \<longleftrightarrow> ucast win < t - wf_t (wf_e0 w)"
    using age wd by (simp add: word_less_def)
  have chain: "ge (wf_v (wf_e1 w)) v" "ge (wf_v (wf_e0 w)) v" "ge (wf_v (wf_e0 w)) (wf_v (wf_e2 w))"
    using assms(3) ge_trans by blast+
  show ?thesis
    using assms(1-3,6) new dt chain ge_refl
    by (auto simp: win_filter_apply_common_def wf_inv_def Let_def not_less)
qed

lemma step_inv:
  assumes inv: "wf_inv ge win H w" and clock: "wf_clocked (H @ [new])" and win: "win < 2 ^ 31"
  shows "wf_inv ge win (H @ [new]) (wf_step ge win new w)"
proof (cases "ge (wf_v new) (wf_v (wf_e0 w)) \<or> wf_t new - wf_t (wf_e2 w) > ucast win")
  case True
  then show ?thesis by (simp add: wf_step_def reset_inv)
next
  case False
  then have new: "\<not> ge (wf_v new) (wf_v (wf_e0 w))" "wf_t new - wf_t (wf_e2 w) \<le> ucast win" by auto
  define w1 where "w1 = (if ge (wf_v new) (wf_v (wf_e1 w)) then w\<lparr>wf_e2 := new, wf_e1 := new\<rparr>
        else if ge (wf_v new) (wf_v (wf_e2 w)) then w\<lparr>wf_e2 := new\<rparr> else w)"
  note u = update_leads [OF inv new(1) clock w1_def]
  have e0: "wf_e0 w1 = wf_e0 w" by (simp add: w1_def)
  have m: "wf_t (wf_e0 w) \<le> wf_t (wf_e2 w)" "wf_e2 w \<in> set H" "wf_t (last H) - wf_t (wf_e0 w) \<le> ucast win"
    using inv by (auto simp: wf_inv_def dest: wf_leads_mem)
  have "last H \<in> set H" using m(2) by (intro last_in_set) auto
  then have "wf_t (wf_e2 w) \<le> wf_t (last H)" "wf_t (last H) \<le> wf_t new"
    using clock wf_clocked_last [OF _ m(2)] by (simp_all add: wf_clocked_snoc)
  then have age: "uint (ucast (wf_t new - wf_t (wf_e0 w1)) :: u32) = uint (wf_t new - wf_t (wf_e0 w1))"
    unfolding e0 by (intro wf_age_fits [OF m(1) _ _ m(3) new(2) win])
  have "wf_t new - wf_t (wf_e2 w1) \<le> ucast win" using new(2) by (simp add: w1_def)
  then have "wf_inv ge win (H @ [new]) (snd (win_filter_apply_common w1 win (wf_t new) (wf_v new)))"
    by (intro common_inv [OF u _ age, of H]) (simp_all add: wf_entry_def)
  then show ?thesis using False by (simp add: wf_step_def w1_def)
qed

lemma run_inv:
  assumes "wf_clocked (s # ss)" and "win < 2 ^ 31"
  shows "wf_inv ge win (s # ss) (fold (wf_step ge win) ss (snd (win_filter_reset w (wf_t s) (wf_v s))))"
  using assms(1)
proof (induction ss rule: rev_induct)
  case Nil
  then show ?case using reset_inv(1) [of win "wf_t s" "wf_v s"] by simp
next
  case (snoc x xs)
  then have "wf_clocked (s # xs)" using wf_clocked_snoc [of "s # xs" x] by simp
  from step_inv [OF snoc.IH [OF this] _ assms(2), of x] snoc.prems show ?case by simp
qed

text \<open>The invariant gives the meaning of the reported value.\<close>

lemma inv_reports:
  assumes "wf_inv ge win H w" and "wf_clocked H"
  shows "\<exists>past recent. H = past @ recent \<and> win_filter_get w \<in> wf_v ` set recent
    \<and> (\<forall>s \<in> set recent. ge (win_filter_get w) (wf_v s) \<and> wf_t (last H) - wf_t s \<le> ucast win)"
proof -
  obtain past recent where H: "H = past @ wf_e0 w # recent" "\<forall>s \<in> set recent. ge (wf_v (wf_e0 w)) (wf_v s)"
    using assms(1) by (auto simp: wf_inv_def wf_leads_def)
  have wd: "wf_t (last H) - wf_t (wf_e0 w) \<le> ucast win" using assms(1) by (simp add: wf_inv_def)
  have "wf_t (last H) - wf_t s \<le> ucast win" if "s \<in> set (wf_e0 w # recent)" for s
  proof -
    have "wf_t (wf_e0 w) \<le> wf_t s" using assms(2) that H(1) by (auto simp: wf_clocked_def sorted_append)
    moreover have "wf_t s \<le> wf_t (last H)" using that H(1) wf_clocked_last [OF assms(2)] by auto
    ultimately have "wf_t (last H) - wf_t s \<le> wf_t (last H) - wf_t (wf_e0 w)"
      by (simp add: word_le_def uint_sub_if')
    with wd show ?thesis by simp
  qed
  with H show ?thesis
    by (intro exI [of _ past] exI [of _ "wf_e0 w # recent"]) (auto simp: win_filter_get_def ge_refl)
qed

text \<open>A sample that led the filter stays a bound of the reports while it is inside the window.\<close>

lemma step_keeps:
  assumes inv: "wf_inv ge win H w" and clock: "wf_clocked (H @ [new])" and win: "win < 2 ^ 31"
    and lead: "ge (win_filter_get w) x" "t0 \<le> wf_t (wf_e0 w)"
    and age: "wf_t new - t0 \<le> ucast win"
  shows "ge (win_filter_get (wf_step ge win new w)) x \<and> t0 \<le> wf_t (wf_e0 (wf_step ge win new w))"
proof -
  have e0: "wf_e0 w \<in> set H" using inv by (auto simp: wf_inv_def dest: wf_leads_mem)
  then have le: "wf_t (wf_e0 w) \<le> wf_t new" using clock by (simp add: wf_clocked_snoc)
  have e2: "wf_e2 w \<in> set H" "wf_t (wf_e0 w) \<le> wf_t (wf_e2 w)"
    using inv by (auto simp: wf_inv_def dest: wf_leads_mem)
  have le2: "wf_t (wf_e2 w) \<le> wf_t new" using clock e2(1) by (simp add: wf_clocked_snoc)
  have a0: "wf_t new - wf_t (wf_e0 w) \<le> ucast win" "wf_t new - wf_t (wf_e2 w) \<le> ucast win"
    using age lead(2) le e2(2) le2 by (auto simp: word_le_def uint_sub_if' split: if_splits)
  have wd: "uint (ucast win :: u64) = uint win" by (rule uint_ucast_u64)
  have "uint (ucast (wf_t new - wf_t (wf_e0 w)) :: u32) \<le> uint (wf_t new - wf_t (wf_e0 w))"
    by (simp add: unsigned_ucast_eq take_bit_int_less_eq_self_iff)
  then have dt: "\<not> win < ucast (wf_t new - wf_t (wf_e0 w))" using a0(1) wd by (simp add: word_le_def word_less_def)
  show ?thesis
  proof (cases "ge (wf_v new) (wf_v (wf_e0 w))")
    case True
    then have "ge (wf_v new) x" "t0 \<le> wf_t new"
      using lead le ge_trans by (auto simp: win_filter_get_def)
    with True show ?thesis by (simp add: wf_step_def win_filter_defs win_filter_get_def)
  next
    case False
    with a0(2) have "wf_e0 (wf_step ge win new w) = wf_e0 w"
      using dt by (simp add: wf_step_def wf_common_keeps not_less)
    with lead show ?thesis by (simp add: win_filter_get_def)
  qed
qed

end

interpretation wf_max: extremum "(\<ge>) :: 'v::linorder \<Rightarrow> 'v \<Rightarrow> bool"
  by unfold_locales auto

interpretation wf_min: extremum "(\<le>) :: 'v::linorder \<Rightarrow> 'v \<Rightarrow> bool"
  by unfold_locales auto

section \<open>Properties\<close>

text \<open>A filter before its first sample.\<close>

definition zero_filter :: "'v::zero win_filter" where
  "zero_filter = \<lparr>wf_e0 = wf_entry 0 0, wf_e1 = wf_entry 0 0, wf_e2 = wf_entry 0 0\<rparr>"



text \<open>The windowed maximum (the bandwidth filter) is exact in the same sense.\<close>

theorem win_filter_max_exact:
  assumes "wf_clocked (s # ss)" and "win < 2 ^ 31"
    and "w = fold (\<lambda>x w. snd (win_filter_f64_apply_max w win (wf_t x) (wf_v x))) ss (snd (win_filter_f64_reset w0 (wf_t s) (wf_v s)))"
  shows "\<exists>past recent. s # ss = past @ recent \<and> win_filter_f64_get w \<in> wf_v ` set recent
    \<and> (\<forall>x \<in> set recent. wf_v x \<le> win_filter_f64_get w \<and> wf_t (last (s # ss)) - wf_t x \<le> ucast win)"
proof -
  have step: "(\<lambda>x w. snd (win_filter_f64_apply_max w win (wf_t x) (wf_v x))) = wf_step (\<ge>) win"
    by (intro ext) (simp add: wf_step_f64_max)
  have get: "win_filter_f64_get = win_filter_get" by (intro ext) (simp add: win_filter_f64_get_def win_filter_get_def)
  show ?thesis
    using wf_max.inv_reports [OF wf_max.run_inv [OF assms(1,2)] assms(1)] assms(3)
    unfolding step get by (simp add: win_filter_f64_reset_def win_filter_reset_def)
qed

theorem win_filter_max_exact_witness:
  "\<exists>past recent. [wf_entry 0 9, wf_entry 5 4, wf_entry 20 7] = past @ recent
    \<and> win_filter_f64_get (fold (\<lambda>x w. snd (win_filter_f64_apply_max w 10 (wf_t x) (wf_v x))) [wf_entry 5 4, wf_entry 20 7]
        (snd (win_filter_f64_reset zero_filter 0 9))) \<in> wf_v ` set recent"
  using win_filter_max_exact [of "wf_entry 0 9" "[wf_entry 5 4, wf_entry 20 7]" 10 _ zero_filter, OF _ _ refl]
  by (auto simp: wf_clocked_def wf_entry_def)

text \<open>A good sample is not forgotten early: a round trip that bounds the filter keeps bounding what it reports after any
  further samples, as long as the clock has not moved more than the window past its time.\<close>

theorem win_filter_min_keeps:
  assumes "wf_inv (\<le>) win H w" and "wf_clocked (H @ xs)" and "win < 2 ^ 31"
    and "win_filter_get w \<le> x" "t0 \<le> wf_t (wf_e0 w)" and "\<forall>s \<in> set xs. wf_t s - t0 \<le> ucast win"
  shows "win_filter_get (fold (\<lambda>s w. snd (win_filter_apply_min w win (wf_t s) (wf_v s))) xs w) \<le> x"
  using assms
proof (induction xs arbitrary: H w)
  case (Cons s xs)
  let ?w = "wf_step (\<le>) win s w"
  have c: "wf_clocked (H @ [s])" using Cons.prems(2) by (auto simp: wf_clocked_def sorted_append)
  have "wf_inv (\<le>) win (H @ [s]) ?w" by (rule wf_min.step_inv [OF Cons.prems(1) c Cons.prems(3)])
  moreover have "win_filter_get ?w \<le> x \<and> t0 \<le> wf_t (wf_e0 ?w)"
    using wf_min.step_keeps [OF Cons.prems(1) c Cons.prems(3) Cons.prems(4,5)] Cons.prems(6) by simp
  ultimately show ?case using Cons.IH [of "H @ [s]" ?w] Cons.prems by (simp add: wf_step_min)
qed simp

theorem win_filter_min_keeps_witness:
  "win_filter_get (fold (\<lambda>s w. snd (win_filter_apply_min w 10 (wf_t s) (wf_v s))) [wf_entry 7 (30 :: u32), wf_entry 9 25]
     (snd (win_filter_reset zero_filter 2 20))) \<le> 20"
  using win_filter_min_keeps [OF wf_min.reset_inv(1) [of 10 2 20 zero_filter], of "[wf_entry 7 30, wf_entry 9 25]" 20 2]
  by (simp add: wf_clocked_def wf_entry_def win_filter_reset_def win_filter_get_def Let_def)

end
