(* ===== verification/Udx_Queue.thy ===== *)
theory Udx_Queue
  imports Udx_Prelude
begin

text \<open>
  \<^verbatim>\<open>src/queue.c\<close> and \<^verbatim>\<open>src/queue.h\<close>: the intrusive circular doubly linked list behind
  every queue of the library (write queue, in-flight and retransmit queues, out-of-order
  packets, time-wait entries, delayed sends). The operations are translated as writes to
  a pointer heap, in the order the code does them; \<open>queue_at h q xs\<close> says that the ring
  through the head node \<open>q\<close> holds exactly the nodes \<open>xs\<close>. Each operation is shown to
  implement the list operation it stands for and to leave every other queue alone. The
  interface \<open>node_queue\<close> collects these laws; it is interpreted for the heap and for the
  plain lists the stream model uses.
\<close>

section \<open>Heap and operations\<close>

text \<open>
  A \<^verbatim>\<open>udx_queue_t\<close> is identified with the address of its embedded node, as the casts
  \<^verbatim>\<open>(udx_queue_node_t *) q\<close> of the code do; \<open>q_len\<close> holds its length field.
\<close>

record udx_queue_node =
  nd_next :: addr
  nd_prev :: addr

record queue_heap =
  q_node :: "addr \<Rightarrow> udx_queue_node"
  q_len :: "addr \<Rightarrow> u32"

definition set_next :: "addr \<Rightarrow> addr \<Rightarrow> queue_heap \<Rightarrow> queue_heap" where
  "set_next p v h = h\<lparr>q_node := (q_node h)(p := (q_node h p)\<lparr>nd_next := v\<rparr>)\<rparr>"

definition set_prev :: "addr \<Rightarrow> addr \<Rightarrow> queue_heap \<Rightarrow> queue_heap" where
  "set_prev p v h = h\<lparr>q_node := (q_node h)(p := (q_node h p)\<lparr>nd_prev := v\<rparr>)\<rparr>"

definition set_len :: "addr \<Rightarrow> u32 \<Rightarrow> queue_heap \<Rightarrow> queue_heap" where
  "set_len q n h = h\<lparr>q_len := (q_len h)(q := n)\<rparr>"

abbreviation get_next :: "queue_heap \<Rightarrow> addr \<Rightarrow> addr" where
  "get_next h p \<equiv> nd_next (q_node h p)"

abbreviation get_prev :: "queue_heap \<Rightarrow> addr \<Rightarrow> addr" where
  "get_prev h p \<equiv> nd_prev (q_node h p)"

definition udx__queue_init :: "addr \<Rightarrow> queue_heap \<Rightarrow> queue_heap" where
  "udx__queue_init q h = set_len q 0 (set_next q q (set_prev q q h))"

definition queue_insert :: "addr \<Rightarrow> addr \<Rightarrow> addr \<Rightarrow> addr \<Rightarrow> queue_heap \<Rightarrow> queue_heap" where
  "queue_insert new prev next queue h =
     (let h = set_next new next h;
          h = set_prev new prev h;
          h = set_prev next new h;
          h = set_next prev new h
      in set_len queue (q_len h queue + 1) h)"

definition queue_after :: "addr \<Rightarrow> addr \<Rightarrow> addr \<Rightarrow> queue_heap \<Rightarrow> queue_heap" where
  "queue_after q prev new h = queue_insert new prev (get_next h prev) q h"

definition queue_before :: "addr \<Rightarrow> addr \<Rightarrow> addr \<Rightarrow> queue_heap \<Rightarrow> queue_heap" where
  "queue_before q next new h = queue_insert new (get_prev h next) next q h"

definition udx__queue_head :: "addr \<Rightarrow> addr \<Rightarrow> queue_heap \<Rightarrow> queue_heap" where
  "udx__queue_head q new h = queue_after q q new h"

definition udx__queue_tail :: "addr \<Rightarrow> addr \<Rightarrow> queue_heap \<Rightarrow> queue_heap" where
  "udx__queue_tail q new h = queue_before q q new h"

definition udx__queue_unlink :: "addr \<Rightarrow> addr \<Rightarrow> queue_heap \<Rightarrow> queue_heap option" where
  "udx__queue_unlink q p h =
     do {
       c_assert (q_len h q \<noteq> 0);
       let h = set_len q (q_len h q - 1) h;
       let h = set_next (get_prev h p) (get_next h p) h;
       let h = set_prev (get_next h p) (get_prev h p) h;
       Some (set_prev p NULL (set_next p NULL h))
     }"

definition udx__queue_peek :: "addr \<Rightarrow> queue_heap \<Rightarrow> addr" where
  "udx__queue_peek q h = (let ret = get_next h q in if ret = q then NULL else ret)"

definition udx__queue_shift :: "addr \<Rightarrow> queue_heap \<Rightarrow> (addr \<times> queue_heap) option" where
  "udx__queue_shift q h =
     (let ret = udx__queue_peek q h in
      if ret \<noteq> NULL then map_option (Pair ret) (udx__queue_unlink q ret h) else Some (ret, h))"

definition udx__queue_splice_tail :: "addr \<Rightarrow> addr \<Rightarrow> queue_heap \<Rightarrow> queue_heap" where
  "udx__queue_splice_tail q t h =
     (let h = set_len q (q_len h q + q_len h t) h;
          h = set_next (get_prev h q) (get_next h t) h;
          h = set_prev (get_next h t) (get_prev h q) h;
          h = set_prev q (get_prev h t) h;
          h = set_next (get_prev h q) q h
      in udx__queue_init t h)"

text \<open>The loop of \<^verbatim>\<open>udx__queue_foreach\<close>: the nodes visited within a number of steps.\<close>

fun udx__queue_foreach :: "nat \<Rightarrow> addr \<Rightarrow> addr \<Rightarrow> queue_heap \<Rightarrow> addr list option" where
  "udx__queue_foreach 0 p q h = None"
| "udx__queue_foreach (Suc n) p q h =
     (if p = q then Some [] else map_option ((#) p) (udx__queue_foreach n (get_next h p) q h))"

section \<open>Reads after writes\<close>

lemma get_set [simp]:
  "get_next (set_next p v h) a = (if a = p then v else get_next h a)"
  "get_next (set_prev p v h) a = get_next h a"
  "get_next (set_len q n h) a = get_next h a"
  "get_prev (set_next p v h) a = get_prev h a"
  "get_prev (set_prev p v h) a = (if a = p then v else get_prev h a)"
  "get_prev (set_len q n h) a = get_prev h a"
  "q_len (set_next p v h) = q_len h"
  "q_len (set_prev p v h) = q_len h"
  "q_len (set_len q n h) = (q_len h)(q := n)"
  by (simp_all add: set_next_def set_prev_def set_len_def)

section \<open>The list a ring holds\<close>

text \<open>Consecutive nodes of a list point at each other.\<close>

fun links :: "queue_heap \<Rightarrow> addr list \<Rightarrow> bool" where
  "links h (a # b # r) \<longleftrightarrow> get_next h a = b \<and> get_prev h b = a \<and> links h (b # r)"
| "links h _ \<longleftrightarrow> True"

definition queue_at :: "queue_heap \<Rightarrow> addr \<Rightarrow> addr list \<Rightarrow> bool" where
  "queue_at h q xs \<longleftrightarrow> distinct (q # xs) \<and> NULL \<notin> set (q # xs) \<and> links h (q # xs @ [q])
     \<and> length xs < 2 ^ 32 \<and> q_len h q = of_nat (length xs)"

lemma links_append:
  "xs \<noteq> [] \<Longrightarrow> ys \<noteq> [] \<Longrightarrow> links h (xs @ ys) \<longleftrightarrow>
     links h xs \<and> get_next h (last xs) = hd ys \<and> get_prev h (hd ys) = last xs \<and> links h ys"
proof (induction xs)
  case (Cons x xs)
  then show ?case by (cases xs; cases ys) auto
qed simp

lemma links_tl: "links h (p # zs) \<Longrightarrow> links h zs"
  by (cases zs) auto

lemma links_frame:
  assumes "\<And>a. a \<in> set (butlast ys) \<Longrightarrow> get_next h' a = get_next h a"
    and "\<And>a. a \<in> set (tl ys) \<Longrightarrow> get_prev h' a = get_prev h a"
  shows "links h' ys = links h ys"
  using assms
proof (induction h ys rule: links.induct)
  case (1 h a b r)
  have "links h' (b # r) = links h (b # r)"
    by (rule "1.IH") (use "1.prems" in \<open>auto dest: in_set_butlastD list.set_sel(2)\<close>)
  with "1.prems" show ?case by auto
qed simp_all

text \<open>A ring that a write does not touch is unchanged.\<close>

lemma queue_at_frame:
  assumes "queue_at h q xs"
    and "\<And>a. a \<in> set (q # xs) \<Longrightarrow> get_next h' a = get_next h a \<and> get_prev h' a = get_prev h a"
    and "q_len h' q = q_len h q"
  shows "queue_at h' q xs"
proof -
  have "links h' (q # xs @ [q]) = links h (q # xs @ [q])"
    by (rule links_frame) (use assms(2) in \<open>auto simp: butlast_append split: if_splits\<close>)
  with assms show ?thesis by (simp add: queue_at_def)
qed

section \<open>Each operation implements its list operation\<close>

lemma queue_init_at:
  "q \<noteq> NULL \<Longrightarrow> queue_at (udx__queue_init q h) q []"
  by (simp add: queue_at_def udx__queue_init_def)

text \<open>
  A ring cut between \<open>xs\<close> and \<open>ys\<close>: the two halves meet at the last node of \<open>q # xs\<close>
  and the first of \<open>ys @ [q]\<close>.
\<close>

lemma queue_at_cut:
  assumes "a = last (q # xs)" and "b = hd (ys @ [q])"
  shows "queue_at h q (xs @ ys) \<longleftrightarrow> distinct (q # xs @ ys) \<and> NULL \<notin> set (q # xs @ ys)
     \<and> links h (q # xs) \<and> links h (ys @ [q]) \<and> get_next h a = b \<and> get_prev h b = a
     \<and> length (xs @ ys) < 2 ^ 32 \<and> q_len h q = of_nat (length (xs @ ys))"
  using links_append [of "q # xs" "ys @ [q]" h] assms by (auto simp: queue_at_def)

lemma cut_mem:
  assumes "a = last (q # xs)" and "b = hd (ys @ [q])"
  shows "a \<in> set (q # xs)" and "b \<in> set (ys @ [q])"
  using assms by (simp_all add: hd_append)

text \<open>Rewriting the seam leaves both halves linked.\<close>

lemma links_halves:
  assumes d: "distinct (q # xs @ ys)" and a: "a = last (q # xs)" and b: "b = hd (ys @ [q])"
    and nx: "\<And>x. x \<in> set (q # xs @ ys) \<Longrightarrow> x \<noteq> a \<Longrightarrow> get_next h' x = get_next h x"
    and pv: "\<And>x. x \<in> set (q # xs @ ys) \<Longrightarrow> x \<noteq> b \<Longrightarrow> get_prev h' x = get_prev h x"
  shows "links h' (q # xs) = links h (q # xs)" and "links h' (ys @ [q]) = links h (ys @ [q])"
proof -
  have d1: "distinct (q # xs)" and d2: "distinct (ys @ [q])" and d3: "set xs \<inter> set ys = {}"
    using d by auto
  have a': "a \<notin> set (butlast (q # xs))" "a \<notin> set ys"
    using last_notin_butlast [OF d1] cut_mem(1) [OF a b] d by (auto simp only: a) auto
  have b': "b \<notin> set (tl (ys @ [q]))" "b \<notin> set xs"
    using hd_notin_tl [OF d2] cut_mem(2) [OF a b] d by (auto simp only: b) auto
  show "links h' (q # xs) = links h (q # xs)"
    by (rule links_frame) (use a' b' in \<open>auto intro!: nx pv dest: in_set_butlastD split: if_splits\<close>)
  show "links h' (ys @ [q]) = links h (ys @ [q])"
  proof (rule links_frame)
    fix x assume x: "x \<in> set (tl (ys @ [q]))"
    then have "x \<in> set (ys @ [q])" by (rule list.set_sel(2) [rotated]) simp
    with x b' show "get_prev h' x = get_prev h x" by (intro pv) auto
  qed (use a' in \<open>auto intro!: nx\<close>)
qed

text \<open>Insertion between two neighbouring nodes, anywhere in the ring.\<close>

lemma queue_insert_at:
  assumes q: "queue_at h q (xs @ ys)" and new: "new \<noteq> NULL" "new \<notin> set (q # xs @ ys)"
    and room: "length (xs @ ys) + 1 < 2 ^ 32" and a: "a = last (q # xs)" and b: "b = hd (ys @ [q])"
  shows "queue_at (queue_insert new a b q h) q (xs @ new # ys)" (is "queue_at ?h _ _")
proof -
  have d: "distinct (q # xs @ ys)" using q by (simp add: queue_at_def)
  have out: "a \<noteq> new" "b \<noteq> new" using cut_mem [OF a b] new by auto
  have nx: "get_next ?h x = (if x = a then new else if x = new then b else get_next h x)"
    and pv: "get_prev ?h x = (if x = b then new else if x = new then a else get_prev h x)" for x
    by (simp_all add: queue_insert_def Let_def)
  have halves: "links ?h (q # xs) = links h (q # xs)" "links ?h (ys @ [q]) = links h (ys @ [q])"
    by (rule links_halves [OF d a b]; use new in \<open>auto simp: nx pv\<close>)+
  have "links ?h ([new] @ ys @ [q])"
    using q out halves by (subst links_append) (simp_all add: queue_at_cut [OF a b] nx pv b [symmetric])
  then have "links ?h ((q # xs) @ [new] @ ys @ [q])"
    using q out halves by (subst links_append) (simp_all add: queue_at_cut [OF a b] nx pv a [symmetric] del: last.simps)
  moreover have "q_len ?h q = of_nat (length (xs @ new # ys))"
    using q by (simp add: queue_at_def queue_insert_def Let_def)
  ultimately show ?thesis
    using q new room by (auto simp: queue_at_def)
qed

lemma queue_head_at:
  assumes "queue_at h q xs" and "new \<noteq> NULL" "new \<notin> set (q # xs)" and "length xs + 1 < 2 ^ 32"
  shows "queue_at (udx__queue_head q new h) q (new # xs)"
proof -
  have "get_next h q = hd (xs @ [q])"
    using queue_at_cut [of q q "[]" "hd (xs @ [q])" xs h] assms by simp
  with queue_insert_at [of h q "[]" xs new q] assms show ?thesis
    by (simp add: udx__queue_head_def queue_after_def)
qed

lemma queue_tail_at:
  assumes "queue_at h q xs" and "new \<noteq> NULL" "new \<notin> set (q # xs)" and "length xs + 1 < 2 ^ 32"
  shows "queue_at (udx__queue_tail q new h) q (xs @ [new])"
proof -
  have "get_prev h q = last (q # xs)"
    using queue_at_cut [of "last (q # xs)" q xs q "[]" h] assms by simp
  with queue_insert_at [of h q xs "[]" new "last (q # xs)" q] assms show ?thesis
    by (simp add: udx__queue_tail_def queue_before_def)
qed

text \<open>Removal of a member.\<close>

lemma queue_unlink_at:
  assumes q: "queue_at h q (xs @ p # ys)"
  shows "\<exists>h'. udx__queue_unlink q p h = Some h' \<and> queue_at h' q (xs @ ys)"
proof -
  define a where a: "a = last (q # xs)"
  define b where b: "b = hd (ys @ [q])"
  have d: "distinct (q # xs @ ys)" "p \<notin> set (q # xs @ ys)"
    and l: "links h (q # xs)" "links h (ys @ [q])"
    and ap: "get_next h a = p" "get_prev h p = a"
    and len: "length xs + length ys + 1 < 2 ^ 32" "q_len h q = of_nat (length xs + length ys + 1)"
    using q unfolding queue_at_cut [OF a refl] by (auto dest: links_tl)
  have pb: "get_next h p = b" "get_prev h b = p"
    using q queue_at_cut [of p q "xs @ [p]" b ys h] b by auto
  have "q_len h q \<noteq> 0"
    unfolding len(2) u32_of_nat_eq_0 [OF len(1)] by simp
  then obtain h' where h': "udx__queue_unlink q p h = Some h'"
    by (auto simp: udx__queue_unlink_def Let_def)
  have out: "a \<noteq> p" "b \<noteq> p" using cut_mem [OF a b] d by auto
  have nx: "get_next h' x = (if x = p then NULL else if x = a then b else get_next h x)"
    and pv: "get_prev h' x = (if x = p then NULL else if x = b then a else get_prev h x)"
    and ln: "q_len h' q = q_len h q - 1" for x
    using h' ap pb out by (auto simp: udx__queue_unlink_def Let_def)
  have "links h' (q # xs) = links h (q # xs)" "links h' (ys @ [q]) = links h (ys @ [q])"
    by (rule links_halves [OF d(1) a b]; use d in \<open>auto simp: nx pv\<close>)+
  then have "queue_at h' q (xs @ ys)"
    using q d l len out unfolding queue_at_cut [OF a b]
    by (auto simp: nx pv ln queue_at_def)
  with h' show ?thesis by blast
qed

lemma queue_peek_at:
  assumes "queue_at h q xs"
  shows "udx__queue_peek q h = (case xs of [] \<Rightarrow> NULL | x # _ \<Rightarrow> x)"
proof -
  have "get_next h q = hd (xs @ [q])"
    using queue_at_cut [of q q "[]" "hd (xs @ [q])" xs h] assms by simp
  with assms show ?thesis
    by (cases xs) (auto simp: udx__queue_peek_def queue_at_def)
qed

lemma queue_shift_Nil:
  "queue_at h q [] \<Longrightarrow> udx__queue_shift q h = Some (NULL, h)"
  by (simp add: udx__queue_shift_def queue_peek_at)

lemma queue_shift_Cons:
  assumes "queue_at h q (x # xs)"
  shows "\<exists>h'. udx__queue_shift q h = Some (x, h') \<and> queue_at h' q xs"
proof -
  have "x \<noteq> NULL" using assms by (auto simp: queue_at_def)
  moreover obtain h' where "udx__queue_unlink q x h = Some h'" "queue_at h' q xs"
    using queue_unlink_at [of h q "[]" x xs] assms by auto
  ultimately show ?thesis
    using assms by (simp add: udx__queue_shift_def queue_peek_at Let_def)
qed

text \<open>Appending one queue to another empties the second.\<close>

lemma queue_splice_nonempty:
  assumes q: "queue_at h q xs" and t: "queue_at h t ys" and ne: "ys \<noteq> []"
    and dis: "set (q # xs) \<inter> set (t # ys) = {}" and room: "length xs + length ys < 2 ^ 32"
  shows "queue_at (udx__queue_splice_tail q t h) q (xs @ ys)" (is "queue_at ?h _ _")
proof -
  define a where a: "a = last (q # xs)"
  have q1: "get_prev h q = a" "links h (q # xs)" "distinct (q # xs)"
    using q queue_at_cut [OF a, of q "[]" h] by auto
  have t1: "get_next h t = hd ys" "get_prev h t = last ys" "links h ys" "distinct ys" "t \<notin> set ys"
    using t ne links_append [of "[t]" "ys @ [t]" h] links_append [of ys "[t]" h]
    by (auto simp: queue_at_def)
  have mem: "a \<in> set (q # xs)" "hd ys \<in> set ys" "last ys \<in> set ys"
    using cut_mem [OF a refl] ne by auto
  have neq: "last ys \<noteq> q" "hd ys \<noteq> q" "last ys \<noteq> t" "hd ys \<noteq> t" "a \<noteq> t" "last ys \<noteq> a"
    using mem dis t1(5) by auto
  have nx: "get_next ?h x = (if x = t then t else if x = last ys then q else if x = a then hd ys else get_next h x)"
    and pv: "get_prev ?h x = (if x = t then t else if x = q then last ys else if x = hd ys then a else get_prev h x)" for x
    using q1 t1 mem dis by (auto simp: udx__queue_splice_tail_def udx__queue_init_def Let_def)
  have "links ?h (q # xs) = links h (q # xs)"
    using last_notin_butlast [OF q1(3)] mem dis q1(3) a
    by (intro links_frame) (auto simp: nx pv dest: in_set_butlastD split: if_splits)
  moreover have "links ?h ys = links h ys"
    using last_notin_butlast [OF t1(4) ne] hd_notin_tl [OF t1(4) ne] mem dis t1(5)
    by (intro links_frame) (auto simp: nx pv dest: in_set_butlastD list.set_sel(2) [OF ne])
  ultimately have "links ?h ((q # xs) @ ys @ [q])"
    using q1 t1 ne neq by (simp only: links_append append_is_Nil_conv not_Cons_self2 list.distinct simp_thms)
      (auto simp: nx pv a [symmetric] simp del: last.simps)
  moreover have "q_len ?h q = of_nat (length (xs @ ys))"
    using q t dis by (simp add: udx__queue_splice_tail_def udx__queue_init_def Let_def queue_at_def)
  ultimately show ?thesis
    using q t dis room by (auto simp: queue_at_def)
qed

lemma queue_splice_at:
  assumes q: "queue_at h q xs" and t: "queue_at h t ys"
    and dis: "set (q # xs) \<inter> set (t # ys) = {}" and room: "length xs + length ys < 2 ^ 32"
  shows "queue_at (udx__queue_splice_tail q t h) q (xs @ ys)"
    and "queue_at (udx__queue_splice_tail q t h) t []"
proof -
  let ?h = "udx__queue_splice_tail q t h"
  show "queue_at ?h t []"
    unfolding udx__queue_splice_tail_def Let_def using t by (intro queue_init_at) (simp add: queue_at_def)
  show "queue_at ?h q (xs @ ys)"
  proof (cases "ys = []")
    case True
    define a where a: "a = last (q # xs)"
    have q1: "get_prev h q = a" "get_next h a = q" using q queue_at_cut [OF a, of q "[]" h] by auto
    have t1: "get_next h t = t" "get_prev h t = t" "q_len h t = 0" using t True by (auto simp: queue_at_def)
    have "a \<noteq> t" using cut_mem [OF a refl] dis by auto
    have "queue_at ?h q xs"
      by (rule queue_at_frame [OF q])
        (use q1 t1 \<open>a \<noteq> t\<close> dis in \<open>auto simp: udx__queue_splice_tail_def udx__queue_init_def Let_def\<close>)
    with True show ?thesis by simp
  qed (use queue_splice_nonempty [OF q t _ dis room] in blast)
qed

text \<open>The iteration macro visits every node once, front to back, and ends.\<close>

lemma queue_foreach_links:
  "links h (zs @ [q]) \<Longrightarrow> q \<notin> set zs \<Longrightarrow> length zs < n \<Longrightarrow>
     udx__queue_foreach n (hd (zs @ [q])) q h = Some zs"
proof (induction zs arbitrary: n)
  case Nil
  then show ?case by (cases n) auto
next
  case (Cons z zs)
  then obtain m where n: "n = Suc m" by (cases n) auto
  have "get_next h z = hd (zs @ [q])" "links h (zs @ [q])"
    using Cons.prems(1) by (cases zs; auto)+
  with Cons n show ?case by auto
qed

lemma queue_foreach_at:
  assumes "queue_at h q xs"
  shows "udx__queue_foreach (Suc (length xs)) (get_next h q) q h = Some xs"
proof -
  have "get_next h q = hd (xs @ [q])" "links h (xs @ [q])"
    using queue_at_cut [of q q "[]" "hd (xs @ [q])" xs h] assms by auto
  with assms show ?thesis
    using queue_foreach_links [of h xs q "Suc (length xs)"] by (simp only:) (simp add: queue_at_def del: udx__queue_foreach.simps)
qed

section \<open>Other queues are left alone\<close>

text \<open>Everything a write can touch lies in the queue it works on.\<close>

lemma insert_frame:
  assumes "queue_at h q' zs" and "{new, a, b} \<inter> set (q' # zs) = {}" and "q \<noteq> q'"
  shows "queue_at (queue_insert new a b q h) q' zs"
  by (rule queue_at_frame [OF assms(1)]) (use assms in \<open>auto simp: queue_insert_def Let_def\<close>)

lemma queue_neighbours:
  assumes "queue_at h q (xs @ p # ys)"
  shows "get_next h p \<in> set (q # ys)" and "get_prev h p \<in> set (q # xs)"
  using queue_at_cut [OF refl refl, of h q xs "p # ys"] queue_at_cut [OF refl refl, of h q "xs @ [p]" ys]
    assms by (auto simp: hd_append)

lemma queue_ends:
  assumes "queue_at h q xs"
  shows "get_next h q \<in> set (q # xs)" and "get_prev h q \<in> set (q # xs)"
  using queue_at_cut [OF refl refl, of h q "[]" xs] queue_at_cut [OF refl refl, of h q xs "[]"]
    assms by (auto simp: hd_append)

lemma queue_tail_frame:
  assumes "queue_at h q xs" and "queue_at h q' zs" and "set (new # q # xs) \<inter> set (q' # zs) = {}"
  shows "queue_at (udx__queue_tail q new h) q' zs"
  using assms queue_ends [OF assms(1)]
  by (auto simp: udx__queue_tail_def queue_before_def intro!: insert_frame)

lemma queue_head_frame:
  assumes "queue_at h q xs" and "queue_at h q' zs" and "set (new # q # xs) \<inter> set (q' # zs) = {}"
  shows "queue_at (udx__queue_head q new h) q' zs"
  using assms queue_ends [OF assms(1)]
  by (auto simp: udx__queue_head_def queue_after_def intro!: insert_frame)

lemma queue_unlink_frame:
  assumes "queue_at h q (xs @ p # ys)" and "queue_at h q' zs"
    and "set (q # xs @ p # ys) \<inter> set (q' # zs) = {}" and "udx__queue_unlink q p h = Some h'"
  shows "queue_at h' q' zs"
proof (rule queue_at_frame [OF assms(2)])
  have "get_next h p \<notin> set (q' # zs)" "get_prev h p \<notin> set (q' # zs)"
    using queue_neighbours [OF assms(1)] assms(3) by auto
  then show "get_next h' a = get_next h a \<and> get_prev h' a = get_prev h a" if "a \<in> set (q' # zs)" for a
    using that assms(3,4) by (auto simp: udx__queue_unlink_def Let_def)
  show "q_len h' q' = q_len h q'"
    using assms(3,4) by (auto simp: udx__queue_unlink_def Let_def)
qed

section \<open>The interface\<close>

text \<open>
  The contract every client of the queue uses. \<open>rel h q xs\<close> reads: in state \<open>h\<close> the
  queue \<open>q\<close> holds \<open>xs\<close>; \<open>fits n\<close>: \<open>n\<close> elements fit the length field.
\<close>

locale node_queue =
  fixes rel :: "'h \<Rightarrow> 'q \<Rightarrow> 'e list \<Rightarrow> bool"
    and fits :: "nat \<Rightarrow> bool"
    and fresh :: "'q \<Rightarrow> 'e list \<Rightarrow> 'e \<Rightarrow> bool"
    and push_head :: "'q \<Rightarrow> 'e \<Rightarrow> 'h \<Rightarrow> 'h"
    and push_tail :: "'q \<Rightarrow> 'e \<Rightarrow> 'h \<Rightarrow> 'h"
    and unlink :: "'q \<Rightarrow> 'e \<Rightarrow> 'h \<Rightarrow> 'h option"
    and shift :: "'q \<Rightarrow> 'h \<Rightarrow> ('e \<times> 'h) option"
  assumes head_law: "rel h q xs \<Longrightarrow> fresh q xs x \<Longrightarrow> fits (Suc (length xs)) \<Longrightarrow> rel (push_head q x h) q (x # xs)"
    and tail_law: "rel h q xs \<Longrightarrow> fresh q xs x \<Longrightarrow> fits (Suc (length xs)) \<Longrightarrow> rel (push_tail q x h) q (xs @ [x])"
    and unlink_law: "rel h q (xs @ x # ys) \<Longrightarrow> \<exists>h'. unlink q x h = Some h' \<and> rel h' q (xs @ ys)"
    and shift_law: "rel h q (x # xs) \<Longrightarrow> \<exists>h'. shift q h = Some (x, h') \<and> rel h' q xs"
begin

text \<open>The draining loops \<^verbatim>\<open>while (q.len > 0) shift(q)\<close> of the library.\<close>

fun drain :: "nat \<Rightarrow> 'q \<Rightarrow> 'h \<Rightarrow> ('e list \<times> 'h) option" where
  "drain 0 q h = Some ([], h)"
| "drain (Suc n) q h =
     (case shift q h of None \<Rightarrow> None
      | Some (x, h') \<Rightarrow> map_option (map_prod ((#) x) id) (drain n q h'))"

lemma drain_all: "rel h q xs \<Longrightarrow> \<exists>h'. drain (length xs) q h = Some (xs, h') \<and> rel h' q []"
proof (induction xs arbitrary: h)
  case Nil
  then show ?case by simp
next
  case (Cons x xs)
  then obtain h1 where "shift q h = Some (x, h1)" "rel h1 q xs" using shift_law by blast
  with Cons.IH [OF this(2)] show ?case by auto
qed

text \<open>First in, first out.\<close>

lemma fifo:
  assumes "rel h q xs" and "fresh q xs x" and "fits (Suc (length xs))"
  shows "\<exists>h'. drain (Suc (length xs)) q (push_tail q x h) = Some (xs @ [x], h') \<and> rel h' q []"
  using drain_all [OF tail_law [OF assms]] by simp

text \<open>Moving a member to the back, as the retransmission code does.\<close>

lemma unlink_then_tail:
  assumes "rel h q (xs @ x # ys)" and "fresh q (xs @ ys) x" and "fits (Suc (length (xs @ ys)))"
  shows "\<exists>h'. unlink q x h = Some h' \<and> rel (push_tail q x h') q (xs @ ys @ [x])"
proof -
  obtain h' where "unlink q x h = Some h'" "rel h' q (xs @ ys)" using unlink_law [OF assms(1)] by blast
  with tail_law [OF this(2) assms(2,3)] show ?thesis by auto
qed

end

interpretation heap_queue: node_queue queue_at "\<lambda>n. n < 2 ^ 32"
  "\<lambda>q xs x. x \<noteq> NULL \<and> x \<notin> set (q # xs)"
  udx__queue_head udx__queue_tail udx__queue_unlink udx__queue_shift
  by unfold_locales
    (auto intro: queue_head_at queue_tail_at queue_unlink_at queue_shift_Cons simp del: set_simps)

section \<open>Queues as lists\<close>

text \<open>
  The stream model holds the contents of its queues as lists; these are the operations it
  uses on them. They satisfy the same interface.
\<close>

definition lq_head :: "'e \<Rightarrow> 'e list \<Rightarrow> 'e list" where
  "lq_head x xs = x # xs"

definition lq_tail :: "'e \<Rightarrow> 'e list \<Rightarrow> 'e list" where
  "lq_tail x xs = xs @ [x]"

definition lq_unlink :: "'e \<Rightarrow> 'e list \<Rightarrow> 'e list option" where
  "lq_unlink x xs = (if x \<in> set xs then Some (remove1 x xs) else None)"

definition lq_shift :: "'e list \<Rightarrow> ('e \<times> 'e list) option" where
  "lq_shift xs = (case xs of [] \<Rightarrow> None | x # xs' \<Rightarrow> Some (x, xs'))"

interpretation list_queue: node_queue "\<lambda>h (q :: unit) xs. h = xs \<and> distinct xs" "\<lambda>_. True"
  "\<lambda>_ xs x. x \<notin> set xs"
  "\<lambda>_. lq_head" "\<lambda>_. lq_tail" "\<lambda>_. lq_unlink" "\<lambda>_. lq_shift"
  by unfold_locales (auto simp: lq_head_def lq_tail_def lq_unlink_def lq_shift_def remove1_append)

section \<open>Properties\<close>

text \<open>C24. The ring implements a first-in first-out queue on the pointer heap: after appending a fresh node, shifting
  returns the oldest node, the ring then holds the rest in order, and every queue with other nodes is as it was.\<close>

theorem queue_fifo:
  assumes "queue_at h q (x # xs)" and "new \<noteq> NULL" "new \<notin> set (q # x # xs)" "length xs + 2 < 2 ^ 32"
    and "queue_at h q' zs" "set (new # q # x # xs) \<inter> set (q' # zs) = {}"
  shows "\<exists>h'. udx__queue_shift q (udx__queue_tail q new h) = Some (x, h') \<and> queue_at h' q (xs @ [new]) \<and> queue_at h' q' zs"
proof -
  let ?h = "udx__queue_tail q new h"
  have t: "queue_at ?h q (x # xs @ [new])" using heap_queue.tail_law [OF assms(1), of new] assms by simp
  have o: "queue_at ?h q' zs" using queue_tail_frame [OF assms(1,5,6)] .
  obtain h' where h': "udx__queue_shift q ?h = Some (x, h')" "queue_at h' q (xs @ [new])"
    using heap_queue.shift_law [OF t] by blast
  moreover have "x \<noteq> NULL" using t by (auto simp: queue_at_def)
  ultimately have "udx__queue_unlink q x ?h = Some h'"
    using queue_peek_at [OF t] by (simp add: udx__queue_shift_def)
  then have "queue_at h' q' zs" using queue_unlink_frame [of ?h q "[]" x "xs @ [new]" q' zs] t o assms(6) by simp
  with h' show ?thesis by blast
qed

definition two_rings :: queue_heap where
  "two_rings = udx__queue_tail 1 3 (udx__queue_init 2 (udx__queue_init 1
     \<lparr>q_node = (\<lambda>_. \<lparr>nd_next = 0, nd_prev = 0\<rparr>), q_len = (\<lambda>_. 0)\<rparr>))"

lemma two_rings_at: "queue_at two_rings 1 [3] \<and> queue_at two_rings 2 []"
  by (simp add: two_rings_def queue_at_def udx__queue_init_def udx__queue_tail_def queue_before_def queue_insert_def Let_def)

theorem queue_fifo_witness:
  "\<exists>h'. udx__queue_shift 1 (udx__queue_tail 1 4 two_rings) = Some (3, h') \<and> queue_at h' 1 [4] \<and> queue_at h' 2 []"
  using queue_fifo [of two_rings 1 3 "[]" 4 2 "[]"] two_rings_at by simp

text \<open>C25. A packet can be taken out of the middle of a queue: the assertion on the length holds, exactly that node
  disappears, the order of the others is kept, and queues with other nodes are as they were.\<close>

theorem queue_unlink_exact:
  assumes "queue_at h q (xs @ p # ys)" and "queue_at h q' zs" "set (q # xs @ p # ys) \<inter> set (q' # zs) = {}"
  shows "\<exists>h'. udx__queue_unlink q p h = Some h' \<and> queue_at h' q (xs @ ys) \<and> queue_at h' q' zs"
proof -
  obtain h' where h': "udx__queue_unlink q p h = Some h'" "queue_at h' q (xs @ ys)"
    using heap_queue.unlink_law [OF assms(1)] by blast
  then have "queue_at h' q' zs" using queue_unlink_frame [OF assms h'(1)] by blast
  with h' show ?thesis by blast
qed

theorem queue_unlink_exact_witness: "\<exists>h'. udx__queue_unlink 1 3 two_rings = Some h' \<and> queue_at h' 1 [] \<and> queue_at h' 2 []"
  using queue_unlink_exact [of two_rings 1 "[]" 3 "[]" 2 "[]"] two_rings_at by simp



end
