(* ===== verification/Udx_Stream.thy ===== *)
theory Udx_Stream
  imports Udx_Wire Udx_Win_Filter Udx_Queue
begin

text \<open>
  The data model of a stream, from \<open>include/udx.h\<close>: \<open>udx_stream_t\<close>, \<open>udx_packet_t\<close>,
  \<open>udx_stream_write_buf_t\<close>, \<open>udx_stream_write_t\<close>, the rate sample, and the state a handler of one stream
  works on: the stream itself, the packets, write buffers and writes it owns (stores indexed
  by address), the counters of its socket and of the udx instance, the loop's clock and timers and
  what was handed to the network and to the user, in order.

  The intrusive queues hold the addresses of their members as lists (the operations are the ones
  \<open>list_queue\<close> relates to the linked lists of \<open>queue.c\<close>), the circular buffer \<open>outgoing\<close> is the map
  that \<open>cirbuf_map\<close> shows \<open>cirbuf.c\<close> to implement, and the tree of out-of-order blocks is the
  sequence of its blocks in order.
\<close>

section \<open>Constants\<close>

definition UDX_IPV4_HEADER_SIZE :: u16 where "UDX_IPV4_HEADER_SIZE = 20 + 8 + 20"
definition UDX_IPV6_HEADER_SIZE :: u16 where "UDX_IPV6_HEADER_SIZE = 40 + 8 + 20"
definition UDX_MTU_BASE :: int where "UDX_MTU_BASE = 1200"
definition UDX_MTU_MAX_PROBES :: int where "UDX_MTU_MAX_PROBES = 3"
definition UDX_MTU_MAX :: int where "UDX_MTU_MAX = 1500"
definition UDX_MTU_STEP :: int where "UDX_MTU_STEP = 32"

definition UDX_STREAM_CONNECTED :: u32 where "UDX_STREAM_CONNECTED = 1"
definition UDX_STREAM_RECEIVING :: u32 where "UDX_STREAM_RECEIVING = 2"
definition UDX_STREAM_READING :: u32 where "UDX_STREAM_READING = 4"
definition UDX_STREAM_ENDING :: u32 where "UDX_STREAM_ENDING = 8"
definition UDX_STREAM_ENDING_REMOTE :: u32 where "UDX_STREAM_ENDING_REMOTE = 16"
definition UDX_STREAM_ENDED :: u32 where "UDX_STREAM_ENDED = 32"
definition UDX_STREAM_ENDED_REMOTE :: u32 where "UDX_STREAM_ENDED_REMOTE = 64"
definition UDX_STREAM_DESTROYING :: u32 where "UDX_STREAM_DESTROYING = 128"
definition UDX_STREAM_CLOSED :: u32 where "UDX_STREAM_CLOSED = 256"
definition UDX_STREAM_TIMEWAIT_WANTED :: u32 where "UDX_STREAM_TIMEWAIT_WANTED = 512"

definition UDX_STREAM_ALL_ENDED :: u32 where
  "UDX_STREAM_ALL_ENDED = UDX_STREAM_ENDED OR UDX_STREAM_ENDED_REMOTE"
definition UDX_STREAM_DEAD :: u32 where
  "UDX_STREAM_DEAD = UDX_STREAM_DESTROYING OR UDX_STREAM_CLOSED"
definition UDX_STREAM_SHOULD_READ :: u32 where
  "UDX_STREAM_SHOULD_READ = UDX_STREAM_ENDED_REMOTE OR UDX_STREAM_DEAD"
definition UDX_STREAM_READ :: u32 where "UDX_STREAM_READ = 0"
definition UDX_STREAM_SHOULD_END :: u32 where
  "UDX_STREAM_SHOULD_END = UDX_STREAM_ENDING OR UDX_STREAM_ENDED OR UDX_STREAM_DEAD"
definition UDX_STREAM_END :: u32 where "UDX_STREAM_END = UDX_STREAM_ENDING"
definition UDX_STREAM_SHOULD_END_REMOTE :: u32 where
  "UDX_STREAM_SHOULD_END_REMOTE = UDX_STREAM_ENDED_REMOTE OR UDX_STREAM_DEAD OR UDX_STREAM_ENDING_REMOTE"
definition UDX_STREAM_END_REMOTE :: u32 where "UDX_STREAM_END_REMOTE = UDX_STREAM_ENDING_REMOTE"

lemmas stream_flag_defs = UDX_STREAM_CONNECTED_def UDX_STREAM_RECEIVING_def UDX_STREAM_READING_def
  UDX_STREAM_ENDING_def UDX_STREAM_ENDING_REMOTE_def UDX_STREAM_ENDED_def UDX_STREAM_ENDED_REMOTE_def
  UDX_STREAM_DESTROYING_def UDX_STREAM_CLOSED_def UDX_STREAM_TIMEWAIT_WANTED_def UDX_STREAM_ALL_ENDED_def
  UDX_STREAM_DEAD_def UDX_STREAM_SHOULD_READ_def UDX_STREAM_READ_def UDX_STREAM_SHOULD_END_def
  UDX_STREAM_END_def UDX_STREAM_SHOULD_END_REMOTE_def UDX_STREAM_END_REMOTE_def

definition UDX_RTO_MAX_MS :: u32 where "UDX_RTO_MAX_MS = 30000"
definition UDX_RTT_MAX_MS :: u32 where "UDX_RTT_MAX_MS = 30000"
definition UDX_RTT_MIN_WINDOW_MS :: u32 where "UDX_RTT_MIN_WINDOW_MS = 300000"
definition UDX_DEFAULT_RWND_MAX :: u32 where "UDX_DEFAULT_RWND_MAX = 4 * 1024 * 1024"
definition UDX_INIT_PACING_RATE :: u32 where "UDX_INIT_PACING_RATE = 25000"
definition UDX_HIGH_WATERMARK :: u32 where "UDX_HIGH_WATERMARK = 262144"
definition UDX_TLP_MAX_ACK_DELAY :: u32 where "UDX_TLP_MAX_ACK_DELAY = 2"
definition UDX_MAX_RTO_TIMEOUTS :: u8 where "UDX_MAX_RTO_TIMEOUTS = 6"
definition UDX_DEBUG_FORCE_DROP_PROBES :: u32 where "UDX_DEBUG_FORCE_DROP_PROBES = 2"
definition UDX_DEBUG_FORCE_DROP_DATA :: u32 where "UDX_DEBUG_FORCE_DROP_DATA = 4"

section \<open>Enumerations and small records\<close>

datatype udx_ca_state = UDX_CA_OPEN | UDX_CA_RECOVERY | UDX_CA_LOSS

datatype udx_mtu_state = UDX_MTU_STATE_BASE | UDX_MTU_STATE_SEARCH | UDX_MTU_STATE_ERROR | UDX_MTU_STATE_SEARCH_COMPLETE

datatype udx_stream_timer_type = UDX_TIMER_NONE | UDX_TIMER_RTO | UDX_TIMER_RACK_REO | UDX_TIMER_TLP | UDX_TIMER_ZWP | UDX_TIMER_KEEPALIVE

datatype udx_bbr_state = UDX_BBR_STATE_STARTUP | UDX_BBR_STATE_DRAIN | UDX_BBR_STATE_PROBE_BW | UDX_BBR_STATE_PROBE_RTT

datatype sa_family = AF_INET | AF_INET6 | AF_OTHER

text \<open>A socket address: family, port and address bytes (4 or 16 of them).\<close>

record sockaddr =
  sa_family :: sa_family
  sa_port :: u16
  sa_addr :: "u8 list"

record udx_buf =
  ub_type :: u8
  ub_data :: "u8 list"

record udx_sack_block =
  sb_start :: u32
  sb_end :: u32
  sb_packets :: "udx_buf list"

text \<open>A slice of a write buffer: the buffer, the offset of its first byte and its length
  (\<open>wbufs[i]\<close>, and \<open>bufs[i + 1]\<close> relative to the buffer's base).\<close>

record pkt_slice =
  sl_wbuf :: addr
  sl_off :: u64
  sl_len :: u64

record udx_packet =
  p_seq :: u32
  p_lost :: bool
  p_retransmitted :: bool
  p_transmits :: u8
  p_is_mtu_probe :: bool
  p_ref_count :: u8
  p_size :: u16
  p_remote_addr :: sockaddr
  p_remote_addr_len :: int
  p_remote_id :: u32
  p_time_sent :: u64
  p_stream_offset :: u64
  p_first_sent_ts :: u64
  p_delivered_ts :: u64
  p_delivered :: u32
  p_is_app_limited :: bool
  p_header :: "u8 list"
  p_slices :: "pkt_slice list"

record udx_stream_write_buf =
  wb_buf :: "u8 list"
  wb_bytes_inflight :: u64
  wb_bytes_acked :: u64
  wb_write :: addr
  wb_is_write_end :: bool

record udx_stream_write =
  wr_size :: u64
  wr_bytes_acked :: u64
  wr_is_write_end :: bool
  wr_on_ack :: bool

text \<open>The delivery rate sample (\<open>udx_rate_sample_t\<close> of \<open>internal.h\<close>).\<close>

record udx_rate_sample =
  rs_prior_timestamp :: u64
  rs_prior_delivered :: u32
  rs_delivered :: int
  rs_interval_ms :: int
  rs_snd_interval_ms :: u32
  rs_rcv_interval_ms :: u32
  rs_rtt_ms :: int
  rs_losses :: int
  rs_acked_sacked :: u32
  rs_seq :: u32
  rs_is_app_limited :: bool
  rs_is_retrans :: bool
  rs_is_ack_delayed :: bool

text \<open>The nested structure \<open>bbr\<close> of \<open>udx_stream_t\<close>; \<open>float\<close> and \<open>double\<close> fields hold rationals.\<close>

record udx_bbr =
  bb_min_rtt_ms :: u32
  bb_min_rtt_stamp :: u64
  bb_probe_rtt_done_time :: u64
  bb_bw :: "f64 win_filter"
  bb_rtt_count :: u32
  bb_next_rtt_delivered :: u32
  bb_cycle_timestamp :: u64
  bb_state :: udx_bbr_state
  bb_prev_ca_state :: udx_ca_state
  bb_use_packet_conservation :: bool
  bb_round_start :: bool
  bb_idle_restart :: bool
  bb_probe_rtt_round_done :: bool
  bb_pacing_gain :: f64
  bb_cwnd_gain :: f64
  bb_full_bw_reached :: bool
  bb_full_bw_count :: u8
  bb_cycle_index :: u8
  bb_has_seen_rtt :: bool
  bb_prior_cwnd :: u32
  bb_full_bw :: f64
  bb_ack_epoch_start :: u64
  bb_extra_acked0 :: u16
  bb_extra_acked1 :: u16
  bb_ack_epoch_acked :: u32
  bb_extra_acked_win_rtts :: u8
  bb_extra_acked_win_index :: u8

section \<open>The stream\<close>

text \<open>
  \<open>udx_stream_t\<close>, in groups of fields by record extension: identity and status, the callbacks that are set,
  path MTU, sequence numbers, rate control, timers and round-trip times, RACK and TLP, windows and
  pacing, and the queues.  A callback field says whether the pointer is set.
\<close>

record stream_ident =
  s_local_id :: u32
  s_remote_id :: u32
  s_status :: u32
  s_socket :: addr
  s_relayed :: bool
  s_relay_to :: addr
  s_remote_addr :: sockaddr
  s_remote_addr_len :: int
  s_remote_changing :: bool
  s_seq_on_remote_changed :: u32
  s_ack_needed :: bool
  s_on_remote_changed :: bool
  s_on_firewall :: bool
  s_on_read :: bool
  s_on_recv :: bool
  s_on_drain :: bool
  s_on_close :: bool
  s_get_read_buffer_size :: bool

record stream_path = stream_ident +
  s_mtu_state :: udx_mtu_state
  s_mtu_probe_wanted :: bool
  s_mtu_probe_count :: int
  s_mtu_probe_size :: int
  s_mtu_max :: int
  s_mtu :: u16
  s_seq :: u32
  s_ack :: u32
  s_remote_acked :: u32
  s_remote_ended :: u32
  s_delivered :: u32
  s_lost :: u32
  s_app_limited :: u32
  s_first_sent_ts :: u64
  s_delivered_ts :: u64
  s_rate_delivered :: u32
  s_rate_interval_ms :: u32
  s_rate_sample_is_app_limited :: bool

record stream_loss = stream_path +
  s_pending_timer :: udx_stream_timer_type
  s_next_rto_ts :: u64
  s_srtt :: u32
  s_rttvar :: u32
  s_rto :: u32
  s_keepalive_timeout_ms :: u32
  s_rtt_min :: "u32 win_filter"
  s_rack_rtt :: u32
  s_rack_time_sent :: u64
  s_rack_next_seq :: u32
  s_rack_fack :: u32
  s_reordering_seen :: bool
  s_tlp_is_retrans :: bool
  s_tlp_in_flight :: bool
  s_tlp_permitted :: bool
  s_tlp_end_seq :: u32
  s_ca_state :: udx_ca_state
  s_high_seq :: u32

record stream_count = stream_loss +
  s_rto_count :: u8
  s_zwp_count :: u16
  s_fast_recovery_count :: u16
  s_retransmit_count :: u16
  s_lifetime_rto_count :: u16
  s_bytes_queued :: u64
  s_bytes_packetized :: u64
  s_bytes_acked :: u64
  s_writes_queued_bytes :: u64
  s_bytes_rx :: u64
  s_bytes_tx :: u64
  s_packets_rx :: u64
  s_packets_tx :: u64
  s_dropped_sacks :: u32

record udx_stream = stream_count +
  s_bbr :: udx_bbr
  s_pacing_bytes_per_ms :: u32
  s_tb_available :: u32
  s_tb_last_refill_ms :: u64
  s_inflight :: u64
  s_sacks :: u32
  s_cwnd :: u32
  s_send_rwnd :: u32
  s_recv_rwnd_max :: u32
  s_send_wl1 :: u32
  s_send_wl2 :: u32
  s_hit_high_watermark :: bool
  s_pkt_capacity :: u16
  s_pkt_header_flag :: u8
  s_pkt :: addr
  s_write_queue :: "addr list"
  s_outgoing :: "u32 \<rightharpoonup> addr"
  s_sack_tree :: "udx_sack_block list"
  s_retransmit_queue :: "addr list"
  s_inflight_queue :: "addr list"

section \<open>The state of a handler\<close>

text \<open>What the user is told, and what leaves the program, in the order it happens.\<close>

datatype event =
    Ev_Read "u8 list"
  | Ev_Eof
  | Ev_Recv "u8 list"
  | Ev_Ack addr int bool
  | Ev_Drain
  | Ev_Close int
  | Ev_Remote_Changed

datatype udx_output =
    Datagram sockaddr "u8 list"
  | Callback event

text \<open>
  \<open>w_now\<close> is \<open>uv_now\<close>; \<open>w_timer\<close> and \<open>w_pacing_timer\<close> are the libuv timers with the time they fire at;
  \<open>w_prepare\<close> says whether the pending-packet prepare handle runs; \<open>w_timewait\<close> is the final acknowledgement that a stream leaves
  behind when it closes into time-wait; \<open>w_ios\<close> counts the calls of the send
  functions, whose results the environment decides.
\<close>

record world = udx_stream +
  w_now :: u64
  w_packets :: "addr \<Rightarrow> udx_packet"
  w_next_packet :: addr
  w_wbufs :: "addr \<Rightarrow> udx_stream_write_buf"
  w_writes :: "addr \<Rightarrow> udx_stream_write"
  w_timer :: "u64 option"
  w_pacing_timer :: "u64 option"
  w_prepare :: bool
  w_timewait :: "u8 list option"
  w_socket_family :: int
  w_socket_packets_tx :: u64
  w_socket_bytes_tx :: u64
  w_udx_packets_tx :: u64
  w_udx_bytes_tx :: u64
  w_debug_flags :: u32
  w_drop_count :: u32
  w_ios :: nat
  w_output :: "udx_output list"

text \<open>
  The environment: the byte order of the host, the results of \<open>uv_udp_try_send\<close> and \<open>uv_udp_send\<close> for the
  \<open>n\<close>-th call, the user's \<open>get_read_buffer_size\<close> and \<open>on_firewall\<close> (\<open>True\<close> rejects the packet), and what a
  callback does to the state (it may call back into the library).
\<close>

record env =
  env_host :: udx__endianness_t
  env_try_send :: "nat \<Rightarrow> int"
  env_udp_send :: "nat \<Rightarrow> int"
  env_read_buffer_size :: "world \<Rightarrow> u32"
  env_firewall :: "sockaddr \<Rightarrow> world \<Rightarrow> bool \<times> world"
  env_callback :: "event \<Rightarrow> world \<Rightarrow> world"

definition UV_EAGAIN :: int where "UV_EAGAIN = -11"
definition UV_ECANCELED :: int where "UV_ECANCELED = -125"
definition UV_ECONNRESET :: int where "UV_ECONNRESET = -104"
definition UV_ETIMEDOUT :: int where "UV_ETIMEDOUT = -110"

definition notify :: "env \<Rightarrow> event \<Rightarrow> world \<Rightarrow> world" where
  "notify env ev w = env_callback env ev (w\<lparr>w_output := w_output w @ [Callback ev]\<rparr>)"

abbreviation has_flag :: "'a::len word \<Rightarrow> 'a word \<Rightarrow> bool" where
  "has_flag w f \<equiv> w AND f \<noteq> 0"

abbreviation upd_packet :: "addr \<Rightarrow> (udx_packet \<Rightarrow> udx_packet) \<Rightarrow> world \<Rightarrow> world" where
  "upd_packet p f w \<equiv> w\<lparr>w_packets := (w_packets w)(p := f (w_packets w p))\<rparr>"

section \<open>A zeroed stream\<close>

text \<open>A packet before it is filled, and \<open>memset(stream, 0, sizeof(stream))\<close> in an environment given by the clock and the
  debug switches.\<close>

definition empty_packet :: udx_packet where
  "empty_packet = \<lparr>p_seq = 0, p_lost = False, p_retransmitted = False, p_transmits = 0, p_is_mtu_probe = False,
     p_ref_count = 1, p_size = 20, p_remote_addr = \<lparr>sa_family = AF_OTHER, sa_port = 0, sa_addr = []\<rparr>,
     p_remote_addr_len = 0, p_remote_id = 0, p_time_sent = 0, p_stream_offset = 0, p_first_sent_ts = 0,
     p_delivered_ts = 0, p_delivered = 0, p_is_app_limited = False, p_header = replicate 20 0, p_slices = []\<rparr>"

definition zero_bbr :: udx_bbr where
  "zero_bbr = \<lparr>bb_min_rtt_ms = 0, bb_min_rtt_stamp = 0, bb_probe_rtt_done_time = 0,
     bb_bw = \<lparr>wf_e0 = wf_entry 0 0, wf_e1 = wf_entry 0 0, wf_e2 = wf_entry 0 0\<rparr>, bb_rtt_count = 0, bb_next_rtt_delivered = 0,
     bb_cycle_timestamp = 0, bb_state = UDX_BBR_STATE_STARTUP, bb_prev_ca_state = UDX_CA_OPEN, bb_use_packet_conservation = False,
     bb_round_start = False, bb_idle_restart = False, bb_probe_rtt_round_done = False, bb_pacing_gain = 0, bb_cwnd_gain = 0,
     bb_full_bw_reached = False, bb_full_bw_count = 0, bb_cycle_index = 0, bb_has_seen_rtt = False, bb_prior_cwnd = 0,
     bb_full_bw = 0, bb_ack_epoch_start = 0, bb_extra_acked0 = 0, bb_extra_acked1 = 0, bb_ack_epoch_acked = 0,
     bb_extra_acked_win_rtts = 0, bb_extra_acked_win_index = 0\<rparr>"

definition zero_sockaddr :: sockaddr where
  "zero_sockaddr = \<lparr>sa_family = AF_OTHER, sa_port = 0, sa_addr = []\<rparr>"

definition zero_stream :: "u64 \<Rightarrow> u32 \<Rightarrow> world" where
  "zero_stream now debug_flags =
    \<lparr>s_local_id = 0, s_remote_id = 0, s_status = 0, s_socket = NULL, s_relayed = False, s_relay_to = NULL,
     s_remote_addr = zero_sockaddr, s_remote_addr_len = 0, s_remote_changing = False, s_seq_on_remote_changed = 0,
     s_ack_needed = False, s_on_remote_changed = False, s_on_firewall = False, s_on_read = False, s_on_recv = False,
     s_on_drain = False, s_on_close = False, s_get_read_buffer_size = False,
     s_mtu_state = UDX_MTU_STATE_BASE, s_mtu_probe_wanted = False, s_mtu_probe_count = 0, s_mtu_probe_size = 0,
     s_mtu_max = 0, s_mtu = 0, s_seq = 0, s_ack = 0, s_remote_acked = 0, s_remote_ended = 0, s_delivered = 0, s_lost = 0,
     s_app_limited = 0, s_first_sent_ts = 0, s_delivered_ts = 0, s_rate_delivered = 0, s_rate_interval_ms = 0,
     s_rate_sample_is_app_limited = False,
     s_pending_timer = UDX_TIMER_NONE, s_next_rto_ts = 0, s_srtt = 0, s_rttvar = 0, s_rto = 0, s_keepalive_timeout_ms = 0,
     s_rtt_min = \<lparr>wf_e0 = wf_entry 0 0, wf_e1 = wf_entry 0 0, wf_e2 = wf_entry 0 0\<rparr>,
     s_rack_rtt = 0, s_rack_time_sent = 0, s_rack_next_seq = 0, s_rack_fack = 0, s_reordering_seen = False,
     s_tlp_is_retrans = False, s_tlp_in_flight = False, s_tlp_permitted = False, s_tlp_end_seq = 0,
     s_ca_state = UDX_CA_OPEN, s_high_seq = 0,
     s_rto_count = 0, s_zwp_count = 0, s_fast_recovery_count = 0, s_retransmit_count = 0, s_lifetime_rto_count = 0,
     s_bytes_queued = 0, s_bytes_packetized = 0, s_bytes_acked = 0, s_writes_queued_bytes = 0, s_bytes_rx = 0, s_bytes_tx = 0,
     s_packets_rx = 0, s_packets_tx = 0, s_dropped_sacks = 0,
     s_bbr = zero_bbr, s_pacing_bytes_per_ms = 0, s_tb_available = 0, s_tb_last_refill_ms = 0, s_inflight = 0, s_sacks = 0,
     s_cwnd = 0, s_send_rwnd = 0, s_recv_rwnd_max = 0, s_send_wl1 = 0, s_send_wl2 = 0, s_hit_high_watermark = False,
     s_pkt_capacity = 0, s_pkt_header_flag = 0, s_pkt = NULL, s_write_queue = [], s_outgoing = Map.empty, s_sack_tree = [],
     s_retransmit_queue = [], s_inflight_queue = [],
     w_now = now, w_packets = (\<lambda>_. empty_packet), w_next_packet = 1,
     w_wbufs = (\<lambda>_. \<lparr>wb_buf = [], wb_bytes_inflight = 0, wb_bytes_acked = 0, wb_write = NULL, wb_is_write_end = False\<rparr>),
     w_writes = (\<lambda>_. \<lparr>wr_size = 0, wr_bytes_acked = 0, wr_is_write_end = False, wr_on_ack = False\<rparr>),
     w_timer = None, w_pacing_timer = None, w_prepare = False, w_timewait = None, w_socket_family = 0, w_socket_packets_tx = 0,
     w_socket_bytes_tx = 0, w_udx_packets_tx = 0, w_udx_bytes_tx = 0, w_debug_flags = debug_flags, w_drop_count = 0,
     w_ios = 0, w_output = []\<rparr>"

end
