(* ===== verification/Udx_Stream_Ops.thy ===== *)
theory Udx_Stream_Ops
  imports Udx_Stream
begin

text \<open>
  The small operations of \<open>src/udx.c\<close> on one stream: payload and window computations, the header of an
  outgoing packet, path MTU probing, the stream timer, pacing, and the accessors of the API.  Shown:
  the bounds of the windows, that the path MTU state machine keeps its sizes between the base MTU and
  the maximum, and that probing and un-probing a packet is undone exactly.
\<close>

section \<open>Windows\<close>

definition udx__max_payload :: "world \<Rightarrow> u32 option" where
  "udx__max_payload w = do {
     c_assert (s_mtu w > UDX_IPV4_HEADER_SIZE);
     Some (ucast (s_mtu w) -
       ucast (if sa_family (s_remote_addr w) = AF_INET then UDX_IPV4_HEADER_SIZE else UDX_IPV6_HEADER_SIZE))
   }"

definition cwnd_in_bytes :: "world \<Rightarrow> u32 option" where
  "cwnd_in_bytes w = do { mp \<leftarrow> udx__max_payload w; Some (s_cwnd w * mp) }"

definition send_window_in_bytes :: "world \<Rightarrow> u32 option" where
  "send_window_in_bytes w = do { cb \<leftarrow> cwnd_in_bytes w; Some (min_uint32 cb (s_send_rwnd w)) }"

definition send_rwnd_in_packets :: "world \<Rightarrow> u32 option" where
  "send_rwnd_in_packets w =
    (if s_send_rwnd w = 0 then Some 0
     else do { mp \<leftarrow> udx__max_payload w; Some (max_uint32 (s_send_rwnd w div mp) 1) })"

definition send_window_in_packets :: "world \<Rightarrow> u32 option" where
  "send_window_in_packets w = do { rp \<leftarrow> send_rwnd_in_packets w; Some (min_uint32 (s_cwnd w) rp) }"

definition get_recv_rwnd :: "env \<Rightarrow> world \<Rightarrow> u32" where
  "get_recv_rwnd env w =
    (let bufsize = (if s_get_read_buffer_size w then env_read_buffer_size env w else 0)
     in if s_recv_rwnd_max w > bufsize then s_recv_rwnd_max w - bufsize else 0)"

definition udx_write_header :: "env \<Rightarrow> world \<Rightarrow> u8 \<Rightarrow> u32 \<Rightarrow> u8 list" where
  "udx_write_header env w type remote_id =
    header_bytes (env_host env) type remote_id (get_recv_rwnd env w) (s_seq w) (s_ack w)"

section \<open>Path MTU\<close>

text \<open>Returns whether the packet was promoted to a probe, and the packet.\<close>

definition mtu_probeify_packet :: "udx_packet \<Rightarrow> int \<Rightarrow> (bool \<times> udx_packet) option" where
  "mtu_probeify_packet pkt wanted_size =
    (if \<not> has_flag (p_header pkt ! 2) UDX_HEADER_DATA \<or> p_header pkt ! 3 \<noteq> 0 then Some (False, pkt)
     else do {
       let family = sa_family (p_remote_addr pkt);
       c_assert (family = AF_INET \<or> family = AF_INET6);
       let ip_udp_overhead = uint (if family = AF_INET then UDX_IPV4_HEADER_SIZE else UDX_IPV6_HEADER_SIZE) - int UDX_HEADER_SIZE;
       let ip_packet_size = uint (p_size pkt) + ip_udp_overhead;
       let padding_size = wanted_size - ip_packet_size;
       if padding_size < 0 \<or> padding_size > 255 then Some (False, pkt)
       else Some (True, pkt\<lparr>p_header := (p_header pkt)[3 := word_of_int padding_size], p_is_mtu_probe := True\<rparr>)
     })"

definition mtu_unprobeify_packet :: "addr \<Rightarrow> world \<Rightarrow> world option" where
  "mtu_unprobeify_packet p w = do {
     c_assert (p_is_mtu_probe (w_packets w p));
     let w = upd_packet p (\<lambda>pkt. pkt\<lparr>p_header := (p_header pkt)[3 := 0], p_is_mtu_probe := False\<rparr>) w;
     Some (if s_mtu_state w = UDX_MTU_STATE_SEARCH then
             if s_mtu_probe_count w \<ge> UDX_MTU_MAX_PROBES then w\<lparr>s_mtu_state := UDX_MTU_STATE_SEARCH_COMPLETE\<rparr>
             else w\<lparr>s_mtu_probe_wanted := True\<rparr>
           else w)
   }"

definition reset_mtu_state_machine :: "world \<Rightarrow> world" where
  "reset_mtu_state_machine w = w\<lparr>s_mtu := word_of_int UDX_MTU_BASE, s_mtu_state := UDX_MTU_STATE_BASE,
     s_mtu_probe_count := 0, s_mtu_probe_size := UDX_MTU_BASE, s_mtu_max := UDX_MTU_MAX\<rparr>"

text \<open>The part of \<open>ack_packet\<close> that drives the path MTU search when \<open>pkt\<close> is acknowledged.\<close>

definition mtu_on_ack :: "udx_packet \<Rightarrow> world \<Rightarrow> world" where
  "mtu_on_ack pkt w =
    (let w = (if s_mtu_state w = UDX_MTU_STATE_SEARCH \<and> s_mtu_probe_count w > 0 \<and> p_is_mtu_probe pkt then
                (let w = w\<lparr>s_mtu_probe_count := 0, s_mtu := word_of_int (s_mtu_probe_size w)\<rparr>
                 in if s_mtu_probe_size w = s_mtu_max w then w\<lparr>s_mtu_state := UDX_MTU_STATE_SEARCH_COMPLETE\<rparr>
                    else let w = w\<lparr>s_mtu_probe_size := s_mtu_probe_size w + UDX_MTU_STEP\<rparr>;
                             w = (if s_mtu_probe_size w \<ge> s_mtu_max w then w\<lparr>s_mtu_probe_size := s_mtu_max w\<rparr> else w)
                         in w\<lparr>s_mtu_probe_wanted := True\<rparr>)
              else w)
     in if s_mtu_state w = UDX_MTU_STATE_BASE \<or> s_mtu_state w = UDX_MTU_STATE_ERROR
        then w\<lparr>s_mtu_state := UDX_MTU_STATE_SEARCH, s_mtu_probe_wanted := True\<rparr> else w)"

section \<open>The stream timer\<close>

definition stream_timer_start :: "udx_stream_timer_type \<Rightarrow> u32 \<Rightarrow> world \<Rightarrow> world" where
  "stream_timer_start timer time_wait_ms w =
    (let w = (if timer = UDX_TIMER_RTO then w\<lparr>s_next_rto_ts := w_now w + ucast time_wait_ms\<rparr> else w)
     in w\<lparr>s_pending_timer := timer, w_timer := Some (w_now w + ucast time_wait_ms)\<rparr>)"

definition stream_timer_stop :: "world \<Rightarrow> world" where
  "stream_timer_stop w = w\<lparr>w_timer := None, s_pending_timer := UDX_TIMER_NONE\<rparr>"

text \<open>A delay until \<open>next_rto_ts\<close>: the difference as \<open>int64_t\<close>, 1 when it has passed.\<close>

definition rto_delta :: "world \<Rightarrow> u64" where
  "rto_delta w = (let d = s_next_rto_ts w - w_now w in if sint d < 0 then 1 else d)"

definition rearm_rto :: "bool \<Rightarrow> world \<Rightarrow> world option" where
  "rearm_rto from_now w =
    (if s_seq w = s_remote_acked w then Some (stream_timer_stop w)
     else if from_now then Some (stream_timer_start UDX_TIMER_RTO (s_rto w) w)
     else do {
       c_assert (s_pending_timer w = UDX_TIMER_RACK_REO \<or> s_pending_timer w = UDX_TIMER_TLP);
       Some (stream_timer_start UDX_TIMER_RTO (ucast (rto_delta w)) w)
     })"

text \<open>Schedules a tail loss probe; \<open>False\<close> when there is nothing to probe for.\<close>

definition schedule_loss_probe :: "bool \<Rightarrow> world \<Rightarrow> bool \<times> world" where
  "schedule_loss_probe advancing_rto w =
    (if s_seq w = s_remote_acked w \<or> s_ca_state w \<noteq> UDX_CA_OPEN \<or> s_sacks w \<noteq> 0 then (False, w)
     else let timeout = (if s_srtt w \<noteq> 0
                then s_srtt w * 2 + (if length (s_inflight_queue w) + length (s_retransmit_queue w) = 1
                                     then UDX_TLP_MAX_ACK_DELAY else 0)
                else 1000);
              rto_delta_ms = (if advancing_rto then s_rto w else ucast (rto_delta w))
          in (True, stream_timer_start UDX_TIMER_TLP (min_uint32 timeout rto_delta_ms) w))"

text \<open>Arms the retransmission timers after a transmission.\<close>

definition arm_stream_timers :: "bool \<Rightarrow> world \<Rightarrow> world option" where
  "arm_stream_timers arm_tlp w = do {
     c_assert (s_inflight_queue w \<noteq> []);
     c_assert (s_remote_acked w \<noteq> s_seq w);
     c_assert (s_rto w > 0);
     c_assert (s_status w \<noteq> UDX_STREAM_CLOSED);
     let w = (if s_pending_timer w = UDX_TIMER_NONE \<or> s_pending_timer w = UDX_TIMER_ZWP \<or> s_pending_timer w = UDX_TIMER_KEEPALIVE
              then stream_timer_start UDX_TIMER_RTO (s_rto w) w else w);
     Some (if arm_tlp \<and> s_ca_state w = UDX_CA_OPEN \<and> s_sacks w = 0 then snd (schedule_loss_probe False w) else w)
   }"

section \<open>Pacing\<close>

definition update_pacing_time :: "world \<Rightarrow> world option" where
  "update_pacing_time w =
    (if w_now w > s_tb_last_refill_ms w then do {
       let factor = w_now w - s_tb_last_refill_ms w;
       c_assert (s_pacing_bytes_per_ms w > 0);
       Some (w\<lparr>s_tb_available := ucast (factor * ucast (s_pacing_bytes_per_ms w)), s_tb_last_refill_ms := w_now w\<rparr>)
     } else Some w)"

definition stream_may_send :: "bool \<Rightarrow> world \<Rightarrow> (bool \<times> world) option" where
  "stream_may_send retransmit w = do {
     c_assert (s_cwnd w > 0);
     w \<leftarrow> update_pacing_time w;
     if s_tb_available w = 0 then Some (False, w)
     else if retransmit then Some (length (s_inflight_queue w) < unat (s_cwnd w), w)
     else do { n \<leftarrow> send_window_in_packets w; Some (length (s_inflight_queue w) < unat n, w) }
   }"

section \<open>Loss detection parameters\<close>

definition udx_rtt_min :: "world \<Rightarrow> u32" where
  "udx_rtt_min w = win_filter_get (s_rtt_min w)"

definition rack_update_reo_wnd :: "world \<Rightarrow> u32" where
  "rack_update_reo_wnd w =
    (if \<not> s_reordering_seen w \<and> (s_ca_state w = UDX_CA_RECOVERY \<or> s_ca_state w = UDX_CA_LOSS) then 0
     else if \<not> s_reordering_seen w \<and> s_sacks w \<ge> 3 then 0
     else let r = udx_rtt_min w div 4 in if r < s_srtt w then r else s_srtt w)"

definition clamp_rtt :: "world \<Rightarrow> u64 \<Rightarrow> u32" where
  "clamp_rtt w rtt =
    (if s_srtt w = 0 then min_uint32 (ucast rtt) UDX_RTT_MAX_MS
     else let outlier_threshold = s_srtt w + 5 * s_rttvar w
          in if rtt > ucast outlier_threshold \<and> rtt > 5000 then min_uint32 outlier_threshold UDX_RTT_MAX_MS
             else ucast rtt)"

text \<open>The round-trip update of \<open>ack_packet\<close> for a packet that was never retransmitted.\<close>

definition rtt_update :: "u32 \<Rightarrow> world \<Rightarrow> world" where
  "rtt_update rtt w =
    (let w = w\<lparr>s_rtt_min := snd (win_filter_apply_min (s_rtt_min w) UDX_RTT_MIN_WINDOW_MS (w_now w) rtt)\<rparr>;
         w = (if s_srtt w = 0 then w\<lparr>s_srtt := rtt, s_rttvar := rtt div 2\<rparr>
              else let delta = (if rtt < s_srtt w then s_srtt w - rtt else rtt - s_srtt w)
                   in w\<lparr>s_rttvar := (3 * s_rttvar w + delta) div 4, s_srtt := (7 * s_srtt w + rtt) div 8\<rparr>);
         w = w\<lparr>s_tlp_permitted := True, s_rto := max_uint32 (s_srtt w + 4 * s_rttvar w) 1000\<rparr>
     in if s_rto w > UDX_RTO_MAX_MS then w\<lparr>s_rto := UDX_RTO_MAX_MS\<rparr> else w)"

section \<open>Accessors\<close>

definition udx_stream_set_seq :: "u32 \<Rightarrow> world \<Rightarrow> world" where
  "udx_stream_set_seq seq w = w\<lparr>s_seq := seq, s_remote_acked := seq, s_send_wl2 := seq\<rparr>"

definition udx_stream_set_ack :: "u32 \<Rightarrow> world \<Rightarrow> world" where
  "udx_stream_set_ack ack w = w\<lparr>s_ack := ack, s_send_wl1 := ack\<rparr>"

definition udx_stream_set_keepalive :: "u32 \<Rightarrow> world \<Rightarrow> world" where
  "udx_stream_set_keepalive ms w =
    (let w = w\<lparr>s_keepalive_timeout_ms := ms\<rparr>
     in if s_remote_acked w = s_seq w \<and> ms \<noteq> 0 \<and> has_flag (s_status w) UDX_STREAM_CONNECTED
        then stream_timer_start UDX_TIMER_KEEPALIVE ms w else w)"

definition udx_stream_set_rwnd_max :: "u32 \<Rightarrow> world \<Rightarrow> world" where
  "udx_stream_set_rwnd_max n w = w\<lparr>s_recv_rwnd_max := n\<rparr>"

definition UV_EALREADY :: int where "UV_EALREADY = -114"

definition udx_stream_recv_start :: "bool \<Rightarrow> world \<Rightarrow> int \<times> world" where
  "udx_stream_recv_start cb w =
    (if has_flag (s_status w) UDX_STREAM_RECEIVING then (UV_EALREADY, w)
     else (0, w\<lparr>s_on_recv := cb, s_status := s_status w OR UDX_STREAM_RECEIVING\<rparr>))"

definition udx_stream_recv_stop :: "world \<Rightarrow> int \<times> world" where
  "udx_stream_recv_stop w =
    (if s_status w AND UDX_STREAM_RECEIVING = 0 then (0, w)
     else (0, w\<lparr>s_on_recv := False, s_status := s_status w XOR UDX_STREAM_RECEIVING\<rparr>))"

definition udx_stream_read_start :: "bool \<Rightarrow> world \<Rightarrow> int \<times> world" where
  "udx_stream_read_start cb w =
    (if has_flag (s_status w) UDX_STREAM_READING then (UV_EALREADY, w)
     else (0, w\<lparr>s_on_read := cb, s_status := s_status w OR UDX_STREAM_READING\<rparr>))"

definition udx_stream_read_stop :: "world \<Rightarrow> int \<times> world" where
  "udx_stream_read_stop w =
    (if s_status w AND UDX_STREAM_READING = 0 then (0, w)
     else (0, w\<lparr>s_on_read := False, s_status := s_status w XOR UDX_STREAM_READING\<rparr>))"

section \<open>Lemmas\<close>

lemma recv_rwnd_bound:
  "uint (get_recv_rwnd env w) =
    max 0 (uint (s_recv_rwnd_max w) - (if s_get_read_buffer_size w then uint (env_read_buffer_size env w) else 0))"
  by (cases "s_get_read_buffer_size w")
    (auto simp: get_recv_rwnd_def Let_def word_less_def uint_sub_if' max_def not_less intro: antisym)

text \<open>
  The sizes of the path MTU search: the MTU in use is the base or a confirmed probe size, the probe
  size never exceeds the maximum while a search can run, and at most three probes of one size are
  outstanding.
\<close>

definition mtu_inv :: "world \<Rightarrow> bool" where
  "mtu_inv w \<longleftrightarrow> UDX_MTU_BASE \<le> uint (s_mtu w) \<and> uint (s_mtu w) \<le> s_mtu_probe_size w
     \<and> s_mtu_probe_size w \<le> UDX_MTU_MAX \<and> s_mtu_max w \<le> UDX_MTU_MAX
     \<and> 0 \<le> s_mtu_probe_count w \<and> s_mtu_probe_count w \<le> UDX_MTU_MAX_PROBES
     \<and> (s_mtu_probe_wanted w \<longrightarrow> s_mtu_probe_count w < UDX_MTU_MAX_PROBES)
     \<and> (s_mtu_state w \<noteq> UDX_MTU_STATE_SEARCH \<longrightarrow> s_mtu_state w \<noteq> UDX_MTU_STATE_SEARCH_COMPLETE \<longrightarrow>
         s_mtu_probe_count w + of_bool (s_mtu_probe_wanted w) \<le> 1)
     \<and> (s_mtu_state w \<noteq> UDX_MTU_STATE_SEARCH_COMPLETE \<longrightarrow> s_mtu_probe_size w \<le> s_mtu_max w)"

lemmas mtu_consts = UDX_MTU_BASE_def UDX_MTU_MAX_def UDX_MTU_MAX_PROBES_def UDX_MTU_STEP_def

lemma uint_mtu: "0 \<le> n \<Longrightarrow> n \<le> 1500 \<Longrightarrow> uint (word_of_int n :: u16) = n"
  by (simp add: unsigned_of_int take_bit_int_eq_self)

lemma mtu_inv_reset: "mtu_inv (reset_mtu_state_machine w)"
  by (simp add: mtu_inv_def reset_mtu_state_machine_def mtu_consts)

lemma mtu_inv_on_ack: "mtu_inv w \<Longrightarrow> mtu_inv (mtu_on_ack pkt w)"
  by (auto simp: mtu_inv_def mtu_on_ack_def mtu_consts Let_def uint_mtu)

lemma mtu_inv_unprobeify: "mtu_inv w \<Longrightarrow> mtu_unprobeify_packet p w = Some w' \<Longrightarrow> mtu_inv w'"
  by (auto simp: mtu_inv_def mtu_unprobeify_packet_def mtu_consts Let_def c_assert_def split: if_splits)

lemma mtu_inv_probe_sent:
  "mtu_inv w \<Longrightarrow> s_mtu_probe_wanted w \<Longrightarrow> mtu_inv (w\<lparr>s_mtu_probe_count := s_mtu_probe_count w + 1, s_mtu_probe_wanted := False\<rparr>)"
  by (simp add: mtu_inv_def mtu_consts)

text \<open>The invariant reads the search only.\<close>

lemma mtu_inv_cong:
  assumes "s_mtu w' = s_mtu w" "s_mtu_state w' = s_mtu_state w" "s_mtu_probe_wanted w' = s_mtu_probe_wanted w"
    "s_mtu_probe_count w' = s_mtu_probe_count w" "s_mtu_probe_size w' = s_mtu_probe_size w" "s_mtu_max w' = s_mtu_max w"
  shows "mtu_inv w' = mtu_inv w"
  using assms by (simp add: mtu_inv_def)

lemma max_payload_mtu:
  assumes "mtu_inv w"
  shows "udx__max_payload w = Some (ucast (s_mtu w) - ucast (if sa_family (s_remote_addr w) = AF_INET then UDX_IPV4_HEADER_SIZE else UDX_IPV6_HEADER_SIZE))"
  using assms by (simp add: udx__max_payload_def mtu_inv_def mtu_consts UDX_IPV4_HEADER_SIZE_def word_less_def)

lemma max_payload_bounds:
  assumes "mtu_inv w" and "udx__max_payload w = Some mp"
  shows "1132 \<le> uint mp" and "uint mp \<le> 1452"
proof -
  have m: "1200 \<le> uint (s_mtu w)" "uint (s_mtu w) \<le> 1500" using assms(1) by (simp_all add: mtu_inv_def mtu_consts)
  have u: "uint (ucast (s_mtu w) :: u32) = uint (s_mtu w)"
    using m by (simp add: unsigned_ucast_eq take_bit_int_eq_self)
  have "uint mp = uint (s_mtu w) - (if sa_family (s_remote_addr w) = AF_INET then 48 else 68)"
    using assms(2) m u max_payload_mtu [OF assms(1)]
    by (auto simp: UDX_IPV4_HEADER_SIZE_def UDX_IPV6_HEADER_SIZE_def uint_sub_if')
  then show "1132 \<le> uint mp" "uint mp \<le> 1452" using m by (auto split: if_splits)
qed

text \<open>How far a search has come: the number of probe acknowledgements it can still use.\<close>

definition mtu_steps_left :: "world \<Rightarrow> nat" where
  "mtu_steps_left w = (if s_mtu_state w = UDX_MTU_STATE_SEARCH_COMPLETE then 0
     else nat ((s_mtu_max w - s_mtu_probe_size w + UDX_MTU_STEP - 1) div UDX_MTU_STEP) + 1)"

lemma mtu_probe_ack_progress:
  assumes "mtu_inv w" "s_mtu_state w = UDX_MTU_STATE_SEARCH" "s_mtu_probe_count w > 0" "p_is_mtu_probe pkt"
  shows "uint (s_mtu (mtu_on_ack pkt w)) = s_mtu_probe_size w"
    and "Suc (mtu_steps_left (mtu_on_ack pkt w)) = mtu_steps_left w"
proof -
  have i: "1200 \<le> s_mtu_probe_size w" "s_mtu_probe_size w \<le> s_mtu_max w" "s_mtu_max w \<le> 1500"
    using assms(1,2) by (auto simp: mtu_inv_def mtu_consts)
  then show "uint (s_mtu (mtu_on_ack pkt w)) = s_mtu_probe_size w"
    using assms(2-4) by (auto simp: mtu_on_ack_def Let_def uint_mtu)
  show "Suc (mtu_steps_left (mtu_on_ack pkt w)) = mtu_steps_left w"
    using i assms(2-4) by (auto simp: mtu_on_ack_def mtu_steps_left_def mtu_consts Let_def)
qed

lemma mtu_steps_bound: "mtu_inv w \<Longrightarrow> mtu_steps_left w \<le> 11"
  by (auto simp: mtu_steps_left_def mtu_inv_def mtu_consts)


lemma probe_size_exact:
  assumes "mtu_probeify_packet pkt wanted = Some (True, pkt')" and "length (p_header pkt) = 20"
  shows "int (unat (p_header pkt' ! 3)) + uint (p_size pkt)
      + uint (if sa_family (p_remote_addr pkt) = AF_INET then UDX_IPV4_HEADER_SIZE else UDX_IPV6_HEADER_SIZE) - 20 = wanted"
    and "pkt' = pkt\<lparr>p_header := (p_header pkt)[3 := p_header pkt' ! 3], p_is_mtu_probe := True\<rparr>"
    and "p_header pkt ! 3 = 0"
  using assms
  by (auto simp: mtu_probeify_packet_def Let_def UDX_HEADER_SIZE_def c_assert_def unsigned_of_int take_bit_int_eq_self
      simp del: of_int_diff of_int_add split: if_splits)

lemma rto_bounds: "1000 \<le> s_rto (rtt_update rtt w)" "s_rto (rtt_update rtt w) \<le> 30000"
  by (auto simp: rtt_update_def Let_def UDX_RTO_MAX_MS_def max_uint32_def not_less)

lemma srtt_weighted:
  fixes s r :: u32
  assumes "s < 2 ^ 28" "r < 2 ^ 28"
  shows "uint ((7 * s + r) div 8) = (7 * uint s + uint r) div 8"
proof -
  have "uint s < 2 ^ 28" "uint r < 2 ^ 28" using assms by (simp_all add: word_less_def)
  then have "uint (7 * s) = 7 * uint s" by (simp add: uint_mult_lem [THEN iffD1])
  then have "uint (7 * s + r) = 7 * uint s + uint r"
    using \<open>uint s < 2 ^ 28\<close> \<open>uint r < 2 ^ 28\<close> by (simp add: uint_plus_if')
  then show ?thesis by (simp add: uint_div)
qed

lemma srtt_update:
  assumes "s_srtt w \<noteq> 0" "s_srtt w < 2 ^ 28" "rtt < 2 ^ 28"
  shows "min (uint (s_srtt w)) (uint rtt) \<le> uint (s_srtt (rtt_update rtt w))"
    and "uint (s_srtt (rtt_update rtt w)) \<le> max (uint (s_srtt w)) (uint rtt)"
proof -
  have "s_srtt (rtt_update rtt w) = (7 * s_srtt w + rtt) div 8"
    using assms(1) by (simp add: rtt_update_def Let_def)
  then have "uint (s_srtt (rtt_update rtt w)) = (7 * uint (s_srtt w) + uint rtt) div 8"
    using srtt_weighted [OF assms(2,3)] by simp
  then show "min (uint (s_srtt w)) (uint rtt) \<le> uint (s_srtt (rtt_update rtt w))"
    "uint (s_srtt (rtt_update rtt w)) \<le> max (uint (s_srtt w)) (uint rtt)"
    by (auto simp: min_def max_def)
qed

lemma tlp_before_rto:
  assumes "schedule_loss_probe advancing w = (True, w')"
  shows "s_pending_timer w' = UDX_TIMER_TLP \<and> (\<exists>t. w_timer w' = Some (w_now w + ucast (t :: u32))
     \<and> t \<le> (if advancing then s_rto w else ucast (rto_delta w)))"
  using assms
  by (auto simp: schedule_loss_probe_def stream_timer_start_def Let_def min_uint32_def split: if_splits)

section \<open>Properties\<close>

text \<open>C30. The path MTU search keeps its sizes in order through every reset, acknowledgement and lost probe, and therefore the
  payload of a packet is always defined and between 1132 and 1452 bytes.\<close>

theorem mtu_search_invariant:
  assumes "mtu_inv w"
  shows "mtu_inv (reset_mtu_state_machine w) \<and> mtu_inv (mtu_on_ack pkt w)
    \<and> (\<forall>w'. mtu_unprobeify_packet p w = Some w' \<longrightarrow> mtu_inv w')
    \<and> (\<exists>mp. udx__max_payload w = Some mp \<and> 1132 \<le> uint mp \<and> uint mp \<le> 1452)"
  using mtu_inv_reset mtu_inv_on_ack [OF assms] mtu_inv_unprobeify [OF assms] max_payload_mtu [OF assms]
    max_payload_bounds [OF assms] by auto

theorem mtu_search_invariant_witness:
  "mtu_inv (mtu_on_ack empty_packet (reset_mtu_state_machine (zero_stream 0 0)))
   \<and> (\<exists>mp. udx__max_payload (reset_mtu_state_machine (zero_stream 0 0)) = Some mp \<and> 1132 \<le> uint mp \<and> uint mp \<le> 1452)"
  using mtu_search_invariant [OF mtu_inv_reset [of "zero_stream 0 0"]] by blast

text \<open>C31. The search ends: an acknowledged probe makes its size the MTU in use and takes one of the steps the search has
  left, of which there are never more than eleven.\<close>

theorem mtu_search_ends:
  assumes "mtu_inv w" "s_mtu_state w = UDX_MTU_STATE_SEARCH" "s_mtu_probe_count w > 0" "p_is_mtu_probe pkt"
  shows "uint (s_mtu (mtu_on_ack pkt w)) = s_mtu_probe_size w
    \<and> Suc (mtu_steps_left (mtu_on_ack pkt w)) = mtu_steps_left w \<and> mtu_steps_left w \<le> 11"
  using mtu_probe_ack_progress [OF assms] mtu_steps_bound [OF assms(1)] by blast

theorem mtu_search_ends_witness:
  "uint (s_mtu (mtu_on_ack (empty_packet\<lparr>p_is_mtu_probe := True\<rparr>)
     (zero_stream 0 0\<lparr>s_mtu := 1200, s_mtu_state := UDX_MTU_STATE_SEARCH, s_mtu_probe_count := 1, s_mtu_probe_size := 1232, s_mtu_max := 1500\<rparr>)))
   = 1232"
  using mtu_search_ends [of "zero_stream 0 0\<lparr>s_mtu := 1200, s_mtu_state := UDX_MTU_STATE_SEARCH, s_mtu_probe_count := 1,
      s_mtu_probe_size := 1232, s_mtu_max := 1500\<rparr>" "empty_packet\<lparr>p_is_mtu_probe := True\<rparr>"]
  by (simp add: mtu_inv_def mtu_consts zero_stream_def)

text \<open>C32. A packet promoted to a probe has exactly the wanted size on the wire, IP and UDP headers included: the padding fits
  its byte in the header, was unset before, and nothing else of the packet changes.\<close>

theorem probe_has_wanted_size:
  assumes "mtu_probeify_packet pkt wanted = Some (True, pkt')" and "length (p_header pkt) = 20"
  shows "int (unat (p_header pkt' ! 3)) + uint (p_size pkt)
      + uint (if sa_family (p_remote_addr pkt) = AF_INET then UDX_IPV4_HEADER_SIZE else UDX_IPV6_HEADER_SIZE) - 20 = wanted
    \<and> pkt' = pkt\<lparr>p_header := (p_header pkt)[3 := p_header pkt' ! 3], p_is_mtu_probe := True\<rparr> \<and> p_header pkt ! 3 = 0"
  using probe_size_exact [OF assms] by blast+

theorem probe_has_wanted_size_witness:
  "\<exists>pkt'. mtu_probeify_packet (empty_packet\<lparr>p_header := (replicate 20 0)[2 := UDX_HEADER_DATA], p_size := 1100,
       p_remote_addr := \<lparr>sa_family = AF_INET, sa_port = 1, sa_addr = [127, 0, 0, 1]\<rparr>\<rparr>) 1232 = Some (True, pkt')
     \<and> unat (p_header pkt' ! 3) = 104"
proof -
  let ?pkt = "empty_packet\<lparr>p_header := (replicate 20 0)[2 := UDX_HEADER_DATA], p_size := 1100,
    p_remote_addr := \<lparr>sa_family = AF_INET, sa_port = 1, sa_addr = [127, 0, 0, 1]\<rparr>\<rparr>"
  obtain pkt' where p: "mtu_probeify_packet ?pkt 1232 = Some (True, pkt')"
    by (simp add: mtu_probeify_packet_def header_flag_defs UDX_HEADER_SIZE_def UDX_IPV4_HEADER_SIZE_def c_assert_def)
  from probe_has_wanted_size [OF p] have "uint (p_header pkt' ! 3) = 104" by (simp add: UDX_IPV4_HEADER_SIZE_def)
  then have "unat (p_header pkt' ! 3) = 104" by (simp add: unat_eq_nat_uint)
  with p show ?thesis by blast
qed

text \<open>C33. Whatever round trip is measured, the retransmission timeout stays between one and thirty seconds, and the smoothed
  round trip moves towards the sample: it lies between its old value and the sample.\<close>

theorem rtt_update_bounds:
  assumes "s_srtt w \<noteq> 0" "s_srtt w < 2 ^ 28" "rtt < 2 ^ 28"
  shows "1000 \<le> s_rto (rtt_update rtt w) \<and> s_rto (rtt_update rtt w) \<le> 30000
    \<and> min (uint (s_srtt w)) (uint rtt) \<le> uint (s_srtt (rtt_update rtt w))
    \<and> uint (s_srtt (rtt_update rtt w)) \<le> max (uint (s_srtt w)) (uint rtt)"
  using rto_bounds srtt_update [OF assms] by blast

theorem rtt_update_bounds_witness:
  "uint (s_srtt (rtt_update 80 (zero_stream 0 0\<lparr>s_srtt := 40\<rparr>))) \<in> {40..80} \<and> 1000 \<le> s_rto (rtt_update 80 (zero_stream 0 0\<lparr>s_srtt := 40\<rparr>))"
  using rtt_update_bounds [of "zero_stream 0 0\<lparr>s_srtt := 40\<rparr>" 80] by simp

text \<open>A tail loss probe never waits longer than the retransmission timeout it precedes.\<close>

theorem tlp_not_after_rto:
  assumes "schedule_loss_probe advancing w = (True, w')"
  shows "s_pending_timer w' = UDX_TIMER_TLP \<and> (\<exists>t. w_timer w' = Some (w_now w + ucast (t :: u32))
     \<and> t \<le> (if advancing then s_rto w else ucast (rto_delta w)))"
  using tlp_before_rto [OF assms] .

theorem tlp_not_after_rto_witness:
  "s_pending_timer (snd (schedule_loss_probe True (zero_stream 0 0\<lparr>s_seq := 5, s_rto := 1000\<rparr>))) = UDX_TIMER_TLP"
proof -
  have "schedule_loss_probe True (zero_stream 0 0\<lparr>s_seq := 5, s_rto := 1000\<rparr>)
    = (True, snd (schedule_loss_probe True (zero_stream 0 0\<lparr>s_seq := 5, s_rto := 1000\<rparr>)))"
    by (simp add: schedule_loss_probe_def zero_stream_def)
  from tlp_not_after_rto [OF this] show ?thesis by blast
qed

text \<open>The advertised receive window is the configured maximum less what the reader has buffered, never below zero.\<close>

theorem recv_window_advertised:
  "uint (get_recv_rwnd env w) =
    max 0 (uint (s_recv_rwnd_max w) - (if s_get_read_buffer_size w then uint (env_read_buffer_size env w) else 0))"
  by (rule recv_rwnd_bound)

lemma uint_mult_u64: "uint ((x :: u64) * y) = uint x * uint y mod 2 ^ 64"
  by (simp only: uint_word_ariths len_num1 len_num0 len_bit0 len_bit1 power_numeral) simp

lemma uint_trunc_u32: "uint (ucast (x :: u64) :: u32) = uint x mod 2 ^ 32"
  by (simp add: unsigned_ucast_eq take_bit_eq_mod)

text \<open>C34. A limit of the pacing arithmetic: the tokens of an idle period are truncated to 32 bits, so a period whose product
  with the pacing rate is a multiple of \<open>2 ^ 32\<close> leaves no token at all, and the stream may not send although it has been
  idle the longest.\<close>

theorem pacing_tokens_truncated:
  assumes "s_cwnd w > 0" "w_now w > s_tb_last_refill_ms w" "s_pacing_bytes_per_ms w > 0"
    and "2 ^ 32 dvd uint (w_now w - s_tb_last_refill_ms w) * uint (s_pacing_bytes_per_ms w)"
  shows "\<exists>w'. stream_may_send retransmit w = Some (False, w') \<and> s_tb_available w' = 0 \<and> w_pacing_timer w' = w_pacing_timer w"
proof -
  have "uint (ucast ((w_now w - s_tb_last_refill_ms w) * ucast (s_pacing_bytes_per_ms w)) :: u32)
    = uint (w_now w - s_tb_last_refill_ms w) * uint (s_pacing_bytes_per_ms w) mod 2 ^ 64 mod 2 ^ 32"
    by (simp only: uint_trunc_u32 uint_mult_u64 uint_ucast_u64)
  also have "\<dots> = 0" using assms(4) by (simp add: mod_mod_cancel dvd_imp_mod_0)
  finally have "ucast ((w_now w - s_tb_last_refill_ms w) * ucast (s_pacing_bytes_per_ms w)) = (0 :: u32)"
    by (simp add: uint_0_iff)
  then show ?thesis
    using assms(1-3) by (simp add: stream_may_send_def update_pacing_time_def c_assert_def)
qed

theorem pacing_tokens_truncated_witness:
  "\<exists>w'. stream_may_send False (zero_stream 0x100000 0\<lparr>s_cwnd := 10, s_pacing_bytes_per_ms := 4096\<rparr>) = Some (False, w') \<and> s_tb_available w' = 0"
  using pacing_tokens_truncated [of "zero_stream 0x100000 0\<lparr>s_cwnd := 10, s_pacing_bytes_per_ms := 4096\<rparr>" False]
  by (auto simp: zero_stream_def)

end
