(* ===== verification/Udx_Rate.thy ===== *)
theory Udx_Rate
  imports Udx_Stream_Ops
begin

text \<open>
  Delivery rate samples: \<open>src/udx_rate.c\<close>.  Each packet records the delivery state when it is sent;
  acknowledging it turns the difference into a sample.  Shown: the interval of a valid sample is the longer of the
  send and the acknowledgement interval and never below the minimal round trip, the application-limited mark
  is never the value zero that means "not limited", and an application-limited sample replaces the saved rate only if
  it is at least as high.
\<close>

section \<open>Operations\<close>

definition udx__rate_pkt_sent :: "addr \<Rightarrow> world \<Rightarrow> world" where
  "udx__rate_pkt_sent p w =
    (let w = (if s_seq w = s_remote_acked w then w\<lparr>s_first_sent_ts := w_now w, s_delivered_ts := w_now w\<rparr> else w)
     in upd_packet p (\<lambda>pkt. pkt\<lparr>p_first_sent_ts := s_first_sent_ts w, p_delivered_ts := s_delivered_ts w,
          p_delivered := s_delivered w, p_is_app_limited := s_app_limited w \<noteq> 0\<rparr>) w)"

definition stamp_ms_delta :: "u64 \<Rightarrow> u64 \<Rightarrow> u32" where
  "stamp_ms_delta t1 t0 = word_of_int (max_int64 (sint t1 - sint t0) 0)"

definition udx__rate_pkt_delivered :: "udx_packet \<Rightarrow> udx_rate_sample \<Rightarrow> world \<Rightarrow> udx_rate_sample \<times> world" where
  "udx__rate_pkt_delivered pkt rs w =
    (if p_delivered_ts pkt = 0 then (rs, w)
     else if rs_prior_delivered rs = 0 \<or> rack_sent_after (p_time_sent pkt) (p_seq pkt) (s_first_sent_ts w) (rs_seq rs) then
       (let rs = rs\<lparr>rs_prior_delivered := p_delivered pkt, rs_prior_timestamp := p_delivered_ts pkt,
                    rs_is_app_limited := p_is_app_limited pkt, rs_is_retrans := p_retransmitted pkt, rs_seq := p_seq pkt\<rparr>;
            w = w\<lparr>s_first_sent_ts := p_time_sent pkt\<rparr>
        in (rs\<lparr>rs_interval_ms := uint (stamp_ms_delta (s_first_sent_ts w) (p_first_sent_ts pkt))\<rparr>, w))
     else (rs, w))"

text \<open>The head of \<open>udx__rate_gen\<close>: leave the application-limited phase when its packets are acknowledged.\<close>

definition rate_gen_head :: "u32 \<Rightarrow> world \<Rightarrow> world" where
  "rate_gen_head delivered w =
    (let w = (if s_app_limited w \<noteq> 0 \<and> seq_compare (s_delivered w) (s_app_limited w) > 0 then w\<lparr>s_app_limited := 0\<rparr> else w)
     in if delivered \<noteq> 0 then w\<lparr>s_delivered_ts := w_now w\<rparr> else w)"

definition udx__rate_gen :: "u32 \<Rightarrow> u32 \<Rightarrow> udx_rate_sample \<Rightarrow> world \<Rightarrow> udx_rate_sample \<times> world" where
  "udx__rate_gen delivered lost rs w =
    (let now_ms = w_now w;
         w = rate_gen_head delivered w;
         rs = rs\<lparr>rs_acked_sacked := delivered, rs_losses := sint lost\<rparr>
     in if rs_prior_timestamp rs = 0 then (rs\<lparr>rs_delivered := - 1, rs_interval_ms := - 1\<rparr>, w)
        else
          let rs = rs\<lparr>rs_delivered := sint (s_delivered w - rs_prior_delivered rs)\<rparr>;
              snd_ms = word_of_int (rs_interval_ms rs) :: u32;
              ack_ms = stamp_ms_delta now_ms (rs_prior_timestamp rs);
              rs = rs\<lparr>rs_interval_ms := uint (max_uint32 snd_ms ack_ms), rs_snd_interval_ms := snd_ms, rs_rcv_interval_ms := ack_ms\<rparr>
          in if rs_interval_ms rs < uint (udx_rtt_min w) then (rs\<lparr>rs_interval_ms := - 1\<rparr>, w)
             else if \<not> rs_is_app_limited rs \<or>
               (word_of_int (rs_delivered rs) :: u64) * ucast (s_rate_interval_ms w)
                 \<ge> ucast (s_rate_delivered w) * word_of_int (rs_interval_ms rs)
             then (rs, w\<lparr>s_rate_delivered := word_of_int (rs_delivered rs), s_rate_interval_ms := word_of_int (rs_interval_ms rs),
                         s_rate_sample_is_app_limited := rs_is_app_limited rs\<rparr>)
             else (rs, w))"

definition udx__rate_check_app_limited :: "world \<Rightarrow> world option" where
  "udx__rate_check_app_limited w = do {
     mp \<leftarrow> udx__max_payload w;
     Some (if s_writes_queued_bytes w < ucast mp \<and> length (s_inflight_queue w) < unat (s_cwnd w) \<and> s_retransmit_queue w = []
           then w\<lparr>s_app_limited :=
             (let mark = s_delivered w + of_nat (length (s_inflight_queue w)) in if mark \<noteq> 0 then mark else 1)\<rparr>
           else w)
   }"

section \<open>Lemmas\<close>

lemma app_limited_mark:
  assumes "udx__rate_check_app_limited w = Some w'"
  shows "w' = w \<or> (s_app_limited w' \<noteq> 0 \<and> (\<exists>m. w' = w\<lparr>s_app_limited := m\<rparr>)
    \<and> s_retransmit_queue w = [] \<and> length (s_inflight_queue w) < unat (s_cwnd w))"
  using assms by (auto simp: udx__rate_check_app_limited_def Let_def bind_eq_Some_conv split: if_splits)

text \<open>The times of the loop are far below \<open>2 ^ 63\<close>, so that differences are exact.\<close>

lemma sint_u64_small: "t < 2 ^ 63 \<Longrightarrow> sint (t :: u64) = uint t"
  by (simp add: sint_uint signed_take_bit_eq_if_positive word_less_def not_less bit_iff_odd take_bit_int_eq_self)

lemma stamp_delta:
  assumes "t1 < 2 ^ 63" "t0 < 2 ^ 63" "uint t1 - uint t0 < 2 ^ 32"
  shows "uint (stamp_ms_delta t1 t0) = max 0 (uint t1 - uint t0)"
  using assms by (auto simp: stamp_ms_delta_def sint_u64_small unsigned_of_int max_def take_bit_int_eq_self)

lemma rate_gen_head_simps [simp]:
  "s_delivered (rate_gen_head d w) = s_delivered w" "s_rtt_min (rate_gen_head d w) = s_rtt_min w"
  "s_rate_delivered (rate_gen_head d w) = s_rate_delivered w" "s_rate_interval_ms (rate_gen_head d w) = s_rate_interval_ms w"
  by (simp_all add: rate_gen_head_def Let_def)

lemma rate_gen_cases:
  assumes "udx__rate_gen delivered lost rs w = (rs', w')"
  shows "rs_acked_sacked rs' = delivered" and "rs_losses rs' = sint lost"
    and "rs_interval_ms rs' = - 1 \<or>
      rs_interval_ms rs' = uint (max (rs_snd_interval_ms rs') (rs_rcv_interval_ms rs'))
      \<and> uint (udx_rtt_min w) \<le> rs_interval_ms rs'
      \<and> rs_delivered rs' = sint (s_delivered w - rs_prior_delivered rs)"
  using assms
  by (auto simp: udx__rate_gen_def Let_def udx_rtt_min_def split: if_splits)

lemma uint_u32_less: "uint (x :: u32) < 4294967296"
  using uint_bounded [of x] by simp

lemma u64_product:
  fixes x y :: int
  assumes "0 \<le> x" "x < 2 ^ 32" "0 \<le> y" "y < 2 ^ 32"
  shows "uint (word_of_int x * word_of_int y :: u64) = x * y"
proof -
  have "x * y \<le> (2 ^ 32 - 1) * (2 ^ 32 - 1)" using assms by (intro mult_mono) auto
  then have "x * y < 2 ^ 64" by simp
  moreover have "0 \<le> x * y" "x < 2 ^ 64" "y < 2 ^ 64" using assms by simp_all
  ultimately show ?thesis by (simp add: uint_word_ariths unsigned_of_int take_bit_int_eq_self assms)
qed

lemma ucast_u64_of_uint: "(ucast (x :: u32) :: u64) = word_of_int (uint x)"
  by (simp add: word_uint_eq_iff uint_ucast_u64 unsigned_of_int take_bit_int_eq_self order_less_trans [OF uint_u32_less])

lemma rate_gen_saved:
  assumes gen: "udx__rate_gen delivered lost rs w = (rs', w')" and lim: "rs_is_app_limited rs" and nn: "0 \<le> rs_delivered rs'"
  shows "(s_rate_delivered w', s_rate_interval_ms w') = (s_rate_delivered w, s_rate_interval_ms w)
    \<or> uint (s_rate_delivered w) * uint (s_rate_interval_ms w') \<le> uint (s_rate_delivered w') * uint (s_rate_interval_ms w)"
proof -
  define x where "x = s_delivered w - rs_prior_delivered rs"
  define y where "y = max (word_of_int (rs_interval_ms rs) :: u32) (stamp_ms_delta (w_now w) (rs_prior_timestamp rs))"
  have "(s_rate_delivered w', s_rate_interval_ms w') = (s_rate_delivered w, s_rate_interval_ms w) \<or>
    rs_delivered rs' = sint x \<and> s_rate_delivered w' = word_of_int (sint x) \<and> s_rate_interval_ms w' = y
      \<and> (word_of_int (sint x) :: u64) * ucast (s_rate_interval_ms w) \<ge> ucast (s_rate_delivered w) * word_of_int (uint y)"
  proof (cases "rs_prior_timestamp rs = 0 \<or> uint y < uint (udx_rtt_min w)")
    case True
    then have "w' = rate_gen_head delivered w"
      using gen unfolding udx__rate_gen_def Let_def
      by (elim disjE; cases "rs_prior_timestamp rs = 0") (simp_all add: y_def udx_rtt_min_def)
    then show ?thesis by simp
  next
    case False
    define rs1 where "rs1 = rs\<lparr>rs_acked_sacked := delivered, rs_losses := sint lost, rs_delivered := sint x,
      rs_interval_ms := uint y, rs_snd_interval_ms := word_of_int (rs_interval_ms rs),
      rs_rcv_interval_ms := stamp_ms_delta (w_now w) (rs_prior_timestamp rs)\<rparr>"
    have "(rs', w') = (if (word_of_int (sint x) :: u64) * ucast (s_rate_interval_ms w) \<ge> ucast (s_rate_delivered w) * word_of_int (uint y)
       then (rs1, (rate_gen_head delivered w)\<lparr>s_rate_delivered := word_of_int (sint x), s_rate_interval_ms := word_of_int (uint y),
              s_rate_sample_is_app_limited := rs_is_app_limited rs\<rparr>)
       else (rs1, rate_gen_head delivered w))"
      using False lim unfolding gen [symmetric] udx__rate_gen_def Let_def
      by (simp add: x_def y_def rs1_def udx_rtt_min_def)
    then show ?thesis by (simp add: rs1_def split: if_splits)
  qed
  then show ?thesis
  proof (elim disjE conjE)
    assume d: "rs_delivered rs' = sint x" and rd: "s_rate_delivered w' = word_of_int (sint x)"
      and ri: "s_rate_interval_ms w' = y"
      and le: "(word_of_int (sint x) :: u64) * ucast (s_rate_interval_ms w) \<ge> ucast (s_rate_delivered w) * word_of_int (uint y)"
    have b: "0 \<le> rs_delivered rs'" "rs_delivered rs' < 2 ^ 32" using nn d sint_lt [of x] by simp_all
    have "uint (s_rate_delivered w) * uint y \<le> rs_delivered rs' * uint (s_rate_interval_ms w)"
    proof -
      have "uint (word_of_int (uint (s_rate_delivered w)) * word_of_int (uint y) :: u64)
        \<le> uint (word_of_int (sint x) * word_of_int (uint (s_rate_interval_ms w)) :: u64)"
        using le unfolding word_le_def ucast_u64_of_uint .
      moreover have "uint (word_of_int (uint (s_rate_delivered w)) * word_of_int (uint y) :: u64) = uint (s_rate_delivered w) * uint y"
        using uint_u32_less by (intro u64_product) simp_all
      moreover have "uint (word_of_int (sint x) * word_of_int (uint (s_rate_interval_ms w)) :: u64) = sint x * uint (s_rate_interval_ms w)"
        using b d uint_u32_less by (intro u64_product) simp_all
      ultimately show ?thesis using d by simp
    qed
    moreover have "uint (s_rate_delivered w') = rs_delivered rs'"
      using rd b uint_u32_less [of x] unfolding d by (simp add: sint_u32 split: if_splits)
    ultimately show ?thesis using ri by simp
  qed simp
qed

section \<open>Properties\<close>

text \<open>A delivery rate sample is either marked invalid or its interval is the longer of the send and the acknowledgement
  interval and not below the minimal round trip, so that compressed acknowledgements cannot inflate the rate; and
  what it counts as delivered is what was delivered since the packet was sent.\<close>

theorem rate_sample_interval:
  assumes "udx__rate_gen delivered lost rs w = (rs', w')"
  shows "rs_acked_sacked rs' = delivered \<and> (rs_interval_ms rs' = - 1 \<or>
      rs_interval_ms rs' = uint (max (rs_snd_interval_ms rs') (rs_rcv_interval_ms rs'))
      \<and> uint (udx_rtt_min w) \<le> rs_interval_ms rs'
      \<and> rs_delivered rs' = sint (s_delivered w - rs_prior_delivered rs))"
  using rate_gen_cases [OF assms] by blast

definition sample0 :: udx_rate_sample where
  "sample0 = \<lparr>rs_prior_timestamp = 0, rs_prior_delivered = 0, rs_delivered = 0, rs_interval_ms = 0, rs_snd_interval_ms = 0,
     rs_rcv_interval_ms = 0, rs_rtt_ms = 0, rs_losses = 0, rs_acked_sacked = 0, rs_seq = 0, rs_is_app_limited = False,
     rs_is_retrans = False, rs_is_ack_delayed = False\<rparr>"

theorem rate_sample_interval_witness:
  "rs_acked_sacked (fst (udx__rate_gen 3 0 sample0 (zero_stream 9 0))) = 3"
  using rate_sample_interval [of 3 0 sample0 "zero_stream 9 0" "fst (udx__rate_gen 3 0 sample0 (zero_stream 9 0))"
      "snd (udx__rate_gen 3 0 sample0 (zero_stream 9 0))"] by simp

text \<open>A sample taken while the application, not the network, limited sending replaces the saved rate only if the saved rate,
  delivered over interval, is at most as high.\<close>

theorem rate_app_limited_saved:
  assumes "udx__rate_gen delivered lost rs w = (rs', w')" and "rs_is_app_limited rs" and "0 \<le> rs_delivered rs'"
  shows "(s_rate_delivered w', s_rate_interval_ms w') = (s_rate_delivered w, s_rate_interval_ms w)
    \<or> uint (s_rate_delivered w) * uint (s_rate_interval_ms w') \<le> uint (s_rate_delivered w') * uint (s_rate_interval_ms w)"
  by (rule rate_gen_saved [OF assms])

theorem rate_app_limited_saved_witness:
  "\<exists>w'. w' = snd (udx__rate_gen 3 0 (sample0\<lparr>rs_is_app_limited := True, rs_prior_timestamp := 4\<rparr>) (zero_stream 9 0\<lparr>s_delivered := 6, s_rate_delivered := 1, s_rate_interval_ms := 7\<rparr>))
    \<and> ((s_rate_delivered w', s_rate_interval_ms w') = (1, 7) \<or> uint (s_rate_interval_ms w') \<le> uint (s_rate_delivered w') * 7)"
proof -
  let ?rs = "sample0\<lparr>rs_is_app_limited := True, rs_prior_timestamp := 4\<rparr>"
  let ?w = "zero_stream 9 0\<lparr>s_delivered := 6, s_rate_delivered := 1, s_rate_interval_ms := 7\<rparr>"
  have d: "0 \<le> rs_delivered (fst (udx__rate_gen 3 0 ?rs ?w))"
    by (simp add: udx__rate_gen_def sample0_def rate_gen_head_def Let_def)
  show ?thesis
    using rate_app_limited_saved [of 3 0 ?rs ?w "fst (udx__rate_gen 3 0 ?rs ?w)" "snd (udx__rate_gen 3 0 ?rs ?w)", OF _ _ d]
    by (simp add: sample0_def)
qed

end
