(* ===== verification/Udx_Double.thy ===== *)
theory Udx_Double
  imports Udx_Prelude "HOL-Library.Log_Nat"
begin

text \<open>
  C's \<open>double\<close> and \<open>float\<close> as rationals: an arithmetic result is rounded to the nearest value with 53 (24)
  significant bits, ties to even.  Infinities, NaN, subnormal numbers and overflow are left out; the
  values the congestion control computes with are rates, gains and round-trip times far inside the range.
  Shown: rounding keeps zero, sign and order of zero, and is exact on the integers below \<open>2^53\<close> (\<open>2^24\<close>).
\<close>

definition pow2 :: "int \<Rightarrow> rat" where
  "pow2 e = (if 0 \<le> e then 2 ^ nat e else 1 / 2 ^ nat (- e))"

definition round_half_even :: "rat \<Rightarrow> int" where
  "round_half_even x = (let f = \<lfloor>x\<rfloor>; d = x - of_int f in if d < 1 / 2 \<or> (d = 1 / 2 \<and> even f) then f else f + 1)"

text \<open>The power of two that scales a positive \<open>y\<close> into \<open>[2^(p-1), 2^p)\<close>.\<close>

definition float_scale :: "nat \<Rightarrow> rat \<Rightarrow> int" where
  "float_scale p y =
    (let (n, d) = quotient_of y; s = int p + bitlen d - bitlen n in if y * pow2 s < 2 ^ p then s else s - 1)"

definition float_round :: "nat \<Rightarrow> rat \<Rightarrow> rat" where
  "float_round p x =
    (if x = 0 then 0 else let s = float_scale p \<bar>x\<bar> in of_int (round_half_even (x * pow2 s)) * pow2 (- s))"

definition f64_of :: "rat \<Rightarrow> f64" where "f64_of = float_round 53"
definition f32_of :: "rat \<Rightarrow> f64" where "f32_of = float_round 24"

definition f64_mul :: "f64 \<Rightarrow> f64 \<Rightarrow> f64" where "f64_mul x y = f64_of (x * y)"
definition f64_div :: "f64 \<Rightarrow> f64 \<Rightarrow> f64" where "f64_div x y = f64_of (x / y)"
definition f64_of_u32 :: "u32 \<Rightarrow> f64" where "f64_of_u32 n = of_int (uint n)"

lemma pow2_pos [simp]: "0 < pow2 e"
  by (simp add: pow2_def)

lemma pow2_nonneg [simp]: "0 \<le> pow2 e"
  by (simp add: less_imp_le)

lemma pow2_nat: "0 \<le> e \<Longrightarrow> pow2 e = of_int (2 ^ nat e)"
  by (simp add: pow2_def)

lemma pow2_add: "pow2 (a + b) = pow2 a * pow2 b"
proof -
  have "pow2 e = 2 powi e" for e
    by (auto simp: pow2_def power_int_def field_simps)
  then show ?thesis by (simp add: power_int_add)
qed

lemma pow2_minus: "pow2 a * pow2 (- a) = 1"
  using pow2_add [of a "- a"] by (simp add: pow2_def)

lemma float_scale_lower:
  assumes "0 < y" "0 < p"
  shows "2 ^ (p - 1) \<le> y * pow2 (float_scale p y)"
proof -
  obtain n d where q: "quotient_of y = (n, d)" by force
  then have y: "y = of_int n / of_int d" and d: "0 < d"
    by (auto simp: quotient_of_div quotient_of_denom_pos)
  then have n: "0 < n" using assms(1) by (simp add: zero_less_divide_iff)
  let ?s = "int p + bitlen d - bitlen n"
  have bn: "2 ^ nat (bitlen n - 1) \<le> n" using bitlen_bounds [OF n] by simp
  have bd: "d < 2 ^ nat (bitlen d)" using bitlen_bounds [OF d] by simp
  have "0 < bitlen n" "0 < bitlen d"
    using n d bitlen_nonneg [of n] bitlen_nonneg [of d] bitlen_eq_zero_iff [of n] bitlen_eq_zero_iff [of d] by linarith+
  have "pow2 (bitlen n - 1) \<le> of_int n"
    using bn \<open>0 < bitlen n\<close> by (simp add: pow2_nat of_int_le_iff [symmetric] del: of_int_le_iff of_int_power)
  moreover have "of_int d \<le> pow2 (bitlen d)"
    using bd \<open>0 < bitlen d\<close> by (simp add: pow2_nat of_int_le_iff del: of_int_power)
  ultimately have "pow2 (bitlen n - 1) / pow2 (bitlen d) \<le> y"
    unfolding y using d n by (intro frac_le) auto
  then have "pow2 (bitlen n - 1) / pow2 (bitlen d) * pow2 ?s \<le> y * pow2 ?s" by (rule mult_right_mono) simp
  moreover have "pow2 (bitlen n - 1) / pow2 (bitlen d) * pow2 ?s = 2 ^ p / 2"
  proof -
    have "pow2 ?s * pow2 (bitlen n - 1) = pow2 (int p - 1) * pow2 (bitlen d)"
      by (simp only: pow2_add [symmetric]) (simp add: algebra_simps)
    moreover have "pow2 (int p - 1) = 2 ^ p / 2"
      using assms(2) by (cases p) (simp_all add: pow2_def)
    ultimately show ?thesis using pow2_pos [of "bitlen d"] by (simp add: field_simps less_imp_neq [THEN not_sym])
  qed
  ultimately have low: "2 ^ p / 2 \<le> y * pow2 ?s" by metis
  have half: "(2 :: rat) ^ (p - 1) = 2 ^ p / 2" using assms(2) by (cases p) simp_all
  show ?thesis
  proof (cases "y * pow2 ?s < 2 ^ p")
    case True
    then show ?thesis using low half q by (simp add: float_scale_def)
  next
    case False
    have p2: "pow2 (?s - 1) = pow2 ?s / 2" using pow2_add [of "?s - 1" 1] by (simp add: pow2_def [of 1])
    have fs: "float_scale p y = ?s - 1" using False q by (simp add: float_scale_def Let_def)
    have "2 ^ p / 2 \<le> y * (pow2 ?s / 2)" using False by (simp add: not_less)
    then show ?thesis unfolding fs p2 half .
  qed
qed

lemma round_half_even_ge: "of_int n \<le> x \<Longrightarrow> n \<le> round_half_even x"
  using le_floor_iff [of n x] by (auto simp: round_half_even_def Let_def)

lemma round_half_even_int [simp]: "round_half_even (of_int n) = n"
  by (simp add: round_half_even_def)

lemma float_round_0 [simp]: "float_round p 0 = 0"
  by (simp add: float_round_def)

lemma float_round_pos:
  assumes "0 < x" "0 < p"
  shows "0 < float_round p x"
proof -
  have "(1 :: rat) \<le> 2 ^ (p - 1)" by simp
  then have "of_int 1 \<le> x * pow2 (float_scale p x)" using float_scale_lower [OF assms] by (metis of_int_1 order.trans)
  then have "1 \<le> round_half_even (x * pow2 (float_scale p x))" by (rule round_half_even_ge)
  then show ?thesis using assms(1) by (simp add: float_round_def Let_def)
qed

lemma f64_of_0 [simp]: "f64_of 0 = 0"
  by (simp add: f64_of_def)

lemma f64_of_pos: "0 < x \<Longrightarrow> 0 < f64_of x"
  by (simp add: f64_of_def float_round_pos)

lemma f64_of_nonneg: "0 \<le> x \<Longrightarrow> 0 \<le> f64_of x"
  using f64_of_pos [of x] by (cases "x = 0") simp_all

lemma f64_of_u32_nonneg [simp]: "0 \<le> f64_of_u32 n"
  unfolding f64_of_u32_def of_int_0_le_iff by (rule unsigned_greater_eq)

lemma f64_of_u32_pos: "n \<noteq> 0 \<Longrightarrow> 0 < f64_of_u32 n"
  unfolding f64_of_u32_def of_int_0_less_iff by (simp add: word_neq_0_conv word_less_def)

text \<open>Integers that fit the significand are represented exactly.\<close>

lemma float_round_int:
  assumes "0 < n" "n < 2 ^ p" "0 < p"
  shows "float_round p (of_int n) = of_int n"
proof -
  have q: "quotient_of (of_int n) = (n, 1)" by simp
  have b: "bitlen n \<le> int p" using bitlen_le_iff_power [of n "int p"] assms by simp
  have b1: "bitlen 1 = 1" by (simp add: bitlen_def floorlog_def)
  have s: "0 \<le> float_scale p (of_int n)"
  proof (cases "bitlen n = int p")
    case True
    then have "float_scale p (of_int n) = (if of_int n * pow2 1 < (2 :: rat) ^ p then 1 else 0)"
      by (simp add: float_scale_def q b1)
    then show ?thesis by simp
  qed (use b in \<open>auto simp: float_scale_def q b1 Let_def\<close>)
  have "(of_int n :: rat) * pow2 (float_scale p (of_int n)) = of_int (n * 2 ^ nat (float_scale p (of_int n)))"
    using s by (simp add: pow2_def)
  then have "round_half_even (of_int n * pow2 (float_scale p (of_int n))) = n * 2 ^ nat (float_scale p (of_int n))"
    by (metis round_half_even_int)
  then show ?thesis
    using assms(1) s pow2_minus [of "float_scale p (of_int n)"] pow2_nat [OF s]
    by (simp add: float_round_def Let_def mult.assoc)
qed

end
