(* ===== verification/Udx_Bbr.thy ===== *)
theory Udx_Bbr
  imports Udx_Stream_Ops Udx_Double
begin

text \<open>
  Congestion control: \<open>src/udx_bbr.c\<close>.  From one rate sample per acknowledgement the module keeps a model of the path
  (maximal bandwidth, minimal round trip) and sets the pacing rate and the congestion window.  The
  functions are translated one by one; \<open>None\<close> is a failed assertion.

  Shown: the modes form a state machine (draining and bandwidth probing only once the pipe was found full,
  which stays so), the gains fit the mode, the congestion window is never zero and at most four packets while
  the round trip is probed, and \<open>bbr_main\<close> fails only for a sample that claims an interval
  without any delivered packet.
\<close>

section \<open>Constants\<close>

definition UDX_BBR_CYCLE_LEN :: u32 where "UDX_BBR_CYCLE_LEN = 8"
definition UDX_BBR_MIN_RTT_INTERVAL_MS :: u64 where "UDX_BBR_MIN_RTT_INTERVAL_MS = 10000"
definition UDX_BBR_MIN_PROBE_RTT_MODE_MS :: u64 where "UDX_BBR_MIN_PROBE_RTT_MODE_MS = 200"

definition bbr_pacing_margin_percent :: f64 where "bbr_pacing_margin_percent = f64_of (99 / 100)"
definition bbr_high_gain :: f64 where "bbr_high_gain = f64_of (288539 / 100000)"
definition bbr_drain_gain :: f64 where "bbr_drain_gain = f64_div 1 (f64_of (288539 / 100000))"
definition bbr_cwnd_gain :: f64 where "bbr_cwnd_gain = 2"
definition bbr_pacing_gain :: "f64 list" where "bbr_pacing_gain = [5 / 4, 3 / 4, 1, 1, 1, 1, 1, 1]"
definition bbr_cwnd_min_target :: u32 where "bbr_cwnd_min_target = 4"
definition bbr_full_bw_thresh :: f64 where "bbr_full_bw_thresh = 5 / 4"
definition bbr_full_bw_count :: u32 where "bbr_full_bw_count = 3"
definition bbr_extra_acked_gain :: f64 where "bbr_extra_acked_gain = 1"
definition bbr_extra_acked_win_rtts :: u32 where "bbr_extra_acked_win_rtts = 5"
definition bbr_ack_epoch_acked_reset_thresh :: u64 where "bbr_ack_epoch_acked_reset_thresh = 0xFFFFFFFF"
definition bbr_extra_acked_max_ms :: u32 where "bbr_extra_acked_max_ms = 100"

abbreviation upd_bbr :: "(udx_bbr \<Rightarrow> udx_bbr) \<Rightarrow> world \<Rightarrow> world" where
  "upd_bbr f w \<equiv> w\<lparr>s_bbr := f (s_bbr w)\<rparr>"

text \<open>Conversions of a \<open>double\<close> to an unsigned integer type drop the fraction.\<close>

definition f64_to_u64 :: "f64 \<Rightarrow> u64" where
  "f64_to_u64 x = word_of_int \<lfloor>x\<rfloor>"

section \<open>Bandwidth, pacing and windows\<close>

definition bbr_max_bw :: "world \<Rightarrow> f64" where
  "bbr_max_bw w = win_filter_f64_get (bb_bw (s_bbr w))"

definition bbr_full_bw_reached :: "world \<Rightarrow> bool" where
  "bbr_full_bw_reached w = bb_full_bw_reached (s_bbr w)"

definition bbr_bw :: "world \<Rightarrow> f64" where
  "bbr_bw w = bbr_max_bw w"

definition bbr_extra_acked :: "world \<Rightarrow> u16" where
  "bbr_extra_acked w = ucast (max_uint32 (ucast (bb_extra_acked0 (s_bbr w))) (ucast (bb_extra_acked1 (s_bbr w))))"

definition bbr_bw_to_pacing_rate :: "world \<Rightarrow> f64 \<Rightarrow> f64 \<Rightarrow> u64 option" where
  "bbr_bw_to_pacing_rate w bw gain = do {
     mss \<leftarrow> udx__max_payload w;
     let bpms = f64_to_u64 (f64_mul (f64_mul (f64_mul bw (f64_of_u32 mss)) gain) bbr_pacing_margin_percent);
     Some (max_uint64 bpms 1)
   }"

definition bbr_init_pacing_rate_from_rtt :: "world \<Rightarrow> world option" where
  "bbr_init_pacing_rate_from_rtt w = do {
     let (srtt, w) = (if s_srtt w \<noteq> 0 then (s_srtt w, upd_bbr (\<lambda>b. b\<lparr>bb_has_seen_rtt := True\<rparr>) w) else (1, w));
     let bw = f64_div (f64_of_u32 (s_cwnd w)) (f64_of_u32 srtt);
     c_assert (bw \<noteq> 0);
     rate \<leftarrow> bbr_bw_to_pacing_rate w bw bbr_high_gain;
     Some (w\<lparr>s_pacing_bytes_per_ms := ucast rate\<rparr>)
   }"

definition bbr_set_pacing_rate :: "f64 \<Rightarrow> f64 \<Rightarrow> world \<Rightarrow> world option" where
  "bbr_set_pacing_rate bw gain w = do {
     rate_bpms \<leftarrow> bbr_bw_to_pacing_rate w bw gain;
     w \<leftarrow> (if \<not> bb_has_seen_rtt (s_bbr w) \<and> s_srtt w \<noteq> 0 then bbr_init_pacing_rate_from_rtt w else Some w);
     Some (if bb_full_bw_reached (s_bbr w) \<or> rate_bpms > ucast (s_pacing_bytes_per_ms w)
           then w\<lparr>s_pacing_bytes_per_ms := ucast rate_bpms\<rparr> else w)
   }"

definition bbr_save_cwnd :: "world \<Rightarrow> world" where
  "bbr_save_cwnd w =
    (if bb_prev_ca_state (s_bbr w) = UDX_CA_OPEN \<and> bb_state (s_bbr w) \<noteq> UDX_BBR_STATE_PROBE_RTT
     then upd_bbr (\<lambda>b. b\<lparr>bb_prior_cwnd := s_cwnd w\<rparr>) w
     else upd_bbr (\<lambda>b. b\<lparr>bb_prior_cwnd := max_uint32 (bb_prior_cwnd b) (s_cwnd w)\<rparr>) w)"

definition bbr_bdp :: "world \<Rightarrow> f64 \<Rightarrow> f64 \<Rightarrow> u32" where
  "bbr_bdp w bw gain =
    (if bb_min_rtt_ms (s_bbr w) = 0xFFFFFFFF then 10
     else max_uint32 (f64_to_u32 (f64_mul (f64_mul bw (f64_of_u32 (bb_min_rtt_ms (s_bbr w)))) gain)) 1)"

definition bbr_inflight :: "world \<Rightarrow> f64 \<Rightarrow> f64 \<Rightarrow> u32" where
  "bbr_inflight w bw gain = bbr_bdp w bw gain"

definition bbr_ack_aggregation_cwnd :: "world \<Rightarrow> u32" where
  "bbr_ack_aggregation_cwnd w =
    (if bbr_extra_acked_gain \<noteq> 0 \<and> bbr_full_bw_reached w then
       (let max_aggr_cwnd = f64_to_u32 (f64_mul (bbr_bw w) (f64_of_u32 bbr_extra_acked_max_ms));
            aggr_cwnd = f64_to_u32 (f64_mul bbr_extra_acked_gain (f64_of_u32 (ucast (bbr_extra_acked w))))
        in min_uint32 aggr_cwnd max_aggr_cwnd)
     else 0)"

text \<open>Returns whether packet conservation applies, the window, and the state.\<close>

definition bbr_set_cwnd_to_recover_or_restore :: "udx_rate_sample \<Rightarrow> u32 \<Rightarrow> world \<Rightarrow> bool \<times> u32 \<times> world" where
  "bbr_set_cwnd_to_recover_or_restore rs acked w =
    (let prev_state = bb_prev_ca_state (s_bbr w);
         state = s_ca_state w;
         inflight = of_nat (length (s_inflight_queue w)) :: u32;
         cwnd = (if rs_losses rs > 0 then word_of_int (max_int32 (sint (s_cwnd w - word_of_int (rs_losses rs))) 1) else s_cwnd w);
         (cwnd, w) =
           (if state = UDX_CA_RECOVERY \<and> prev_state \<noteq> UDX_CA_RECOVERY then
              (inflight + acked,
               upd_bbr (\<lambda>b. b\<lparr>bb_use_packet_conservation := True, bb_next_rtt_delivered := s_delivered w\<rparr>) w)
            else if prev_state \<noteq> UDX_CA_OPEN \<and> state = UDX_CA_OPEN then
              (max_uint32 cwnd (bb_prior_cwnd (s_bbr w)), upd_bbr (\<lambda>b. b\<lparr>bb_use_packet_conservation := False\<rparr>) w)
            else (cwnd, w));
         w = upd_bbr (\<lambda>b. b\<lparr>bb_prev_ca_state := state\<rparr>) w
     in if bb_use_packet_conservation (s_bbr w) then (True, max_uint32 cwnd (inflight + acked), w) else (False, cwnd, w))"

text \<open>The window \<open>bbr_set_cwnd\<close> decides on before its label \<open>done\<close>.\<close>

definition bbr_next_cwnd :: "udx_rate_sample \<Rightarrow> u32 \<Rightarrow> f64 \<Rightarrow> f64 \<Rightarrow> world \<Rightarrow> u32 \<times> world" where
  "bbr_next_cwnd rs acked bw gain w =
    (if acked = 0 then (s_cwnd w, w)
     else case bbr_set_cwnd_to_recover_or_restore rs acked w of (conserve, cwnd, w) \<Rightarrow>
       if conserve then (cwnd, w)
       else
         let target_cwnd = bbr_bdp w bw gain + bbr_ack_aggregation_cwnd w;
             cwnd = (if bbr_full_bw_reached w then min_uint32 (cwnd + acked) target_cwnd
                     else if cwnd < target_cwnd \<or> s_delivered w < 10 then cwnd + acked else cwnd)
         in (max_uint32 cwnd bbr_cwnd_min_target, w))"

definition bbr_set_cwnd :: "udx_rate_sample \<Rightarrow> u32 \<Rightarrow> f64 \<Rightarrow> f64 \<Rightarrow> world \<Rightarrow> world option" where
  "bbr_set_cwnd rs acked bw gain w = do {
     let (cwnd, w) = bbr_next_cwnd rs acked bw gain w;
     let w = w\<lparr>s_cwnd := cwnd\<rparr>;
     c_assert (s_cwnd w > 0);
     Some (if bb_state (s_bbr w) = UDX_BBR_STATE_PROBE_RTT then w\<lparr>s_cwnd := min_uint32 (s_cwnd w) bbr_cwnd_min_target\<rparr> else w)
   }"

text \<open>\<open>time_delta_ms\<close> passes the signed difference to a function of \<open>uint32_t\<close>: it is truncated, never clamped.\<close>

definition time_delta_ms :: "u64 \<Rightarrow> u64 \<Rightarrow> u32" where
  "time_delta_ms t1 t0 = max_uint32 (word_of_int (sint t1 - sint t0)) 0"

definition time_diff :: "u64 \<Rightarrow> u64 \<Rightarrow> int" where
  "time_diff a b = sint (a - b)"

section \<open>Modes\<close>

definition bbr_is_next_cycle_phase :: "udx_rate_sample \<Rightarrow> world \<Rightarrow> bool" where
  "bbr_is_next_cycle_phase rs w =
    (let b = s_bbr w;
         is_full_length = time_delta_ms (s_delivered_ts w) (bb_cycle_timestamp b) > bb_min_rtt_ms b;
         inflight = of_nat (length (s_inflight_queue w)) :: u32;
         bw = bbr_max_bw w
     in if bb_pacing_gain b = 1 then is_full_length
        else if bb_pacing_gain b > 1 then is_full_length \<and> (rs_losses rs \<noteq> 0 \<or> inflight > bbr_inflight w bw (bb_pacing_gain b))
        else is_full_length \<or> inflight \<le> bbr_inflight w bw 1)"

definition bbr_advance_cycle_phase :: "world \<Rightarrow> world" where
  "bbr_advance_cycle_phase w = upd_bbr (\<lambda>b. b\<lparr>bb_cycle_index := (bb_cycle_index b + 1) AND (ucast UDX_BBR_CYCLE_LEN - 1),
     bb_cycle_timestamp := s_delivered_ts w\<rparr>) w"

definition bbr_update_cycle_phase :: "udx_rate_sample \<Rightarrow> world \<Rightarrow> world" where
  "bbr_update_cycle_phase rs w =
    (if bb_state (s_bbr w) = UDX_BBR_STATE_PROBE_BW \<and> bbr_is_next_cycle_phase rs w then bbr_advance_cycle_phase w else w)"

definition bbr_reset_startup_mode :: "world \<Rightarrow> world" where
  "bbr_reset_startup_mode w = upd_bbr (\<lambda>b. b\<lparr>bb_state := UDX_BBR_STATE_STARTUP\<rparr>) w"

definition bbr_reset_probe_bw_mode :: "world \<Rightarrow> world" where
  "bbr_reset_probe_bw_mode w =
    bbr_advance_cycle_phase (upd_bbr (\<lambda>b. b\<lparr>bb_state := UDX_BBR_STATE_PROBE_BW, bb_cycle_index := 3\<rparr>) w)"

definition bbr_reset_mode :: "world \<Rightarrow> world" where
  "bbr_reset_mode w = (if \<not> bbr_full_bw_reached w then bbr_reset_startup_mode w else bbr_reset_probe_bw_mode w)"

definition bbr_check_probe_rtt_done :: "u64 \<Rightarrow> world \<Rightarrow> world" where
  "bbr_check_probe_rtt_done now_ms w =
    (if \<not> (bb_probe_rtt_done_time (s_bbr w) \<noteq> 0 \<and> time_diff now_ms (bb_probe_rtt_done_time (s_bbr w)) > 0) then w
     else bbr_reset_mode ((upd_bbr (\<lambda>b. b\<lparr>bb_min_rtt_stamp := now_ms\<rparr>) w)
            \<lparr>s_cwnd := max_uint32 (s_cwnd w) (bb_prior_cwnd (s_bbr w))\<rparr>))"

definition bbr_on_transmit_start :: "u64 \<Rightarrow> world \<Rightarrow> world option" where
  "bbr_on_transmit_start now_ms w =
    (if s_app_limited w \<noteq> 0 then
       (let w = upd_bbr (\<lambda>b. b\<lparr>bb_idle_restart := True, bb_ack_epoch_start := now_ms, bb_ack_epoch_acked := 0\<rparr>) w
        in if bb_state (s_bbr w) = UDX_BBR_STATE_PROBE_BW then bbr_set_pacing_rate (bbr_bw w) 1 w
           else if bb_state (s_bbr w) = UDX_BBR_STATE_PROBE_RTT then Some (bbr_check_probe_rtt_done now_ms w)
           else Some w)
     else Some w)"

section \<open>The model\<close>

definition bbr_update_bw :: "udx_rate_sample \<Rightarrow> world \<Rightarrow> world option" where
  "bbr_update_bw rs w =
    (let w = upd_bbr (\<lambda>b. b\<lparr>bb_round_start := False\<rparr>) w
     in if rs_delivered rs < 0 \<or> rs_interval_ms rs \<le> 0 then Some w
        else do {
          let w = (if seq_diff (rs_prior_delivered rs) (bb_next_rtt_delivered (s_bbr w)) \<ge> 0
            then upd_bbr (\<lambda>b. b\<lparr>bb_next_rtt_delivered := s_delivered w, bb_rtt_count := bb_rtt_count b + 1,
                   bb_round_start := True, bb_use_packet_conservation := False\<rparr>) w
            else w);
          let bw = f64_div (f64_of (of_int (rs_delivered rs))) (f64_of (of_int (rs_interval_ms rs)));
          c_assert (bw \<noteq> 0);
          Some (if \<not> rs_is_app_limited rs \<or> bw \<ge> bbr_max_bw w
            then upd_bbr (\<lambda>b. b\<lparr>bb_bw := snd (win_filter_f64_apply_max (bb_bw b) (UDX_BBR_CYCLE_LEN + 2) (ucast (bb_rtt_count b)) bw)\<rparr>) w
            else w)
        })"

definition bbr_rotate_extra_acked :: "udx_bbr \<Rightarrow> udx_bbr" where
  "bbr_rotate_extra_acked b =
    (if bb_round_start b then
       (let b = b\<lparr>bb_extra_acked_win_rtts := ucast (min_uint32 0xff (ucast (bb_extra_acked_win_rtts b) + 1))\<rparr>
        in if ucast (bb_extra_acked_win_rtts b) \<ge> bbr_extra_acked_win_rtts then
             (let b = b\<lparr>bb_extra_acked_win_rtts := 0, bb_extra_acked_win_index := (if bb_extra_acked_win_index b \<noteq> 0 then 0 else 1)\<rparr>
              in if bb_extra_acked_win_index b = 0 then b\<lparr>bb_extra_acked0 := 0\<rparr> else b\<lparr>bb_extra_acked1 := 0\<rparr>)
           else b)
     else b)"

definition bbr_update_ack_aggregation :: "udx_rate_sample \<Rightarrow> world \<Rightarrow> world option" where
  "bbr_update_ack_aggregation rs w =
    (if bbr_extra_acked_gain = 0 \<or> rs_acked_sacked rs \<le> 0 \<or> rs_delivered rs < 0 \<or> rs_interval_ms rs \<le> 0 then Some w
     else do {
       let w = upd_bbr bbr_rotate_extra_acked w;
       let epoch_ms = time_delta_ms (s_delivered_ts w) (bb_ack_epoch_start (s_bbr w));
       let expected_acked = f64_to_u32 (f64_mul (bbr_bw w) (f64_of_u32 epoch_ms));
       let (expected_acked, w) =
         (if bb_ack_epoch_acked (s_bbr w) \<le> expected_acked
             \<or> ucast (bb_ack_epoch_acked (s_bbr w)) + ucast (rs_acked_sacked rs) \<ge> bbr_ack_epoch_acked_reset_thresh
          then (0, upd_bbr (\<lambda>b. b\<lparr>bb_ack_epoch_acked := 0, bb_ack_epoch_start := s_delivered_ts w\<rparr>) w)
          else (expected_acked, w));
       c_assert (bb_ack_epoch_acked (s_bbr w) + rs_acked_sacked rs > bb_ack_epoch_acked (s_bbr w));
       let w = upd_bbr (\<lambda>b. b\<lparr>bb_ack_epoch_acked := bb_ack_epoch_acked b + rs_acked_sacked rs\<rparr>) w;
       let extra_acked = min_uint32 (bb_ack_epoch_acked (s_bbr w) - expected_acked) (s_cwnd w);
       Some (upd_bbr (\<lambda>b.
         if bb_extra_acked_win_index b = 0
         then (if extra_acked > ucast (bb_extra_acked0 b) then b\<lparr>bb_extra_acked0 := ucast extra_acked\<rparr> else b)
         else (if extra_acked > ucast (bb_extra_acked1 b) then b\<lparr>bb_extra_acked1 := ucast extra_acked\<rparr> else b)) w)
     })"

definition bbr_check_full_bw_reached :: "udx_rate_sample \<Rightarrow> world \<Rightarrow> world" where
  "bbr_check_full_bw_reached rs w =
    (if bbr_full_bw_reached w \<or> \<not> bb_round_start (s_bbr w) \<or> rs_is_app_limited rs then w
     else
       let bw_thresh = f64_mul (bb_full_bw (s_bbr w)) bbr_full_bw_thresh
       in if bbr_max_bw w \<ge> bw_thresh then upd_bbr (\<lambda>b. b\<lparr>bb_full_bw := bbr_max_bw w, bb_full_bw_count := 0\<rparr>) w
          else
            let w = upd_bbr (\<lambda>b. b\<lparr>bb_full_bw_count := bb_full_bw_count b + 1\<rparr>) w
            in upd_bbr (\<lambda>b. b\<lparr>bb_full_bw_reached := ucast (bb_full_bw_count b) \<ge> bbr_full_bw_count\<rparr>) w)"

definition bbr_check_drain :: "world \<Rightarrow> world" where
  "bbr_check_drain w =
    (let w = (if bb_state (s_bbr w) = UDX_BBR_STATE_STARTUP \<and> bbr_full_bw_reached w
              then upd_bbr (\<lambda>b. b\<lparr>bb_state := UDX_BBR_STATE_DRAIN\<rparr>) w else w)
     in if bb_state (s_bbr w) = UDX_BBR_STATE_DRAIN
           \<and> of_nat (length (s_inflight_queue w)) \<le> bbr_inflight w (bbr_max_bw w) 1
        then bbr_reset_probe_bw_mode w else w)"

text \<open>The round trip probe of \<open>bbr_update_min_rtt\<close>, while in its mode.\<close>

definition bbr_probe_rtt_step :: "world \<Rightarrow> world" where
  "bbr_probe_rtt_step w =
    (let now = w_now w;
         mark = s_delivered w + of_nat (length (s_inflight_queue w));
         w = w\<lparr>s_app_limited := (if mark \<noteq> 0 then mark else 1)\<rparr>
     in if bb_probe_rtt_done_time (s_bbr w) = 0 \<and> of_nat (length (s_inflight_queue w)) \<le> bbr_cwnd_min_target
        then upd_bbr (\<lambda>b. b\<lparr>bb_probe_rtt_done_time := now + UDX_BBR_MIN_PROBE_RTT_MODE_MS, bb_probe_rtt_round_done := False,
               bb_next_rtt_delivered := s_delivered w\<rparr>) w
        else if bb_probe_rtt_done_time (s_bbr w) \<noteq> 0 then
          (let w = (if bb_round_start (s_bbr w) then upd_bbr (\<lambda>b. b\<lparr>bb_probe_rtt_round_done := True\<rparr>) w else w)
           in if bb_probe_rtt_round_done (s_bbr w) then bbr_check_probe_rtt_done now w else w)
        else w)"

definition bbr_update_min_rtt :: "udx_rate_sample \<Rightarrow> world \<Rightarrow> world" where
  "bbr_update_min_rtt rs w =
    (let now = w_now w;
         filter_expired = time_diff now (bb_min_rtt_stamp (s_bbr w) + UDX_BBR_MIN_RTT_INTERVAL_MS) > 0;
         w = (if rs_rtt_ms rs \<ge> 0 \<and> (rs_rtt_ms rs < uint (bb_min_rtt_ms (s_bbr w)) \<or> (filter_expired \<and> \<not> rs_is_ack_delayed rs))
              then upd_bbr (\<lambda>b. b\<lparr>bb_min_rtt_ms := word_of_int (if rs_rtt_ms rs \<noteq> 0 then rs_rtt_ms rs else 1), bb_min_rtt_stamp := now\<rparr>) w
              else w);
         w = (if UDX_BBR_MIN_PROBE_RTT_MODE_MS > 0 \<and> filter_expired \<and> \<not> bb_idle_restart (s_bbr w)
                 \<and> bb_state (s_bbr w) \<noteq> UDX_BBR_STATE_PROBE_RTT
              then upd_bbr (\<lambda>b. b\<lparr>bb_probe_rtt_done_time := 0\<rparr>)
                     (bbr_save_cwnd (upd_bbr (\<lambda>b. b\<lparr>bb_state := UDX_BBR_STATE_PROBE_RTT\<rparr>) w))
              else w);
         w = (if bb_state (s_bbr w) = UDX_BBR_STATE_PROBE_RTT then bbr_probe_rtt_step w else w)
     in if rs_delivered rs > 0 then upd_bbr (\<lambda>b. b\<lparr>bb_idle_restart := False\<rparr>) w else w)"

text \<open>The gain fields are \<open>float\<close>.\<close>

definition bbr_update_gains :: "world \<Rightarrow> world" where
  "bbr_update_gains w =
    (let b = s_bbr w in
     case bb_state b of
       UDX_BBR_STATE_STARTUP \<Rightarrow> upd_bbr (\<lambda>b. b\<lparr>bb_pacing_gain := f32_of bbr_high_gain, bb_cwnd_gain := f32_of bbr_high_gain\<rparr>) w
     | UDX_BBR_STATE_DRAIN \<Rightarrow> upd_bbr (\<lambda>b. b\<lparr>bb_pacing_gain := f32_of bbr_drain_gain, bb_cwnd_gain := f32_of bbr_high_gain\<rparr>) w
     | UDX_BBR_STATE_PROBE_BW \<Rightarrow>
         upd_bbr (\<lambda>b. b\<lparr>bb_pacing_gain := f32_of (bbr_pacing_gain ! unat (bb_cycle_index b)), bb_cwnd_gain := f32_of bbr_cwnd_gain\<rparr>) w
     | UDX_BBR_STATE_PROBE_RTT \<Rightarrow> upd_bbr (\<lambda>b. b\<lparr>bb_pacing_gain := 1, bb_cwnd_gain := 1\<rparr>) w)"

definition bbr_update_model :: "udx_rate_sample \<Rightarrow> world \<Rightarrow> world option" where
  "bbr_update_model rs w = do {
     w \<leftarrow> bbr_update_bw rs w;
     w \<leftarrow> bbr_update_ack_aggregation rs w;
     Some (bbr_update_gains (bbr_update_min_rtt rs (bbr_check_drain (bbr_check_full_bw_reached rs (bbr_update_cycle_phase rs w)))))
   }"

definition bbr_main :: "udx_rate_sample \<Rightarrow> world \<Rightarrow> world option" where
  "bbr_main rs w = do {
     w \<leftarrow> bbr_update_model rs w;
     let bw = bbr_bw w;
     w \<leftarrow> bbr_set_pacing_rate bw (bb_pacing_gain (s_bbr w)) w;
     bbr_set_cwnd rs (rs_acked_sacked rs) bw (bb_cwnd_gain (s_bbr w)) w
   }"

definition bbr_init :: "world \<Rightarrow> world option" where
  "bbr_init w = do {
     let w = upd_bbr (\<lambda>b. b\<lparr>bb_prior_cwnd := 0, bb_rtt_count := 0, bb_next_rtt_delivered := s_delivered w,
       bb_prev_ca_state := UDX_CA_OPEN, bb_use_packet_conservation := False, bb_probe_rtt_done_time := 0,
       bb_probe_rtt_round_done := False, bb_min_rtt_ms := udx_rtt_min w, bb_min_rtt_stamp := w_now w\<rparr>) w;
     let w = upd_bbr (\<lambda>b. b\<lparr>bb_bw := snd (win_filter_f64_reset (bb_bw b) (ucast (bb_rtt_count b)) 0), bb_has_seen_rtt := False\<rparr>) w;
     w \<leftarrow> bbr_init_pacing_rate_from_rtt w;
     let w = upd_bbr (\<lambda>b. b\<lparr>bb_round_start := False, bb_idle_restart := False, bb_full_bw_reached := False, bb_full_bw := 0,
       bb_full_bw_count := 0, bb_cycle_timestamp := 0, bb_cycle_index := 0\<rparr>) w;
     let w = bbr_reset_startup_mode w;
     Some (upd_bbr (\<lambda>b. b\<lparr>bb_ack_epoch_start := w_now w, bb_ack_epoch_acked := 0, bb_extra_acked_win_rtts := 0,
       bb_extra_acked_win_index := 0, bb_extra_acked0 := 0, bb_extra_acked1 := 0\<rparr>) w)
   }"

definition udx_stream_get_bw :: "world \<Rightarrow> u64 option" where
  "udx_stream_get_bw w = do {
     mss \<leftarrow> udx__max_payload w;
     Some (f64_to_u64 (f64_mul (f64_mul (bbr_bw w) 1000) (f64_of_u32 mss)))
   }"

definition udx_stream_get_min_rtt :: "world \<Rightarrow> u32" where
  "udx_stream_get_min_rtt w = bb_min_rtt_ms (s_bbr w)"

definition bbr_on_rto :: "world \<Rightarrow> world" where
  "bbr_on_rto w = upd_bbr (\<lambda>b. b\<lparr>bb_prev_ca_state := UDX_CA_LOSS, bb_full_bw := 0, bb_round_start := True\<rparr>) w"

section \<open>What the module touches\<close>

text \<open>The state outside the module's own structure and its outputs.\<close>

definition bbr_rest :: "world \<Rightarrow> world" where
  "bbr_rest w = w\<lparr>s_app_limited := 0, s_bbr := undefined, s_pacing_bytes_per_ms := 0, s_cwnd := 0\<rparr>"

named_theorems rest_simps \<open>operations of the congestion control leave the rest alone\<close>

lemma bbr_rest_upd [rest_simps]:
  "bbr_rest (w\<lparr>s_bbr := b\<rparr>) = bbr_rest w" "bbr_rest (w\<lparr>s_app_limited := a\<rparr>) = bbr_rest w"
  "bbr_rest (w\<lparr>s_pacing_bytes_per_ms := p\<rparr>) = bbr_rest w" "bbr_rest (w\<lparr>s_cwnd := c\<rparr>) = bbr_rest w"
  by (simp_all add: bbr_rest_def)

lemma bbr_rest_fields:
  assumes "bbr_rest w' = bbr_rest w"
  shows "s_mtu w' = s_mtu w" "s_remote_addr w' = s_remote_addr w" "s_srtt w' = s_srtt w"
    "s_inflight_queue w' = s_inflight_queue w" "s_delivered w' = s_delivered w" "w_now w' = w_now w"
  using arg_cong [OF assms, of s_mtu] arg_cong [OF assms, of s_remote_addr] arg_cong [OF assms, of s_srtt]
    arg_cong [OF assms, of s_inflight_queue] arg_cong [OF assms, of s_delivered] arg_cong [OF assms, of w_now]
  by (simp_all add: bbr_rest_def)

lemma bbr_rest_max_payload: "bbr_rest w' = bbr_rest w \<Longrightarrow> udx__max_payload w' = udx__max_payload w"
  unfolding udx__max_payload_def using bbr_rest_fields(1,2) [of w' w] by (simp only:)

lemma bbr_rest_ops [rest_simps]:
  "bbr_rest (bbr_advance_cycle_phase w) = bbr_rest w"
  "bbr_rest (bbr_save_cwnd w) = bbr_rest w"
  "bbr_rest (bbr_on_rto w) = bbr_rest w"
  "bbr_rest (bbr_reset_startup_mode w) = bbr_rest w"
  "bbr_rest (bbr_check_full_bw_reached rs w) = bbr_rest w"
  by (simp_all add: bbr_advance_cycle_phase_def bbr_save_cwnd_def bbr_on_rto_def bbr_reset_startup_mode_def
      bbr_check_full_bw_reached_def Let_def rest_simps)

lemma bbr_rest_reset [rest_simps]:
  "bbr_rest (bbr_reset_probe_bw_mode w) = bbr_rest w"
  "bbr_rest (bbr_reset_mode w) = bbr_rest w"
  "bbr_rest (bbr_update_cycle_phase rs w) = bbr_rest w"
  by (simp_all add: bbr_reset_mode_def bbr_reset_probe_bw_mode_def bbr_update_cycle_phase_def rest_simps)

lemma bbr_rest_drain [rest_simps]: "bbr_rest (bbr_check_drain w) = bbr_rest w"
  by (simp add: bbr_check_drain_def Let_def rest_simps)

lemma bbr_rest_probe_done [rest_simps]: "bbr_rest (bbr_check_probe_rtt_done now w) = bbr_rest w"
  by (simp add: bbr_check_probe_rtt_done_def rest_simps)

lemma bbr_rest_probe_step [rest_simps]: "bbr_rest (bbr_probe_rtt_step w) = bbr_rest w"
  by (simp add: bbr_probe_rtt_step_def Let_def rest_simps)

lemma bbr_rest_if [rest_simps]: "bbr_rest x = bbr_rest w \<Longrightarrow> bbr_rest (if c then x else w) = bbr_rest w"
  by simp

lemma bbr_rest_min_rtt [rest_simps]: "bbr_rest (bbr_update_min_rtt rs w) = bbr_rest w"
  unfolding bbr_update_min_rtt_def Let_def
  by (simp only: rest_simps)

lemma bbr_rest_gains [rest_simps]: "bbr_rest (bbr_update_gains w) = bbr_rest w"
  by (simp add: bbr_update_gains_def rest_simps split: udx_bbr_state.split)

section \<open>Failures and the mode machine\<close>

lemma update_bw_None: "bbr_update_bw rs w = None \<longleftrightarrow> rs_delivered rs = 0 \<and> 0 < rs_interval_ms rs"
proof -
  have "f64_div (f64_of (of_int d)) (f64_of (of_int i)) = 0 \<longleftrightarrow> d = 0" if "0 \<le> d" "0 < i" for d i :: int
    using that f64_of_pos [of "f64_of (of_int d) / f64_of (of_int i)"] f64_of_pos [of "of_int d"] f64_of_pos [of "of_int i"]
    by (cases "d = 0") (auto simp: f64_div_def)
  then show ?thesis
    by (auto simp: bbr_update_bw_def c_assert_def Let_def bind_eq_None_conv not_less)
qed

text \<open>The part of the module's state that decides the mode.\<close>

definition bb_mode :: "udx_bbr \<Rightarrow> udx_bbr_state \<times> bool \<times> u8" where
  "bb_mode b = (bb_state b, bb_full_bw_reached b, bb_cycle_index b)"

lemma update_bw_frame:
  "bbr_update_bw rs w = Some w' \<Longrightarrow> bbr_rest w' = bbr_rest w \<and> bb_mode (s_bbr w') = bb_mode (s_bbr w) \<and> s_cwnd w' = s_cwnd w
     \<and> s_app_limited w' = s_app_limited w"
  by (auto simp: bbr_update_bw_def c_assert_def Let_def bind_eq_Some_conv rest_simps bb_mode_def split: if_splits)

lemma rotate_mode: "bb_mode (bbr_rotate_extra_acked b) = bb_mode b"
  by (simp add: bbr_rotate_extra_acked_def bb_mode_def Let_def)

text \<open>The overflow check of the acknowledgement epoch is enough.\<close>

lemma epoch_no_overflow:
  fixes e a :: u32
  assumes "a \<noteq> 0" and "\<not> ucast e + ucast a \<ge> bbr_ack_epoch_acked_reset_thresh"
  shows "e < e + a"
proof -
  have "uint (ucast e + ucast a :: u64) = uint e + uint a"
    using uint_bounded [of e] uint_bounded [of a] by (simp add: uint_plus_if' uint_ucast_u64)
  then have "uint e + uint a < 2 ^ 32 - 1"
    using assms(2) by (simp add: bbr_ack_epoch_acked_reset_thresh_def not_le word_less_def)
  moreover have "0 < uint a" using assms(1) by (simp add: word_neq_0_conv word_less_def)
  ultimately show ?thesis by (simp add: word_less_def uint_plus_if')
qed

lemma update_aggregation_Some:
  "\<exists>w'. bbr_update_ack_aggregation rs w = Some w' \<and> bbr_rest w' = bbr_rest w
     \<and> bb_mode (s_bbr w') = bb_mode (s_bbr w) \<and> s_cwnd w' = s_cwnd w"
proof -
  define w1 where "w1 = upd_bbr bbr_rotate_extra_acked w"
  have w1: "bbr_rest w1 = bbr_rest w" "bb_mode (s_bbr w1) = bb_mode (s_bbr w)" "s_cwnd w1 = s_cwnd w"
    by (simp_all add: w1_def rest_simps rotate_mode)
  show ?thesis
    using w1 epoch_no_overflow [of "rs_acked_sacked rs" "bb_ack_epoch_acked (s_bbr w1)"]
    unfolding bbr_update_ack_aggregation_def Let_def w1_def [symmetric]
    by (auto simp: c_assert_def rest_simps bb_mode_def word_neq_0_conv not_le split: if_splits)
qed

text \<open>Pacing.\<close>

lemma pacing_rate_Some: "mtu_inv w \<Longrightarrow> \<exists>r. bbr_bw_to_pacing_rate w bw gain = Some r \<and> 1 \<le> r"
  by (auto simp: bbr_bw_to_pacing_rate_def max_payload_mtu Let_def)

lemma init_pacing_Some:
  assumes "mtu_inv w" "s_cwnd w \<noteq> 0"
  shows "\<exists>w'. bbr_init_pacing_rate_from_rtt w = Some w' \<and> bbr_rest w' = bbr_rest w
    \<and> bb_mode (s_bbr w') = bb_mode (s_bbr w) \<and> s_cwnd w' = s_cwnd w \<and> s_app_limited w' = s_app_limited w"
proof -
  define w1 where "w1 = (if s_srtt w \<noteq> 0 then upd_bbr (\<lambda>b. b\<lparr>bb_has_seen_rtt := True\<rparr>) w else w)"
  define srtt where "srtt = (if s_srtt w \<noteq> 0 then s_srtt w else 1)"
  have w1: "bbr_rest w1 = bbr_rest w" "bb_mode (s_bbr w1) = bb_mode (s_bbr w)" "s_cwnd w1 = s_cwnd w" "mtu_inv w1"
    "s_app_limited w1 = s_app_limited w"
    using assms(1) by (simp_all add: w1_def rest_simps bb_mode_def mtu_inv_def)
  have "0 < f64_div (f64_of_u32 (s_cwnd w1)) (f64_of_u32 srtt)"
    unfolding f64_div_def using assms(2) w1(3) by (intro f64_of_pos divide_pos_pos f64_of_u32_pos) (auto simp: srtt_def)
  moreover have "(if s_srtt w \<noteq> 0 then (s_srtt w, upd_bbr (\<lambda>b. b\<lparr>bb_has_seen_rtt := True\<rparr>) w) else (1, w)) = (srtt, w1)"
    by (simp add: w1_def srtt_def)
  moreover obtain r where "bbr_bw_to_pacing_rate w1 (f64_div (f64_of_u32 (s_cwnd w1)) (f64_of_u32 srtt)) bbr_high_gain = Some r"
    using pacing_rate_Some [OF w1(4)] by blast
  ultimately show ?thesis
    using w1 by (simp add: bbr_init_pacing_rate_from_rtt_def c_assert_def rest_simps)
qed

lemma mtu_inv_rest: "bbr_rest w' = bbr_rest w \<Longrightarrow> mtu_inv w' = mtu_inv w"
proof -
  assume "bbr_rest w' = bbr_rest w"
  moreover have "mtu_inv (bbr_rest v) = mtu_inv v" for v by (simp add: mtu_inv_def bbr_rest_def)
  ultimately show ?thesis by metis
qed

lemma set_pacing_Some:
  assumes "mtu_inv w" "s_cwnd w \<noteq> 0"
  shows "\<exists>w'. bbr_set_pacing_rate bw gain w = Some w' \<and> bbr_rest w' = bbr_rest w
    \<and> bb_mode (s_bbr w') = bb_mode (s_bbr w) \<and> s_cwnd w' = s_cwnd w \<and> s_app_limited w' = s_app_limited w"
proof -
  obtain r where r: "bbr_bw_to_pacing_rate w bw gain = Some r" using pacing_rate_Some [OF assms(1)] by blast
  obtain w1 where w1: "(if \<not> bb_has_seen_rtt (s_bbr w) \<and> s_srtt w \<noteq> 0 then bbr_init_pacing_rate_from_rtt w else Some w) = Some w1"
    "bbr_rest w1 = bbr_rest w" "bb_mode (s_bbr w1) = bb_mode (s_bbr w)" "s_cwnd w1 = s_cwnd w" "s_app_limited w1 = s_app_limited w"
    using init_pacing_Some [OF assms] by (cases "\<not> bb_has_seen_rtt (s_bbr w) \<and> s_srtt w \<noteq> 0") auto
  then show ?thesis unfolding bbr_set_pacing_rate_def r w1(1) by (simp add: rest_simps)
qed

text \<open>The congestion window.\<close>

lemma recover_cwnd:
  assumes "s_cwnd w \<noteq> 0" "acked \<noteq> 0" "length (s_inflight_queue w) + unat acked < 2 ^ 32"
    and "bbr_set_cwnd_to_recover_or_restore rs acked w = (c, cwnd, w')"
  shows "cwnd \<noteq> 0" and "bbr_rest w' = bbr_rest w" and "bb_mode (s_bbr w') = bb_mode (s_bbr w)" and "s_app_limited w' = s_app_limited w"
proof -
  let ?n = "of_nat (length (s_inflight_queue w)) + acked :: u32"
  have "unat ?n = length (s_inflight_queue w) + unat acked"
    using assms(3) by (simp add: unat_word_ariths unat_of_nat)
  then have n: "?n \<noteq> 0" using assms(2) by (metis add_eq_0_iff_both_eq_0 unat_0 unat_eq_0)
  have l: "(word_of_int (max 1 (sint (s_cwnd w - word_of_int (rs_losses rs)))) :: u32) \<noteq> 0"
  proof -
    let ?x = "max 1 (sint (s_cwnd w - word_of_int (rs_losses rs)))"
    have "?x < 2 ^ 32" using sint_lt [of "s_cwnd w - word_of_int (rs_losses rs)"] by simp
    then have "uint (word_of_int ?x :: u32) = ?x" by (simp add: unsigned_of_int take_bit_int_eq_self)
    then show ?thesis by (metis max.cobounded1 not_one_le_zero unsigned_0)
  qed
  show "cwnd \<noteq> 0"
    using assms(1,4) n l
    by (auto simp: bbr_set_cwnd_to_recover_or_restore_def Let_def max.commute max_def split: if_splits)
  show "bbr_rest w' = bbr_rest w" "bb_mode (s_bbr w') = bb_mode (s_bbr w)" "s_app_limited w' = s_app_limited w"
    using assms(4)
    by (auto simp: bbr_set_cwnd_to_recover_or_restore_def Let_def rest_simps bb_mode_def split: if_splits)
qed

lemma next_cwnd_law:
  assumes "s_cwnd w \<noteq> 0" "length (s_inflight_queue w) + unat acked < 2 ^ 32"
    and "bbr_next_cwnd rs acked bw gain w = (cwnd, w')"
  shows "cwnd \<noteq> 0 \<and> bbr_rest w' = bbr_rest w \<and> bb_mode (s_bbr w') = bb_mode (s_bbr w) \<and> s_app_limited w' = s_app_limited w"
proof (cases "acked = 0")
  case True
  then show ?thesis using assms by (auto simp: bbr_next_cwnd_def)
next
  case False
  obtain c cw w1 where r: "bbr_set_cwnd_to_recover_or_restore rs acked w = (c, cw, w1)" by (metis prod_cases3)
  note l = recover_cwnd [OF assms(1) False assms(2) r]
  have "max x bbr_cwnd_min_target \<noteq> 0" "max bbr_cwnd_min_target x \<noteq> 0" for x
    by (auto simp: bbr_cwnd_min_target_def max_def)
  then show ?thesis
    using assms(3) False l r by (auto simp: bbr_next_cwnd_def Let_def split: if_splits)
qed

lemma set_cwnd_Some:
  assumes "s_cwnd w \<noteq> 0" "length (s_inflight_queue w) + unat acked < 2 ^ 32"
  shows "\<exists>w'. bbr_set_cwnd rs acked bw gain w = Some w' \<and> bbr_rest w' = bbr_rest w \<and> bb_mode (s_bbr w') = bb_mode (s_bbr w)
    \<and> s_cwnd w' \<noteq> 0 \<and> s_app_limited w' = s_app_limited w
    \<and> (bb_state (s_bbr w') = UDX_BBR_STATE_PROBE_RTT \<longrightarrow> s_cwnd w' \<le> 4)"
proof -
  obtain cwnd w1 where r: "bbr_next_cwnd rs acked bw gain w = (cwnd, w1)" by force
  note l = next_cwnd_law [OF assms r]
  have "min x bbr_cwnd_min_target \<noteq> 0 \<and> min x bbr_cwnd_min_target \<le> 4" if "x \<noteq> 0" for x
    using that by (auto simp: bbr_cwnd_min_target_def min_def)
  then show ?thesis
    using l r by (auto simp: bbr_set_cwnd_def c_assert_def Let_def rest_simps bb_mode_def word_neq_0_conv)
qed

text \<open>The edges of the mode machine that one acknowledgement can take.\<close>

definition bbr_edge :: "bool \<Rightarrow> udx_bbr_state \<Rightarrow> udx_bbr_state \<Rightarrow> bool" where
  "bbr_edge full s s' \<longleftrightarrow> s' = s \<or> s' = UDX_BBR_STATE_PROBE_RTT
     \<or> (full \<and> s = UDX_BBR_STATE_STARTUP \<and> s' \<in> {UDX_BBR_STATE_DRAIN, UDX_BBR_STATE_PROBE_BW})
     \<or> (full \<and> s = UDX_BBR_STATE_DRAIN \<and> s' = UDX_BBR_STATE_PROBE_BW)
     \<or> (s = UDX_BBR_STATE_PROBE_RTT \<and> s' = (if full then UDX_BBR_STATE_PROBE_BW else UDX_BBR_STATE_STARTUP))"

text \<open>The invariant between acknowledgements: outside the round trip probe, the mode is start-up
  exactly until the pipe was found full.\<close>

definition bbr_modes :: "world \<Rightarrow> bool" where
  "bbr_modes w \<longleftrightarrow> (bb_state (s_bbr w) = UDX_BBR_STATE_STARTUP \<longrightarrow> \<not> bbr_full_bw_reached w)
     \<and> (bb_state (s_bbr w) = UDX_BBR_STATE_DRAIN \<or> bb_state (s_bbr w) = UDX_BBR_STATE_PROBE_BW \<longrightarrow> bbr_full_bw_reached w)
     \<and> bb_cycle_index (s_bbr w) < 8"

lemma cycle_mask: "(x :: u8) AND 7 < 8"
proof -
  have "x AND 7 = x AND mask 3" by (simp add: mask_eq_exp_minus_1)
  then have "uint (x AND 7) = take_bit 3 (uint x)"
    by (simp only: take_bit_eq_mask [symmetric] unsigned_take_bit_eq)
  then show ?thesis by (simp add: word_less_def take_bit_eq_mod)
qed

lemma advance_mode:
  "bb_state (s_bbr (bbr_advance_cycle_phase w)) = bb_state (s_bbr w)"
  "bb_full_bw_reached (s_bbr (bbr_advance_cycle_phase w)) = bb_full_bw_reached (s_bbr w)"
  "bb_cycle_index (s_bbr (bbr_advance_cycle_phase w)) < 8"
  by (simp_all add: bbr_advance_cycle_phase_def UDX_BBR_CYCLE_LEN_def cycle_mask)

lemma cycle_phase_mode:
  "bb_state (s_bbr (bbr_update_cycle_phase rs w)) = bb_state (s_bbr w)"
  "bb_full_bw_reached (s_bbr (bbr_update_cycle_phase rs w)) = bb_full_bw_reached (s_bbr w)"
  "bb_cycle_index (s_bbr w) < 8 \<Longrightarrow> bb_cycle_index (s_bbr (bbr_update_cycle_phase rs w)) < 8"
  by (simp_all add: bbr_update_cycle_phase_def advance_mode)

lemma full_bw_mode:
  "bb_state (s_bbr (bbr_check_full_bw_reached rs w)) = bb_state (s_bbr w)"
  "bb_cycle_index (s_bbr (bbr_check_full_bw_reached rs w)) = bb_cycle_index (s_bbr w)"
  "bb_full_bw_reached (s_bbr w) \<Longrightarrow> bb_full_bw_reached (s_bbr (bbr_check_full_bw_reached rs w))"
  by (simp_all add: bbr_check_full_bw_reached_def bbr_full_bw_reached_def Let_def)

lemma reset_probe_bw_mode:
  "bb_state (s_bbr (bbr_reset_probe_bw_mode w)) = UDX_BBR_STATE_PROBE_BW"
  "bb_full_bw_reached (s_bbr (bbr_reset_probe_bw_mode w)) = bb_full_bw_reached (s_bbr w)"
  "bb_cycle_index (s_bbr (bbr_reset_probe_bw_mode w)) < 8"
  by (simp_all add: bbr_reset_probe_bw_mode_def advance_mode)

lemma drain_mode:
  assumes "bb_cycle_index (s_bbr w) < 8"
    and "bb_state (s_bbr w) = UDX_BBR_STATE_DRAIN \<or> bb_state (s_bbr w) = UDX_BBR_STATE_PROBE_BW \<longrightarrow> bbr_full_bw_reached w"
  shows "bbr_modes (bbr_check_drain w)" and "bb_full_bw_reached (s_bbr (bbr_check_drain w)) = bb_full_bw_reached (s_bbr w)"
    and "bbr_edge (bbr_full_bw_reached w) (bb_state (s_bbr w)) (bb_state (s_bbr (bbr_check_drain w)))"
    and "bb_state (s_bbr (bbr_check_drain w)) = UDX_BBR_STATE_PROBE_RTT \<longleftrightarrow> bb_state (s_bbr w) = UDX_BBR_STATE_PROBE_RTT"
  using assms
  by (auto simp: bbr_check_drain_def bbr_modes_def bbr_edge_def bbr_full_bw_reached_def Let_def reset_probe_bw_mode)

lemma reset_mode_modes:
  assumes "bb_cycle_index (s_bbr w) < 8"
  shows "bbr_modes (bbr_reset_mode w)" and "bb_full_bw_reached (s_bbr (bbr_reset_mode w)) = bb_full_bw_reached (s_bbr w)"
    and "bb_state (s_bbr (bbr_reset_mode w)) = (if bbr_full_bw_reached w then UDX_BBR_STATE_PROBE_BW else UDX_BBR_STATE_STARTUP)"
  using assms
  by (auto simp: bbr_reset_mode_def bbr_reset_startup_mode_def bbr_modes_def bbr_full_bw_reached_def reset_probe_bw_mode)

lemma modes_cong: "bb_mode (s_bbr w') = bb_mode (s_bbr w) \<Longrightarrow> bbr_modes w' = bbr_modes w"
  by (simp add: bbr_modes_def bb_mode_def bbr_full_bw_reached_def)

lemma gains_mode:
  "bb_mode (s_bbr (bbr_update_gains w)) = bb_mode (s_bbr w)" "s_cwnd (bbr_update_gains w) = s_cwnd w"
  by (simp_all add: bbr_update_gains_def bb_mode_def split: udx_bbr_state.split)

lemma max_nonzero: "(x :: u32) \<noteq> 0 \<Longrightarrow> max x y \<noteq> 0"
  by (auto simp: max_def)

lemma probe_done_law:
  assumes "bbr_modes w" "bb_state (s_bbr w) = UDX_BBR_STATE_PROBE_RTT"
  shows "bbr_modes (bbr_check_probe_rtt_done now w) \<and> bbr_full_bw_reached (bbr_check_probe_rtt_done now w) = bbr_full_bw_reached w
    \<and> bb_state (s_bbr (bbr_check_probe_rtt_done now w)) \<in> {UDX_BBR_STATE_PROBE_RTT,
        if bbr_full_bw_reached w then UDX_BBR_STATE_PROBE_BW else UDX_BBR_STATE_STARTUP}
    \<and> (s_cwnd w \<noteq> 0 \<longrightarrow> s_cwnd (bbr_check_probe_rtt_done now w) \<noteq> 0)"
proof -
  define w1 where "w1 = (upd_bbr (\<lambda>b. b\<lparr>bb_min_rtt_stamp := now\<rparr>) w)\<lparr>s_cwnd := max_uint32 (s_cwnd w) (bb_prior_cwnd (s_bbr w))\<rparr>"
  have c: "bb_cycle_index (s_bbr w1) < 8" "bbr_full_bw_reached w1 = bbr_full_bw_reached w"
    using assms(1) by (simp_all add: w1_def bbr_modes_def bbr_full_bw_reached_def)
  have cw: "s_cwnd (bbr_reset_mode w1) = max (s_cwnd w) (bb_prior_cwnd (s_bbr w))"
    by (simp add: bbr_reset_mode_def bbr_reset_startup_mode_def bbr_reset_probe_bw_mode_def bbr_advance_cycle_phase_def w1_def)
  have res: "bbr_check_probe_rtt_done now w = (if \<not> (bb_probe_rtt_done_time (s_bbr w) \<noteq> 0
      \<and> time_diff now (bb_probe_rtt_done_time (s_bbr w)) > 0) then w else bbr_reset_mode w1)"
    by (simp add: bbr_check_probe_rtt_done_def w1_def)
  show ?thesis
    using assms reset_mode_modes [OF c(1)] c(2) cw max_nonzero [of "s_cwnd w" "bb_prior_cwnd (s_bbr w)"]
    unfolding res by (simp add: bbr_full_bw_reached_def)
qed

lemma probe_step_law:
  assumes "bbr_modes w" "bb_state (s_bbr w) = UDX_BBR_STATE_PROBE_RTT"
  shows "bbr_modes (bbr_probe_rtt_step w) \<and> bbr_full_bw_reached (bbr_probe_rtt_step w) = bbr_full_bw_reached w
    \<and> bb_state (s_bbr (bbr_probe_rtt_step w)) \<in> {UDX_BBR_STATE_PROBE_RTT,
        if bbr_full_bw_reached w \<and> bb_probe_rtt_done_time (s_bbr w) \<noteq> 0 then UDX_BBR_STATE_PROBE_BW
        else if bb_probe_rtt_done_time (s_bbr w) \<noteq> 0 then UDX_BBR_STATE_STARTUP else UDX_BBR_STATE_PROBE_RTT}
    \<and> (s_cwnd w \<noteq> 0 \<longrightarrow> s_cwnd (bbr_probe_rtt_step w) \<noteq> 0)"
proof -
  define mark where "mark = s_delivered w + of_nat (length (s_inflight_queue w))"
  define w1 where "w1 = w\<lparr>s_app_limited := (if mark \<noteq> 0 then mark else 1)\<rparr>"
  define w2 where "w2 = (if bb_round_start (s_bbr w1) then upd_bbr (\<lambda>b. b\<lparr>bb_probe_rtt_round_done := True\<rparr>) w1 else w1)"
  have w1: "bbr_modes w1" "bb_state (s_bbr w1) = UDX_BBR_STATE_PROBE_RTT" "bbr_full_bw_reached w1 = bbr_full_bw_reached w"
    "bb_probe_rtt_done_time (s_bbr w1) = bb_probe_rtt_done_time (s_bbr w)" "s_cwnd w1 = s_cwnd w"
    using assms by (simp_all add: w1_def bbr_modes_def bbr_full_bw_reached_def)
  then have w2: "bbr_modes w2" "bb_state (s_bbr w2) = UDX_BBR_STATE_PROBE_RTT" "bbr_full_bw_reached w2 = bbr_full_bw_reached w" "s_cwnd w2 = s_cwnd w"
    by (simp_all add: w2_def bbr_modes_def bbr_full_bw_reached_def)
  have step: "bbr_probe_rtt_step w =
    (if bb_probe_rtt_done_time (s_bbr w1) = 0 \<and> of_nat (length (s_inflight_queue w1)) \<le> bbr_cwnd_min_target
     then upd_bbr (\<lambda>b. b\<lparr>bb_probe_rtt_done_time := w_now w + UDX_BBR_MIN_PROBE_RTT_MODE_MS, bb_probe_rtt_round_done := False,
            bb_next_rtt_delivered := s_delivered w1\<rparr>) w1
     else if bb_probe_rtt_done_time (s_bbr w1) \<noteq> 0 then
       (if bb_probe_rtt_round_done (s_bbr w2) then bbr_check_probe_rtt_done (w_now w) w2 else w2)
     else w1)"
    unfolding bbr_probe_rtt_step_def Let_def mark_def w1_def w2_def by (rule refl)
  note fin = probe_done_law [OF w2(1,2), of "w_now w", unfolded w2(3,4)]
  show ?thesis
  proof (cases "bb_probe_rtt_done_time (s_bbr w1) \<noteq> 0 \<and> bb_probe_rtt_round_done (s_bbr w2)")
    case True
    then have "bbr_probe_rtt_step w = bbr_check_probe_rtt_done (w_now w) w2" unfolding step by simp
    then show ?thesis using fin True w1(4) by (simp split: if_splits)
  next
    case False
    then have "bbr_modes (bbr_probe_rtt_step w) \<and> bbr_full_bw_reached (bbr_probe_rtt_step w) = bbr_full_bw_reached w
      \<and> bb_state (s_bbr (bbr_probe_rtt_step w)) = UDX_BBR_STATE_PROBE_RTT \<and> s_cwnd (bbr_probe_rtt_step w) = s_cwnd w"
      unfolding step using w1 w2 by (auto simp: bbr_modes_def bbr_full_bw_reached_def)
    then show ?thesis by simp
  qed
qed

lemma min_rtt_law:
  assumes "bbr_modes w"
  shows "bbr_modes (bbr_update_min_rtt rs w) \<and> bbr_full_bw_reached (bbr_update_min_rtt rs w) = bbr_full_bw_reached w
    \<and> bb_state (s_bbr (bbr_update_min_rtt rs w)) \<in>
       (if bb_state (s_bbr w) = UDX_BBR_STATE_PROBE_RTT
        then {UDX_BBR_STATE_PROBE_RTT, if bbr_full_bw_reached w then UDX_BBR_STATE_PROBE_BW else UDX_BBR_STATE_STARTUP}
        else {bb_state (s_bbr w), UDX_BBR_STATE_PROBE_RTT})
    \<and> (s_cwnd w \<noteq> 0 \<longrightarrow> s_cwnd (bbr_update_min_rtt rs w) \<noteq> 0)"
proof -
  define expired where "expired = (time_diff (w_now w) (bb_min_rtt_stamp (s_bbr w) + UDX_BBR_MIN_RTT_INTERVAL_MS) > 0)"
  define w1 where "w1 = (if rs_rtt_ms rs \<ge> 0 \<and> (rs_rtt_ms rs < uint (bb_min_rtt_ms (s_bbr w)) \<or> (expired \<and> \<not> rs_is_ack_delayed rs))
              then upd_bbr (\<lambda>b. b\<lparr>bb_min_rtt_ms := word_of_int (if rs_rtt_ms rs \<noteq> 0 then rs_rtt_ms rs else 1), bb_min_rtt_stamp := w_now w\<rparr>) w
              else w)"
  define w2 where "w2 = (if UDX_BBR_MIN_PROBE_RTT_MODE_MS > 0 \<and> expired \<and> \<not> bb_idle_restart (s_bbr w1)
                 \<and> bb_state (s_bbr w1) \<noteq> UDX_BBR_STATE_PROBE_RTT
              then upd_bbr (\<lambda>b. b\<lparr>bb_probe_rtt_done_time := 0\<rparr>)
                     (bbr_save_cwnd (upd_bbr (\<lambda>b. b\<lparr>bb_state := UDX_BBR_STATE_PROBE_RTT\<rparr>) w1))
              else w1)"
  define w3 where "w3 = (if bb_state (s_bbr w2) = UDX_BBR_STATE_PROBE_RTT then bbr_probe_rtt_step w2 else w2)"
  have res: "bbr_update_min_rtt rs w = (if rs_delivered rs > 0 then upd_bbr (\<lambda>b. b\<lparr>bb_idle_restart := False\<rparr>) w3 else w3)"
    by (simp only: bbr_update_min_rtt_def Let_def expired_def [symmetric] w1_def [symmetric] w2_def [symmetric] w3_def [symmetric])
  have w1: "bbr_modes w1" "bb_state (s_bbr w1) = bb_state (s_bbr w)" "bbr_full_bw_reached w1 = bbr_full_bw_reached w" "s_cwnd w1 = s_cwnd w"
    using assms by (simp_all add: w1_def bbr_modes_def bbr_full_bw_reached_def)
  have w2: "bbr_modes w2" "bbr_full_bw_reached w2 = bbr_full_bw_reached w" "s_cwnd w2 = s_cwnd w"
    "bb_state (s_bbr w2) = bb_state (s_bbr w) \<or>
      (bb_state (s_bbr w) \<noteq> UDX_BBR_STATE_PROBE_RTT \<and> bb_state (s_bbr w2) = UDX_BBR_STATE_PROBE_RTT \<and> bb_probe_rtt_done_time (s_bbr w2) = 0)"
    using w1 by (simp_all add: w2_def bbr_modes_def bbr_full_bw_reached_def bbr_save_cwnd_def)
  have "bbr_modes w3 \<and> bbr_full_bw_reached w3 = bbr_full_bw_reached w \<and> (s_cwnd w \<noteq> 0 \<longrightarrow> s_cwnd w3 \<noteq> 0)
    \<and> bb_state (s_bbr w3) \<in>
       (if bb_state (s_bbr w) = UDX_BBR_STATE_PROBE_RTT
        then {UDX_BBR_STATE_PROBE_RTT, if bbr_full_bw_reached w then UDX_BBR_STATE_PROBE_BW else UDX_BBR_STATE_STARTUP}
        else {bb_state (s_bbr w), UDX_BBR_STATE_PROBE_RTT})"
  proof (cases "bb_state (s_bbr w2) = UDX_BBR_STATE_PROBE_RTT")
    case True
    then show ?thesis using probe_step_law [OF w2(1) True] w2 by (auto simp: w3_def split: if_splits)
  next
    case False
    then show ?thesis using w2 by (auto simp: w3_def)
  qed
  moreover have "bbr_modes (upd_bbr (\<lambda>b. b\<lparr>bb_idle_restart := False\<rparr>) w3) = bbr_modes w3"
    by (rule modes_cong) (simp add: bb_mode_def)
  ultimately show ?thesis unfolding res by (simp add: bbr_full_bw_reached_def)
qed

text \<open>The whole update, when the sample is sound.\<close>

lemma update_model_law:
  assumes "bbr_modes w" "s_cwnd w \<noteq> 0" and "\<not> (rs_delivered rs = 0 \<and> 0 < rs_interval_ms rs)"
  shows "\<exists>w'. bbr_update_model rs w = Some w' \<and> bbr_modes w' \<and> bbr_rest w' = bbr_rest w \<and> s_cwnd w' \<noteq> 0
    \<and> bbr_edge (bbr_full_bw_reached w') (bb_state (s_bbr w)) (bb_state (s_bbr w')) \<and> (bbr_full_bw_reached w \<longrightarrow> bbr_full_bw_reached w')"
proof -
  obtain w1 where w1: "bbr_update_bw rs w = Some w1"
    using assms(3) update_bw_None [of rs w] by (cases "bbr_update_bw rs w") auto
  note f1 = update_bw_frame [OF w1]
  obtain w2 where w2: "bbr_update_ack_aggregation rs w1 = Some w2" "bbr_rest w2 = bbr_rest w1"
    "bb_mode (s_bbr w2) = bb_mode (s_bbr w1)" "s_cwnd w2 = s_cwnd w1"
    using update_aggregation_Some by blast
  define w3 where "w3 = bbr_check_full_bw_reached rs (bbr_update_cycle_phase rs w2)"
  define w4 where "w4 = bbr_check_drain w3"
  define w5 where "w5 = bbr_update_min_rtt rs w4"
  have m2: "bbr_modes w2" "bb_mode (s_bbr w2) = bb_mode (s_bbr w)" "s_cwnd w2 \<noteq> 0"
    using assms(1,2) f1 w2 modes_cong [of w2 w] by simp_all
  have s3: "bb_state (s_bbr w3) = bb_state (s_bbr w)" "bb_cycle_index (s_bbr w3) < 8"
    "bbr_full_bw_reached w \<longrightarrow> bbr_full_bw_reached w3"
    using m2 by (auto simp: w3_def full_bw_mode cycle_phase_mode bb_mode_def bbr_modes_def bbr_full_bw_reached_def)
  have "bb_state (s_bbr w3) = UDX_BBR_STATE_DRAIN \<or> bb_state (s_bbr w3) = UDX_BBR_STATE_PROBE_BW \<longrightarrow> bbr_full_bw_reached w3"
    using s3 assms(1) by (simp add: bbr_modes_def)
  note d = drain_mode [OF s3(2) this, folded w4_def]
  note r = min_rtt_law [OF d(1), of rs, folded w5_def]
  have cwnd: "s_cwnd w4 = s_cwnd w2"
    by (simp add: w4_def w3_def bbr_check_drain_def bbr_reset_probe_bw_mode_def bbr_advance_cycle_phase_def
        bbr_check_full_bw_reached_def bbr_update_cycle_phase_def Let_def)
  have edge: "bbr_edge (bbr_full_bw_reached w5) (bb_state (s_bbr w)) (bb_state (s_bbr w5))"
    using d r s3(1) by (auto simp: bbr_edge_def bbr_full_bw_reached_def bbr_modes_def split: if_splits)
  have "bbr_update_model rs w = Some (bbr_update_gains w5)"
    by (simp add: bbr_update_model_def w1 w2(1) w3_def w4_def w5_def)
  moreover have "bbr_rest (bbr_update_gains w5) = bbr_rest w"
    using f1 w2(2) by (simp add: w5_def w4_def w3_def rest_simps)
  ultimately show ?thesis
    using r edge d(2) s3(3) gains_mode [of w5] modes_cong [of "bbr_update_gains w5" w5] cwnd m2(3)
    by (auto simp: bb_mode_def bbr_full_bw_reached_def)
qed

lemma bbr_main_law:
  assumes "bbr_modes w" "s_cwnd w \<noteq> 0" "mtu_inv w" and "\<not> (rs_delivered rs = 0 \<and> 0 < rs_interval_ms rs)"
    and "length (s_inflight_queue w) + unat (rs_acked_sacked rs) < 2 ^ 32"
  shows "\<exists>w'. bbr_main rs w = Some w' \<and> bbr_modes w' \<and> bbr_rest w' = bbr_rest w \<and> s_cwnd w' \<noteq> 0
    \<and> (bb_state (s_bbr w') = UDX_BBR_STATE_PROBE_RTT \<longrightarrow> s_cwnd w' \<le> 4)
    \<and> bbr_edge (bbr_full_bw_reached w') (bb_state (s_bbr w)) (bb_state (s_bbr w')) \<and> (bbr_full_bw_reached w \<longrightarrow> bbr_full_bw_reached w')"
proof -
  obtain w1 where w1: "bbr_update_model rs w = Some w1" "bbr_modes w1" "bbr_rest w1 = bbr_rest w" "s_cwnd w1 \<noteq> 0"
    "bbr_edge (bbr_full_bw_reached w1) (bb_state (s_bbr w)) (bb_state (s_bbr w1))" "bbr_full_bw_reached w \<longrightarrow> bbr_full_bw_reached w1"
    using update_model_law [OF assms(1,2,4)] by blast
  obtain w2 where w2: "bbr_set_pacing_rate (bbr_bw w1) (bb_pacing_gain (s_bbr w1)) w1 = Some w2" "bbr_rest w2 = bbr_rest w1"
    "bb_mode (s_bbr w2) = bb_mode (s_bbr w1)" "s_cwnd w2 = s_cwnd w1"
    using set_pacing_Some [OF _ w1(4)] assms(3) mtu_inv_rest [OF w1(3)] by blast
  have "s_inflight_queue w2 = s_inflight_queue w" using w1(3) w2(2) by (intro bbr_rest_fields) simp
  then obtain w3 where w3: "bbr_set_cwnd rs (rs_acked_sacked rs) (bbr_bw w1) (bb_cwnd_gain (s_bbr w2)) w2 = Some w3"
    "bbr_rest w3 = bbr_rest w2" "bb_mode (s_bbr w3) = bb_mode (s_bbr w2)" "s_cwnd w3 \<noteq> 0"
    "bb_state (s_bbr w3) = UDX_BBR_STATE_PROBE_RTT \<longrightarrow> s_cwnd w3 \<le> 4"
    using set_cwnd_Some [of w2 "rs_acked_sacked rs"] w1(4) w2(4) assms(5) by metis
  have "bbr_main rs w = Some w3" by (simp add: bbr_main_def w1(1) w2(1) w3(1))
  then show ?thesis
    using w1 w2 w3 modes_cong [of w3 w1] by (auto simp: bb_mode_def bbr_full_bw_reached_def)
qed

section \<open>Properties\<close>

text \<open>C10. Congestion control per acknowledgement: for every sample that does not claim an interval without a delivered packet,
  \<open>bbr_main\<close> passes all its assertions; the mode moves along an edge of the BBR state machine and
  the machine's invariant is kept (draining and probing only once the pipe was found full, which stays so; the gain cycle
  index in range); the congestion window is never zero, and at most four packets while the round trip is
  probed; and nothing outside the module's own state is touched.\<close>

theorem bbr_main_sound:
  assumes "bbr_modes w" "s_cwnd w \<noteq> 0" "mtu_inv w" and "\<not> (rs_delivered rs = 0 \<and> 0 < rs_interval_ms rs)"
    and "length (s_inflight_queue w) + unat (rs_acked_sacked rs) < 2 ^ 32"
  shows "\<exists>w'. bbr_main rs w = Some w' \<and> bbr_modes w' \<and> bbr_rest w' = bbr_rest w \<and> s_cwnd w' \<noteq> 0
    \<and> (bb_state (s_bbr w') = UDX_BBR_STATE_PROBE_RTT \<longrightarrow> s_cwnd w' \<le> 4)
    \<and> bbr_edge (bbr_full_bw_reached w') (bb_state (s_bbr w)) (bb_state (s_bbr w')) \<and> (bbr_full_bw_reached w \<longrightarrow> bbr_full_bw_reached w')"
  by (rule bbr_main_law [OF assms])

definition bbr_world :: world where
  "bbr_world = reset_mtu_state_machine (zero_stream 100 0\<lparr>s_cwnd := 10\<rparr>)"

definition bbr_sample :: "int \<Rightarrow> udx_rate_sample" where
  "bbr_sample d = \<lparr>rs_prior_timestamp = 10, rs_prior_delivered = 1, rs_delivered = d, rs_interval_ms = 20, rs_snd_interval_ms = 20,
     rs_rcv_interval_ms = 20, rs_rtt_ms = 20, rs_losses = 0, rs_acked_sacked = 2, rs_seq = 1, rs_is_app_limited = False,
     rs_is_retrans = False, rs_is_ack_delayed = False\<rparr>"

theorem bbr_main_sound_witness: "\<exists>w'. bbr_main (bbr_sample 2) bbr_world = Some w' \<and> bbr_modes w' \<and> s_cwnd w' \<noteq> 0"
  using bbr_main_sound [of bbr_world "bbr_sample 2"] mtu_inv_reset [of "zero_stream 100 0\<lparr>s_cwnd := 10\<rparr>"]
  by (auto simp: bbr_world_def bbr_sample_def reset_mtu_state_machine_def zero_stream_def zero_bbr_def bbr_modes_def bbr_full_bw_reached_def)

text \<open>C11. The exception, which the code does not exclude: a sample with a positive interval in which nothing was delivered
  fails the assertion \<open>bw != 0\<close> and ends the process; such samples arise when a packet is acknowledged selectively
  without the window moving.\<close>

theorem bbr_main_empty_sample:
  assumes "rs_delivered rs = 0" "0 < rs_interval_ms rs"
  shows "bbr_main rs w = None"
  using update_bw_None [of rs w] assms by (simp add: bbr_main_def bbr_update_model_def)

theorem bbr_main_empty_sample_witness: "bbr_main (bbr_sample 0) bbr_world = None"
  by (rule bbr_main_empty_sample) (simp_all add: bbr_sample_def)

text \<open>A limit of the clock arithmetic: the difference of two times is truncated to 32 bits before it is clamped, so that a
  time in the past counts as almost \<open>2 ^ 32\<close> milliseconds instead of zero.\<close>

theorem time_delta_wraps:
  assumes "t1 < t0" "t0 < 2 ^ 31"
  shows "uint (time_delta_ms t1 t0) = 2 ^ 32 - (uint t0 - uint t1)"
proof -
  have u: "uint t1 < uint t0" "uint t0 < 2 ^ 31" "0 \<le> uint t1" using assms by (simp_all add: word_less_def)
  have "sint t1 = uint t1" "sint t0 = uint t0"
    using u by (simp_all add: sint_uint signed_take_bit_eq_if_positive bit_iff_odd take_bit_int_eq_self)
  then have "uint (time_delta_ms t1 t0) = (uint t1 - uint t0) mod 2 ^ 32"
    unfolding time_delta_ms_def max_uint32_eq
    by (simp add: unsigned_of_int take_bit_eq_mod del: of_int_diff)
  also have "\<dots> = (uint t1 - uint t0 + 2 ^ 32) mod 2 ^ 32" by simp
  also have "\<dots> = uint t1 - uint t0 + 2 ^ 32"
  proof (rule mod_pos_pos_trivial)
    have "(2 :: int) ^ 31 = 2147483648" "(2 :: int) ^ 32 = 4294967296" by simp_all
    with u show "0 \<le> uint t1 - uint t0 + 2 ^ 32" "uint t1 - uint t0 + 2 ^ 32 < 2 ^ 32" by linarith+
  qed
  finally show ?thesis by simp
qed

theorem time_delta_wraps_witness: "uint (time_delta_ms 5 8) = 2 ^ 32 - 3"
  using time_delta_wraps [of 5 8] by simp

end
