(* ===== verification/Udx_Send.thy ===== *)
theory Udx_Send
  imports Udx_Rate Udx_Bbr
begin

text \<open>
  The send path of \<open>src/udx.c\<close>: transmitting a packet, building packets from the queued write buffers,
  retransmitting, and the loop that sends as much as the windows and the pacing allow.  The
  functions are translated statement by statement; \<open>None\<close> is a failed assertion (or, for the loops,
  not returning).
\<close>

section \<open>Transmitting a packet\<close>

text \<open>The bytes a slice of a write buffer stands for, and the datagram of a packet.\<close>

definition slice_bytes :: "world \<Rightarrow> pkt_slice \<Rightarrow> u8 list" where
  "slice_bytes w sl = take (unat (sl_len sl)) (drop (unat (sl_off sl)) (wb_buf (w_wbufs w (sl_wbuf sl))))"

definition packet_payload :: "world \<Rightarrow> udx_packet \<Rightarrow> u8 list" where
  "packet_payload w pkt = concat (map (slice_bytes w) (p_slices pkt))"

definition packet_datagram :: "world \<Rightarrow> udx_packet \<Rightarrow> u8 list" where
  "packet_datagram w pkt =
    p_header pkt @ (if p_is_mtu_probe pkt then replicate (unat (p_header pkt ! 3)) 0 else []) @ packet_payload w pkt"

definition deref_packet :: "addr \<Rightarrow> world \<Rightarrow> world" where
  "deref_packet p w = upd_packet p (\<lambda>pkt. pkt\<lparr>p_ref_count := p_ref_count pkt - 1\<rparr>) w"

text \<open>The callback of \<open>uv_udp_send\<close>.\<close>

definition on_stream_data_write :: "addr \<Rightarrow> world \<Rightarrow> world" where
  "on_stream_data_write p w = deref_packet p w"

text \<open>The debug switches that drop a packet instead of sending it.\<close>

definition debug_drop :: "addr \<Rightarrow> world \<Rightarrow> bool \<times> world" where
  "debug_drop p w =
    (let drop_probe = has_flag (w_debug_flags w) UDX_DEBUG_FORCE_DROP_PROBES \<and> p_is_mtu_probe (w_packets w p)
     in if has_flag (w_debug_flags w) UDX_DEBUG_FORCE_DROP_DATA
        then (drop_probe \<or> (w_drop_count w mod 3 = 0 \<and> p_transmits (w_packets w p) < 3), w\<lparr>w_drop_count := w_drop_count w + 1\<rparr>)
        else (drop_probe, w))"

text \<open>The fast path with \<open>uv_udp_try_send\<close> and the slow path with \<open>uv_udp_send\<close>.\<close>

definition transmit :: "env \<Rightarrow> addr \<Rightarrow> world \<Rightarrow> world option" where
  "transmit env p w = do {
     let out = Datagram (p_remote_addr (w_packets w p)) (packet_datagram w (w_packets w p));
     let err = env_try_send env (w_ios w);
     let w = w\<lparr>w_ios := w_ios w + 1\<rparr>;
     if err = UV_EAGAIN then do {
       let w = upd_packet p (\<lambda>pkt. pkt\<lparr>p_ref_count := p_ref_count pkt + 1\<rparr>) w;
       c_assert (p_ref_count (w_packets w p) = 2);
       let err = env_udp_send env (w_ios w);
       let w = w\<lparr>w_ios := w_ios w + 1\<rparr>;
       Some (if err \<noteq> 0 then deref_packet p w else w\<lparr>w_output := w_output w @ [out]\<rparr>)
     } else Some (if err < 0 then w else w\<lparr>w_output := w_output w @ [out]\<rparr>)
   }"

definition count_tx :: "u64 \<Rightarrow> world \<Rightarrow> world" where
  "count_tx n w = w\<lparr>s_packets_tx := s_packets_tx w + 1, s_bytes_tx := s_bytes_tx w + n,
     w_socket_packets_tx := w_socket_packets_tx w + 1, w_socket_bytes_tx := w_socket_bytes_tx w + n,
     w_udx_packets_tx := w_udx_packets_tx w + 1, w_udx_bytes_tx := w_udx_bytes_tx w + n\<rparr>"

text \<open>The bookkeeping of \<open>_send_packet\<close> before the datagram leaves.\<close>

definition send_packet_enqueue :: "addr \<Rightarrow> bool \<Rightarrow> world \<Rightarrow> world option" where
  "send_packet_enqueue p is_retransmit w = do {
     w \<leftarrow> udx__rate_check_app_limited w;
     let w = upd_packet p (\<lambda>pkt. pkt\<lparr>p_transmits := (if p_transmits pkt < 255 then p_transmits pkt + 1 else p_transmits pkt),
       p_retransmitted := p_retransmitted pkt \<or> is_retransmit, p_time_sent := w_now w\<rparr>) w;
     let w = udx__rate_pkt_sent p w;
     w \<leftarrow> (if p_lost (w_packets w p)
       then do { q \<leftarrow> lq_unlink p (s_retransmit_queue w);
                 Some (upd_packet p (\<lambda>pkt. pkt\<lparr>p_lost := False\<rparr>) (w\<lparr>s_retransmit_queue := q\<rparr>)) }
       else Some w);
     Some (w\<lparr>s_inflight_queue := lq_tail p (s_inflight_queue w), s_inflight := s_inflight w + ucast (p_size (w_packets w p))\<rparr>)
   }"

definition send_packet_account :: "addr \<Rightarrow> world \<Rightarrow> world" where
  "send_packet_account p w =
    (let n = ucast (p_size (w_packets w p));
         w = count_tx (ucast (p_size (w_packets w p))) w;
         w = w\<lparr>s_tb_available := (if n > s_tb_available w then 0 else s_tb_available w - n)\<rparr>
     in if s_tb_available w = 0 then w\<lparr>w_pacing_timer := Some (w_now w + 1)\<rparr> else w)"

definition send_packet :: "env \<Rightarrow> addr \<Rightarrow> bool \<Rightarrow> world \<Rightarrow> world option" where
  "send_packet env p is_retransmit w = do {
     w \<leftarrow> send_packet_enqueue p is_retransmit w;
     let (drop_packet, w) = debug_drop p w;
     w \<leftarrow> (if drop_packet then Some w else transmit env p w);
     Some (send_packet_account p w)
   }"

section \<open>Building packets\<close>

definition reset_next_packet :: "world \<Rightarrow> world option" where
  "reset_next_packet w = do {
     mp \<leftarrow> udx__max_payload w;
     let p = w_next_packet w;
     Some (w\<lparr>s_pkt_capacity := ucast mp, s_pkt_header_flag := 0, s_pkt := p, w_next_packet := p + 1,
       w_packets := (w_packets w)(p := empty_packet\<lparr>p_stream_offset := s_bytes_packetized w\<rparr>), w_prepare := False\<rparr>)
   }"

definition bind_packet_remote :: "addr \<Rightarrow> world \<Rightarrow> world option" where
  "bind_packet_remote p w = do {
     c_assert (p_remote_addr_len (w_packets w p) = 0);
     Some (upd_packet p (\<lambda>pkt. pkt\<lparr>p_remote_id := s_remote_id w, p_remote_addr := s_remote_addr w,
       p_remote_addr_len := s_remote_addr_len w\<rparr>) w)
   }"

text \<open>The head of \<open>_send_new_packet\<close>: header, sequence number and, when wanted, probe padding.\<close>

definition finish_packet :: "env \<Rightarrow> bool \<Rightarrow> world \<Rightarrow> (bool \<times> world) option" where
  "finish_packet env tlp w = do {
     c_assert (s_pkt_header_flag w AND NOT UDX_HEADER_DATA_OR_END = 0);
     let p = s_pkt w;
     w \<leftarrow> (if p_remote_addr_len (w_packets w p) = 0 then bind_packet_remote p w else Some w);
     let w = upd_packet p (\<lambda>pkt. pkt\<lparr>p_header := udx_write_header env w (s_pkt_header_flag w) (p_remote_id pkt),
       p_seq := s_seq w, p_ref_count := 1\<rparr>) w;
     (mtu_probe, pkt) \<leftarrow> (if s_mtu_probe_wanted w \<and> \<not> tlp \<and> \<not> s_remote_changing w
       then mtu_probeify_packet (w_packets w p) (s_mtu_probe_size w) else Some (False, w_packets w p));
     Some (mtu_probe, w\<lparr>w_packets := (w_packets w)(p := pkt), s_outgoing := (s_outgoing w)(p_seq pkt \<mapsto> p)\<rparr>)
   }"

definition send_current_packet :: "env \<Rightarrow> bool \<Rightarrow> world \<Rightarrow> world option" where
  "send_current_packet env tlp w = do {
     let inflight_queue_was_empty = (s_inflight_queue w = []);
     let p = s_pkt w;
     (mtu_probe, w) \<leftarrow> finish_packet env tlp w;
     w \<leftarrow> send_packet env p False w;
     let w = w\<lparr>s_seq := s_seq w + 1\<rparr>;
     w \<leftarrow> (if inflight_queue_was_empty then bbr_on_transmit_start (w_now w) w else Some w);
     let w = (if mtu_probe then w\<lparr>s_mtu_probe_count := s_mtu_probe_count w + 1, s_mtu_probe_wanted := False\<rparr> else w);
     let w = (if tlp then w\<lparr>s_tlp_is_retrans := False, s_tlp_in_flight := True, s_tlp_end_seq := p_seq (w_packets w p),
       s_tlp_permitted := False\<rparr> else w);
     w \<leftarrow> arm_stream_timers (\<not> tlp) w;
     c_assert (p_size (w_packets w p) > 0 \<and> p_size (w_packets w p) < 1500);
     reset_next_packet w
   }"

definition on_pending_packet_prepare :: "env \<Rightarrow> world \<Rightarrow> world option" where
  "on_pending_packet_prepare env w = send_current_packet env False w"

text \<open>One round of the loop that fills the packet under construction from the first write buffer: a slice of \<open>len\<close> bytes
  is appended, the first data binds the packet to the remote, and a buffer that is used up leaves the queue.\<close>

definition fill_append :: "addr \<Rightarrow> u64 \<Rightarrow> world \<Rightarrow> world" where
  "fill_append b len w =
    (let wbuf = w_wbufs w b;
         partial = \<lparr>sl_wbuf = b, sl_off = wb_bytes_acked wbuf + wb_bytes_inflight wbuf, sl_len = len\<rparr>
     in upd_packet (s_pkt w) (\<lambda>pkt. pkt\<lparr>p_size := p_size pkt + ucast len, p_slices := p_slices pkt @ [partial]\<rparr>)
          (w\<lparr>s_bytes_packetized := s_bytes_packetized w + len, s_pkt_capacity := s_pkt_capacity w - ucast len,
             w_wbufs := (w_wbufs w)(b := wbuf\<lparr>wb_bytes_inflight := wb_bytes_inflight wbuf + len\<rparr>)\<rparr>))"

definition fill_data_flag :: "u64 \<Rightarrow> world \<Rightarrow> world option" where
  "fill_data_flag len w =
    (if len > 0 \<and> \<not> has_flag (s_pkt_header_flag w) UDX_HEADER_DATA
     then do { w \<leftarrow> bind_packet_remote (s_pkt w) w; Some (w\<lparr>s_pkt_header_flag := s_pkt_header_flag w OR UDX_HEADER_DATA\<rparr>) }
     else Some w)"

definition fill_settle :: "addr \<Rightarrow> world \<Rightarrow> world option" where
  "fill_settle b w =
    (let wbuf = w_wbufs w b in
     if wb_bytes_acked wbuf + wb_bytes_inflight wbuf = of_nat (length (wb_buf wbuf)) then do {
       let w = (if wb_is_write_end wbuf then w\<lparr>s_pkt_header_flag := s_pkt_header_flag w OR UDX_HEADER_END\<rparr> else w);
       (_, rest) \<leftarrow> lq_shift (s_write_queue w);
       Some (w\<lparr>s_write_queue := rest\<rparr>)
     } else Some w)"

definition fill_step :: "world \<Rightarrow> world option" where
  "fill_step w =
    (case s_write_queue w of
       [] \<Rightarrow> None
     | b # _ \<Rightarrow> do {
         let wbuf = w_wbufs w b;
         let writesz = of_nat (length (wb_buf wbuf)) - wb_bytes_acked wbuf - wb_bytes_inflight wbuf;
         let len = min_uint64 (ucast (s_pkt_capacity w)) writesz;
         w \<leftarrow> fill_data_flag len (fill_append b len w);
         fill_settle b w
       })"

partial_function (option) fill_packet :: "world \<Rightarrow> world option" where
  "fill_packet w =
    (if s_pkt_capacity w > 0 \<and> s_write_queue w \<noteq> [] then do { w \<leftarrow> fill_step w; fill_packet w } else Some w)"

definition send_new_packet :: "env \<Rightarrow> bool \<Rightarrow> world \<Rightarrow> (bool \<times> world) option" where
  "send_new_packet env tlp w =
    (if s_write_queue w = [] then Some (False, w)
     else do {
       (may, w) \<leftarrow> stream_may_send False w;
       if \<not> may \<and> \<not> tlp then Some (False, w)
       else do {
         w \<leftarrow> fill_packet w;
         if s_pkt_capacity w = 0 \<or> tlp \<or> has_flag (s_pkt_header_flag w) UDX_HEADER_END
         then do { w \<leftarrow> send_current_packet env tlp w; Some (True, w) }
         else Some (False, if has_flag (s_pkt_header_flag w) UDX_HEADER_DATA then w\<lparr>w_prepare := True\<rparr> else w)
       }
     })"

section \<open>Retransmission and the send loop\<close>

definition retransmit_packet :: "env \<Rightarrow> addr \<Rightarrow> world \<Rightarrow> world option" where
  "retransmit_packet env p w = do {
     let inflight_queue_was_empty = (s_inflight_queue w = []);
     let w = upd_packet p (\<lambda>pkt. pkt\<lparr>p_header := patch_word (env_host env) 16 (s_ack w)
       (patch_word (env_host env) 8 (get_recv_rwnd env w) (p_header pkt))\<rparr>) w;
     w \<leftarrow> send_packet env p True w;
     let w = w\<lparr>s_retransmit_count := s_retransmit_count w + 1\<rparr>;
     w \<leftarrow> (if inflight_queue_was_empty then bbr_on_transmit_start (w_now w) w else Some w);
     arm_stream_timers False w
   }"

partial_function (option) send_retransmits :: "env \<Rightarrow> world \<Rightarrow> world option" where
  "send_retransmits env w =
    (if s_retransmit_queue w \<noteq> [] then do {
       (may, w) \<leftarrow> stream_may_send True w;
       if may then do { w \<leftarrow> retransmit_packet env (hd (s_retransmit_queue w)) w; send_retransmits env w }
       else Some w
     } else Some w)"

partial_function (option) send_new_packets :: "env \<Rightarrow> world \<Rightarrow> world option" where
  "send_new_packets env w = do {
     (sent, w) \<leftarrow> send_new_packet env False w;
     if sent then send_new_packets env w else Some w
   }"

definition send_packets :: "env \<Rightarrow> world \<Rightarrow> world option" where
  "send_packets env w = do {
     c_assert (s_status w AND UDX_STREAM_DEAD = 0);
     w \<leftarrow> send_retransmits env w;
     send_new_packets env w
   }"

definition pacing_timer_timeout :: "env \<Rightarrow> world \<Rightarrow> world option" where
  "pacing_timer_timeout env w = do { w \<leftarrow> update_pacing_time w; send_packets env w }"

declare fill_packet.simps [code] send_retransmits.simps [code] send_new_packets.simps [code]

end
