(* ===== verification/Udx_Account.thy ===== *)
theory Udx_Account
  imports Udx_Send "HOL-Library.Multiset"
begin

text \<open>
  The account of a stream: every byte of a write is answered for.  The bytes that are not yet acknowledged are cut into chunks: the
  slices of the packet under construction and of the packets in flight, and what is left of each buffer in the write
  queue.  The account is right when these chunks add up, buffer by buffer to the buffer's length, write by write to
  the size of the write, and altogether to \<open>writes_queued_bytes\<close> of \<open>udx_stream_t\<close>.

  Shown here: the steps of the sender keep the account (\<open>send_new_packet\<close> moves bytes from the queue to the packet,
  \<open>_send_new_packet\<close> the packet to the packets in flight).  \<open>Udx_Cancel\<close> shows what the account is good for.
\<close>

section \<open>Chunks\<close>

type_synonym chunk = "addr \<times> u64"

definition chunk_sum :: "(addr \<Rightarrow> bool) \<Rightarrow> chunk list \<Rightarrow> nat" where
  "chunk_sum P cs = sum_list (map (\<lambda>c. if P (fst c) then unat (snd c) else 0) cs)"

lemma chunk_sum_simps [simp]:
  "chunk_sum P [] = 0"
  "chunk_sum P (c # cs) = (if P (fst c) then unat (snd c) else 0) + chunk_sum P cs"
  "chunk_sum P (cs @ ds) = chunk_sum P cs + chunk_sum P ds"
  by (simp_all add: chunk_sum_def)

lemma chunk_sum_zero: "chunk_sum P cs = 0 \<longleftrightarrow> (\<forall>c \<in> set cs. P (fst c) \<longrightarrow> snd c = 0)"
  by (induction cs) (auto simp: unat_eq_0)

lemma chunk_sum_none: "(\<And>c. c \<in> set cs \<Longrightarrow> \<not> P (fst c)) \<Longrightarrow> chunk_sum P cs = 0"
  by (simp add: chunk_sum_zero)

lemma chunk_sum_mset: "mset cs = mset ds \<Longrightarrow> chunk_sum P cs = chunk_sum P ds"
  unfolding chunk_sum_def sum_mset_sum_list [symmetric] mset_map by simp

abbreviation owner :: "world \<Rightarrow> addr \<Rightarrow> addr" where
  "owner w b \<equiv> wb_write (w_wbufs w b)"

text \<open>The chunks \<open>cs\<close> are what is still to be answered for.\<close>

definition covers :: "chunk list \<Rightarrow> world \<Rightarrow> bool" where
  "covers cs w \<longleftrightarrow>
     (\<forall>b \<in> fst ` set cs. unat (wb_bytes_acked (w_wbufs w b)) + chunk_sum (\<lambda>c. c = b) cs = length (wb_buf (w_wbufs w b))
        \<and> length (wb_buf (w_wbufs w b)) < 2 ^ 64
        \<and> unat (wr_bytes_acked (w_writes w (owner w b))) + chunk_sum (\<lambda>c. owner w c = owner w b) cs = unat (wr_size (w_writes w (owner w b))))
     \<and> unat (s_writes_queued_bytes w) = chunk_sum (\<lambda>_. True) cs"

lemma coversD:
  assumes "covers cs w"
  shows "b \<in> fst ` set cs \<Longrightarrow> unat (wb_bytes_acked (w_wbufs w b)) + chunk_sum (\<lambda>c. c = b) cs = length (wb_buf (w_wbufs w b))"
    and "b \<in> fst ` set cs \<Longrightarrow> length (wb_buf (w_wbufs w b)) < 2 ^ 64"
    and "b \<in> fst ` set cs \<Longrightarrow> unat (wr_bytes_acked (w_writes w (owner w b))) + chunk_sum (\<lambda>c. owner w c = owner w b) cs = unat (wr_size (w_writes w (owner w b)))"
    and "unat (s_writes_queued_bytes w) = chunk_sum (\<lambda>_. True) cs"
  using assms unfolding covers_def by blast+

text \<open>Chunks are not empty, except for a write that consists of one empty buffer.\<close>

definition lively :: "world \<Rightarrow> chunk list \<Rightarrow> bool" where
  "lively w cs \<longleftrightarrow> (\<forall>c \<in> set cs. snd c = 0 \<longrightarrow> length (filter (\<lambda>d. owner w (fst d) = owner w (fst c)) cs) = 1)"

lemma covers_mset:
  assumes "mset cs = mset ds"
  shows "covers cs w = covers ds w"
proof -
  have "chunk_sum P cs = chunk_sum P ds" for P using chunk_sum_mset [OF assms] .
  then show ?thesis unfolding covers_def mset_eq_setD [OF assms] by simp
qed

lemma lively_mset:
  assumes "mset cs = mset ds"
  shows "lively w cs = lively w ds"
proof -
  have "length (filter P cs) = length (filter P ds)" for P
    using assms by (intro mset_eq_length) simp
  then show ?thesis unfolding lively_def mset_eq_setD [OF assms] by simp
qed

section \<open>The account of a stream\<close>

definition slice_chunk :: "pkt_slice \<Rightarrow> chunk" where
  "slice_chunk sl = (sl_wbuf sl, sl_len sl)"

definition packet_chunks :: "world \<Rightarrow> addr \<Rightarrow> chunk list" where
  "packet_chunks w p = map slice_chunk (p_slices (w_packets w p))"

definition flight_chunks :: "world \<Rightarrow> u32 \<Rightarrow> chunk list" where
  "flight_chunks w seq =
    concat (map (\<lambda>i. case s_outgoing w (seq + of_nat i) of None \<Rightarrow> [] | Some p \<Rightarrow> packet_chunks w p) [0..<unat (s_seq w - seq)])"

definition sent_chunks :: "world \<Rightarrow> chunk list" where
  "sent_chunks w = packet_chunks w (s_pkt w) @ flight_chunks w (s_remote_acked w)"

definition wb_rest :: "udx_stream_write_buf \<Rightarrow> u64" where
  "wb_rest wb = of_nat (length (wb_buf wb)) - wb_bytes_acked wb - wb_bytes_inflight wb"

definition queue_chunks :: "world \<Rightarrow> chunk list" where
  "queue_chunks w = map (\<lambda>b. (b, wb_rest (w_wbufs w b))) (s_write_queue w)"

definition open_chunks :: "world \<Rightarrow> chunk list" where
  "open_chunks w = sent_chunks w @ queue_chunks w"

text \<open>The counter \<open>bytes_inflight\<close> of a buffer is the sum of its slices.\<close>

definition accounted :: "world \<Rightarrow> bool" where
  "accounted w \<longleftrightarrow> covers (open_chunks w) w \<and> lively w (open_chunks w) \<and> distinct (s_write_queue w)
     \<and> (\<forall>b \<in> fst ` set (open_chunks w). unat (wb_bytes_inflight (w_wbufs w b)) = chunk_sum (\<lambda>c. c = b) (sent_chunks w))
     \<and> s_pkt w \<noteq> NULL \<and> p_ref_count (w_packets w (s_pkt w)) = 1"

text \<open>The writes that are not answered yet.\<close>

definition unanswered :: "world \<Rightarrow> addr set" where
  "unanswered w = owner w ` fst ` set (open_chunks w)"

lemma flight_chunks_same:
  assumes "s_seq w' = s_seq w" "\<And>i. i < unat (s_seq w - seq) \<Longrightarrow> s_outgoing w' (seq + of_nat i) = s_outgoing w (seq + of_nat i)"
    "\<And>p. p \<in> ran (s_outgoing w) \<Longrightarrow> p_slices (w_packets w' p) = p_slices (w_packets w p)"
  shows "flight_chunks w' seq = flight_chunks w seq"
  unfolding flight_chunks_def packet_chunks_def assms(1) using assms(2,3)
  by (intro arg_cong [where f = concat] map_cong) (auto split: option.split simp: ranI)

text \<open>The fields the account reads.\<close>

definition same_account :: "world \<Rightarrow> world \<Rightarrow> bool" where
  "same_account w w' \<longleftrightarrow> w_wbufs w' = w_wbufs w \<and> w_writes w' = w_writes w \<and> s_writes_queued_bytes w' = s_writes_queued_bytes w
     \<and> s_write_queue w' = s_write_queue w \<and> s_outgoing w' = s_outgoing w \<and> s_remote_acked w' = s_remote_acked w \<and> s_seq w' = s_seq w
     \<and> s_pkt w' = s_pkt w \<and> (\<forall>p \<in> insert (s_pkt w) (ran (s_outgoing w)). p_slices (w_packets w' p) = p_slices (w_packets w p))
     \<and> p_ref_count (w_packets w' (s_pkt w)) = p_ref_count (w_packets w (s_pkt w))"

lemma same_account_trans: "same_account u v \<Longrightarrow> same_account v w \<Longrightarrow> same_account u w"
  unfolding same_account_def by auto

lemma same_account_chunks:
  assumes "same_account w w'"
  shows "sent_chunks w' = sent_chunks w" and "queue_chunks w' = queue_chunks w" and "open_chunks w' = open_chunks w"
proof -
  note s = assms [unfolded same_account_def]
  have "flight_chunks w' (s_remote_acked w) = flight_chunks w (s_remote_acked w)" using s by (intro flight_chunks_same) auto
  then show a: "sent_chunks w' = sent_chunks w" using s by (simp add: sent_chunks_def packet_chunks_def)
  show b: "queue_chunks w' = queue_chunks w" using s by (simp add: queue_chunks_def)
  show "open_chunks w' = open_chunks w" by (simp add: open_chunks_def a b)
qed

lemma accounted_same: "same_account w w' \<Longrightarrow> accounted w' = accounted w"
  using same_account_chunks [of w w'] unfolding accounted_def covers_def lively_def same_account_def by simp

text \<open>The calls of the user's callbacks so far.\<close>

fun is_callback :: "udx_output \<Rightarrow> bool" where
  "is_callback (Callback ev) = True"
| "is_callback (Datagram dest bytes) = False"

definition callbacks :: "world \<Rightarrow> udx_output list" where
  "callbacks w = filter is_callback (w_output w)"

definition same_answers :: "world \<Rightarrow> world \<Rightarrow> bool" where
  "same_answers w w' \<longleftrightarrow> unanswered w' = unanswered w \<and> callbacks w' = callbacks w
     \<and> (\<forall>wr. wr_on_ack (w_writes w' wr) = wr_on_ack (w_writes w wr))"

text \<open>A step that keeps the account and answers no write.\<close>

definition keeps_account :: "world \<Rightarrow> world \<Rightarrow> bool" where
  "keeps_account w w' \<longleftrightarrow> (accounted w \<longrightarrow> accounted w' \<and> same_answers w w')"

lemma keeps_account_refl [simp]: "keeps_account w w"
  by (simp add: keeps_account_def same_answers_def)

lemma keeps_account_trans: "keeps_account u v \<Longrightarrow> keeps_account v w \<Longrightarrow> keeps_account u w"
  by (simp add: keeps_account_def same_answers_def)

lemma same_account_answers: "same_account w w' \<Longrightarrow> callbacks w' = callbacks w \<Longrightarrow> same_answers w w'"
  using same_account_chunks(3) [of w w'] by (simp add: same_answers_def unanswered_def same_account_def)

lemma same_account_keeps: "same_account w w' \<Longrightarrow> callbacks w' = callbacks w \<Longrightarrow> keeps_account w w'"
  by (simp add: keeps_account_def accounted_same same_account_answers)

lemma accountedD:
  assumes "accounted w"
  shows "covers (open_chunks w) w" "lively w (open_chunks w)" "distinct (s_write_queue w)"
    "b \<in> fst ` set (open_chunks w) \<Longrightarrow> unat (wb_bytes_inflight (w_wbufs w b)) = chunk_sum (\<lambda>c. c = b) (sent_chunks w)"
    "s_pkt w \<noteq> NULL" "p_ref_count (w_packets w (s_pkt w)) = 1"
  using assms unfolding accounted_def by blast+

text \<open>No chunk exceeds its buffer, so the counters do not wrap.\<close>

lemma accounted_queue:
  assumes acc: "accounted w" and b: "b \<in> set (s_write_queue w)"
  shows "unat (wb_bytes_acked (w_wbufs w b)) + unat (wb_bytes_inflight (w_wbufs w b)) + unat (wb_rest (w_wbufs w b)) = length (wb_buf (w_wbufs w b))"
    and "length (wb_buf (w_wbufs w b)) < 2 ^ 64"
proof -
  let ?r = "\<lambda>b. (b, wb_rest (w_wbufs w b))"
  have m: "b \<in> fst ` set (open_chunks w)" using b by (force simp: open_chunks_def queue_chunks_def)
  have "chunk_sum (\<lambda>c. c = b) (map ?r q) = (if b \<in> set q then unat (wb_rest (w_wbufs w b)) else 0)" if "distinct q" for q
    using that by (induction q) auto
  from this [OF accountedD(3) [OF acc]] have "chunk_sum (\<lambda>c. c = b) (queue_chunks w) = unat (wb_rest (w_wbufs w b))"
    using b by (simp add: queue_chunks_def)
  then show "unat (wb_bytes_acked (w_wbufs w b)) + unat (wb_bytes_inflight (w_wbufs w b)) + unat (wb_rest (w_wbufs w b)) = length (wb_buf (w_wbufs w b))"
    using coversD(1) [OF accountedD(1) [OF acc] m] accountedD(4) [OF acc m] by (simp add: open_chunks_def)
  show "length (wb_buf (w_wbufs w b)) < 2 ^ 64" using coversD(2) [OF accountedD(1) [OF acc] m] .
qed

section \<open>Filling a packet keeps the account\<close>

lemma unat_add_le: "unat (a :: u64) + unat b \<le> k \<Longrightarrow> k < 2 ^ 64 \<Longrightarrow> unat (a + b) = unat a + unat b"
  by (subst unat_plus_simple [THEN iffD1]) (simp_all add: no_olen_add_nat)

text \<open>Moving \<open>n\<close> bytes of the first buffer from the queue into the packet.\<close>

lemma fill_account:
  assumes acc: "accounted w" and q: "s_write_queue w = b # rest" and p: "s_pkt w \<notin> ran (s_outgoing w)"
    and n: "n \<le> wb_rest (w_wbufs w b)" "n = 0 \<longleftrightarrow> wb_rest (w_wbufs w b) = 0"
  shows "keeps_account w ((fill_append b n w)\<lparr>s_write_queue := (if n = wb_rest (w_wbufs w b) then rest else b # rest)\<rparr>)" (is "keeps_account w ?w")
proof -
  define v where "v = ?w"
  let ?r = "wb_rest (w_wbufs w b)" and ?pc = "packet_chunks w (s_pkt w)" and ?fc = "flight_chunks w (s_remote_acked w)"
  define Q where "Q = map (\<lambda>b. (b, wb_rest (w_wbufs w b))) rest"
  have b: "b \<in> set (s_write_queue w)" and dist: "b \<notin> set rest" "distinct rest" using accountedD(3) [OF acc] by (simp_all add: q)
  note aq = accounted_queue [OF acc b]
  have bi: "unat (wb_bytes_inflight (w_wbufs w b) + n) = unat (wb_bytes_inflight (w_wbufs w b)) + unat n"
    using aq n(1) by (intro unat_add_le [of _ _ "length (wb_buf (w_wbufs w b))"]) (simp_all add: word_le_nat_alt)
  have nr: "unat n + unat (?r - n) = unat ?r" using n(1) by (simp add: unat_sub word_le_nat_alt)
  have wbufs: "w_wbufs v = (w_wbufs w)(b := (w_wbufs w b)\<lparr>wb_bytes_inflight := wb_bytes_inflight (w_wbufs w b) + n\<rparr>)"
    and fields: "w_writes v = w_writes w" "s_writes_queued_bytes v = s_writes_queued_bytes w" "s_pkt v = s_pkt w"
    "s_remote_acked v = s_remote_acked w" "p_ref_count (w_packets v (s_pkt w)) = p_ref_count (w_packets w (s_pkt w))"
    by (simp_all add: v_def fill_append_def Let_def)
  have own: "owner v c = owner w c" "wb_buf (w_wbufs v c) = wb_buf (w_wbufs w c)" "wb_bytes_acked (w_wbufs v c) = wb_bytes_acked (w_wbufs w c)" for c
    by (simp_all add: wbufs)
  have "flight_chunks v (s_remote_acked w) = ?fc"
    using p by (intro flight_chunks_same) (auto simp: v_def fill_append_def Let_def)
  then have sent: "sent_chunks v = ?pc @ [(b, n)] @ ?fc" "sent_chunks w = ?pc @ ?fc"
    by (simp_all add: sent_chunks_def fields) (simp add: packet_chunks_def v_def fill_append_def Let_def slice_chunk_def)
  have "map (\<lambda>c. (c, wb_rest (w_wbufs v c))) rest = Q"
    unfolding Q_def wbufs using dist by (intro map_cong) auto
  moreover have "wb_rest (w_wbufs v b) = ?r - n" unfolding wbufs by (simp add: wb_rest_def)
  moreover have "s_write_queue v = (if n = ?r then rest else b # rest)" by (simp add: v_def)
  ultimately have "queue_chunks v = (if n = ?r then [] else [(b, ?r - n)]) @ Q" unfolding queue_chunks_def by (cases "n = ?r") simp_all
  then have queue: "queue_chunks v = (if n = ?r then [] else [(b, ?r - n)]) @ Q" "queue_chunks w = (b, ?r) # Q"
    by (simp_all only:) (simp add: queue_chunks_def q Q_def)
  let ?new = "open_chunks v" and ?old = "open_chunks w"
  have sums: "chunk_sum P ?new = chunk_sum P ?old" for P
    using nr by (cases "n = ?r") (simp_all add: open_chunks_def sent queue)
  have mem: "fst ` set ?new = fst ` set ?old" by (auto simp: open_chunks_def sent queue)
  have cov: "covers ?new v"
    using accountedD(1) [OF acc] unfolding covers_def sums mem fields own .
  have inflight: "unat (wb_bytes_inflight (w_wbufs v c)) = chunk_sum (\<lambda>d. d = c) (sent_chunks v)" if "c \<in> fst ` set ?new" for c
    using accountedD(4) [OF acc that [unfolded mem]] bi by (auto simp: wbufs sent)
  have "lively v ?new"
    unfolding lively_def own
  proof (intro ballI impI)
    fix c assume c: "c \<in> set ?new" "snd c = 0"
    let ?F = "\<lambda>cs. length (filter (\<lambda>d. owner w (fst d) = owner w (fst c)) cs)"
    have "?r - n \<noteq> 0" if "n \<noteq> ?r" using that by simp
    then have c': "c = (b, n) \<or> c \<in> set (?pc @ ?fc @ Q)" using c by (auto simp: open_chunks_def sent queue split: if_splits)
    have z: "c = (b, n) \<Longrightarrow> ?r = 0" using c(2) n(2) by simp
    then have old: "c \<in> set ?old" using c' c(2) n(2) by (auto simp: open_chunks_def sent queue)
    then have one: "?F ?old = 1" using accountedD(2) [OF acc] c(2) unfolding lively_def by blast
    show "?F ?new = 1"
    proof (cases "owner w b = owner w (fst c)")
      case False
      then show ?thesis using one by (simp add: open_chunks_def sent queue)
    next
      case True
      then have e: "?F (?pc @ ?fc @ Q) = 0" using one by (simp add: open_chunks_def sent queue)
      then have "c \<notin> set (?pc @ ?fc @ Q)" by (auto simp: filter_empty_conv)
      then have "n = ?r" using c' z c(2) by auto
      then show ?thesis using e True by (simp add: open_chunks_def sent queue)
    qed
  qed
  moreover have "distinct (s_write_queue v)" using dist by (simp add: v_def)
  ultimately have "accounted v"
    using cov inflight accountedD(5,6) [OF acc] unfolding accounted_def fields by blast
  moreover have "unanswered v = owner w ` fst ` set ?old"
    unfolding unanswered_def mem using own(1) by (intro image_cong) simp_all
  then have "same_answers w v"
    using fields(1) by (simp add: same_answers_def unanswered_def) (simp add: v_def callbacks_def fill_append_def Let_def)
  ultimately show ?thesis unfolding v_def keeps_account_def by blast
qed

text \<open>Sending the packet under construction keeps the account: its slices become slices of a packet in flight.\<close>

lemma flight_chunks_snoc:
  assumes room: "unat (s_seq w - seq) + 1 < 2 ^ 32" and seq': "s_seq w' = s_seq w + 1"
    and out: "s_outgoing w' = (s_outgoing w)(s_seq w \<mapsto> p)"
    and sl: "\<And>q. q \<in> insert p (ran (s_outgoing w)) \<Longrightarrow> p_slices (w_packets w' q) = p_slices (w_packets w q)"
  shows "flight_chunks w' seq = flight_chunks w seq @ packet_chunks w p"
proof -
  have n: "unat (s_seq w' - seq) = Suc (unat (s_seq w - seq))"
  proof -
    have e: "s_seq w' - seq = (s_seq w - seq) + 1" by (simp add: seq')
    have "unat ((s_seq w - seq) + 1) = unat (s_seq w - seq) + 1"
      using room by (subst unat_plus_simple [THEN iffD1]) (simp_all add: no_olen_add_nat)
    then show ?thesis unfolding e by simp
  qed
  have ne: "seq + of_nat i \<noteq> s_seq w" if "i < unat (s_seq w - seq)" for i
  proof
    assume "seq + of_nat i = s_seq w"
    then have "s_seq w - seq = of_nat i" by (simp add: algebra_simps)
    moreover have "unat (of_nat i :: u32) \<le> i" by (simp add: unsigned_of_nat take_bit_nat_less_eq_self)
    ultimately show False using that by simp
  qed
  have last: "seq + of_nat (unat (s_seq w - seq)) = s_seq w" by simp
  have "map (\<lambda>i. case s_outgoing w' (seq + of_nat i) of None \<Rightarrow> [] | Some q \<Rightarrow> packet_chunks w' q) [0..<unat (s_seq w - seq)]
      = map (\<lambda>i. case s_outgoing w (seq + of_nat i) of None \<Rightarrow> [] | Some q \<Rightarrow> packet_chunks w q) [0..<unat (s_seq w - seq)]"
    using ne sl by (intro map_cong) (auto simp: out packet_chunks_def ranI split: option.split)
  then show ?thesis
    unfolding flight_chunks_def n upt_Suc_append [OF le0] map_append concat_append
    by (simp only:) (use sl in \<open>simp add: last out packet_chunks_def\<close>)
qed

lemma send_account:
  assumes acc: "accounted w" and room: "unat (s_seq w - s_remote_acked w) + 1 < 2 ^ 32"
    and w': "s_seq w' = s_seq w + 1" "s_outgoing w' = (s_outgoing w)(s_seq w \<mapsto> s_pkt w)" "s_remote_acked w' = s_remote_acked w"
      "w_wbufs w' = w_wbufs w" "w_writes w' = w_writes w" "s_writes_queued_bytes w' = s_writes_queued_bytes w" "s_write_queue w' = s_write_queue w"
    and sl: "\<And>q. q \<in> insert (s_pkt w) (ran (s_outgoing w)) \<Longrightarrow> p_slices (w_packets w' q) = p_slices (w_packets w q)"
    and new: "s_pkt w' \<noteq> NULL" "p_slices (w_packets w' (s_pkt w')) = []" "p_ref_count (w_packets w' (s_pkt w')) = 1"
    and cb: "callbacks w' = callbacks w"
  shows "accounted w' \<and> same_answers w w'"
proof -
  have fc: "flight_chunks w' (s_remote_acked w) = flight_chunks w (s_remote_acked w) @ packet_chunks w (s_pkt w)"
    by (rule flight_chunks_snoc [OF room w'(1,2) sl])
  have sent: "mset (sent_chunks w') = mset (sent_chunks w)"
    using new(2) by (simp add: sent_chunks_def w'(3) fc packet_chunks_def [of w' "s_pkt w'"])
  then have op: "mset (open_chunks w') = mset (open_chunks w)" by (simp add: open_chunks_def queue_chunks_def w'(4,7))
  have "covers (open_chunks w) w' = covers (open_chunks w) w" "lively w' (open_chunks w) = lively w (open_chunks w)"
    using w' by (simp_all add: covers_def lively_def)
  moreover have "same_answers w w'"
    using mset_eq_setD [OF op] cb by (simp add: same_answers_def unanswered_def w'(4,5))
  ultimately show ?thesis
    using acc new(1,3) chunk_sum_mset [OF sent] mset_eq_setD [OF op] covers_mset [OF op] lively_mset [OF op]
    unfolding accounted_def w'(4,7) by auto
qed

text \<open>Queuing a new buffer.\<close>

definition queued_wbuf :: "addr \<Rightarrow> bool \<Rightarrow> addr \<Rightarrow> u8 list \<Rightarrow> world \<Rightarrow> world" where
  "queued_wbuf wr is_end b buf w =
    w\<lparr>w_wbufs := (w_wbufs w)(b := \<lparr>wb_buf = buf, wb_bytes_inflight = 0, wb_bytes_acked = 0, wb_write = wr, wb_is_write_end = is_end\<rparr>),
      w_writes := (w_writes w)(wr := (w_writes w wr)\<lparr>wr_size := wr_size (w_writes w wr) + of_nat (length buf)\<rparr>),
      s_bytes_queued := s_bytes_queued w + of_nat (length buf), s_writes_queued_bytes := s_writes_queued_bytes w + of_nat (length buf),
      s_write_queue := lq_tail b (s_write_queue w)\<rparr>"

text \<open>The write \<open>wr\<close> is being queued: nothing of it is acknowledged yet.\<close>

definition write_open :: "addr \<Rightarrow> world \<Rightarrow> bool" where
  "write_open wr w \<longleftrightarrow> wr_bytes_acked (w_writes w wr) = 0
     \<and> chunk_sum (\<lambda>c. owner w c = wr) (open_chunks w) = unat (wr_size (w_writes w wr))"

lemma chunk_sum_le: "chunk_sum P cs \<le> chunk_sum (\<lambda>_. True) cs"
  by (induction cs) auto

lemma queue_account:
  fixes is_end :: bool
  assumes acc: "accounted w" and op: "write_open wr w" and b: "b \<notin> fst ` set (open_chunks w)"
    and size: "unat (s_writes_queued_bytes w) + length buf < 2 ^ 64"
    and live: "if buf = [] then wr \<notin> unanswered w else \<forall>c \<in> set (open_chunks w). owner w (fst c) = wr \<longrightarrow> snd c \<noteq> 0"
  defines "w' \<equiv> queued_wbuf wr is_end b buf w"
  shows "accounted w'" and "write_open wr w'" and "open_chunks w' = open_chunks w @ [(b, of_nat (length buf))]"
    and "\<And>c. c \<in> fst ` set (open_chunks w) \<Longrightarrow> owner w' c = owner w c"
    and "unanswered w' = insert wr (unanswered w)" and "callbacks w' = callbacks w" "wr_on_ack (w_writes w' x) = wr_on_ack (w_writes w x)"
proof -
  let ?n = "of_nat (length buf) :: u64" and ?cs = "open_chunks w"
  have n: "unat ?n = length buf" using size by (simp add: unat_of_nat)
  have q: "b \<notin> set (s_write_queue w)" using b by (force simp: open_chunks_def queue_chunks_def)
  have f: "s_pkt w' = s_pkt w" "w_packets w' = w_packets w" "s_outgoing w' = s_outgoing w" "s_remote_acked w' = s_remote_acked w" "s_seq w' = s_seq w"
    "s_write_queue w' = s_write_queue w @ [b]" "s_writes_queued_bytes w' = s_writes_queued_bytes w + ?n"
    "w_wbufs w' = (w_wbufs w)(b := \<lparr>wb_buf = buf, wb_bytes_inflight = 0, wb_bytes_acked = 0, wb_write = wr, wb_is_write_end = is_end\<rparr>)"
    "w_writes w' = (w_writes w)(wr := (w_writes w wr)\<lparr>wr_size := wr_size (w_writes w wr) + ?n\<rparr>)"
    by (simp_all add: w'_def queued_wbuf_def lq_tail_def)
  have sent: "sent_chunks w' = sent_chunks w"
  proof -
    have "packet_chunks w' = packet_chunks w" by (rule ext) (simp add: packet_chunks_def f)
    then show ?thesis unfolding sent_chunks_def flight_chunks_def f(1,3-5) by (simp only:)
  qed
  have "map (\<lambda>c. (c, wb_rest (w_wbufs w' c))) (s_write_queue w) = queue_chunks w"
    unfolding queue_chunks_def f(8) using q by (intro map_cong) auto
  moreover have "wb_rest (w_wbufs w' b) = ?n" by (simp add: f(8) wb_rest_def)
  ultimately have new: "open_chunks w' = ?cs @ [(b, ?n)]"
    by (simp add: open_chunks_def sent) (simp add: queue_chunks_def f(6))
  then show "open_chunks w' = ?cs @ [(b, ?n)]" .
  show own: "owner w' c = owner w c" if "c \<in> fst ` set ?cs" for c using that b by (auto simp: f(8))
  have sum: "chunk_sum (\<lambda>c. owner w' c = x) ?cs = chunk_sum (\<lambda>c. owner w c = x) ?cs" for x
    unfolding chunk_sum_def using own by (intro arg_cong [where f = sum_list] map_cong) auto
  have ownb: "owner w' b = wr" by (simp add: f(8))
  have "(\<lambda>c. owner w' c) ` fst ` set ?cs = (\<lambda>c. owner w c) ` fst ` set ?cs" using own by (intro image_cong) simp_all
  then show "unanswered w' = insert wr (unanswered w)" by (simp add: unanswered_def new ownb)
  show "callbacks w' = callbacks w" "wr_on_ack (w_writes w' x) = wr_on_ack (w_writes w x)"
    by (simp_all add: f(9)) (simp add: w'_def queued_wbuf_def callbacks_def)
  have le: "chunk_sum (\<lambda>c. owner w c = wr) ?cs \<le> chunk_sum (\<lambda>_. True) ?cs" for wr using chunk_sum_le .
  have tot: "unat (s_writes_queued_bytes w) = chunk_sum (\<lambda>_. True) ?cs" using coversD(4) [OF accountedD(1) [OF acc]] .
  have size': "unat (wr_size (w_writes w wr) + ?n) = unat (wr_size (w_writes w wr)) + length buf"
    using op le [of wr] tot size n unfolding write_open_def by (subst unat_add_le [of _ _ "2 ^ 64 - 1"]) simp_all
  show op': "write_open wr w'"
    using op size' n by (simp add: write_open_def new sum f(9) ownb)
  have zero: "chunk_sum (\<lambda>c. c = b) ?cs = 0" using b by (intro chunk_sum_none) auto
  have cov: "covers (?cs @ [(b, ?n)]) w'"
    unfolding covers_def
  proof (intro conjI ballI)
    show "unat (s_writes_queued_bytes w') = chunk_sum (\<lambda>_. True) (?cs @ [(b, ?n)])"
      using size n tot by (simp add: f(7) unat_add_le [of _ _ "2 ^ 64 - 1"])
  next
    fix c assume c: "c \<in> fst ` set (?cs @ [(b, ?n)])"
    have cases: "c = b \<or> c \<noteq> b \<and> c \<in> fst ` set ?cs" using c by auto
    then show "unat (wb_bytes_acked (w_wbufs w' c)) + chunk_sum (\<lambda>d. d = c) (?cs @ [(b, ?n)]) = length (wb_buf (w_wbufs w' c))"
      "length (wb_buf (w_wbufs w' c)) < 2 ^ 64"
      using coversD(1,2) [OF accountedD(1) [OF acc], of c] zero n size by (auto simp: f(8))
    show "unat (wr_bytes_acked (w_writes w' (owner w' c))) + chunk_sum (\<lambda>d. owner w' d = owner w' c) (?cs @ [(b, ?n)])
        = unat (wr_size (w_writes w' (owner w' c)))"
    proof (cases "owner w' c = wr")
      case True
      then show ?thesis using op' by (simp add: write_open_def new)
    next
      case False
      then have o: "c \<in> fst ` set ?cs" "owner w' c = owner w c" using cases ownb own by auto
      then show ?thesis
        using coversD(3) [OF accountedD(1) [OF acc] o(1)] False ownb by (simp add: sum) (simp add: f(9))
    qed
  qed
  have inflight: "unat (wb_bytes_inflight (w_wbufs w' c)) = chunk_sum (\<lambda>d. d = c) (sent_chunks w')" if "c \<in> fst ` set (open_chunks w')" for c
  proof (cases "c = b")
    case True
    have "chunk_sum (\<lambda>d. d = b) (sent_chunks w) = 0" using zero by (simp add: open_chunks_def)
    then show ?thesis using True by (simp add: sent f(8))
  next
    case False
    then have "c \<in> fst ` set ?cs" using that by (auto simp: new)
    then show ?thesis using accountedD(4) [OF acc] False by (simp add: sent f(8))
  qed
  have "lively w' (?cs @ [(b, ?n)])"
    unfolding lively_def
  proof (intro ballI impI)
    fix c assume c: "c \<in> set (?cs @ [(b, ?n)])" "snd c = 0"
    have F: "filter (\<lambda>d. owner w' (fst d) = x) ?cs = filter (\<lambda>d. owner w (fst d) = x) ?cs" for x
      using own by (intro filter_cong) auto
    show "length (filter (\<lambda>d. owner w' (fst d) = owner w' (fst c)) (?cs @ [(b, ?n)])) = 1"
    proof (cases "c \<in> set ?cs")
      case True
      then have one: "length (filter (\<lambda>d. owner w (fst d) = owner w (fst c)) ?cs) = 1"
        using accountedD(2) [OF acc] c(2) unfolding lively_def by blast
      have "owner w (fst c) \<noteq> wr" using True live c(2) by (auto simp: unanswered_def split: if_splits)
      then show ?thesis using one True own [of "fst c"] F ownb by simp
    next
      case False
      then have "c = (b, ?n)" "buf = []" using c n by auto
      then have "wr \<notin> unanswered w" using live by simp
      then have "filter (\<lambda>d. owner w (fst d) = wr) ?cs = []" by (auto simp: unanswered_def filter_empty_conv)
      then show ?thesis using \<open>c = (b, ?n)\<close> by (simp add: F ownb)
    qed
  qed
  then show "accounted w'"
    using cov inflight accountedD(3,5,6) [OF acc] q unfolding accounted_def new by (simp add: f(1,2,6))
qed

end
