(* ===== verification/Udx_Sack_List.thy ===== *)
theory Udx_Sack_List
  imports Udx_Stream_Ops
begin

text \<open>
  Out-of-order data as \<open>process_data_packet\<close> keeps it: blocks of consecutive packets, in order of their
  sequence numbers.  The operations are those of \<open>udx_sack_tree.c\<close> on the sequence of the tree's blocks in order
  (a block is named by its position in that sequence).  What the blocks hold is a partial map from sequence
  numbers to packets; adding a packet extends that map at one number and keeps the blocks ordered,
  disjoint and never adjacent.
\<close>

section \<open>Operations\<close>

text \<open>\<open>udx_sack_tree_find\<close>: the block that contains \<open>seq\<close> or ends on it.\<close>

fun sack_find :: "u32 \<Rightarrow> udx_sack_block list \<Rightarrow> nat option" where
  "sack_find seq [] = None"
| "sack_find seq (b # bs) =
    (if 0 \<le> seq_diff seq (sb_start b) \<and> seq_diff seq (sb_end b) \<le> 0 then Some 0
     else map_option Suc (sack_find seq bs))"

text \<open>\<open>udx_sack_tree_insert\<close>: behind every block that does not start after the new one; the position of the
  new block is returned.\<close>

fun sack_insert :: "udx_sack_block \<Rightarrow> udx_sack_block list \<Rightarrow> nat \<times> udx_sack_block list" where
  "sack_insert b [] = (0, [b])"
| "sack_insert b (c # cs) =
    (if seq_diff (sb_start b) (sb_start c) < 0 then (0, b # c # cs)
     else let (i, cs') = sack_insert b cs in (Suc i, c # cs'))"

definition sack_remove :: "nat \<Rightarrow> udx_sack_block list \<Rightarrow> udx_sack_block list" where
  "sack_remove i bs = take i bs @ drop (Suc i) bs"

definition sack_next :: "nat \<Rightarrow> udx_sack_block list \<Rightarrow> nat option" where
  "sack_next i bs = (if Suc i < length bs then Some (Suc i) else None)"

text \<open>The slow path of \<open>process_data_packet\<close>: store the packet in a block, merge with the next block when
  the two meet.\<close>

definition sack_append :: "nat \<Rightarrow> udx_buf \<Rightarrow> udx_sack_block list \<Rightarrow> udx_sack_block list" where
  "sack_append i pkt bs =
    (let block = (bs ! i)\<lparr>sb_packets := sb_packets (bs ! i) @ [pkt], sb_end := sb_end (bs ! i) + 1\<rparr>;
         bs = bs[i := block]
     in case sack_next i bs of
          None \<Rightarrow> bs
        | Some n \<Rightarrow>
            (let next = bs ! n in
             if sb_start next = sb_end block
             then (sack_remove n bs)[i := block\<lparr>sb_end := sb_end next, sb_packets := sb_packets block @ sb_packets next\<rparr>]
             else bs))"

definition sack_store :: "u32 \<Rightarrow> udx_buf \<Rightarrow> udx_sack_block list \<Rightarrow> udx_sack_block list" where
  "sack_store seq pkt bs =
    (case sack_find seq bs of
       Some i \<Rightarrow> if sb_end (bs ! i) \<noteq> seq then bs else sack_append i pkt bs
     | None \<Rightarrow> (let (i, bs) = sack_insert \<lparr>sb_start = seq, sb_end = seq, sb_packets = []\<rparr> bs in sack_append i pkt bs))"

section \<open>Meaning\<close>

text \<open>Offsets are taken from a base (the next expected number), so that order is order of naturals.\<close>

fun sacks_at :: "u32 \<Rightarrow> nat \<Rightarrow> udx_sack_block list \<Rightarrow> bool" where
  "sacks_at base lo [] \<longleftrightarrow> True"
| "sacks_at base lo (b # bs) \<longleftrightarrow>
    lo \<le> seq_off base (sb_start b) \<and> sb_packets b \<noteq> []
    \<and> seq_off base (sb_end b) = seq_off base (sb_start b) + length (sb_packets b)
    \<and> seq_off base (sb_end b) < 2 ^ 31
    \<and> sacks_at base (Suc (seq_off base (sb_end b))) bs"

text \<open>The packets held, as a map from offsets.\<close>

definition sack_get :: "u32 \<Rightarrow> udx_sack_block \<Rightarrow> nat \<Rightarrow> udx_buf option" where
  "sack_get base b k =
    (if seq_off base (sb_start b) \<le> k \<and> k < seq_off base (sb_start b) + length (sb_packets b)
     then Some (sb_packets b ! (k - seq_off base (sb_start b))) else None)"

fun sacks_get :: "u32 \<Rightarrow> udx_sack_block list \<Rightarrow> nat \<Rightarrow> udx_buf option" where
  "sacks_get base [] k = None"
| "sacks_get base (b # bs) k = (case sack_get base b k of Some p \<Rightarrow> Some p | None \<Rightarrow> sacks_get base bs k)"

section \<open>Storing a packet\<close>

lemma sacks_at_mono: "sacks_at base lo bs \<Longrightarrow> lo' \<le> lo \<Longrightarrow> sacks_at base lo' bs"
  by (cases bs) auto

lemma sack_get_below: "k < seq_off base (sb_start b) \<Longrightarrow> sack_get base b k = None"
  by (simp add: sack_get_def)

lemma sacks_get_below: "sacks_at base lo bs \<Longrightarrow> k < lo \<Longrightarrow> sacks_get base bs k = None"
  by (induction bs arbitrary: lo) (auto simp: sack_get_def)

lemma sack_find_none: "sacks_at base lo bs \<Longrightarrow> seq_off base seq < lo \<Longrightarrow> lo \<le> 2 ^ 31 \<Longrightarrow> sack_find seq bs = None"
proof (induction bs arbitrary: lo)
  case (Cons b bs)
  have "seq_diff seq (sb_start b) < 0"
    using Cons.prems by (simp add: seq_diff_window [of base])
  moreover have "sack_find seq bs = None"
    using Cons.prems by (intro Cons.IH [of "Suc (seq_off base (sb_end b))"]) auto
  ultimately show ?case by simp
qed simp

lemma sack_append_Suc: "sack_append (Suc i) pkt (c # cs) = c # sack_append i pkt cs"
  by (auto simp: sack_append_def sack_next_def sack_remove_def Let_def split: option.split)

lemma sack_store_skip:
  assumes "\<not> (0 \<le> seq_diff seq (sb_start c) \<and> seq_diff seq (sb_end c) \<le> 0)" "\<not> seq_diff seq (sb_start c) < 0"
  shows "sack_store seq pkt (c # cs) = c # sack_store seq pkt cs"
  using assms
  by (auto simp: sack_store_def sack_append_Suc split: option.split prod.split)

text \<open>Appending to the first block, and merging with the second.\<close>

lemma sack_append_0:
  "sack_append 0 pkt (b # bs) =
    (let block = b\<lparr>sb_packets := sb_packets b @ [pkt], sb_end := sb_end b + 1\<rparr>
     in case bs of [] \<Rightarrow> [block]
        | n # rest \<Rightarrow> if sb_start n = sb_end block
            then block\<lparr>sb_end := sb_end n, sb_packets := sb_packets block @ sb_packets n\<rparr> # rest else block # bs)"
  by (auto simp: sack_append_def sack_next_def sack_remove_def Let_def split: option.split list.split)

lemma sack_append_law:
  assumes "lo \<le> seq_off base (sb_start b)" and "seq_off base (sb_end b) = seq_off base (sb_start b) + length (sb_packets b)"
    and "seq_off base (sb_end b) + 1 < 2 ^ 31" and "sacks_at base (Suc (seq_off base (sb_end b))) bs"
  shows "sacks_at base lo (sack_append 0 pkt (b # bs))"
    and "sacks_get base (sack_append 0 pkt (b # bs)) = (sacks_get base (b # bs))(seq_off base (sb_end b) \<mapsto> pkt)"
proof -
  let ?e = "seq_off base (sb_end b)" and ?s = "seq_off base (sb_start b)"
  let ?block = "b\<lparr>sb_packets := sb_packets b @ [pkt], sb_end := sb_end b + 1\<rparr>"
  have e: "seq_off base (sb_end b + 1) = Suc ?e" using assms(3) by (simp add: seq_off_Suc)
  have gb: "sack_get base ?block k = (if k = ?e then Some pkt else sack_get base b k)" for k
    using assms(2) by (auto simp: sack_get_def nth_append)
  have none: "sack_get base b ?e = None" using assms(2) by (simp add: sack_get_def)
  show "sacks_at base lo (sack_append 0 pkt (b # bs))"
  proof (cases bs)
    case (Cons n rest)
    have "sb_start n \<noteq> sb_end b + 1 \<Longrightarrow> Suc ?e \<noteq> seq_off base (sb_start n)"
      using e seq_off_eq_iff [of base "sb_start n" "sb_end b + 1"] by simp
    then show ?thesis using assms e Cons by (auto simp: sack_append_0 Let_def)
  qed (use assms e in \<open>auto simp: sack_append_0 Let_def\<close>)
  show "sacks_get base (sack_append 0 pkt (b # bs)) = (sacks_get base (b # bs))(?e \<mapsto> pkt)"
  proof (rule ext)
    fix k
    show "sacks_get base (sack_append 0 pkt (b # bs)) k = ((sacks_get base (b # bs))(?e \<mapsto> pkt)) k"
    proof (cases "\<exists>n rest. bs = n # rest \<and> sb_start n = sb_end b + 1")
      case True
      then obtain n rest where n: "bs = n # rest" "sb_start n = sb_end b + 1" by auto
      let ?m = "?block\<lparr>sb_end := sb_end n, sb_packets := sb_packets ?block @ sb_packets n\<rparr>"
      have "sack_get base ?m k = (case sack_get base ?block k of Some p \<Rightarrow> Some p | None \<Rightarrow> sack_get base n k)"
        using assms(2) e n(2) by (auto simp: sack_get_def nth_append not_less)
      then show ?thesis using n gb [of k] none by (auto simp: sack_append_0 Let_def split: option.split)
    next
      case False
      then have "sack_append 0 pkt (b # bs) = ?block # bs"
        by (auto simp: sack_append_0 Let_def split: list.split)
      then show ?thesis using gb [of k] none by (auto split: option.split)
    qed
  qed
qed

lemma sack_store_law:
  assumes "sacks_at base lo bs" "lo \<le> seq_off base seq" "seq_off base seq + 1 < 2 ^ 31"
  shows "sacks_at base lo (sack_store seq pkt bs)
    \<and> sacks_get base (sack_store seq pkt bs) =
      (if sacks_get base bs (seq_off base seq) = None then (sacks_get base bs)(seq_off base seq \<mapsto> pkt) else sacks_get base bs)"
  using assms
proof (induction bs arbitrary: lo)
  case Nil
  let ?new = "\<lparr>sb_start = seq, sb_end = seq, sb_packets = []\<rparr>"
  have st: "sack_store seq pkt [] = sack_append 0 pkt [?new]" by (simp add: sack_store_def)
  have "sack_get base ?new k = None" for k by (simp add: sack_get_def)
  then have "sacks_get base [?new] = sacks_get base []" by (intro ext) simp
  then show ?case
    using Nil sack_append_law [of lo base ?new "[]" pkt] unfolding st by simp
next
  case (Cons b bs)
  let ?o = "seq_off base seq" and ?s = "seq_off base (sb_start b)" and ?e = "seq_off base (sb_end b)"
  have b: "lo \<le> ?s" "sb_packets b \<noteq> []" "?e = ?s + length (sb_packets b)" "?e < 2 ^ 31" "sacks_at base (Suc ?e) bs"
    using Cons.prems(1) unfolding sacks_at.simps by blast+
  have ds: "seq_diff seq (sb_start b) = int ?o - int ?s" and de: "seq_diff seq (sb_end b) = int ?o - int ?e"
    using b Cons.prems(3) by (simp_all add: seq_diff_window [of base])
  consider (before) "?o < ?s" | (inside) "?s \<le> ?o" "?o < ?e" | (at_end) "?o = ?e" | (after) "?e < ?o" by linarith
  then show ?case
  proof cases
    case before
    let ?new = "\<lparr>sb_start = seq, sb_end = seq, sb_packets = []\<rparr>"
    have "sack_find seq (b # bs) = None"
      using Cons.prems(1) before b by (intro sack_find_none [of base ?s]) auto
    then have st: "sack_store seq pkt (b # bs) = sack_append 0 pkt (?new # b # bs)"
      using ds before by (simp add: sack_store_def)
    have "sack_get base ?new k = None" for k by (simp add: sack_get_def)
    then have get: "sacks_get base (?new # b # bs) = sacks_get base (b # bs)" by (intro ext) simp
    have "sacks_get base (b # bs) ?o = None"
      using b before by (intro sacks_get_below [of base ?s]) auto
    moreover have at: "sacks_at base (Suc (seq_off base (sb_end ?new))) (b # bs)" using b before by simp
    moreover have "sacks_at base lo (sack_append 0 pkt (?new # b # bs))"
      by (rule sack_append_law(1) [OF _ _ _ at]) (use Cons.prems(2,3) in simp_all)
    moreover have "sacks_get base (sack_append 0 pkt (?new # b # bs)) = (sacks_get base (b # bs))(?o \<mapsto> pkt)"
      using sack_append_law(2) [OF _ _ _ at, of lo pkt] Cons.prems(2,3) unfolding get by simp
    ultimately show ?thesis unfolding st by simp
  next
    case inside
    then have "sack_store seq pkt (b # bs) = b # bs"
      using ds de b(4) seq_off_eq_iff [of base "sb_end b" seq] by (auto simp: sack_store_def)
    moreover have "sack_get base b ?o \<noteq> None" using inside b by (simp add: sack_get_def)
    ultimately show ?thesis using Cons.prems(1) by auto
  next
    case at_end
    then have eq: "sb_end b = seq" using seq_off_eq_iff by metis
    have st: "sack_store seq pkt (b # bs) = sack_append 0 pkt (b # bs)"
    proof -
      have "0 \<le> seq_diff seq (sb_start b)" "seq_diff seq (sb_end b) \<le> 0" using ds de at_end b(3) by linarith+
      then show ?thesis by (simp add: sack_store_def eq)
    qed
    have "sack_get base b ?o = None" using at_end b by (simp add: sack_get_def)
    moreover have "sacks_get base bs ?o = None" using b at_end by (intro sacks_get_below [of base "Suc ?e"]) auto
    ultimately show ?thesis
      using sack_append_law [OF b(1,3) _ b(5)] Cons.prems(3) at_end unfolding st by simp
  next
    case after
    then have st: "sack_store seq pkt (b # bs) = b # sack_store seq pkt bs"
      using ds de b by (intro sack_store_skip) auto
    have none: "sack_get base b ?o = None" using after b by (simp add: sack_get_def)
    from Cons.IH [OF b(5)] after Cons.prems(3)
    show ?thesis unfolding st using b none by (auto split: option.split)
  qed
qed

section \<open>Properties\<close>

text \<open>C13. Keeping out-of-order data: storing a packet extends what is held at exactly its number, unless that number was
  held already, and the blocks stay ordered, disjoint, non-adjacent and as long as the packets in them.\<close>

theorem sack_store_correct:
  assumes "sacks_at base lo bs" "lo \<le> seq_off base seq" "seq_off base seq + 1 < 2 ^ 31"
  shows "sacks_at base lo (sack_store seq pkt bs)
    \<and> sacks_get base (sack_store seq pkt bs) =
      (if sacks_get base bs (seq_off base seq) = None then (sacks_get base bs)(seq_off base seq \<mapsto> pkt) else sacks_get base bs)"
  by (rule sack_store_law [OF assms])

theorem sack_store_correct_witness:
  "sacks_get 0xFFFFFFFE (sack_store 1 \<lparr>ub_type = 1, ub_data = [7]\<rparr>
     [\<lparr>sb_start = 0xFFFFFFFF, sb_end = 0, sb_packets = [\<lparr>ub_type = 1, ub_data = [5]\<rparr>]\<rparr>]) 3 = Some \<lparr>ub_type = 1, ub_data = [7]\<rparr>"
  using sack_store_correct [of "0xFFFFFFFE" 1 "[\<lparr>sb_start = 0xFFFFFFFF, sb_end = 0, sb_packets = [\<lparr>ub_type = 1, ub_data = [5]\<rparr>]\<rparr>]" 1
      "\<lparr>ub_type = 1, ub_data = [7]\<rparr>"]
  by (simp add: seq_off_def sack_get_def)

end
