(* ===== verification/Udx_Recv.thy ===== *)
theory Udx_Recv
  imports Udx_Sack_List
begin

text \<open>
  The receive path of \<open>process_packet\<close>: accepting data in and out of order and handing it to the user.
  A step that may end the handler early returns a flag with the state (\<open>True\<close> for \<open>return\<close>).

  The specification is a receiver that numbers packets without wrap-around, keeps every packet it has not
  delivered, and delivers the longest run it can.  The code refines it inside a window of half the
  number space, so that any arrival order, with duplicates, gives every packet to the user once and in
  order.
\<close>

section \<open>Operations\<close>

definition stream_dead :: "world \<Rightarrow> bool" where
  "stream_dead w \<longleftrightarrow> has_flag (s_status w) UDX_STREAM_DEAD"

definition stream_reads :: "world \<Rightarrow> bool" where
  "stream_reads w \<longleftrightarrow> s_status w AND UDX_STREAM_SHOULD_READ = UDX_STREAM_READ"

definition process_data_packet :: "env \<Rightarrow> u8 \<Rightarrow> u32 \<Rightarrow> u8 list \<Rightarrow> world \<Rightarrow> world" where
  "process_data_packet env type seq data w =
    (if seq = s_ack w \<and> has_flag type UDX_HEADER_DATA then
       (let w = w\<lparr>s_ack := s_ack w + 1\<rparr> in if s_on_read w then notify env (Ev_Read data) w else w)
     else w\<lparr>s_sack_tree := sack_store seq \<lparr>ub_type = type, ub_data = data\<rparr> (s_sack_tree w)\<rparr>)"

text \<open>The loop over the packets of a block that has become next in line.\<close>

fun deliver_packets :: "env \<Rightarrow> udx_buf list \<Rightarrow> world \<Rightarrow> bool \<times> world" where
  "deliver_packets env [] w = (False, w)"
| "deliver_packets env (p # ps) w =
    (let w = w\<lparr>s_ack := s_ack w + 1\<rparr> in
     if has_flag (ub_type p) UDX_HEADER_DATA \<and> s_on_read w then
       (let w = notify env (Ev_Read (ub_data p)) w in
        if stream_dead w then (True, w) else deliver_packets env ps w)
     else deliver_packets env ps w)"

definition process_read_queue :: "env \<Rightarrow> world \<Rightarrow> bool \<times> world" where
  "process_read_queue env w =
    (case s_sack_tree w of
       [] \<Rightarrow> (False, w)
     | block # rest \<Rightarrow>
         if stream_reads w \<and> sb_start block = s_ack w
         then deliver_packets env (sb_packets block) (w\<lparr>s_sack_tree := rest\<rparr>)
         else (False, w))"

text \<open>The data part of \<open>process_packet\<close>, for a packet that is not older than the next expected one.\<close>

definition process_data :: "env \<Rightarrow> u8 \<Rightarrow> u32 \<Rightarrow> u8 list \<Rightarrow> world \<Rightarrow> bool \<times> world" where
  "process_data env type seq data w =
    (if has_flag type UDX_HEADER_DATA_OR_END \<and> stream_reads w then
       (let w = process_data_packet env type seq data w in if stream_dead w then (True, w) else (False, w))
     else (False, w))"

text \<open>The data part followed by the out-of-order queue: what one arriving data packet does.\<close>

definition receive_packet :: "env \<Rightarrow> u8 \<Rightarrow> u32 \<Rightarrow> u8 list \<Rightarrow> world \<Rightarrow> world" where
  "receive_packet env type seq data w =
    (let (ret, w) = (if seq_compare (s_ack w) seq \<le> 0 then process_data env type seq data w else (False, w))
     in if ret then w else snd (process_read_queue env w))"

section \<open>Specification\<close>

text \<open>The data a list of packets gives to the user.\<close>

definition payloads :: "udx_buf list \<Rightarrow> u8 list list" where
  "payloads ps = map ub_data (filter (\<lambda>p. has_flag (ub_type p) UDX_HEADER_DATA) ps)"

definition reads_of :: "udx_output list \<Rightarrow> u8 list list" where
  "reads_of os = List.map_filter (\<lambda>out. case out of Callback (Ev_Read d) \<Rightarrow> Some d | _ \<Rightarrow> None) os"

text \<open>
  The state of a receiver for a sender whose packet number \<open>k\<close> is \<open>P k\<close>, with sequence number \<open>base + k\<close>, after
  the packets of the set \<open>A\<close> have arrived: the next expected number is the first one missing, everything
  before it has been read in order and once, everything behind it is kept.
\<close>

definition first_missing :: "nat set \<Rightarrow> nat" where
  "first_missing A = (LEAST n. n \<notin> A)"

definition kept_from :: "(nat \<Rightarrow> udx_buf) \<Rightarrow> nat set \<Rightarrow> nat \<Rightarrow> nat \<rightharpoonup> udx_buf" where
  "kept_from P A n k = (if n + k \<in> A then Some (P (n + k)) else None)"

definition recv_inv :: "u32 \<Rightarrow> (nat \<Rightarrow> udx_buf) \<Rightarrow> nat set \<Rightarrow> u8 list list \<Rightarrow> world \<Rightarrow> bool" where
  "recv_inv base P A before w \<longleftrightarrow>
     (let n = first_missing A in
      s_ack w = base + of_nat n \<and> sacks_at (s_ack w) 1 (s_sack_tree w)
      \<and> sacks_get (s_ack w) (s_sack_tree w) = kept_from P A n
      \<and> reads_of (w_output w) = before @ payloads (map P [0..<n]))
     \<and> stream_reads w \<and> s_on_read w"

text \<open>A user that only reads: the callback leaves the receive state of the stream alone.\<close>

definition passive_reader :: "env \<Rightarrow> bool" where
  "passive_reader env \<longleftrightarrow> (\<forall>d w. let w' = env_callback env (Ev_Read d) w in
     s_ack w' = s_ack w \<and> s_sack_tree w' = s_sack_tree w \<and> s_status w' = s_status w \<and> s_on_read w' = s_on_read w
     \<and> reads_of (w_output w') = reads_of (w_output w))"

section \<open>Refinement\<close>

lemma unat_minus_of_nat:
  fixes y :: u32
  assumes "d \<le> unat y"
  shows "unat (y - of_nat d) = unat y - d"
proof -
  have "d < 2 ^ 32" using order.strict_trans1 [OF assms unat_u32_less] by simp
  then have "unat (of_nat d :: u32) = d" by (simp add: unat_of_nat take_bit_nat_eq_self)
  with assms show ?thesis by (simp add: unat_sub_if')
qed

lemma seq_off_shift:
  assumes "d \<le> seq_off base x"
  shows "seq_off (base + of_nat d) x = seq_off base x - d"
  using unat_minus_of_nat [of d "x - base"] assms by (simp add: seq_off_def diff_diff_eq)

lemma sack_get_shift:
  "d \<le> seq_off base (sb_start b) \<Longrightarrow> sack_get (base + of_nat d) b k = sack_get base b (k + d)"
  by (auto simp: sack_get_def seq_off_shift)

lemma sacks_at_shift:
  "sacks_at base lo bs \<Longrightarrow> d \<le> lo \<Longrightarrow> sacks_at (base + of_nat d) (lo - d) bs"
proof (induction bs arbitrary: lo)
  case (Cons b bs)
  let ?e = "seq_off base (sb_end b)"
  have "sacks_at base (Suc ?e) bs" "d \<le> Suc ?e" using Cons.prems by auto
  then have "sacks_at (base + of_nat d) (Suc ?e - d) bs" by (rule Cons.IH)
  moreover have "seq_off (base + of_nat d) (sb_start b) = seq_off base (sb_start b) - d"
    "seq_off (base + of_nat d) (sb_end b) = ?e - d"
    using Cons.prems by (auto simp: seq_off_shift)
  moreover have "Suc ?e - d = Suc (?e - d)" using Cons.prems by auto
  ultimately show ?case using Cons.prems by auto
qed simp

lemma sacks_get_shift:
  "sacks_at base lo bs \<Longrightarrow> d \<le> lo \<Longrightarrow> sacks_get (base + of_nat d) bs k = sacks_get base bs (k + d)"
proof (induction bs arbitrary: lo)
  case (Cons b bs)
  have "sacks_at base (Suc (seq_off base (sb_end b))) bs" "d \<le> Suc (seq_off base (sb_end b))" using Cons.prems by auto
  then have "sacks_get (base + of_nat d) bs k = sacks_get base bs (k + d)" by (rule Cons.IH)
  then show ?case using Cons.prems by (simp add: sack_get_shift split: option.split)
qed simp

lemma first_missing_eqI: "(\<And>k. k < n \<Longrightarrow> k \<in> A) \<Longrightarrow> n \<notin> A \<Longrightarrow> first_missing A = n"
  unfolding first_missing_def by (rule Least_equality) (simp, metis not_le)

lemma below_first_missing: "k < first_missing A \<Longrightarrow> k \<in> A"
  unfolding first_missing_def using not_less_Least by blast

lemma first_missing_notin: "finite A \<Longrightarrow> first_missing A \<notin> A"
  unfolding first_missing_def by (rule LeastI_ex) (metis ex_new_if_finite infinite_UNIV_nat)

lemma stream_reads_not_dead: "stream_reads w \<Longrightarrow> \<not> stream_dead w"
proof -
  assume "stream_reads w"
  then have "(s_status w AND UDX_STREAM_SHOULD_READ) AND UDX_STREAM_DEAD = 0"
    by (simp add: stream_reads_def UDX_STREAM_READ_def)
  moreover have "UDX_STREAM_SHOULD_READ AND UDX_STREAM_DEAD = UDX_STREAM_DEAD" by (simp add: stream_flag_defs)
  ultimately show ?thesis by (simp add: stream_dead_def and.assoc)
qed

lemma reads_of_append [simp]: "reads_of (xs @ ys) = reads_of xs @ reads_of ys"
  by (simp add: reads_of_def map_filter_def)

lemma reads_of_read [simp]: "reads_of [Callback (Ev_Read d)] = [d]"
  by (simp add: reads_of_def map_filter_def)

lemma notify_read:
  assumes "passive_reader env" and "w' = notify env (Ev_Read d) w"
  shows "s_ack w' = s_ack w" "s_sack_tree w' = s_sack_tree w" "s_status w' = s_status w" "s_on_read w' = s_on_read w"
    "reads_of (w_output w') = reads_of (w_output w) @ [d]"
  using assms by (simp_all add: notify_def passive_reader_def Let_def)

lemma payloads_Cons: "payloads (p # ps) = (if has_flag (ub_type p) UDX_HEADER_DATA then [ub_data p] else []) @ payloads ps"
  by (simp add: payloads_def)

lemma payloads_append: "payloads (xs @ ys) = payloads xs @ payloads ys"
  by (simp add: payloads_def)

lemma deliver_packets_passive:
  assumes env: "passive_reader env"
  shows "stream_reads w \<Longrightarrow> s_on_read w \<Longrightarrow> \<exists>w'. deliver_packets env ps w = (False, w')
    \<and> s_ack w' = s_ack w + of_nat (length ps) \<and> s_sack_tree w' = s_sack_tree w \<and> s_status w' = s_status w
    \<and> s_on_read w' \<and> reads_of (w_output w') = reads_of (w_output w) @ payloads ps"
proof (induction ps arbitrary: w)
  case Nil
  then show ?case by (simp add: payloads_def)
next
  case (Cons p ps)
  define w1 where "w1 = w\<lparr>s_ack := s_ack w + 1\<rparr>"
  define w2 where "w2 = (if has_flag (ub_type p) UDX_HEADER_DATA then notify env (Ev_Read (ub_data p)) w1 else w1)"
  have w1: "s_ack w1 = s_ack w + 1" "s_sack_tree w1 = s_sack_tree w" "s_status w1 = s_status w" "s_on_read w1"
    "reads_of (w_output w1) = reads_of (w_output w)"
    using Cons.prems by (simp_all add: w1_def)
  have w2: "s_ack w2 = s_ack w + 1" "s_sack_tree w2 = s_sack_tree w" "s_status w2 = s_status w" "s_on_read w2"
    "reads_of (w_output w2) = reads_of (w_output w) @ (if has_flag (ub_type p) UDX_HEADER_DATA then [ub_data p] else [])"
    using w1 notify_read [OF env, of _ "ub_data p" w1] by (simp_all add: w2_def)
  have r: "stream_reads w2" using Cons.prems(1) w2(3) by (simp add: stream_reads_def)
  then have "\<not> stream_dead w2" by (rule stream_reads_not_dead)
  then have "deliver_packets env (p # ps) w = deliver_packets env ps w2"
    using w1(4) by (auto simp: w1_def [symmetric] w2_def Let_def)
  with Cons.IH [OF r w2(4)] w2 show ?case by (auto simp: payloads_Cons add.assoc)
qed

lemma udx_buf_eta [simp]: "\<lparr>ub_type = ub_type b, ub_data = ub_data b\<rparr> = b"
  by simp

lemma seq_off_pos: "0 < seq_off b x \<longleftrightarrow> x \<noteq> b"
  by (simp add: seq_off_def unat_gt_0)

text \<open>Draining: from a state in which the next number may have become available.\<close>

lemma drain_law:
  assumes env: "passive_reader env" and "stream_reads w" "s_on_read w" "finite A"
    and ack: "s_ack w = base + of_nat n" and at: "sacks_at (s_ack w) 0 (s_sack_tree w)"
    and get: "sacks_get (s_ack w) (s_sack_tree w) = kept_from P A n"
    and below: "\<And>k. k < n \<Longrightarrow> k \<in> A"
    and reads: "reads_of (w_output w) = before @ payloads (map P [0..<n])"
  shows "recv_inv base P A before (snd (process_read_queue env w))"
proof (cases "\<exists>b rest. s_sack_tree w = b # rest \<and> sb_start b = s_ack w")
  case False
  have noop: "process_read_queue env w = (False, w)"
    using False by (auto simp: process_read_queue_def split: list.split)
  have at1: "sacks_at (s_ack w) 1 (s_sack_tree w)"
    using at False by (cases "s_sack_tree w") (auto simp: Suc_le_eq seq_off_pos)
  then have "sacks_get (s_ack w) (s_sack_tree w) 0 = None" by (rule sacks_get_below) simp
  then have "n \<notin> A" using get by (simp add: kept_from_def split: if_splits)
  then have "first_missing A = n" using below by (intro first_missing_eqI)
  with noop at1 assms show ?thesis by (simp add: recv_inv_def)
next
  case True
  then obtain b rest where b: "s_sack_tree w = b # rest" "sb_start b = s_ack w" by blast
  let ?len = "length (sb_packets b)"
  define w1 where "w1 = w\<lparr>s_sack_tree := rest\<rparr>"
  have w1: "stream_reads w1" "s_on_read w1" using assms(2,3) by (simp_all add: w1_def stream_reads_def)
  obtain w' where w': "deliver_packets env (sb_packets b) w1 = (False, w')"
    "s_ack w' = s_ack w + of_nat ?len" "s_sack_tree w' = rest" "s_status w' = s_status w" "s_on_read w'"
    "reads_of (w_output w') = reads_of (w_output w) @ payloads (sb_packets b)"
    using deliver_packets_passive [OF env w1, of "sb_packets b"] by (auto simp: w1_def)
  have res: "snd (process_read_queue env w) = w'"
    using b assms(2) w'(1) by (simp add: process_read_queue_def w1_def [symmetric])
  have off: "seq_off (s_ack w) (sb_end b) = ?len" and rest: "sacks_at (s_ack w) (Suc ?len) rest"
    using at b by auto
  have gb: "sack_get (s_ack w) b k = (if k < ?len then Some (sb_packets b ! k) else None)" for k
    using b(2) by (simp add: sack_get_def)
  have pk: "n + k \<in> A \<and> sb_packets b ! k = P (n + k)" if "k < ?len" for k
    using fun_cong [OF get, of k] that gb [of k] b(1) by (auto simp: kept_from_def split: if_splits)
  then have packets: "sb_packets b = map P [n..<n + ?len]" by (intro nth_equalityI) auto
  have "sacks_get (s_ack w) rest ?len = None" by (rule sacks_get_below [OF rest]) simp
  then have "n + ?len \<notin> A"
    using fun_cong [OF get, of ?len] gb [of ?len] b(1) by (auto simp: kept_from_def split: if_splits)
  moreover have "k \<in> A" if "k < n + ?len" for k
    using that below pk [of "k - n"] by (cases "k < n") auto
  ultimately have fm: "first_missing A = n + ?len" by (intro first_missing_eqI) auto
  have "sacks_get (s_ack w') rest k = kept_from P A (n + ?len) k" for k
    using sacks_get_shift [OF rest, of ?len k] fun_cong [OF get, of "k + ?len"] gb [of "k + ?len"] b(1) w'(2)
    by (simp add: kept_from_def ac_simps)
  moreover have "sacks_at (s_ack w') 1 rest" using sacks_at_shift [OF rest, of ?len] w'(2) by simp
  moreover have "reads_of (w_output w') = before @ payloads (map P [0..<n + ?len])"
    using w'(6) reads packets upt_add_eq_append [of 0 n ?len] by (simp add: payloads_append)
  ultimately show ?thesis
    using res fm w' ack assms(2) by (auto simp: recv_inv_def stream_reads_def)
qed

text \<open>The window inside which a packet is accepted or known to be old.\<close>

definition in_recv_window :: "nat \<Rightarrow> nat \<Rightarrow> bool" where
  "in_recv_window n k \<longleftrightarrow> k + 1 < n + 2 ^ 31 \<and> n < k + 2 ^ 31"

lemma seq_compare_numbers:
  assumes "in_recv_window n k"
  shows "seq_compare (base + of_nat n) (base + of_nat k) \<le> 0 \<longleftrightarrow> n \<le> k"
    and "n \<le> k \<Longrightarrow> seq_off (base + of_nat n) (base + of_nat k) = k - n"
proof -
  have off: "seq_off (base + of_nat (min n k)) (base + of_nat m) = m - min n k" if "m = n \<or> m = k" for m
  proof -
    have "m - min n k < 2 ^ 31" using assms that by (auto simp: in_recv_window_def)
    then have "unat (of_nat (m - min n k) :: u32) = m - min n k" by (simp add: unat_of_nat take_bit_nat_eq_self)
    moreover have "(of_nat m :: u32) - of_nat (min n k) = of_nat (m - min n k)" using that by (auto simp: of_nat_diff)
    ultimately show ?thesis by (simp add: seq_off_def)
  qed
  have "seq_diff (base + of_nat n) (base + of_nat k) = int (n - min n k) - int (k - min n k)"
    using off [of n] off [of k] assms
    by (subst seq_diff_window [of "base + of_nat (min n k)"]) (auto simp: in_recv_window_def)
  then show "seq_compare (base + of_nat n) (base + of_nat k) \<le> 0 \<longleftrightarrow> n \<le> k" by auto
  show "n \<le> k \<Longrightarrow> seq_off (base + of_nat n) (base + of_nat k) = k - n" using off [of k] by (simp add: min_def)
qed

lemma first_missing_insert_kept:
  "k \<noteq> first_missing A \<Longrightarrow> finite A \<Longrightarrow> first_missing (insert k A) = first_missing A"
  by (rule first_missing_eqI) (auto simp: below_first_missing first_missing_notin)

lemma receive_step:
  assumes env: "passive_reader env" and inv: "recv_inv base P A before w" and fin: "finite A"
    and win: "in_recv_window (first_missing A) k"
    and kind: "has_flag (ub_type (P k)) UDX_HEADER_DATA_OR_END"
  shows "recv_inv base P (insert k A) before
    (receive_packet env (ub_type (P k)) (base + of_nat k) (ub_data (P k)) w)"
proof -
  let ?n = "first_missing A" and ?seq = "base + of_nat k :: u32"
  have i: "s_ack w = base + of_nat ?n" "sacks_at (s_ack w) 1 (s_sack_tree w)"
    "sacks_get (s_ack w) (s_sack_tree w) = kept_from P A ?n"
    "reads_of (w_output w) = before @ payloads (map P [0..<?n])" "stream_reads w" "s_on_read w"
    using inv unfolding recv_inv_def Let_def by blast+
  note cmp = seq_compare_numbers [OF win, of base]
  have fin': "finite (insert k A)" using fin by simp
  consider (old) "k < ?n" | (fast) "k = ?n" "has_flag (ub_type (P k)) UDX_HEADER_DATA"
    | (slow) "?n \<le> k" "\<not> (k = ?n \<and> has_flag (ub_type (P k)) UDX_HEADER_DATA)" by linarith
  then show ?thesis
  proof cases
    case old
    then have "k \<in> A" by (rule below_first_missing)
    then have A: "insert k A = A" by auto
    have "receive_packet env (ub_type (P k)) ?seq (ub_data (P k)) w = snd (process_read_queue env w)"
      using cmp(1) old i(1) by (simp add: receive_packet_def del: seq_compare_iffs)
    moreover have "recv_inv base P A before (snd (process_read_queue env w))"
      using i sacks_at_mono [OF i(2)] below_first_missing by (intro drain_law [OF env _ _ fin, of w base ?n]) auto
    ultimately show ?thesis by (simp add: A)
  next
    case fast
    define w1 where "w1 = notify env (Ev_Read (ub_data (P k))) (w\<lparr>s_ack := s_ack w + 1\<rparr>)"
    note nr = notify_read [OF env w1_def]
    have r: "stream_reads w1" "s_on_read w1" using i(5,6) nr by (simp_all add: stream_reads_def)
    have seq: "?seq = s_ack w" using fast(1) i(1) by simp
    have "process_data_packet env (ub_type (P k)) ?seq (ub_data (P k)) w = w1"
      using fast(2) i(6) by (simp add: process_data_packet_def w1_def seq)
    then have "receive_packet env (ub_type (P k)) ?seq (ub_data (P k)) w = snd (process_read_queue env w1)"
      using i(5) kind stream_reads_not_dead [OF r(1)]
      by (simp add: receive_packet_def process_data_def seq)
    moreover have "recv_inv base P (insert k A) before (snd (process_read_queue env w1))"
    proof (rule drain_law [OF env r fin', of base "Suc ?n"])
      show "s_ack w1 = base + of_nat (Suc ?n)" using nr(1) i(1) by simp
      show "sacks_at (s_ack w1) 0 (s_sack_tree w1)" using sacks_at_shift [OF i(2), of 1] nr by simp
      show "sacks_get (s_ack w1) (s_sack_tree w1) = kept_from P (insert k A) (Suc ?n)"
        using sacks_get_shift [OF i(2), of 1] nr i(3) fast(1) by (auto simp: kept_from_def)
      show "j \<in> insert k A" if "j < Suc ?n" for j
        using that below_first_missing [of j A] fast(1) by (auto simp: less_Suc_eq)
      show "reads_of (w_output w1) = before @ payloads (map P [0..<Suc ?n])"
        using nr(5) i(4) fast by (simp add: payloads_append payloads_Cons payloads_def)
    qed
    ultimately show ?thesis by simp
  next
    case slow
    define w1 where "w1 = w\<lparr>s_sack_tree := sack_store ?seq (P k) (s_sack_tree w)\<rparr>"
    have r: "stream_reads w1" "s_on_read w1" using i(5,6) by (simp_all add: w1_def stream_reads_def)
    have neq: "?seq = s_ack w \<longleftrightarrow> k = ?n"
      using cmp(2) slow(1) i(1) seq_off_self [of "s_ack w"] by auto
    have "process_data_packet env (ub_type (P k)) ?seq (ub_data (P k)) w = w1"
      using slow(2) neq by (auto simp: process_data_packet_def w1_def udx_buf_eta)
    moreover have "seq_compare (s_ack w) ?seq \<le> 0" using cmp(1) slow(1) i(1) by metis
    ultimately have "receive_packet env (ub_type (P k)) ?seq (ub_data (P k)) w = snd (process_read_queue env w1)"
      using i(5) kind stream_reads_not_dead [OF r(1)]
      by (simp add: receive_packet_def process_data_def del: seq_compare_iffs)
    moreover have "recv_inv base P (insert k A) before (snd (process_read_queue env w1))"
    proof (rule drain_law [OF env r fin', of base ?n])
      have off: "seq_off (s_ack w) ?seq = k - ?n" using cmp(2) slow(1) i(1) by simp
      have st: "sacks_at (s_ack w) 0 (sack_store ?seq (P k) (s_sack_tree w)) \<and>
        sacks_get (s_ack w) (sack_store ?seq (P k) (s_sack_tree w)) =
        (if sacks_get (s_ack w) (s_sack_tree w) (k - ?n) = None
         then (sacks_get (s_ack w) (s_sack_tree w))(k - ?n \<mapsto> P k) else sacks_get (s_ack w) (s_sack_tree w))"
        using sack_store_law [OF sacks_at_mono [OF i(2), of 0], of ?seq "P k"] win slow(1)
        unfolding off in_recv_window_def by auto
      show "sacks_at (s_ack w1) 0 (s_sack_tree w1)" using st by (simp add: w1_def)
      show "sacks_get (s_ack w1) (s_sack_tree w1) = kept_from P (insert k A) ?n"
        using st slow(1) unfolding i(3) by (auto simp: w1_def kept_from_def fun_eq_iff split: if_splits)
      show "s_ack w1 = base + of_nat ?n" "reads_of (w_output w1) = before @ payloads (map P [0..<?n])"
        using i by (simp_all add: w1_def)
      show "j \<in> insert k A" if "j < ?n" for j using that below_first_missing by auto
    qed
    ultimately show ?thesis by simp
  qed
qed

section \<open>Any order of arrival\<close>

text \<open>The packets \<open>ks\<close> of the sender arrive, in this order, each any number of times.\<close>

definition receive_all :: "env \<Rightarrow> u32 \<Rightarrow> (nat \<Rightarrow> udx_buf) \<Rightarrow> nat list \<Rightarrow> world \<Rightarrow> world" where
  "receive_all env base P ks w =
    fold (\<lambda>k. receive_packet env (ub_type (P k)) (base + of_nat k) (ub_data (P k))) ks w"

definition arrivals_in_window :: "nat list \<Rightarrow> bool" where
  "arrivals_in_window ks \<longleftrightarrow> (\<forall>i < length ks. in_recv_window (first_missing (set (take i ks))) (ks ! i))"

lemma arrivals_snoc:
  "arrivals_in_window (ks @ [k]) \<longleftrightarrow> arrivals_in_window ks \<and> in_recv_window (first_missing (set ks)) k"
  by (auto simp: arrivals_in_window_def nth_append less_Suc_eq)

lemma receive_all_inv:
  assumes "passive_reader env" and "recv_inv base P {} before w"
    and "arrivals_in_window ks" and "\<forall>k \<in> set ks. has_flag (ub_type (P k)) UDX_HEADER_DATA_OR_END"
  shows "recv_inv base P (set ks) before (receive_all env base P ks w)"
  using assms(3,4)
proof (induction ks rule: rev_induct)
  case Nil
  then show ?case using assms(2) by (simp add: receive_all_def)
next
  case (snoc k ks)
  then have "recv_inv base P (insert k (set ks)) before
      (receive_packet env (ub_type (P k)) (base + of_nat k) (ub_data (P k)) (receive_all env base P ks w))"
    by (intro receive_step [OF assms(1)]) (auto simp: arrivals_snoc)
  then show ?case by (simp add: receive_all_def)
qed

lemma recv_inv_init:
  assumes "s_sack_tree w = []" "stream_reads w" "s_on_read w"
  shows "recv_inv (s_ack w) P {} (reads_of (w_output w)) w"
proof -
  have "first_missing {} = 0" by (rule first_missing_eqI) auto
  with assms show ?thesis by (simp add: recv_inv_def kept_from_def payloads_def fun_eq_iff)
qed

text \<open>C6. In-order, exactly-once delivery.  Whatever the order in which the sender's packets arrive, with losses and
  duplicates, inside the window: the user has read exactly the data of the packets before the first
  missing one, in the order of their numbers and each once, and that packet's number is the acknowledgement.\<close>

theorem recv_in_order_once:
  assumes "passive_reader env" and "s_sack_tree w = []" "stream_reads w" "s_on_read w"
    and "arrivals_in_window ks" and "\<forall>k \<in> set ks. has_flag (ub_type (P k)) UDX_HEADER_DATA_OR_END"
  shows "let w' = receive_all env (s_ack w) P ks w; n = first_missing (set ks)
    in reads_of (w_output w') = reads_of (w_output w) @ payloads (map P [0..<n]) \<and> s_ack w' = s_ack w + of_nat n"
  using receive_all_inv [OF assms(1) recv_inv_init [OF assms(2-4)] assms(5,6)]
  by (simp add: recv_inv_def Let_def)

definition idle_env :: env where
  "idle_env = \<lparr>env_host = UDX_LE, env_try_send = (\<lambda>_. 0), env_udp_send = (\<lambda>_. 0), env_read_buffer_size = (\<lambda>_. 0),
     env_firewall = (\<lambda>_ w. (False, w)), env_callback = (\<lambda>_ w. w)\<rparr>"

definition reading_world :: world where
  "reading_world = zero_stream 0 0\<lparr>s_ack := 0xFFFFFFFF, s_on_read := True,
     s_status := UDX_STREAM_CONNECTED OR UDX_STREAM_READING\<rparr>"

theorem recv_in_order_once_witness:
  "reads_of (w_output (receive_all idle_env 0xFFFFFFFF (\<lambda>k. \<lparr>ub_type = UDX_HEADER_DATA, ub_data = [of_nat k]\<rparr>) [1, 0, 1] reading_world))
     = [[0], [1]]"
proof -
  let ?P = "\<lambda>k. \<lparr>ub_type = UDX_HEADER_DATA, ub_data = [of_nat k]\<rparr> :: udx_buf"
  have fm: "first_missing {} = 0" "first_missing {1} = 0" "first_missing {1, 0} = 2" "first_missing {0, 1} = 2"
    by (rule first_missing_eqI; auto)+
  have "arrivals_in_window ((([] @ [1]) @ [0]) @ [1])"
    unfolding arrivals_snoc using fm by (simp add: arrivals_in_window_def in_recv_window_def)
  then have arr: "arrivals_in_window [1, 0, 1]" unfolding append.simps .
  have env: "passive_reader idle_env" by (simp add: passive_reader_def idle_env_def)
  have w: "s_sack_tree reading_world = []" "stream_reads reading_world" "s_on_read reading_world"
    "s_ack reading_world = 0xFFFFFFFF" "reads_of (w_output reading_world) = []"
    by (simp_all add: reading_world_def zero_stream_def stream_reads_def stream_flag_defs reads_of_def List.map_filter_simps)
  have pl: "payloads (map ?P [0..<2]) = [[0], [1]]" by (simp add: payloads_def upt_rec header_flag_defs)
  have n: "first_missing (set [1, 0, 1]) = 2" using fm(4) by (simp add: insert_commute)
  have kind: "\<forall>k \<in> set [1, 0, 1]. has_flag (ub_type (?P k)) UDX_HEADER_DATA_OR_END" by (simp add: header_flag_defs)
  show ?thesis
    using recv_in_order_once [OF env w(1-3) arr kind] unfolding Let_def n pl w append_Nil by (rule conjunct1)
qed

end
