(* ===== verification/Udx_Close.thy ===== *)
theory Udx_Close
  imports Udx_Send Udx_Recv
begin

text \<open>
  Acknowledged and cancelled bytes, and closing a stream (\<open>on_bytes_acked\<close>, \<open>cancel_packet\<close>,
  \<open>clear_outgoing_packets\<close>, \<open>clear_incoming_packets\<close>, \<open>close_stream\<close> of \<open>src/udx.c\<close>), and sending an
  acknowledgement, which may close the stream.  Of closing, this is the part on the stream itself, with the header it leaves
  for time-wait; \<open>Udx_Instance\<close> composes it with the lists, the table, the time-wait record and the relays.
\<close>

section \<open>Acknowledged bytes\<close>

definition on_bytes_acked :: "env \<Rightarrow> addr \<Rightarrow> u64 \<Rightarrow> bool \<Rightarrow> world \<Rightarrow> world option" where
  "on_bytes_acked env b bytes cancelled w = do {
     let wbuf = w_wbufs w b;
     let wr = wb_write wbuf;
     wbuf \<leftarrow> (if \<not> cancelled then do {
         c_assert (bytes \<le> wb_bytes_inflight wbuf);
         Some (wbuf\<lparr>wb_bytes_inflight := wb_bytes_inflight wbuf - bytes\<rparr>)
       } else Some wbuf);
     let wbuf = wbuf\<lparr>wb_bytes_acked := wb_bytes_acked wbuf + bytes\<rparr>;
     c_assert (wb_bytes_acked wbuf \<le> of_nat (length (wb_buf wbuf)));
     let write = (w_writes w wr)\<lparr>wr_bytes_acked := wr_bytes_acked (w_writes w wr) + bytes\<rparr>;
     c_assert (wr_bytes_acked write \<le> wr_size write);
     c_assert (bytes \<le> s_writes_queued_bytes w);
     let w = w\<lparr>w_wbufs := (w_wbufs w)(b := wbuf), w_writes := (w_writes w)(wr := write),
               s_writes_queued_bytes := s_writes_queued_bytes w - bytes\<rparr>;
     if cancelled then Some w
     else if s_hit_high_watermark w then do {
       win \<leftarrow> send_window_in_bytes w;
       Some (if s_writes_queued_bytes w < ucast (UDX_HIGH_WATERMARK + win)
             then (let w = w\<lparr>s_hit_high_watermark := False\<rparr> in if s_on_drain w then notify env Ev_Drain w else w)
             else w)
     } else Some w
   }"

text \<open>A write whose last byte was just settled is reported to its callback.\<close>

definition write_settled :: "addr \<Rightarrow> world \<Rightarrow> bool" where
  "write_settled wr w \<longleftrightarrow> wr_bytes_acked (w_writes w wr) = wr_size (w_writes w wr) \<and> wr_on_ack (w_writes w wr)"

definition cancel_bytes :: "env \<Rightarrow> addr \<Rightarrow> u64 \<Rightarrow> world \<Rightarrow> world option" where
  "cancel_bytes env b bytes w = do {
     w \<leftarrow> on_bytes_acked env b bytes True w;
     let wr = wb_write (w_wbufs w b);
     Some (if write_settled wr w then notify env (Ev_Ack wr UV_ECANCELED False) w else w)
   }"

fun cancel_slices :: "env \<Rightarrow> pkt_slice list \<Rightarrow> world \<Rightarrow> world option" where
  "cancel_slices env [] w = Some w"
| "cancel_slices env (sl # sls) w = do { w \<leftarrow> cancel_bytes env (sl_wbuf sl) (sl_len sl) w; cancel_slices env sls w }"

definition cancel_packet :: "env \<Rightarrow> addr \<Rightarrow> world \<Rightarrow> world option" where
  "cancel_packet env p w = cancel_slices env (p_slices (w_packets w p)) w"

section \<open>Closing\<close>

partial_function (option) clear_packets_from :: "env \<Rightarrow> u32 \<Rightarrow> world \<Rightarrow> world option" where
  "clear_packets_from env seq w =
    (if seq = s_seq w then Some w
     else case s_outgoing w seq of
       None \<Rightarrow> clear_packets_from env (seq + 1) w
     | Some p \<Rightarrow> do {
         w \<leftarrow> cancel_packet env p (w\<lparr>s_outgoing := (s_outgoing w)(seq := None)\<rparr>);
         clear_packets_from env (seq + 1) (deref_packet p w)
       })"

partial_function (option) clear_write_queue :: "env \<Rightarrow> world \<Rightarrow> world option" where
  "clear_write_queue env w =
    (case s_write_queue w of
       [] \<Rightarrow> Some w
     | b # rest \<Rightarrow> do {
         w \<leftarrow> cancel_bytes env b (of_nat (length (wb_buf (w_wbufs w b))) - wb_bytes_acked (w_wbufs w b))
                (w\<lparr>s_write_queue := rest\<rparr>);
         clear_write_queue env w
       })"

declare clear_packets_from.simps [code] clear_write_queue.simps [code]

definition clear_outgoing_packets :: "env \<Rightarrow> world \<Rightarrow> world option" where
  "clear_outgoing_packets env w = do {
     w \<leftarrow> (if s_pkt w \<noteq> NULL then do {
         c_assert (p_ref_count (w_packets w (s_pkt w)) = 1);
         let p = s_pkt w;
         w \<leftarrow> cancel_packet env p w;
         Some (deref_packet p w)
       } else Some w);
     w \<leftarrow> clear_packets_from env (s_remote_acked w) w;
     clear_write_queue env w
   }"

definition clear_incoming_packets :: "world \<Rightarrow> world" where
  "clear_incoming_packets w = w\<lparr>s_sack_tree := []\<rparr>"

definition close_stream_internal :: "env \<Rightarrow> int \<Rightarrow> world \<Rightarrow> world option" where
  "close_stream_internal env err w = do {
     c_assert (s_status w AND UDX_STREAM_CLOSED = 0);
     let w = w\<lparr>s_status := s_status w OR UDX_STREAM_CLOSED\<rparr>;
     let w = w\<lparr>s_status := s_status w AND NOT UDX_STREAM_CONNECTED\<rparr>;
     let w = (if has_flag (s_status w) UDX_STREAM_TIMEWAIT_WANTED
       then w\<lparr>w_timewait := Some (udx_write_header env w 0 (s_remote_id w))\<rparr> else w);
     let w = (if s_on_close w then notify env (Ev_Close err) w else w);
     w \<leftarrow> clear_outgoing_packets env w;
     let w = clear_incoming_packets w;
     let w = (if has_flag (s_status w) UDX_STREAM_READING then snd (udx_stream_read_stop w) else w);
     Some (w\<lparr>w_timer := None, w_pacing_timer := None, w_prepare := False\<rparr>)
   }"

definition close_stream :: "env \<Rightarrow> int \<Rightarrow> world \<Rightarrow> world option" where
  "close_stream env err w =
    (let w = (if err \<noteq> 0 then w\<lparr>s_status := s_status w AND NOT UDX_STREAM_TIMEWAIT_WANTED\<rparr> else w)
     in if has_flag (s_status w) UDX_STREAM_DESTROYING then Some w else close_stream_internal env err w)"

section \<open>Control packets\<close>

text \<open>The fast and the slow path of a datagram that is not kept for retransmission.\<close>

definition send_datagram :: "env \<Rightarrow> sockaddr \<Rightarrow> u8 list \<Rightarrow> world \<Rightarrow> world" where
  "send_datagram env dest bytes w =
    (let err = env_try_send env (w_ios w);
         w = w\<lparr>w_ios := w_ios w + 1\<rparr>
     in if err = UV_EAGAIN then
          (let err = env_udp_send env (w_ios w);
               w = w\<lparr>w_ios := w_ios w + 1\<rparr>
           in if err \<noteq> 0 then w else w\<lparr>w_output := w_output w @ [Datagram dest bytes]\<rparr>)
        else if err < 0 then w
        else w\<lparr>w_output := w_output w @ [Datagram dest bytes]\<rparr>)"

definition send_probe :: "env \<Rightarrow> world \<Rightarrow> world" where
  "send_probe env w =
    (if s_socket w = NULL then w
     else let w = send_datagram env (s_remote_addr w) (udx_write_header env w UDX_HEADER_HEARTBEAT (s_remote_id w)) w
          in count_tx 20 w)"

text \<open>The blocks of out-of-order data, in order.\<close>

definition sack_ranges :: "world \<Rightarrow> (u32 \<times> u32) list" where
  "sack_ranges w = map (\<lambda>b. (sb_start b, sb_end b)) (s_sack_tree w)"

definition send_ack :: "env \<Rightarrow> world \<Rightarrow> world option" where
  "send_ack env w =
    (if s_socket w = NULL then Some (w\<lparr>s_ack_needed := True\<rparr>)
     else do {
       let bytes = ack_packet_bytes (env_host env) (sack_ranges w) (s_remote_id w) (get_recv_rwnd env w) (s_seq w) (s_ack w);
       let w = send_datagram env (s_remote_addr w) bytes w;
       let w = count_tx (of_nat (length bytes)) w;
       let w = (if s_status w AND UDX_STREAM_SHOULD_END_REMOTE = UDX_STREAM_END_REMOTE
                   \<and> seq_compare (s_remote_ended w) (s_ack w) \<le> 0
                then (let w = w\<lparr>s_status := s_status w OR UDX_STREAM_ENDED_REMOTE\<rparr>
                      in if s_on_read w then notify env Ev_Eof w else w)
                else w);
       if s_status w AND UDX_STREAM_ALL_ENDED = UDX_STREAM_ALL_ENDED then do {
         c_assert (s_retransmit_queue w = []);
         c_assert (s_write_queue w = []);
         close_stream env 0 w
       } else Some w
     })"

end
