(* ===== verification/Udx_Ack.thy ===== *)
theory Udx_Ack
  imports Udx_Close
begin

text \<open>
  Loss detection and acknowledgement (\<open>src/udx.c\<close>): RACK and its timer, the retransmission timeout, the tail loss
  probe, and \<open>ack_packet\<close>, which settles one packet.
\<close>

section \<open>RACK\<close>

text \<open>The running values of the loop of \<open>rack_detect_loss\<close>.\<close>

record rack_scan =
  rk_timeout :: u64
  rk_resending :: int
  rk_probes_lost :: int

text \<open>Moves a packet from the flight to the retransmission queue.\<close>

definition mark_lost :: "addr \<Rightarrow> world \<Rightarrow> world option" where
  "mark_lost p w = do {
     let w = upd_packet p (\<lambda>pkt. pkt\<lparr>p_lost := True\<rparr>) w;
     q \<leftarrow> lq_unlink p (s_inflight_queue w);
     Some (w\<lparr>s_inflight := s_inflight w - ucast (p_size (w_packets w p)), s_inflight_queue := q,
             s_retransmit_queue := lq_tail p (s_retransmit_queue w)\<rparr>)
   }"

definition rack_remaining :: "udx_packet \<Rightarrow> u32 \<Rightarrow> world \<Rightarrow> int" where
  "rack_remaining pkt reo_wnd w = sint (p_time_sent pkt + ucast (s_rack_rtt w) + ucast reo_wnd - w_now w)"

fun rack_scan_queue :: "u32 \<Rightarrow> addr list \<Rightarrow> rack_scan \<Rightarrow> world \<Rightarrow> (rack_scan \<times> world) option" where
  "rack_scan_queue reo_wnd [] rk w = Some (rk, w)"
| "rack_scan_queue reo_wnd (p # ps) rk w = do {
     let pkt = w_packets w p;
     c_assert (p_transmits pkt > 0);
     if p_time_sent pkt > s_rack_time_sent w then Some (rk, w)
     else if p_ref_count pkt = 2 then rack_scan_queue reo_wnd ps rk w
     else if rack_sent_after (s_rack_time_sent w) (s_rack_next_seq w) (p_time_sent pkt) (p_seq pkt + 1) then do {
       let remaining = rack_remaining pkt reo_wnd w;
       if remaining \<le> 0 then do {
         c_assert (p_size pkt > 0 \<and> p_size pkt < 1500);
         w \<leftarrow> mark_lost p (w\<lparr>s_lost := s_lost w + 1\<rparr>);
         (rk, w) \<leftarrow> (if p_is_mtu_probe pkt then do {
             w \<leftarrow> mtu_unprobeify_packet p w;
             Some (rk\<lparr>rk_probes_lost := rk_probes_lost rk + 1\<rparr>, w)
           } else Some (rk, w));
         rack_scan_queue reo_wnd ps (rk\<lparr>rk_resending := rk_resending rk + 1\<rparr>) w
       } else rack_scan_queue reo_wnd ps
                (if (word_of_int remaining :: u64) > rk_timeout rk then rk\<lparr>rk_timeout := word_of_int remaining\<rparr> else rk) w
     } else rack_scan_queue reo_wnd ps rk w
   }"

definition rack_detect_loss :: "env \<Rightarrow> world \<Rightarrow> (u32 \<times> world) option" where
  "rack_detect_loss env w = do {
     let reo_wnd = rack_update_reo_wnd w;
     (rk, w) \<leftarrow> rack_scan_queue reo_wnd (s_inflight_queue w) \<lparr>rk_timeout = 0, rk_resending = 0, rk_probes_lost = 0\<rparr> w;
     let w = (if rk_resending rk = rk_probes_lost rk then w\<lparr>s_lost := s_lost w - word_of_int (rk_probes_lost rk)\<rparr> else w);
     let w = (if rk_resending rk > rk_probes_lost rk \<and> s_ca_state w = UDX_CA_OPEN
       then (let w = w\<lparr>s_fast_recovery_count := s_fast_recovery_count w + 1, s_ca_state := UDX_CA_RECOVERY\<rparr>;
                 w = bbr_save_cwnd w
             in w\<lparr>s_high_seq := s_seq w, s_tlp_in_flight := False, s_tlp_is_retrans := False\<rparr>)
       else w);
     w \<leftarrow> send_packets env w;
     Some (ucast (rk_timeout rk), w)
   }"

definition rack_detect_loss_and_arm_timer :: "env \<Rightarrow> world \<Rightarrow> (bool \<times> world) option" where
  "rack_detect_loss_and_arm_timer env w = do {
     (timeout, w) \<leftarrow> rack_detect_loss env w;
     if timeout > 0 then do {
       c_assert (\<not> has_flag (s_status w) UDX_STREAM_CLOSED);
       Some (True, stream_timer_start UDX_TIMER_RACK_REO timeout w)
     } else Some (False, w)
   }"

section \<open>Timers\<close>

definition udx_rack_reo_timeout :: "env \<Rightarrow> world \<Rightarrow> world option" where
  "udx_rack_reo_timeout env w = do {
     (_, w) \<leftarrow> rack_detect_loss env w;
     let from_now = (\<not> (s_pending_timer w = UDX_TIMER_RACK_REO \<or> s_pending_timer w = UDX_TIMER_TLP));
     if s_pending_timer w \<noteq> UDX_TIMER_RTO then rearm_rto from_now w else Some w
   }"

definition udx_tlp_timeout :: "env \<Rightarrow> world \<Rightarrow> world option" where
  "udx_tlp_timeout env w = do {
     c_assert (has_flag (s_status w) UDX_STREAM_CONNECTED);
     if s_remote_acked w = s_seq w then Some w
     else if s_tlp_in_flight w \<or> \<not> s_tlp_permitted w then rearm_rto False w
     else do {
       (sent, w) \<leftarrow> send_new_packet env True w;
       if sent then rearm_rto True w
       else case s_outgoing w (s_seq w - 1) of
         None \<Rightarrow> rearm_rto False w
       | Some p \<Rightarrow>
           if p_lost (w_packets w p) \<or> p_ref_count (w_packets w p) = 2 then rearm_rto False w
           else do {
             q \<leftarrow> lq_unlink p (s_inflight_queue w);
             let w = w\<lparr>s_inflight_queue := q, s_inflight := s_inflight w - ucast (p_size (w_packets w p))\<rparr>;
             w \<leftarrow> retransmit_packet env p w;
             let w = w\<lparr>s_tlp_is_retrans := True, s_tlp_in_flight := True, s_tlp_end_seq := p_seq (w_packets w p),
                       s_tlp_permitted := False\<rparr>;
             rearm_rto True w
           }
     }
   }"

definition udx_zwp_timeout :: "env \<Rightarrow> world \<Rightarrow> world option" where
  "udx_zwp_timeout env w = do {
     c_assert (has_flag (s_status w) UDX_STREAM_CONNECTED);
     c_assert (s_send_rwnd w = 0);
     c_assert (s_status w AND UDX_STREAM_CLOSED = 0);
     let w = w\<lparr>s_zwp_count := s_zwp_count w + 1\<rparr>;
     let w = send_probe env w;
     c_assert (s_pending_timer w = UDX_TIMER_ZWP);
     c_assert (s_writes_queued_bytes w > 0 \<or> s_status w AND (UDX_STREAM_ENDING OR UDX_STREAM_ENDED) = UDX_STREAM_ENDING);
     Some (stream_timer_start UDX_TIMER_ZWP (s_rto w * 2) w)
   }"

definition udx_keepalive_timeout :: "env \<Rightarrow> world \<Rightarrow> world option" where
  "udx_keepalive_timeout env w = do {
     c_assert (s_seq w = s_remote_acked w);
     let w = send_probe env w;
     Some (stream_timer_start UDX_TIMER_KEEPALIVE (s_keepalive_timeout_ms w) w)
   }"

text \<open>The sequence numbers from \<open>a\<close> up to, and without, \<open>b\<close>.\<close>

definition seq_range :: "u32 \<Rightarrow> u32 \<Rightarrow> u32 list" where
  "seq_range a b = map (\<lambda>i. a + of_nat i) [0..<unat (b - a)]"

text \<open>One round of the loop of \<open>udx_rto_timeout\<close> over the packets not yet acknowledged.\<close>

definition rto_mark :: "u32 \<Rightarrow> u32 \<Rightarrow> world \<Rightarrow> world option" where
  "rto_mark reo_wnd seq w =
    (case s_outgoing w seq of
       None \<Rightarrow> Some w
     | Some p \<Rightarrow>
         let pkt = w_packets w p in
         if p_lost pkt then Some (w\<lparr>s_retransmit_queue := lq_tail p (s_retransmit_queue w)\<rparr>)
         else if p_seq pkt = s_remote_acked w \<or> rack_remaining pkt reo_wnd w < 0 then do {
           let w = w\<lparr>s_lost := s_lost w + 1\<rparr>;
           w \<leftarrow> (if p_is_mtu_probe pkt then mtu_unprobeify_packet p w else Some w);
           if p_ref_count pkt = 2 then Some w else mark_lost p w
         } else Some w)"

fun rto_mark_all :: "u32 \<Rightarrow> u32 list \<Rightarrow> world \<Rightarrow> world option" where
  "rto_mark_all reo_wnd [] w = Some w"
| "rto_mark_all reo_wnd (seq # seqs) w = do { w \<leftarrow> rto_mark reo_wnd seq w; rto_mark_all reo_wnd seqs w }"

definition udx_rto_timeout :: "env \<Rightarrow> world \<Rightarrow> world option" where
  "udx_rto_timeout env w = do {
     let w = w\<lparr>s_pending_timer := UDX_TIMER_NONE\<rparr>;
     c_assert (has_flag (s_status w) UDX_STREAM_CONNECTED);
     c_assert (s_remote_acked w \<noteq> s_seq w);
     let w = bbr_save_cwnd w;
     let w = w\<lparr>s_high_seq := s_seq w, s_rto_count := s_rto_count w + 1, s_lifetime_rto_count := s_lifetime_rto_count w + 1,
               s_ca_state := UDX_CA_LOSS, s_tlp_in_flight := False, s_tlp_is_retrans := False\<rparr>;
     c_assert (\<not> has_flag (s_status w) UDX_STREAM_CLOSED);
     let w = stream_timer_start UDX_TIMER_RTO (s_rto w * 2) w;
     let w = w\<lparr>s_retransmit_queue := []\<rparr>;
     let reo_wnd = rack_update_reo_wnd w;
     if s_rto_count w > UDX_MAX_RTO_TIMEOUTS then close_stream env UV_ETIMEDOUT w
     else do {
       w \<leftarrow> rto_mark_all reo_wnd (seq_range (s_remote_acked w) (s_seq w)) w;
       let w = w\<lparr>s_cwnd := of_nat (length (s_inflight_queue w)) + 1\<rparr>;
       send_packets env (bbr_on_rto w)
     }
   }"

section \<open>Settling one packet\<close>

text \<open>Sequence number loop bodies return 0 (nothing here), 1 (settled) or 2 (stop).\<close>

fun ack_slices :: "env \<Rightarrow> bool \<Rightarrow> pkt_slice list \<Rightarrow> world \<Rightarrow> (bool \<times> world) option" where
  "ack_slices env sack [] w = Some (False, w)"
| "ack_slices env sack (sl # sls) w = do {
     let w = w\<lparr>s_bytes_acked := s_bytes_acked w + sl_len sl\<rparr>;
     w \<leftarrow> on_bytes_acked env (sl_wbuf sl) (sl_len sl) False w;
     if stream_dead w then Some (True, w)
     else do {
       let wr = wb_write (w_wbufs w (sl_wbuf sl));
       if write_settled wr w then do {
         let w = notify env (Ev_Ack wr 0 sack) w;
         if stream_dead w then Some (True, w) else ack_slices env sack sls w
       } else ack_slices env sack sls w
     }
   }"

text \<open>RACK's steps 1 to 3 of \<open>ack_packet\<close>: the round trip, the most recently sent packet, reordering.\<close>

definition ack_rtt :: "udx_packet \<Rightarrow> u32 \<Rightarrow> udx_rate_sample \<Rightarrow> world \<Rightarrow> udx_rate_sample \<times> world" where
  "ack_rtt pkt seq rs w =
    (let rtt = clamp_rtt w (w_now w - p_time_sent pkt);
         next = seq + 1;
         (rtt, w) = (if \<not> p_retransmitted pkt then (let rtt = (if rtt = 0 then 1 else rtt) in (rtt, rtt_update rtt w)) else (rtt, w));
         (rs, w) =
           (if \<not> p_retransmitted pkt \<or> rtt \<ge> udx_rtt_min w then
              (rs\<lparr>rs_rtt_ms := uint rtt\<rparr>,
               (let w = w\<lparr>s_rack_rtt := rtt\<rparr>
                in if rack_sent_after (p_time_sent pkt) next (s_rack_time_sent w) (s_rack_next_seq w)
                   then w\<lparr>s_rack_time_sent := p_time_sent pkt, s_rack_next_seq := next\<rparr> else w))
            else (rs, w));
         w = (if seq_compare next (s_rack_fack w) > 0 then w\<lparr>s_rack_fack := next\<rparr>
              else if seq_compare next (s_rack_fack w) < 0 \<and> \<not> p_retransmitted pkt then w\<lparr>s_reordering_seen := True\<rparr>
              else w)
     in (rs, w))"

text \<open>Taking an acknowledged packet out of its queue.\<close>

definition ack_unlink :: "addr \<Rightarrow> world \<Rightarrow> world option" where
  "ack_unlink p w =
    (if p_lost (w_packets w p) then do { q \<leftarrow> lq_unlink p (s_retransmit_queue w); Some (w\<lparr>s_retransmit_queue := q\<rparr>) }
     else do {
       q \<leftarrow> lq_unlink p (s_inflight_queue w);
       Some (w\<lparr>s_inflight_queue := q, s_inflight := s_inflight w - ucast (p_size (w_packets w p))\<rparr>)
     })"

definition ack_packet :: "env \<Rightarrow> u32 \<Rightarrow> bool \<Rightarrow> udx_rate_sample \<Rightarrow> world \<Rightarrow> (nat \<times> udx_rate_sample \<times> world) option" where
  "ack_packet env seq sack rs w =
    (case s_outgoing w seq of
       None \<Rightarrow> Some (0, rs, if \<not> sack then w\<lparr>s_sacks := s_sacks w - 1\<rparr> else w)
     | Some p \<Rightarrow> do {
         let pkt = w_packets w p;
         let w = w\<lparr>s_outgoing := (s_outgoing w)(seq := None)\<rparr>;
         let w = mtu_on_ack pkt w;
         let w = (if sack then w\<lparr>s_sacks := s_sacks w + 1\<rparr> else w);
         w \<leftarrow> ack_unlink p w;
         let (rs, w) = udx__rate_pkt_delivered pkt rs w;
         let (rs, w) = ack_rtt pkt seq rs w;
         (dead, w) \<leftarrow> ack_slices env sack (p_slices pkt) w;
         let w = deref_packet p w;
         Some (if dead then (2, rs, w)
               else if s_status w AND UDX_STREAM_SHOULD_END = UDX_STREAM_END \<and> s_inflight_queue w = []
                       \<and> s_retransmit_queue w = [] \<and> s_write_queue w = []
               then (2, rs, w\<lparr>s_status := s_status w OR UDX_STREAM_ENDED\<rparr>)
               else (1, rs, w))
       })"

end
