(* ===== verification/Udx_Addr.thy ===== *)
theory Udx_Addr
  imports Udx_Stream
begin

text \<open>
  Socket addresses (\<open>src/udx.c\<close>): IPv4 addresses travel through IPv6 sockets in mapped form.  Shown: mapping and
  un-mapping an IPv4 address gives it back, and exactly the mapped addresses are recognised.
\<close>

text \<open>The prefix \<open>::ffff:0:0/96\<close>.\<close>

definition v4_mapped_prefix :: "u8 list" where
  "v4_mapped_prefix = replicate 10 0 @ [0xff, 0xff]"

definition is_addr_v4_mapped :: "sockaddr \<Rightarrow> bool" where
  "is_addr_v4_mapped a \<longleftrightarrow> sa_family a = AF_INET6 \<and> take 12 (sa_addr a) = v4_mapped_prefix"

definition addr_to_v4 :: "sockaddr \<Rightarrow> sockaddr" where
  "addr_to_v4 a = \<lparr>sa_family = AF_INET, sa_port = sa_port a, sa_addr = take 4 (drop 12 (sa_addr a))\<rparr>"

definition addr_to_v6 :: "sockaddr \<Rightarrow> sockaddr" where
  "addr_to_v6 a = \<lparr>sa_family = AF_INET6, sa_port = sa_port a, sa_addr = v4_mapped_prefix @ take 4 (sa_addr a)\<rparr>"

text \<open>An address has as many bytes as its family says.\<close>

definition addr_ok :: "sockaddr \<Rightarrow> bool" where
  "addr_ok a \<longleftrightarrow> (case sa_family a of AF_INET \<Rightarrow> length (sa_addr a) = 4 | AF_INET6 \<Rightarrow> length (sa_addr a) = 16 | AF_OTHER \<Rightarrow> False)"

lemma length_v4_mapped_prefix [simp]: "length v4_mapped_prefix = 12"
  by (simp add: v4_mapped_prefix_def)

lemma v4_roundtrip:
  assumes "sa_family a = AF_INET" "addr_ok a"
  shows "addr_to_v4 (addr_to_v6 a) = a" and "is_addr_v4_mapped (addr_to_v6 a)" and "addr_ok (addr_to_v6 a)"
  using assms by (simp_all add: addr_ok_def addr_to_v6_def addr_to_v4_def is_addr_v4_mapped_def)

lemma v6_roundtrip:
  assumes "is_addr_v4_mapped a" "addr_ok a"
  shows "addr_to_v6 (addr_to_v4 a) = a" and "addr_ok (addr_to_v4 a)"
proof -
  have "v4_mapped_prefix @ drop 12 (sa_addr a) = sa_addr a"
    using assms(1) append_take_drop_id [of 12 "sa_addr a"] by (simp add: is_addr_v4_mapped_def)
  moreover have "length (sa_addr a) = 16" "sa_family a = AF_INET6"
    using assms by (simp_all add: addr_ok_def is_addr_v4_mapped_def)
  ultimately show "addr_to_v6 (addr_to_v4 a) = a" "addr_ok (addr_to_v4 a)"
    by (simp_all add: addr_to_v6_def addr_to_v4_def addr_ok_def)
qed

section \<open>Properties\<close>

text \<open>C36. Mapping an IPv4 address into IPv6 and back gives the same address, port included; the mapped form is recognised as
  mapped, and every recognised IPv6 address is the mapped form of the IPv4 address it converts to.\<close>

theorem addr_mapping_roundtrip:
  assumes "addr_ok a"
  shows "(sa_family a = AF_INET \<longrightarrow> addr_to_v4 (addr_to_v6 a) = a \<and> is_addr_v4_mapped (addr_to_v6 a) \<and> addr_ok (addr_to_v6 a))
    \<and> (is_addr_v4_mapped a \<longrightarrow> addr_to_v6 (addr_to_v4 a) = a \<and> addr_ok (addr_to_v4 a))"
  using v4_roundtrip [OF _ assms] v6_roundtrip [OF _ assms] by blast+

theorem addr_mapping_roundtrip_witness:
  "addr_to_v4 (addr_to_v6 \<lparr>sa_family = AF_INET, sa_port = 53, sa_addr = [8, 8, 4, 4]\<rparr>)
     = \<lparr>sa_family = AF_INET, sa_port = 53, sa_addr = [8, 8, 4, 4]\<rparr>"
  using addr_mapping_roundtrip [of "\<lparr>sa_family = AF_INET, sa_port = 53, sa_addr = [8, 8, 4, 4]\<rparr>"] by (simp add: addr_ok_def)

end
