(* ===== verification/Udx_Process.thy ===== *)
theory Udx_Process
  imports Udx_Ack Udx_Addr
begin

text \<open>
  The handler of an incoming packet: \<open>process_packet\<close> of \<open>src/udx.c\<close> from the point where the stream of the packet
  is known, with \<open>relay_packet\<close>, the validation of selective acknowledgements and the rules of the send
  window.  The handler is cut at its early returns: a stage gives a flag that is \<open>True\<close> for
  \<open>return 1\<close>.
\<close>

section \<open>Relaying\<close>

text \<open>The stream packets are relayed to: whether it is connected to a socket, its remote id and address.\<close>

record relay_target =
  rt_connected :: bool
  rt_remote_id :: u32
  rt_remote_addr :: sockaddr

definition UDX_DEBUG_FORCE_RELAY_SLOW_PATH :: u32 where "UDX_DEBUG_FORCE_RELAY_SLOW_PATH = 1"

definition relay_packet :: "env \<Rightarrow> relay_target \<Rightarrow> u8 list \<Rightarrow> u8 \<Rightarrow> u32 \<Rightarrow> world \<Rightarrow> world option" where
  "relay_packet env relay buf type seq w = do {
     let w = w\<lparr>s_seq := seq_max (s_seq w) seq\<rparr>;
     let w = (if rt_connected relay then
         (let b = patch_word (env_host env) 4 (rt_remote_id relay) buf in
          if has_flag (w_debug_flags w) UDX_DEBUG_FORCE_RELAY_SLOW_PATH then
            (let err = env_udp_send env (w_ios w); w = w\<lparr>w_ios := w_ios w + 1\<rparr>
             in if err \<noteq> 0 then w else w\<lparr>w_output := w_output w @ [Datagram (rt_remote_addr relay) b]\<rparr>)
          else send_datagram env (rt_remote_addr relay) b w)
       else w);
     if has_flag type UDX_HEADER_DESTROY then close_stream env UV_ECONNRESET w else Some w
   }"

section \<open>Acknowledgement rules\<close>

definition udx_sack_is_valid :: "u32 \<Rightarrow> u32 \<Rightarrow> world \<Rightarrow> bool" where
  "udx_sack_is_valid start_seq end_seq w =
    (if seq_diff end_seq (s_seq w) > 0 then False
     else if seq_diff start_seq end_seq \<ge> 0 then False
     else if seq_diff start_seq (s_seq w) \<ge> 0 then False
     else if seq_diff start_seq (s_remote_acked w) < 0 then False
     else True)"

definition detect_loss_repaired_by_loss_probe :: "u32 \<Rightarrow> world \<Rightarrow> world" where
  "detect_loss_repaired_by_loss_probe ack w =
    (if s_tlp_in_flight w \<and> seq_compare ack (s_tlp_end_seq w) \<ge> 0 then
       if \<not> s_tlp_is_retrans w then w\<lparr>s_tlp_in_flight := False\<rparr>
       else if seq_compare ack (s_tlp_end_seq w) > 0 then w\<lparr>s_tlp_in_flight := False\<rparr>
       else w
     else w)"

text \<open>The send window follows the newest packet only.\<close>

definition update_send_window :: "u32 \<Rightarrow> u32 \<Rightarrow> u32 \<Rightarrow> world \<Rightarrow> world" where
  "update_send_window seq ack rwnd w =
    (if seq_compare ack (s_remote_acked w) \<ge> 0
        \<and> (seq_compare (s_send_wl1 w) seq < 0 \<or> (s_send_wl1 w = seq \<and> seq_compare (s_send_wl2 w) ack \<le> 0))
     then (let w = (if rwnd > 0 \<and> s_pending_timer w = UDX_TIMER_ZWP then stream_timer_stop w else w)
           in w\<lparr>s_send_rwnd := rwnd, s_send_wl1 := seq, s_send_wl2 := ack\<rparr>)
     else w)"

text \<open>The numbers a cumulative acknowledgement settles: \<open>for (p = prior; seq_compare(p, ack) < 0; p++)\<close>.\<close>

definition acked_range :: "u32 \<Rightarrow> u32 \<Rightarrow> u32 list" where
  "acked_range prior ack = (if seq_compare prior ack < 0 then seq_range prior ack else [])"

text \<open>The loop over them; the flag says that the peer acknowledged our end (or the stream died).\<close>

fun ack_cumulative :: "env \<Rightarrow> u32 list \<Rightarrow> udx_rate_sample \<Rightarrow> world \<Rightarrow> (bool \<times> udx_rate_sample \<times> world) option" where
  "ack_cumulative env [] rs w = Some (False, rs, w)"
| "ack_cumulative env (p # ps) rs w = do {
     (a, rs, w) \<leftarrow> ack_packet env p False rs w;
     let w = (if a = 1 then w\<lparr>s_delivered := s_delivered w + 1\<rparr> else w);
     if a = 2 then Some (True, rs, w) else ack_cumulative env ps rs w
   }"

fun ack_selective :: "env \<Rightarrow> u32 list \<Rightarrow> udx_rate_sample \<Rightarrow> world \<Rightarrow> (udx_rate_sample \<times> world) option" where
  "ack_selective env [] rs w = Some (rs, w)"
| "ack_selective env (p # ps) rs w = do {
     (a, rs, w) \<leftarrow> ack_packet env p True rs w;
     if a = 2 then Some (rs, w)
     else ack_selective env ps rs (if a = 1 then w\<lparr>s_delivered := s_delivered w + 1\<rparr> else w)
   }"

fun process_sacks :: "env \<Rightarrow> (u32 \<times> u32) list \<Rightarrow> udx_rate_sample \<Rightarrow> world \<Rightarrow> (udx_rate_sample \<times> world) option" where
  "process_sacks env [] rs w = Some (rs, w)"
| "process_sacks env ((a, b) # blocks) rs w =
    (if udx_sack_is_valid a b w
     then do { (rs, w) \<leftarrow> ack_selective env (seq_range a b) rs w; process_sacks env blocks rs w }
     else process_sacks env blocks rs (w\<lparr>s_dropped_sacks := s_dropped_sacks w + 1\<rparr>))"

section \<open>Stages of the handler\<close>

text \<open>Data, end and destroy.\<close>

definition process_ordered :: "env \<Rightarrow> udx_header \<Rightarrow> u8 list \<Rightarrow> world \<Rightarrow> (bool \<times> world) option" where
  "process_ordered env h payload w =
    (if seq_compare (s_ack w) (h_seq h) \<le> 0 then
       case process_data env (h_type h) (h_seq h) payload w of
         (True, w) \<Rightarrow> Some (True, w)
       | (False, w) \<Rightarrow> do {
           let w = (if has_flag (h_type h) UDX_HEADER_END
             then w\<lparr>s_status := s_status w OR UDX_STREAM_ENDING_REMOTE, s_remote_ended := h_seq h\<rparr> else w);
           if has_flag (h_type h) UDX_HEADER_DESTROY then do { w \<leftarrow> close_stream env UV_ECONNRESET w; Some (True, w) }
           else Some (False, w)
         }
     else Some (False, w))"

definition process_message :: "env \<Rightarrow> udx_header \<Rightarrow> u8 list \<Rightarrow> world \<Rightarrow> bool \<times> world" where
  "process_message env h payload w =
    (if has_flag (h_type h) UDX_HEADER_MESSAGE \<and> s_on_recv w
     then (let w = notify env (Ev_Recv payload) w in (stream_dead w, w))
     else (False, w))"

text \<open>The window, a pending change of the remote, the loss probe and recovery.\<close>

definition process_ack_head :: "env \<Rightarrow> udx_header \<Rightarrow> world \<Rightarrow> bool \<times> world" where
  "process_ack_head env h w =
    (if seq_compare (s_seq w) (h_ack h) < 0 then (True, w)
     else
       let w = update_send_window (h_seq h) (h_ack h) (h_rwnd h) w;
           (ret, w) =
             (if s_remote_changing w \<and> seq_diff (h_ack h) (s_seq_on_remote_changed w) \<ge> 0 then
                (let w = w\<lparr>s_remote_changing := False\<rparr>
                 in if s_on_remote_changed w then (let w = notify env Ev_Remote_Changed w in (stream_dead w, w)) else (False, w))
              else (False, w))
       in if ret then (True, w)
          else
            let w = (if s_tlp_in_flight w then detect_loss_repaired_by_loss_probe (h_ack h) w else w);
                w = (if seq_compare (h_ack h) (s_high_seq w) > 0 \<and> (s_ca_state w = UDX_CA_RECOVERY \<or> s_ca_state w = UDX_CA_LOSS)
                     then w\<lparr>s_ca_state := UDX_CA_OPEN\<rparr> else w)
            in (False, w))"

text \<open>After the peer acknowledged our end.\<close>

definition process_ended :: "env \<Rightarrow> world \<Rightarrow> world option" where
  "process_ended env w =
    (if stream_dead w then Some w
     else do {
       let w = (if s_remote_acked w = s_seq w then
                  if s_keepalive_timeout_ms w \<noteq> 0 then stream_timer_start UDX_TIMER_KEEPALIVE (s_keepalive_timeout_ms w) w
                  else stream_timer_stop w
                else w);
       if s_status w AND UDX_STREAM_ALL_ENDED = UDX_STREAM_ALL_ENDED then close_stream env 0 w
       else send_ack env w
     })"

text \<open>The timers after newly delivered packets; the flag says whether the retransmission timer is still to be armed.\<close>

definition process_delivered :: "env \<Rightarrow> bool \<Rightarrow> world \<Rightarrow> (bool \<times> world) option" where
  "process_delivered env arm w = do {
     (arm, w) \<leftarrow> (if s_remote_acked w = s_seq w then do {
         c_assert (s_inflight_queue w = [] \<and> s_retransmit_queue w = []);
         let end_queued = (s_status w AND (UDX_STREAM_ENDING OR UDX_STREAM_ENDED) = UDX_STREAM_ENDING);
         Some (False,
           if s_send_rwnd w = 0 \<and> (s_writes_queued_bytes w > 0 \<or> end_queued) then stream_timer_start UDX_TIMER_ZWP (s_rto w) w
           else if s_keepalive_timeout_ms w \<noteq> 0 then stream_timer_start UDX_TIMER_KEEPALIVE (s_keepalive_timeout_ms w) w
           else stream_timer_stop w)
       } else Some (arm, w\<lparr>s_next_rto_ts := w_now w + ucast (s_rto w)\<rparr>));
     (armed, w) \<leftarrow> rack_detect_loss_and_arm_timer env w;
     Some (arm \<and> \<not> armed, w)
   }"

definition initial_sample :: udx_rate_sample where
  "initial_sample = \<lparr>rs_prior_timestamp = 0, rs_prior_delivered = 0, rs_delivered = 0, rs_interval_ms = 0,
     rs_snd_interval_ms = 0, rs_rcv_interval_ms = 0, rs_rtt_ms = - 1, rs_losses = 0, rs_acked_sacked = 0, rs_seq = 0,
     rs_is_app_limited = False, rs_is_retrans = False, rs_is_ack_delayed = False\<rparr>"

text \<open>The tail of the handler: rate sample, congestion control, and sending what is now allowed.\<close>

definition process_tail :: "env \<Rightarrow> bool \<Rightarrow> u32 \<Rightarrow> u32 \<Rightarrow> udx_rate_sample \<Rightarrow> world \<Rightarrow> world option" where
  "process_tail env data_inflight delivered lost0 rs w = do {
     let lost = s_lost w - lost0;
     w \<leftarrow> (if data_inflight then (let (rs, w) = udx__rate_gen delivered lost rs w in bbr_main rs w) else Some w);
     send_packets env w
   }"

text \<open>The acknowledgement part of the handler, from the cumulative acknowledgement on.\<close>

definition process_acks :: "env \<Rightarrow> udx_header \<Rightarrow> (u32 \<times> u32) list \<Rightarrow> u32 \<Rightarrow> u32 \<Rightarrow> u32 \<Rightarrow> bool \<Rightarrow> world \<Rightarrow> world option" where
  "process_acks env h sacks delivered0 lost0 prior data_inflight w = do {
     let ack_advanced = (seq_diff (h_ack h) prior > 0);
     (ended, rs, w) \<leftarrow> ack_cumulative env (acked_range prior (h_ack h)) initial_sample w;
     let w = (if ack_advanced then w\<lparr>s_remote_acked := h_ack h, s_rto_count := 0\<rparr> else w);
     if ended then process_ended env w
     else do {
       (rs, w) \<leftarrow> process_sacks env sacks rs w;
       if stream_dead w then Some w
       else do {
         let delivered = s_delivered w - delivered0;
         let arm = (ack_advanced \<and> data_inflight);
         (arm, w) \<leftarrow> (if delivered > 0 then process_delivered env arm w else Some (arm, w));
         w \<leftarrow> (if arm then (case schedule_loss_probe True w of (True, w) \<Rightarrow> Some w | (False, w) \<Rightarrow> rearm_rto True w) else Some w);
         w \<leftarrow> (if has_flag (h_type h) UDX_HEADER_DATA_OR_END then send_ack env w else Some w);
         if has_flag (h_type h) UDX_HEADER_DATA_OR_END \<and> stream_dead w then Some w
         else process_tail env data_inflight delivered lost0 rs w
       }
     }
   }"

section \<open>The handler\<close>

text \<open>\<open>same_socket\<close>: the packet came in on the stream's own socket, from \<open>from\<close>; \<open>relay\<close> is the stream's \<open>relay_to\<close>.
  The result is the return value and the state.\<close>

definition process_stream_packet ::
  "env \<Rightarrow> bool \<Rightarrow> sockaddr \<Rightarrow> relay_target \<Rightarrow> udx_header \<Rightarrow> u8 list \<Rightarrow> world \<Rightarrow> (int \<times> world) option" where
  "process_stream_packet env same_socket from relay h buf w =
    (if stream_dead w then Some (0, w)
     else do {
       let w = w\<lparr>s_bytes_rx := s_bytes_rx w + of_nat (length buf), s_packets_rx := s_packets_rx w + 1\<rparr>;
       let (reject, w) = (if \<not> same_socket \<and> s_on_firewall w
         then (let (reject, w) = env_firewall env (if is_addr_v4_mapped from then addr_to_v4 from else from) w in (reject \<or> stream_dead w, w)) else (False, w));
       if reject then Some (1, w)
       else if s_relay_to w \<noteq> NULL then do { w \<leftarrow> relay_packet env relay buf (h_type h) (h_seq h) w; Some (1, w) }
       else do {
         let delivered = s_delivered w;
         let lost = s_lost w;
         let prior_remote_acked = s_remote_acked w;
         let data_inflight = (s_remote_acked w \<noteq> s_seq w);
         w \<leftarrow> (if has_flag (h_type h) UDX_HEADER_HEARTBEAT then send_ack env w
           else case read_payload buf h of
             None \<Rightarrow> Some w
           | Some payload \<Rightarrow> do {
               (ret, w) \<leftarrow> process_ordered env h payload w;
               if ret then Some w
               else case process_message env h payload w of
                 (True, w) \<Rightarrow> Some w
               | (False, w) \<Rightarrow>
                   (case process_read_queue env w of
                      (True, w) \<Rightarrow> Some w
                    | (False, w) \<Rightarrow>
                        (case process_ack_head env h w of
                           (True, w) \<Rightarrow> Some w
                         | (False, w) \<Rightarrow>
                             process_acks env h (read_sacks (env_host env) buf h) delivered lost prior_remote_acked data_inflight w))
             });
         Some (1, w)
       }
     })"

end
