(* ===== verification/Udx_Api.thy ===== *)
theory Udx_Api
  imports Udx_Process
begin

text \<open>
  The calls of the user on a stream: initialising, connecting, changing the remote, writing, ending, sending a message
  and destroying (\<open>src/udx.c\<close>).  Error results are the negative codes of the code.
\<close>

definition UV_EINVAL :: int where "UV_EINVAL = -22"
definition UV_EISCONN :: int where "UV_EISCONN = -106"
definition UV_ENOTCONN :: int where "UV_ENOTCONN = -107"
definition UV_EPIPE :: int where "UV_EPIPE = -32"

section \<open>Initialisation\<close>

definition udx_stream_init :: "u64 \<Rightarrow> u32 \<Rightarrow> u32 \<Rightarrow> bool \<Rightarrow> world option" where
  "udx_stream_init now debug_flags local_id close_cb = do {
     let w = (zero_stream now debug_flags)\<lparr>s_local_id := local_id, s_ca_state := UDX_CA_OPEN\<rparr>;
     let w = reset_mtu_state_machine w;
     let w = w\<lparr>s_app_limited := 0xFFFFFFFF, s_rate_sample_is_app_limited := True, s_rto := 1000\<rparr>;
     let w = w\<lparr>s_rtt_min := snd (win_filter_reset (s_rtt_min w) now 0xFFFFFFFF)\<rparr>;
     let w = w\<lparr>s_tb_available := UDX_INIT_PACING_RATE, s_tb_last_refill_ms := now, s_cwnd := 10,
       s_recv_rwnd_max := UDX_DEFAULT_RWND_MAX, s_send_rwnd := UDX_DEFAULT_RWND_MAX, s_on_close := close_cb\<rparr>;
     w \<leftarrow> bbr_init w;
     reset_next_packet w
   }"

section \<open>Connecting\<close>

definition SOCKADDR_IN_LEN :: int where "SOCKADDR_IN_LEN = 16"
definition SOCKADDR_IN6_LEN :: int where "SOCKADDR_IN6_LEN = 28"

text \<open>The validation both calls share: the length is stored before the port is checked.\<close>

definition set_remote_len :: "sockaddr \<Rightarrow> world \<Rightarrow> bool \<times> world" where
  "set_remote_len addr w =
    (case sa_family addr of
       AF_INET \<Rightarrow> (sa_port addr \<noteq> 0, w\<lparr>s_remote_addr_len := SOCKADDR_IN_LEN\<rparr>)
     | AF_INET6 \<Rightarrow> (sa_port addr \<noteq> 0, w\<lparr>s_remote_addr_len := SOCKADDR_IN6_LEN\<rparr>)
     | AF_OTHER \<Rightarrow> (False, w))"

definition store_remote :: "int \<Rightarrow> sockaddr \<Rightarrow> world \<Rightarrow> world" where
  "store_remote family addr w =
    (let w = w\<lparr>s_remote_addr := addr\<rparr>
     in if family = 6 \<and> sa_family (s_remote_addr w) = AF_INET
        then w\<lparr>s_remote_addr := addr_to_v6 (s_remote_addr w), s_remote_addr_len := SOCKADDR_IN6_LEN\<rparr> else w)"

text \<open>\<open>link_mtu\<close> is the result of \<open>udx__get_link_mtu\<close> for the address, \<open>teardown\<close> the flag of the instance.\<close>

definition udx_stream_connect ::
  "env \<Rightarrow> bool \<Rightarrow> addr \<Rightarrow> int \<Rightarrow> u32 \<Rightarrow> sockaddr \<Rightarrow> int \<Rightarrow> world \<Rightarrow> (int \<times> world) option" where
  "udx_stream_connect env teardown sock family remote_id addr link_mtu w =
    (if stream_dead w \<or> teardown then Some (UV_EINVAL, w)
     else if has_flag (s_status w) UDX_STREAM_CONNECTED then Some (UV_EISCONN, w)
     else
       let w = w\<lparr>s_status := s_status w OR UDX_STREAM_CONNECTED, s_remote_id := remote_id, s_socket := sock, w_socket_family := family\<rparr>
       in case set_remote_len addr w of
            (False, w) \<Rightarrow> Some (UV_EINVAL, w)
          | (True, w) \<Rightarrow> do {
              let w = store_remote family addr w;
              let (mtu, w) =
                (if link_mtu = - 1 \<or> link_mtu > UDX_MTU_MAX then (UDX_MTU_MAX, w)
                 else if link_mtu \<le> UDX_MTU_BASE then (link_mtu, w\<lparr>s_mtu_state := UDX_MTU_STATE_SEARCH_COMPLETE\<rparr>)
                 else (link_mtu, w));
              let w = w\<lparr>s_mtu_max := mtu\<rparr>;
              w \<leftarrow> (if s_ack_needed w then do { w \<leftarrow> send_ack env w; Some (w\<lparr>s_ack_needed := False\<rparr>) } else Some w);
              if stream_dead w then Some (0, w)
              else Some (0, if s_keepalive_timeout_ms w \<noteq> 0
                then stream_timer_start UDX_TIMER_KEEPALIVE (s_keepalive_timeout_ms w) w else w)
            })"

definition udx_stream_change_remote ::
  "bool \<Rightarrow> addr \<Rightarrow> int \<Rightarrow> u32 \<Rightarrow> sockaddr \<Rightarrow> bool \<Rightarrow> world \<Rightarrow> (int \<times> world) option" where
  "udx_stream_change_remote teardown sock family remote_id addr cb w =
    (if stream_dead w \<or> teardown then Some (UV_EINVAL, w)
     else if \<not> has_flag (s_status w) UDX_STREAM_CONNECTED then Some (UV_EINVAL, w)
     else case set_remote_len addr w of
            (False, w) \<Rightarrow> Some (UV_EINVAL, w)
          | (True, w) \<Rightarrow> do {
              let w = store_remote (w_socket_family w) addr w;
              let w = w\<lparr>s_remote_id := remote_id, s_socket := sock, w_socket_family := family\<rparr>;
              let seq_of_change = s_seq w + (if has_flag (s_pkt_header_flag w) UDX_HEADER_DATA then 1 else 0);
              let defer_change = (seq_of_change \<noteq> s_remote_acked w);
              let w = (if defer_change then w\<lparr>s_remote_changing := True, s_seq_on_remote_changed := seq_of_change,
                         s_on_remote_changed := cb\<rparr> else w);
              let w = reset_mtu_state_machine w;
              w \<leftarrow> (if \<not> has_flag (s_pkt_header_flag w) UDX_HEADER_DATA
                then do { mp \<leftarrow> udx__max_payload w; Some (w\<lparr>s_pkt_capacity := ucast mp\<rparr>) } else Some w);
              Some (if \<not> defer_change then 1 else 0, w)
            })"

section \<open>Writing\<close>

text \<open>\<open>bufs\<close> are the buffers with the addresses their \<open>wbuf\<close> structures have inside the write request \<open>wr\<close>.\<close>

fun queue_wbufs :: "addr \<Rightarrow> bool \<Rightarrow> (addr \<times> u8 list) list \<Rightarrow> world \<Rightarrow> world" where
  "queue_wbufs wr is_end [] w = w"
| "queue_wbufs wr is_end ((b, buf) # bufs) w =
    (let len = of_nat (length buf);
         w = w\<lparr>w_wbufs := (w_wbufs w)(b := \<lparr>wb_buf = buf, wb_bytes_inflight = 0, wb_bytes_acked = 0, wb_write = wr,
                 wb_is_write_end = is_end \<and> bufs = []\<rparr>),
               w_writes := (w_writes w)(wr := (w_writes w wr)\<lparr>wr_size := wr_size (w_writes w wr) + len\<rparr>),
               s_bytes_queued := s_bytes_queued w + len, s_writes_queued_bytes := s_writes_queued_bytes w + len,
               s_write_queue := lq_tail b (s_write_queue w)\<rparr>
     in queue_wbufs wr is_end bufs w)"

definition udx_stream_write_internal :: "env \<Rightarrow> addr \<Rightarrow> (addr \<times> u8 list) list \<Rightarrow> bool \<Rightarrow> bool \<Rightarrow> world \<Rightarrow> world option" where
  "udx_stream_write_internal env wr bufs ack_cb is_end w = do {
     c_assert (bufs \<noteq> []);
     let stream_was_idle = (s_writes_queued_bytes w = 0);
     let w = w\<lparr>w_writes := (w_writes w)(wr := \<lparr>wr_size = 0, wr_bytes_acked = 0, wr_is_write_end = is_end, wr_on_ack = ack_cb\<rparr>)\<rparr>;
     let w = queue_wbufs wr is_end bufs w;
     let w = (if stream_was_idle \<and> s_send_rwnd w = 0
       then (let w = send_probe env w in stream_timer_start UDX_TIMER_ZWP (s_rto w) w) else w);
     send_packets env w
   }"

definition watermark_result :: "world \<Rightarrow> (int \<times> world) option" where
  "watermark_result w = do {
     win \<leftarrow> send_window_in_bytes w;
     Some (if s_writes_queued_bytes w > ucast (UDX_HIGH_WATERMARK + win) then (0, w\<lparr>s_hit_high_watermark := True\<rparr>) else (1, w))
   }"

definition udx_stream_write :: "env \<Rightarrow> addr \<Rightarrow> (addr \<times> u8 list) list \<Rightarrow> bool \<Rightarrow> world \<Rightarrow> (int \<times> world) option" where
  "udx_stream_write env wr bufs ack_cb w =
    (if \<not> has_flag (s_status w) UDX_STREAM_CONNECTED then Some (UV_ENOTCONN, w)
     else if has_flag (s_status w) UDX_STREAM_ENDING then Some (UV_EPIPE, w)
     else if bufs = [] then Some (UV_EINVAL, w)
     else do { w \<leftarrow> udx_stream_write_internal env wr bufs ack_cb False w; watermark_result w })"

text \<open>\<open>b0\<close> is the address of the request's first \<open>wbuf\<close>, used for the empty buffer of a bare end.\<close>

definition udx_stream_write_end :: "env \<Rightarrow> addr \<Rightarrow> addr \<Rightarrow> (addr \<times> u8 list) list \<Rightarrow> bool \<Rightarrow> world \<Rightarrow> (int \<times> world) option" where
  "udx_stream_write_end env wr b0 bufs ack_cb w =
    (if \<not> has_flag (s_status w) UDX_STREAM_CONNECTED then Some (UV_ENOTCONN, w)
     else if has_flag (s_status w) UDX_STREAM_ENDING then Some (UV_EPIPE, w)
     else do {
       let w = (if \<not> has_flag (s_status w) UDX_STREAM_ENDED_REMOTE then w\<lparr>s_status := s_status w OR UDX_STREAM_TIMEWAIT_WANTED\<rparr> else w);
       let w = w\<lparr>s_status := s_status w OR UDX_STREAM_ENDING\<rparr>;
       w \<leftarrow> udx_stream_write_internal env wr (if bufs \<noteq> [] then bufs else [(b0, [])]) ack_cb True w;
       watermark_result w
     })"

text \<open>An unordered, unreliable message.\<close>

definition udx_stream_send :: "env \<Rightarrow> u8 list \<Rightarrow> world \<Rightarrow> int \<times> world" where
  "udx_stream_send env payload w =
    (if \<not> has_flag (s_status w) UDX_STREAM_CONNECTED then (UV_ENOTCONN, w)
     else (0, send_datagram env (s_remote_addr w) (udx_write_header env w UDX_HEADER_MESSAGE (s_remote_id w) @ payload) w))"

section \<open>Destroying\<close>

definition stream_on_destroy_send :: "env \<Rightarrow> world \<Rightarrow> world option" where
  "stream_on_destroy_send env w = close_stream_internal env 0 (count_tx 20 w)"

text \<open>On the slow path the stream stays \<open>DESTROYING\<close> until the callback of the send runs.\<close>

definition udx_stream_destroy :: "env \<Rightarrow> world \<Rightarrow> (int \<times> world) option" where
  "udx_stream_destroy env w =
    (if has_flag (s_status w) UDX_STREAM_CLOSED then Some (0, w)
     else if has_flag (s_status w) UDX_STREAM_DESTROYING then Some (0, w)
     else do {
       let w = w\<lparr>s_status := s_status w AND NOT UDX_STREAM_TIMEWAIT_WANTED\<rparr>;
       if s_status w AND UDX_STREAM_CONNECTED = 0 then do { w \<leftarrow> close_stream env 0 w; Some (0, w) }
       else do {
         let w = w\<lparr>s_status := s_status w OR UDX_STREAM_DESTROYING\<rparr>;
         if s_relayed w then do { w \<leftarrow> close_stream_internal env 0 w; Some (0, w) }
         else do {
           let header = udx_write_header env w UDX_HEADER_DESTROY (s_remote_id w);
           let w = w\<lparr>s_seq := s_seq w + 1\<rparr>;
           let err = env_try_send env (w_ios w);
           let w = w\<lparr>w_ios := w_ios w + 1\<rparr>;
           w \<leftarrow> (if err = UV_EAGAIN then
               (let err = env_udp_send env (w_ios w); w = w\<lparr>w_ios := w_ios w + 1\<rparr>
                in if err < 0 then stream_on_destroy_send env w
                   else Some (w\<lparr>w_output := w_output w @ [Datagram (s_remote_addr w) header]\<rparr>))
             else stream_on_destroy_send env (if err < 0 then w else w\<lparr>w_output := w_output w @ [Datagram (s_remote_addr w) header]\<rparr>));
           Some (1, w)
         }
       }
     })"

section \<open>What initialisation establishes\<close>

lemma init_rate:
  assumes "udx__max_payload w = Some 1132"
  shows "bbr_bw_to_pacing_rate w (f64_div (f64_of_u32 10) (f64_of_u32 1)) bbr_high_gain = Some 32335"
proof -
  have e: "f64_div (f64_of_u32 10) (f64_of_u32 1) = 10" "f64_mul 10 (f64_of_u32 1132) = 11320"
    "bbr_high_gain = 3248660332204639/1125899906842624" "bbr_pacing_margin_percent = 4458563631096791/4503599627370496"
    "f64_mul 11320 (3248660332204639/1125899906842624) = 4489115595771059/137438953472"
    "f64_to_u64 (f64_mul (4489115595771059/137438953472) (4458563631096791/4503599627370496)) = 32335" by code_simp+
  have "max_uint64 (32335 :: u64) 1 = 32335" by code_simp
  then show ?thesis unfolding bbr_bw_to_pacing_rate_def assms Let_def Option.bind.simps e by (rule arg_cong)
qed

lemma init_pacing:
  assumes "udx__max_payload w = Some 1132" "s_srtt w = 0" "s_cwnd w = 10"
  shows "bbr_init_pacing_rate_from_rtt w = Some (w\<lparr>s_pacing_bytes_per_ms := 32335\<rparr>)"
proof -
  have "f64_div (f64_of_u32 10) (f64_of_u32 1) \<noteq> 0" by code_simp
  then show ?thesis using assms init_rate [OF assms(1)] by (simp add: bbr_init_pacing_rate_from_rtt_def c_assert_def)
qed

lemma stream_init_value:
  "\<exists>w. udx_stream_init now debug_flags local_id close_cb = Some w \<and> mtu_inv w \<and> bbr_modes w \<and> s_cwnd w = 10
     \<and> s_pacing_bytes_per_ms w = 32335 \<and> s_tb_last_refill_ms w = now \<and> w_now w = now \<and> s_rto w = 1000 \<and> s_pkt w = 1 \<and> w_next_packet w = 2
     \<and> p_size (w_packets w 1) = 20 \<and> p_ref_count (w_packets w 1) = 1 \<and> s_pkt_capacity w = 1132 \<and> s_pkt_header_flag w = 0 \<and> s_write_queue w = []
     \<and> s_outgoing w = Map.empty \<and> s_inflight_queue w = [] \<and> s_retransmit_queue w = [] \<and> s_inflight w = 0
     \<and> s_local_id w = local_id \<and> s_status w = 0 \<and> s_seq w = 0 \<and> s_remote_acked w = 0 \<and> s_ack w = 0 \<and> s_sack_tree w = []
     \<and> w_output w = [] \<and> s_writes_queued_bytes w = 0"
proof -
  let ?z = "zero_stream now debug_flags"
  have mp: "udx__max_payload (w :: world) = Some 1132" if "s_mtu w = 1200" "sa_family (s_remote_addr w) = AF_OTHER" for w
    using that by (simp add: udx__max_payload_def c_assert_def UDX_IPV4_HEADER_SIZE_def UDX_IPV6_HEADER_SIZE_def)
  show ?thesis
    by (simp add: udx_stream_init_def bbr_init_def init_pacing mp reset_next_packet_def Let_def
        reset_mtu_state_machine_def zero_stream_def zero_sockaddr_def zero_bbr_def mtu_consts mtu_inv_def bbr_modes_def
        bbr_full_bw_reached_def bbr_reset_startup_mode_def empty_packet_def)
qed
section \<open>Properties\<close>


text \<open>Errors of \<open>udx_stream_write\<close> are reported without side effects: not connected, already ending and nothing to write are
  told apart, and the stream is exactly as before.\<close>

theorem write_errors_harmless:
  assumes "\<not> has_flag (s_status w) UDX_STREAM_CONNECTED \<or> has_flag (s_status w) UDX_STREAM_ENDING \<or> bufs = []"
  shows "udx_stream_write env wr bufs cb w =
    Some (if \<not> has_flag (s_status w) UDX_STREAM_CONNECTED then UV_ENOTCONN
          else if has_flag (s_status w) UDX_STREAM_ENDING then UV_EPIPE else UV_EINVAL, w)"
  using assms by (auto simp: udx_stream_write_def)

theorem write_errors_harmless_witness:
  "udx_stream_write idle_env 1 [(2, [7])] True (zero_stream 0 0) = Some (UV_ENOTCONN, zero_stream 0 0)"
  using write_errors_harmless [of "zero_stream 0 0"] by (simp add: zero_stream_def)

text \<open>C37. Connecting to an address without a port is refused, but only after the stream was marked connected: it stays
  connected to no address, and a second attempt with a good address is refused as already connected.\<close>

theorem connect_refused_marks_connected:
  assumes "\<not> stream_dead w" "\<not> has_flag (s_status w) UDX_STREAM_CONNECTED" "sa_port addr = 0"
  shows "\<exists>w'. udx_stream_connect env False sock family remote_id addr link_mtu w = Some (UV_EINVAL, w')
    \<and> has_flag (s_status w') UDX_STREAM_CONNECTED \<and> s_remote_addr w' = s_remote_addr w
    \<and> (\<forall>addr2. \<exists>r. udx_stream_connect env False sock family remote_id addr2 link_mtu w' = Some (r, w') \<and> r < 0)"
proof -
  define w' where "w' = snd (set_remote_len addr (w\<lparr>s_status := s_status w OR UDX_STREAM_CONNECTED, s_remote_id := remote_id,
    s_socket := sock, w_socket_family := family\<rparr>))"
  have w': "s_status w' = s_status w OR UDX_STREAM_CONNECTED" "s_remote_addr w' = s_remote_addr w"
    by (simp_all add: w'_def set_remote_len_def split: sa_family.split)
  have "udx_stream_connect env False sock family remote_id addr link_mtu w = Some (UV_EINVAL, w')"
    using assms by (auto simp: udx_stream_connect_def w'_def set_remote_len_def Let_def split: sa_family.split)
  moreover have "has_flag (s_status w') UDX_STREAM_CONNECTED"
    unfolding w' by (simp add: and.commute [of _ UDX_STREAM_CONNECTED] bit.conj_disj_distrib UDX_STREAM_CONNECTED_def or_eq_0_iff)
  ultimately show ?thesis using w'(2) by (auto simp: udx_stream_connect_def UV_EINVAL_def UV_EISCONN_def)
qed

theorem connect_refused_marks_connected_witness:
  "\<exists>w'. udx_stream_connect idle_env False 3 4 9 \<lparr>sa_family = AF_INET, sa_port = 0, sa_addr = [127, 0, 0, 1]\<rparr> 1500 (zero_stream 0 0) = Some (UV_EINVAL, w')
    \<and> has_flag (s_status w') UDX_STREAM_CONNECTED"
  using connect_refused_marks_connected [of "zero_stream 0 0" "\<lparr>sa_family = AF_INET, sa_port = 0, sa_addr = [127, 0, 0, 1]\<rparr>"]
  by (force simp: zero_stream_def stream_dead_def)

end
