(* ===== verification/Udx_Cancel.thy ===== *)
theory Udx_Cancel
  imports Udx_Account Udx_Api Udx_Recv
begin

text \<open>
  Closing a stream answers every write.  With the account of \<open>Udx_Account\<close>, clearing (\<open>clear_outgoing_packets\<close>) and closing
  (\<open>close_stream_internal\<close>, \<open>udx_stream_destroy\<close> of \<open>src/udx.c\<close>) end, pass every assertion of \<open>on_bytes_acked\<close> and call
  the callback of each unanswered write exactly once.  A write with an empty buffer beside others is answered twice.
\<close>

section \<open>Answering chunks\<close>

text \<open>What answering chunks does not touch, and what stays of buffers and writes.\<close>

definition account_rest :: "world \<Rightarrow> world" where
  "account_rest w = w\<lparr>w_wbufs := undefined, w_writes := undefined, s_writes_queued_bytes := 0, w_output := []\<rparr>"

definition same_writes :: "world \<Rightarrow> world \<Rightarrow> bool" where
  "same_writes w w' \<longleftrightarrow> (\<forall>b. wb_buf (w_wbufs w' b) = wb_buf (w_wbufs w b) \<and> owner w' b = owner w b)
     \<and> (\<forall>wr. wr_on_ack (w_writes w' wr) = wr_on_ack (w_writes w wr))"

lemma same_writes_refl [simp]: "same_writes w w"
  by (simp add: same_writes_def)

lemma same_writes_trans: "same_writes u v \<Longrightarrow> same_writes v w \<Longrightarrow> same_writes u w"
  by (simp add: same_writes_def)

text \<open>The callbacks that answering the chunks in order makes: a write is reported with its last bytes.\<close>

definition chunk_answers :: "world \<Rightarrow> addr \<Rightarrow> chunk list \<Rightarrow> bool" where
  "chunk_answers w b rest \<longleftrightarrow> chunk_sum (\<lambda>c. owner w c = owner w b) rest = 0 \<and> wr_on_ack (w_writes w (owner w b))"

fun cancel_events :: "world \<Rightarrow> chunk list \<Rightarrow> udx_output list" where
  "cancel_events w [] = []"
| "cancel_events w (c # cs) =
    (if chunk_answers w (fst c) cs then [Callback (Ev_Ack (owner w (fst c)) UV_ECANCELED False)] else []) @ cancel_events w cs"

lemma cancel_events_same:
  assumes "same_writes w w'"
  shows "cancel_events w' cs = cancel_events w cs"
proof -
  have "chunk_answers w' b rest = chunk_answers w b rest" for b rest
    using assms by (simp add: chunk_answers_def same_writes_def)
  moreover have "owner w' b = owner w b" for b using assms by (simp add: same_writes_def)
  ultimately show ?thesis by (induction cs) simp_all
qed

text \<open>A user whose callbacks do not call back into the stream.\<close>

definition silent :: "env \<Rightarrow> bool" where
  "silent env \<longleftrightarrow> (\<forall>ev w. env_callback env ev w = w)"

lemma notify_silent: "silent env \<Longrightarrow> notify env ev w = w\<lparr>w_output := w_output w @ [Callback ev]\<rparr>"
  by (simp add: notify_def silent_def)

section \<open>Cancelling chunks\<close>

text \<open>The state after one chunk, before its callback.\<close>

definition chunk_done :: "addr \<Rightarrow> u64 \<Rightarrow> world \<Rightarrow> world" where
  "chunk_done b n w =
    w\<lparr>w_wbufs := (w_wbufs w)(b := (w_wbufs w b)\<lparr>wb_bytes_acked := wb_bytes_acked (w_wbufs w b) + n\<rparr>),
      w_writes := (w_writes w)(owner w b := (w_writes w (owner w b))\<lparr>wr_bytes_acked := wr_bytes_acked (w_writes w (owner w b)) + n\<rparr>),
      s_writes_queued_bytes := s_writes_queued_bytes w - n\<rparr>"

lemma chunk_done_law:
  assumes cov: "covers ((b, n) # cs) w"
  shows "covers cs (chunk_done b n w)"
    and "unat (wb_bytes_acked (w_wbufs w b) + n) = unat (wb_bytes_acked (w_wbufs w b)) + unat n"
    and "unat (wb_bytes_acked (w_wbufs w b)) + unat n \<le> length (wb_buf (w_wbufs w b))" "length (wb_buf (w_wbufs w b)) < 2 ^ 64"
    and "unat (wr_bytes_acked (w_writes w (owner w b)) + n) + chunk_sum (\<lambda>c. owner w c = owner w b) cs = unat (wr_size (w_writes w (owner w b)))"
    and "unat n \<le> unat (s_writes_queued_bytes w)"
proof -
  note D = coversD(1-3) [OF cov, of b, simplified] coversD(4) [OF cov]
  show q: "unat n \<le> unat (s_writes_queued_bytes w)" using D(4) by simp
  show l: "unat (wb_bytes_acked (w_wbufs w b)) + unat n \<le> length (wb_buf (w_wbufs w b))" "length (wb_buf (w_wbufs w b)) < 2 ^ 64"
    using D(1,2) by simp_all
  show a: "unat (wb_bytes_acked (w_wbufs w b) + n) = unat (wb_bytes_acked (w_wbufs w b)) + unat n" using unat_add_le l by blast
  have wa: "unat (wr_bytes_acked (w_writes w (owner w b)) + n) = unat (wr_bytes_acked (w_writes w (owner w b))) + unat n"
    using D(3) unsigned_less [of "wr_size (w_writes w (owner w b))"] by (intro unat_add_le [of _ _ "unat (wr_size (w_writes w (owner w b)))"]) simp_all
  then show wb: "unat (wr_bytes_acked (w_writes w (owner w b)) + n) + chunk_sum (\<lambda>c. owner w c = owner w b) cs = unat (wr_size (w_writes w (owner w b)))"
    using D(3) by simp
  let ?w = "chunk_done b n w"
  have own: "owner ?w c = owner w c" "wb_buf (w_wbufs ?w c) = wb_buf (w_wbufs w c)" for c by (simp_all add: chunk_done_def)
  show "covers cs ?w"
    unfolding covers_def own
  proof (intro conjI ballI)
    show "unat (s_writes_queued_bytes ?w) = chunk_sum (\<lambda>_. True) cs"
      using D(4) q by (simp add: chunk_done_def unat_sub word_le_nat_alt)
  next
    fix c assume c: "c \<in> fst ` set cs"
    then have c': "c \<in> fst ` set ((b, n) # cs)" by simp
    note E = coversD(1-3) [OF cov c']
    show "length (wb_buf (w_wbufs w c)) < 2 ^ 64" using coversD(2) [OF cov c'] .
    show "unat (wb_bytes_acked (w_wbufs ?w c)) + chunk_sum (\<lambda>ca. ca = c) cs = length (wb_buf (w_wbufs w c))"
      using E(1) a by (auto simp: chunk_done_def)
    have "unat (wr_bytes_acked (w_writes w (owner w c))) + chunk_sum (\<lambda>ca. owner w ca = owner w c) ((b, n) # cs) = unat (wr_size (w_writes w (owner w c)))"
      using coversD(3) [OF cov c'] .
    then show "unat (wr_bytes_acked (w_writes ?w (owner w c))) + chunk_sum (\<lambda>ca. owner w ca = owner w c) cs = unat (wr_size (w_writes ?w (owner w c)))"
      using wb by (cases "owner w c = owner w b") (simp_all add: chunk_done_def)
  qed
qed

lemma cancel_bytes_law:
  assumes cov: "covers ((b, n) # cs) w" and env: "silent env"
  shows "cancel_bytes env b n w = Some ((chunk_done b n w)\<lparr>w_output := w_output w @
    (if chunk_answers w b cs then [Callback (Ev_Ack (owner w b) UV_ECANCELED False)] else [])\<rparr>)"
proof -
  note L = chunk_done_law [OF cov]
  have u: "unat (of_nat (length (wb_buf (w_wbufs w b))) :: u64) = length (wb_buf (w_wbufs w b))" using L(4) by (simp add: unat_of_nat)
  have d: "on_bytes_acked env b n True w = Some (chunk_done b n w)"
    using L(2,3,5,6) u by (simp add: on_bytes_acked_def chunk_done_def word_le_nat_alt Let_def)
  have e: "wr_bytes_acked (w_writes w (owner w b)) + n = wr_size (w_writes w (owner w b)) \<longleftrightarrow> chunk_sum (\<lambda>c. owner w c = owner w b) cs = 0"
    unfolding word_unat_eq_iff using L(5) by linarith
  have "write_settled (owner w b) (chunk_done b n w) \<longleftrightarrow> chunk_answers w b cs"
    unfolding write_settled_def chunk_answers_def by (simp add: chunk_done_def e)
  moreover have "owner (chunk_done b n w) b = owner w b" "w_output (chunk_done b n w) = w_output w" by (simp_all add: chunk_done_def)
  ultimately show ?thesis
    by (simp add: cancel_bytes_def d notify_silent [OF env])
qed

fun cancel_chunks :: "env \<Rightarrow> chunk list \<Rightarrow> world \<Rightarrow> world option" where
  "cancel_chunks env [] w = Some w"
| "cancel_chunks env (c # cs) w = do { w \<leftarrow> cancel_bytes env (fst c) (snd c) w; cancel_chunks env cs w }"

lemma cancel_slices_chunks: "cancel_slices env sls w = cancel_chunks env (map slice_chunk sls) w"
proof -
  have "cancel_slices env sls = cancel_chunks env (map slice_chunk sls)"
    by (induction sls) (rule ext, simp add: slice_chunk_def)+
  then show ?thesis by simp
qed

text \<open>What cancelling a prefix of the chunks does.\<close>

definition cancels :: "chunk list \<Rightarrow> chunk list \<Rightarrow> world \<Rightarrow> world \<Rightarrow> bool" where
  "cancels cs rest w w' \<longleftrightarrow> covers rest w' \<and> same_writes w w' \<and> account_rest w' = account_rest w
     \<and> w_output w' @ cancel_events w' rest = w_output w @ cancel_events w (cs @ rest)"

lemma cancel_chunks_law:
  assumes "covers (cs @ rest) w" "silent env"
  shows "\<exists>w'. cancel_chunks env cs w = Some w' \<and> cancels cs rest w w'"
  using assms(1)
proof (induction cs arbitrary: w)
  case Nil
  then show ?case by (simp add: cancels_def)
next
  case (Cons c cs)
  obtain b n where c: "c = (b, n)" by (cases c)
  define w1 where "w1 = (chunk_done b n w)\<lparr>w_output := w_output w @
    (if chunk_answers w b (cs @ rest) then [Callback (Ev_Ack (owner w b) UV_ECANCELED False)] else [])\<rparr>"
  have s: "cancel_bytes env b n w = Some w1" using cancel_bytes_law [of b n "cs @ rest"] Cons.prems assms(2) unfolding w1_def c by simp
  have cov: "covers (cs @ rest) w1"
    using chunk_done_law(1) [of b n "cs @ rest" w] Cons.prems unfolding c by (simp add: w1_def covers_def)
  have sw: "same_writes w w1" "account_rest w1 = account_rest w" by (simp_all add: same_writes_def w1_def chunk_done_def account_rest_def)
  obtain w' where w': "cancel_chunks env cs w1 = Some w'" "cancels cs rest w1 w'" using Cons.IH [OF cov] by blast
  have "cancels (c # cs) rest w w'"
    using w'(2) sw same_writes_trans [OF sw(1)] cancel_events_same [OF sw(1), of "cs @ rest"] unfolding cancels_def c
    by (simp add: w1_def)
  then show ?case using s w'(1) unfolding c by auto
qed

section \<open>Exactly once\<close>

abbreviation cancelled :: "addr \<Rightarrow> udx_output" where
  "cancelled wr \<equiv> Callback (Ev_Ack wr UV_ECANCELED False)"

lemma lively_tl: "lively w (c # cs) \<Longrightarrow> lively w cs"
  unfolding lively_def by (auto simp: filter_empty_conv split: if_splits)

text \<open>The last bytes of a write are in its last chunk.\<close>

lemma lively_last:
  assumes liv: "lively w ((b, n) # cs)"
  shows "chunk_sum (\<lambda>c. owner w c = owner w b) cs = 0 \<longleftrightarrow> owner w b \<notin> owner w ` fst ` set cs"
proof
  assume zero: "chunk_sum (\<lambda>c. owner w c = owner w b) cs = 0"
  show "owner w b \<notin> owner w ` fst ` set cs"
  proof
    assume "owner w b \<in> owner w ` fst ` set cs"
    then obtain d where d: "d \<in> set cs" "owner w (fst d) = owner w b" by auto
    then have "snd d = 0" using zero by (simp add: chunk_sum_zero)
    then have "length (filter (\<lambda>e. owner w (fst e) = owner w b) ((b, n) # cs)) = 1" using liv d unfolding lively_def by auto
    then have "filter (\<lambda>e. owner w (fst e) = owner w b) cs = []" by simp
    then show False using d by (simp add: filter_empty_conv)
  qed
next
  assume "owner w b \<notin> owner w ` fst ` set cs"
  then show "chunk_sum (\<lambda>c. owner w c = owner w b) cs = 0" by (intro chunk_sum_none) (metis image_eqI)
qed

lemma cancel_events_none: "wr \<notin> owner w ` fst ` set cs \<Longrightarrow> count_list (cancel_events w cs) (cancelled wr) = 0"
  by (induction cs) auto

lemma cancel_events_once:
  assumes "lively w cs"
  shows "count_list (cancel_events w cs) (cancelled wr) = (if wr \<in> owner w ` fst ` set cs \<and> wr_on_ack (w_writes w wr) then 1 else 0)"
  using assms
proof (induction cs)
  case (Cons c cs)
  obtain b n where c: "c = (b, n)" by (cases c)
  have "chunk_sum (\<lambda>c. owner w c = owner w b) cs = 0 \<longleftrightarrow> owner w b \<notin> owner w ` fst ` set cs"
    using lively_last Cons.prems unfolding c .
  then show ?case
    using Cons.IH [OF lively_tl [OF Cons.prems]] cancel_events_none [of wr w cs] by (auto simp: c chunk_answers_def)
qed simp

section \<open>Clearing a stream\<close>

definition clear_rest :: "world \<Rightarrow> world" where
  "clear_rest w = (account_rest w)\<lparr>s_outgoing := Map.empty, w_packets := undefined, s_write_queue := []\<rparr>"

definition clears :: "chunk list \<Rightarrow> chunk list \<Rightarrow> world \<Rightarrow> world \<Rightarrow> bool" where
  "clears cs rest w w' \<longleftrightarrow> covers rest w' \<and> same_writes w w' \<and> clear_rest w' = clear_rest w
     \<and> w_output w' @ cancel_events w' rest = w_output w @ cancel_events w (cs @ rest)"

lemma clears_trans: "clears cs (ds @ rest) u v \<Longrightarrow> clears ds rest v w \<Longrightarrow> clears (cs @ ds) rest u w"
  unfolding clears_def using same_writes_trans by auto

lemma cancels_clears: "cancels cs rest w w' \<Longrightarrow> clears cs rest w w'"
  by (simp add: cancels_def clears_def clear_rest_def)

lemma cancels_fields:
  assumes "cancels cs rest w w'"
  shows "s_outgoing w' = s_outgoing w" "w_packets w' = w_packets w" "s_write_queue w' = s_write_queue w" "s_seq w' = s_seq w"
    "s_remote_acked w' = s_remote_acked w"
proof -
  have e: "account_rest w' = account_rest w" using assms by (simp add: cancels_def)
  show "s_outgoing w' = s_outgoing w" "w_packets w' = w_packets w" "s_write_queue w' = s_write_queue w" "s_seq w' = s_seq w"
    "s_remote_acked w' = s_remote_acked w"
    using arg_cong [OF e, of s_outgoing] arg_cong [OF e, of w_packets] arg_cong [OF e, of s_write_queue] arg_cong [OF e, of s_seq]
      arg_cong [OF e, of s_remote_acked] by (simp_all add: account_rest_def)
qed

lemma flight_chunks_step:
  assumes "seq \<noteq> s_seq w"
  shows "flight_chunks w seq = (case s_outgoing w seq of None \<Rightarrow> [] | Some p \<Rightarrow> packet_chunks w p) @ flight_chunks w (seq + 1)"
    and "unat (s_seq w - seq) = Suc (unat (s_seq w - (seq + 1)))"
proof -
  have "s_seq w - seq \<noteq> 0" using assms by simp
  then show n: "unat (s_seq w - seq) = Suc (unat (s_seq w - (seq + 1)))"
    using unat_minus_one [of "s_seq w - seq"] by (simp add: diff_diff_eq unat_eq_0 [symmetric])
  show "flight_chunks w seq = (case s_outgoing w seq of None \<Rightarrow> [] | Some p \<Rightarrow> packet_chunks w p) @ flight_chunks w (seq + 1)"
    unfolding flight_chunks_def n upt_conv_Cons [OF zero_less_Suc] map_Suc_upt [symmetric]
    by (simp add: comp_def add.assoc cong: option.case_cong)
qed

lemma clear_packets_law:
  assumes "covers (flight_chunks w seq @ rest) w" "silent env"
  shows "\<exists>w'. clear_packets_from env seq w = Some w' \<and> clears (flight_chunks w seq) rest w w' \<and> s_write_queue w' = s_write_queue w
    \<and> (\<forall>k. s_outgoing w' k = (if \<exists>i < unat (s_seq w - seq). k = seq + of_nat i then None else s_outgoing w k))"
  using assms(1)
proof (induction "unat (s_seq w - seq)" arbitrary: seq w)
  case 0
  then have "seq = s_seq w" by (simp add: unat_eq_0)
  then show ?case using 0 by (subst clear_packets_from.simps) (simp add: clears_def flight_chunks_def)
next
  case (Suc n)
  then have ne: "seq \<noteq> s_seq w" by auto
  note st = flight_chunks_step [OF ne]
  have n: "unat (s_seq w - (seq + 1)) = n" using st(2) Suc.hyps(2) by simp
  have n32: "Suc n < 2 ^ 32" using Suc.hyps(2) unat_u32_less [of "s_seq w - seq"] by simp
  have ne1: "seq + 1 + of_nat i \<noteq> seq" if "i < n" for i
  proof
    assume "seq + 1 + of_nat i = seq"
    then have "(of_nat (Suc i) :: u32) = 0" by (simp add: add.assoc)
    then show False using that n32 u32_of_nat_eq_0 [of "Suc i"] by simp
  qed
  have split: "(\<exists>i < Suc n. k = seq + of_nat i) \<longleftrightarrow> k = seq \<or> (\<exists>i < n. k = seq + 1 + of_nat i)" for k
    by (subst Ex_less_Suc2) (simp add: add.assoc)
  have un: "unat (s_seq w - seq) = Suc n" using Suc.hyps(2) by simp
  show ?case
  proof (cases "s_outgoing w seq")
    case None
    then have "covers (flight_chunks w (seq + 1) @ rest) w" using Suc.prems st(1) by simp
    from Suc.hyps(1) [OF n [symmetric] this] obtain w' where w': "clear_packets_from env (seq + 1) w = Some w'"
      "clears (flight_chunks w (seq + 1)) rest w w'" "s_write_queue w' = s_write_queue w"
      "\<forall>k. s_outgoing w' k = (if \<exists>i < n. k = seq + 1 + of_nat i then None else s_outgoing w k)" unfolding n by blast
    have "s_outgoing w' k = (if \<exists>i < unat (s_seq w - seq). k = seq + of_nat i then None else s_outgoing w k)" for k
      using w'(4) None unfolding un split by (cases "k = seq") simp_all
    moreover have "clear_packets_from env seq w = Some w'" using None ne w'(1) by (subst clear_packets_from.simps) simp
    ultimately show ?thesis using None w'(2,3) st(1) by (intro exI [of _ w']) simp
  next
    case (Some p)
    let ?w0 = "w\<lparr>s_outgoing := (s_outgoing w)(seq := None)\<rparr>"
    have "covers (packet_chunks w p @ flight_chunks w (seq + 1) @ rest) ?w0" using Suc.prems st(1) Some by (simp add: covers_def)
    from cancel_chunks_law [OF this assms(2)] obtain w1 where w1: "cancel_chunks env (packet_chunks w p) ?w0 = Some w1"
      "cancels (packet_chunks w p) (flight_chunks w (seq + 1) @ rest) ?w0 w1" by blast
    note f = cancels_fields [OF w1(2), simplified]
    let ?w2 = "deref_packet p w1"
    have d: "s_outgoing ?w2 = s_outgoing w1" "s_seq ?w2 = s_seq w1" "\<And>q. p_slices (w_packets ?w2 q) = p_slices (w_packets w1 q)"
      "s_write_queue ?w2 = s_write_queue w1" "\<And>cs. covers cs ?w2 = covers cs w1"
      by (simp_all add: deref_packet_def covers_def)
    have fc: "flight_chunks ?w2 (seq + 1) = flight_chunks w (seq + 1)"
      using ne1 n by (intro flight_chunks_same) (simp_all add: d f fun_upd_def)
    have c2: "covers (flight_chunks ?w2 (seq + 1) @ rest) ?w2" using w1(2) by (simp add: d fc cancels_def)
    have n2: "n = unat (s_seq ?w2 - (seq + 1))" using n by (simp add: d f)
    from Suc.hyps(1) [OF n2 c2] obtain w' where w': "clear_packets_from env (seq + 1) ?w2 = Some w'"
      "clears (flight_chunks w (seq + 1)) rest ?w2 w'" "s_write_queue w' = s_write_queue ?w2"
      "\<forall>k. s_outgoing w' k = (if \<exists>i < n. k = seq + 1 + of_nat i then None else s_outgoing ?w2 k)" unfolding fc n2 [symmetric] by blast
    have "clears (packet_chunks w p) (flight_chunks w (seq + 1) @ rest) w ?w2"
    proof -
      have sw: "same_writes w ?w0" "same_writes w1 ?w2" by (simp_all add: same_writes_def deref_packet_def)
      have "same_writes w ?w2" using sw w1(2) same_writes_trans unfolding cancels_def by metis
      moreover have "clear_rest ?w2 = clear_rest w"
      proof -
        have "clear_rest ?w2 = (account_rest w1)\<lparr>s_outgoing := Map.empty, w_packets := undefined, s_write_queue := []\<rparr>"
          by (simp add: clear_rest_def account_rest_def deref_packet_def)
        also have "\<dots> = clear_rest w" using w1(2) by (simp add: cancels_def clear_rest_def) (simp add: account_rest_def)
        finally show ?thesis .
      qed
      moreover have "w_output ?w2 = w_output w1" by (simp add: deref_packet_def)
      ultimately show ?thesis
        using w1(2) cancel_events_same [OF sw(1)] cancel_events_same [OF sw(2)] by (simp add: clears_def cancels_def d)
    qed
    then have cl: "clears (flight_chunks w seq) rest w w'" using clears_trans [OF _ w'(2)] st(1) Some by simp
    have "clear_packets_from env seq w = Some w'"
      using Some ne w1(1) w'(1) by (subst clear_packets_from.simps) (simp add: cancel_packet_def cancel_slices_chunks packet_chunks_def)
    moreover have "s_outgoing w' k = (if \<exists>i < unat (s_seq w - seq). k = seq + of_nat i then None else s_outgoing w k)" for k
      using w'(4) unfolding un split by (cases "k = seq") (auto simp: d f)
    ultimately show ?thesis using cl w'(3) by (intro exI [of _ w']) (simp add: d f)
  qed
qed

lemma clear_write_queue_law:
  assumes "covers (map (\<lambda>b. (b, m b)) (s_write_queue w)) w" "silent env" "distinct (s_write_queue w)"
  shows "\<exists>w'. clear_write_queue env w = Some w' \<and> clears (map (\<lambda>b. (b, m b)) (s_write_queue w)) [] w w' \<and> s_write_queue w' = []
    \<and> s_outgoing w' = s_outgoing w"
  using assms(1,3)
proof (induction "s_write_queue w" arbitrary: w)
  case Nil
  then show ?case by (subst clear_write_queue.simps) (simp add: clears_def)
next
  case (Cons b bs)
  note q = Cons.hyps(2) [symmetric]
  let ?cs = "map (\<lambda>b. (b, m b)) bs"
  let ?w0 = "w\<lparr>s_write_queue := bs\<rparr>"
  have cov: "covers ([(b, m b)] @ ?cs) ?w0" using Cons.prems(1) by (simp add: q covers_def)
  have "chunk_sum (\<lambda>c. c = b) ?cs = 0" using Cons.prems(2) by (intro chunk_sum_none) (auto simp: q)
  then have "unat (wb_bytes_acked (w_wbufs w b)) + unat (m b) = length (wb_buf (w_wbufs w b))" "length (wb_buf (w_wbufs w b)) < 2 ^ 64"
    using coversD(1,2) [OF cov, of b] by simp_all
  then have "(of_nat (length (wb_buf (w_wbufs w b))) :: u64) = of_nat (unat (wb_bytes_acked (w_wbufs w b)) + unat (m b))" by simp
  then have "of_nat (length (wb_buf (w_wbufs w b))) = wb_bytes_acked (w_wbufs w b) + m b" by (simp only: of_nat_add of_nat_unat ucast_id)
  then have m: "of_nat (length (wb_buf (w_wbufs w b))) - wb_bytes_acked (w_wbufs w b) = m b" by simp
  obtain w1 where w1: "cancel_chunks env [(b, m b)] ?w0 = Some w1" "cancels [(b, m b)] ?cs ?w0 w1"
    using cancel_chunks_law [OF cov assms(2)] by blast
  note f = cancels_fields [OF w1(2), simplified]
  have "bs = s_write_queue w1" "covers (map (\<lambda>b. (b, m b)) (s_write_queue w1)) w1" "distinct (s_write_queue w1)"
    using w1(2) Cons.prems(2) by (simp_all add: f q cancels_def)
  from Cons.hyps(1) [OF this] obtain w' where w': "clear_write_queue env w1 = Some w'" "clears ?cs [] w1 w'" "s_write_queue w' = []"
    "s_outgoing w' = s_outgoing w1" by (auto simp: f)
  have sw: "same_writes w ?w0" by (simp add: same_writes_def)
  have "clears [(b, m b)] (?cs @ []) w w1"
    using w1(2) same_writes_trans [OF sw] cancel_events_same [OF sw, of "[(b, m b)] @ ?cs"]
    by (simp add: clears_def cancels_def clear_rest_def account_rest_def)
  from clears_trans [OF this w'(2)] have "clears (map (\<lambda>b. (b, m b)) (s_write_queue w)) [] w w'" by (simp add: q)
  moreover have "clear_write_queue env w = Some w'"
    using q m w1(1) w'(1) by (subst clear_write_queue.simps) (simp add: bind_eq_Some_conv)
  ultimately show ?case using w'(3,4) f(1) by auto
qed

text \<open>Clearing answers every chunk.\<close>

lemma clear_outgoing_law:
  assumes acc: "accounted w" and env: "silent env"
  shows "\<exists>w'. clear_outgoing_packets env w = Some w' \<and> s_writes_queued_bytes w' = 0 \<and> s_write_queue w' = []
    \<and> clear_rest w' = clear_rest w \<and> w_output w' = w_output w @ cancel_events w (open_chunks w) \<and> same_writes w w'
    \<and> (\<forall>i < unat (s_seq w - s_remote_acked w). s_outgoing w' (s_remote_acked w + of_nat i) = None)"
proof -
  let ?p = "s_pkt w" and ?pc = "packet_chunks w (s_pkt w)"
  let ?fc = "flight_chunks w (s_remote_acked w)" and ?qc = "queue_chunks w"
  have cov: "covers (?pc @ ?fc @ ?qc) w" and ref: "?p \<noteq> NULL" "p_ref_count (w_packets w ?p) = 1" and dist: "distinct (s_write_queue w)"
    using acc by (simp_all add: accounted_def open_chunks_def sent_chunks_def)
  obtain w1 where w1: "(if s_pkt w \<noteq> NULL then do {
         c_assert (p_ref_count (w_packets w (s_pkt w)) = 1);
         let p = s_pkt w;
         w \<leftarrow> cancel_packet env p w;
         Some (deref_packet p w)
       } else Some w) = Some w1" "clears ?pc (?fc @ ?qc) w w1" "s_outgoing w1 = s_outgoing w" "s_write_queue w1 = s_write_queue w"
    "s_seq w1 = s_seq w" "s_remote_acked w1 = s_remote_acked w" "\<And>p. p_slices (w_packets w1 p) = p_slices (w_packets w p)"
  proof -
    obtain v where v: "cancel_chunks env (packet_chunks w ?p) w = Some v" "cancels (packet_chunks w ?p) (?fc @ ?qc) w v"
      using cancel_chunks_law [OF _ env, of "packet_chunks w ?p" "?fc @ ?qc"] cov by auto
    note f = cancels_fields [OF v(2)]
    let ?v = "deref_packet ?p v"
    have sw: "same_writes v ?v" by (simp add: same_writes_def deref_packet_def)
    have "clears ?pc (?fc @ ?qc) w ?v"
      using cancels_clears [OF v(2)] cancel_events_same [OF sw] same_writes_trans [OF _ sw]
      by (auto simp: clears_def covers_def deref_packet_def clear_rest_def account_rest_def)
    then show ?thesis
      using that [of ?v] ref v(1) f
      by (simp add: deref_packet_def cancel_packet_def cancel_slices_chunks packet_chunks_def Let_def)
  qed
  have fc1: "flight_chunks w1 (s_remote_acked w) = ?fc" using w1(3,5,7) by (intro flight_chunks_same) simp_all
  have "covers (flight_chunks w1 (s_remote_acked w) @ ?qc) w1" using w1(2) fc1 by (simp add: clears_def)
  from clear_packets_law [OF this env] obtain w2 where w2: "clear_packets_from env (s_remote_acked w) w1 = Some w2"
    "clears ?fc ?qc w1 w2" "s_write_queue w2 = s_write_queue w"
    "\<forall>k. s_outgoing w2 k = (if \<exists>i < unat (s_seq w - s_remote_acked w). k = s_remote_acked w + of_nat i then None else s_outgoing w1 k)"
    by (auto simp: fc1 w1(4,5))
  have "covers (map (\<lambda>b. (b, wb_rest (w_wbufs w b))) (s_write_queue w2)) w2" "distinct (s_write_queue w2)"
    using w2(2,3) dist by (simp_all add: clears_def queue_chunks_def)
  from clear_write_queue_law [OF this(1) env this(2)] obtain w3 where w3: "clear_write_queue env w2 = Some w3"
    "clears ?qc [] w2 w3" "s_write_queue w3 = []" "s_outgoing w3 = s_outgoing w2"
    by (auto simp: w2(3) queue_chunks_def)
  have "clears (?fc @ ?qc) [] w1 w3" using clears_trans [of ?fc ?qc "[]"] w2(2) w3(2) by simp
  then have all: "clears (open_chunks w) [] w w3"
    using clears_trans [of ?pc "?fc @ ?qc" "[]"] w1(2) by (simp add: open_chunks_def sent_chunks_def)
  have "clear_outgoing_packets env w = Some w3"
    unfolding clear_outgoing_packets_def w1(1) by (simp add: w1(6) w2(1) w3(1))
  moreover have "s_writes_queued_bytes w3 = 0" using all by (simp add: clears_def covers_def unat_eq_0)
  ultimately show ?thesis using all w3(3,4) w2(4) unfolding clears_def by (intro exI [of _ w3]) auto
qed


section \<open>Closing\<close>

lemma accounted_flags:
  "accounted (w\<lparr>s_status := x\<rparr>) = accounted w" "accounted (w\<lparr>w_timewait := t\<rparr>) = accounted w" "accounted (w\<lparr>w_output := y\<rparr>) = accounted w"
  "accounted (w\<lparr>w_ios := n\<rparr>) = accounted w" "accounted (count_tx m w) = accounted w"
  by (rule accounted_same, simp add: same_account_def count_tx_def)+

text \<open>The state in which \<open>close_stream_internal\<close> calls \<open>on_close\<close>.\<close>

definition close_marked :: "env \<Rightarrow> world \<Rightarrow> world" where
  "close_marked env w =
    (let w = w\<lparr>s_status := (s_status w OR UDX_STREAM_CLOSED) AND NOT UDX_STREAM_CONNECTED\<rparr>
     in if has_flag (s_status w) UDX_STREAM_TIMEWAIT_WANTED then w\<lparr>w_timewait := Some (udx_write_header env w 0 (s_remote_id w))\<rparr> else w)"

lemma close_marked_eq: "\<exists>st t. close_marked env w = w\<lparr>s_status := st, w_timewait := t\<rparr>"
proof (cases "has_flag ((s_status w OR UDX_STREAM_CLOSED) AND NOT UDX_STREAM_CONNECTED) UDX_STREAM_TIMEWAIT_WANTED")
  case True
  then show ?thesis by (simp add: close_marked_def Let_def) blast
next
  case False
  then have "close_marked env w = w\<lparr>s_status := (s_status w OR UDX_STREAM_CLOSED) AND NOT UDX_STREAM_CONNECTED, w_timewait := w_timewait w\<rparr>"
    by (simp add: close_marked_def Let_def)
  then show ?thesis by blast
qed

lemma marked_closed: "has_flag (s_status (close_marked env w)) UDX_STREAM_CLOSED"
proof -
  have "((s OR UDX_STREAM_CLOSED) AND NOT UDX_STREAM_CONNECTED) AND UDX_STREAM_CLOSED \<noteq> 0" for s :: u32
  proof -
    have "NOT UDX_STREAM_CONNECTED AND UDX_STREAM_CLOSED = UDX_STREAM_CLOSED" by (simp add: UDX_STREAM_CONNECTED_def UDX_STREAM_CLOSED_def)
    then have "((s OR UDX_STREAM_CLOSED) AND NOT UDX_STREAM_CONNECTED) AND UDX_STREAM_CLOSED = (s OR UDX_STREAM_CLOSED) AND UDX_STREAM_CLOSED"
      by (simp only: and.assoc)
    also have "\<dots> = UDX_STREAM_CLOSED" by (simp add: and.commute [of _ UDX_STREAM_CLOSED] or.commute [of s])
    finally show ?thesis by (simp add: UDX_STREAM_CLOSED_def)
  qed
  then show ?thesis by (simp add: close_marked_def Let_def)
qed

lemma read_stop_closed: "(s XOR UDX_STREAM_READING) AND UDX_STREAM_CLOSED = s AND UDX_STREAM_CLOSED"
proof -
  have "UDX_STREAM_READING AND UDX_STREAM_CLOSED = 0" by (simp add: UDX_STREAM_READING_def UDX_STREAM_CLOSED_def)
  then show ?thesis by (simp add: bit.conj_xor_distrib2)
qed

lemma close_internal_law:
  assumes acc: "accounted w" and env: "silent env" and st: "s_status w AND UDX_STREAM_CLOSED = 0"
  shows "\<exists>w'. close_stream_internal env err w = Some w' \<and> has_flag (s_status w') UDX_STREAM_CLOSED \<and> s_writes_queued_bytes w' = 0
    \<and> s_write_queue w' = []
    \<and> w_output w' = w_output w @ (if s_on_close w then [Callback (Ev_Close err)] else []) @ cancel_events w (open_chunks w)"
proof -
  let ?m = "close_marked env w"
  define n where "n = (if s_on_close ?m then notify env (Ev_Close err) ?m else ?m)"
  obtain st t where m: "?m = w\<lparr>s_status := st, w_timewait := t\<rparr>" using close_marked_eq by blast
  define out where "out = w_output w @ (if s_on_close w then [Callback (Ev_Close err)] else [])"
  have n: "n = w\<lparr>s_status := st, w_timewait := t, w_output := out\<rparr>"
    by (simp add: n_def notify_silent [OF env] m out_def)
  have same: "same_account w n" by (simp add: n same_account_def)
  have acc': "accounted n" using acc accounted_same [OF same] by simp
  obtain v where v: "clear_outgoing_packets env n = Some v" "s_writes_queued_bytes v = 0" "s_write_queue v = []"
    "clear_rest v = clear_rest n" "w_output v = w_output n @ cancel_events n (open_chunks n)"
    using clear_outgoing_law [OF acc' env] by blast
  have ev: "cancel_events n (open_chunks n) = cancel_events w (open_chunks w)"
    using cancel_events_same [of w n] same_account_chunks(3) [OF same] by (simp add: n same_writes_def)
  define fin where "fin u = (let u = clear_incoming_packets u; u = (if has_flag (s_status u) UDX_STREAM_READING then snd (udx_stream_read_stop u) else u)
    in u\<lparr>w_timer := None, w_pacing_timer := None, w_prepare := False\<rparr>)" for u :: world
  have c: "close_stream_internal env err w = Some (fin v)"
    unfolding close_stream_internal_def
    using st v(1) by (simp add: fin_def close_marked_def n_def Let_def cong: if_cong)
  have f: "s_writes_queued_bytes (fin v) = s_writes_queued_bytes v" "s_write_queue (fin v) = s_write_queue v" "w_output (fin v) = w_output v"
    by (simp_all add: fin_def Let_def clear_incoming_packets_def udx_stream_read_stop_def)
  have "s_status v = st" using arg_cong [OF v(4), of s_status] by (simp add: clear_rest_def account_rest_def n)
  then have "has_flag (s_status v) UDX_STREAM_CLOSED" using marked_closed [of env w] by (simp add: m)
  then have "has_flag (s_status (fin v)) UDX_STREAM_CLOSED"
    by (simp add: fin_def Let_def clear_incoming_packets_def udx_stream_read_stop_def read_stop_closed)
  then show ?thesis using c f v(2,3,5) ev by (intro exI [of _ "fin v"]) (simp add: n out_def)
qed

section \<open>Properties\<close>

text \<open>No other event is reported.\<close>

lemma cancel_events_only: "x \<in> set (cancel_events w cs) \<Longrightarrow> \<exists>wr. x = cancelled wr \<and> wr \<in> owner w ` fst ` set cs"
  by (induction cs) (auto split: if_splits)

lemma cancel_events_account:
  assumes "accounted w"
  shows "count_list (cancel_events w (open_chunks w)) (cancelled wr) = (if wr \<in> unanswered w \<and> wr_on_ack (w_writes w wr) then 1 else 0)"
  using cancel_events_once [OF accountedD(2) [OF assms]] by (simp add: unanswered_def)

text \<open>Closing a stream answers every write.  When the account is right, closing passes all its assertions, releases all
  queued bytes, and calls the callback of each write that is still unanswered (and has one) exactly once,
  with \<open>UV_ECANCELED\<close>, after \<open>on_close\<close>; nothing else is reported.\<close>

theorem close_answers_writes:
  assumes "accounted w" "silent env" "s_status w AND UDX_STREAM_CLOSED = 0"
  shows "\<exists>w' out. close_stream_internal env err w = Some w' \<and> has_flag (s_status w') UDX_STREAM_CLOSED
    \<and> s_writes_queued_bytes w' = 0 \<and> s_write_queue w' = []
    \<and> w_output w' = w_output w @ (if s_on_close w then [Callback (Ev_Close err)] else []) @ out
    \<and> (\<forall>x \<in> set out. \<exists>wr. x = Callback (Ev_Ack wr UV_ECANCELED False))
    \<and> (\<forall>wr. count_list out (Callback (Ev_Ack wr UV_ECANCELED False)) = (if wr \<in> unanswered w \<and> wr_on_ack (w_writes w wr) then 1 else 0))"
proof -
  obtain w' where w': "close_stream_internal env err w = Some w'" "has_flag (s_status w') UDX_STREAM_CLOSED"
    "s_writes_queued_bytes w' = 0" "s_write_queue w' = []"
    "w_output w' = w_output w @ (if s_on_close w then [Callback (Ev_Close err)] else []) @ cancel_events w (open_chunks w)"
    using close_internal_law [OF assms] by blast
  then show ?thesis
    using cancel_events_account [OF assms(1)] cancel_events_only [of _ w "open_chunks w"]
    by (intro exI [of _ w'] exI [of _ "cancel_events w (open_chunks w)"]) blast
qed

text \<open>A stream with a write of two buffers, the first partly in the packet under construction.\<close>

definition cancel_world :: world where
  "cancel_world = (zero_stream 0 0)\<lparr>s_pkt := 1, w_packets := (\<lambda>_. empty_packet)(1 := empty_packet\<lparr>p_ref_count := 1,
       p_slices := [\<lparr>sl_wbuf = 5, sl_off = 0, sl_len = 2\<rparr>]\<rparr>),
     s_write_queue := [5, 6], s_writes_queued_bytes := 4,
     w_wbufs := (w_wbufs (zero_stream 0 0))
       (5 := \<lparr>wb_buf = [1, 2, 3], wb_bytes_inflight = 2, wb_bytes_acked = 0, wb_write = 7, wb_is_write_end = False\<rparr>,
        6 := \<lparr>wb_buf = [4], wb_bytes_inflight = 0, wb_bytes_acked = 0, wb_write = 7, wb_is_write_end = False\<rparr>),
     w_writes := (w_writes (zero_stream 0 0))(7 := \<lparr>wr_size = 4, wr_bytes_acked = 0, wr_is_write_end = False, wr_on_ack = True\<rparr>)\<rparr>"

lemma cancel_world_chunks: "sent_chunks cancel_world = [(5, 2)]" "open_chunks cancel_world = [(5, 2), (5, 1), (6, 1)]"
  by (simp_all add: open_chunks_def sent_chunks_def queue_chunks_def packet_chunks_def flight_chunks_def slice_chunk_def wb_rest_def
      cancel_world_def zero_stream_def)

lemma cancel_world_fields:
  "wb_buf (w_wbufs cancel_world 5) = [1, 2, 3]" "wb_bytes_inflight (w_wbufs cancel_world 5) = 2" "wb_bytes_acked (w_wbufs cancel_world 5) = 0"
  "wb_buf (w_wbufs cancel_world 6) = [4]" "wb_bytes_inflight (w_wbufs cancel_world 6) = 0" "wb_bytes_acked (w_wbufs cancel_world 6) = 0"
  "owner cancel_world 5 = 7" "owner cancel_world 6 = 7" "s_writes_queued_bytes cancel_world = 4" "s_write_queue cancel_world = [5, 6]"
  "wr_size (w_writes cancel_world 7) = 4" "wr_bytes_acked (w_writes cancel_world 7) = 0" "wr_on_ack (w_writes cancel_world 7)"
  "s_pkt cancel_world = 1" "p_ref_count (w_packets cancel_world (Suc 0)) = 1" "s_status cancel_world = 0" "w_output cancel_world = []"
  "s_on_close cancel_world = False"
  by (simp_all add: cancel_world_def zero_stream_def)

lemma cancel_world_accounted: "accounted cancel_world" "unanswered cancel_world = {7}"
  unfolding accounted_def unanswered_def cancel_world_chunks covers_def lively_def
  by (simp_all add: cancel_world_fields)

lemma idle_silent: "silent idle_env"
  by (simp add: silent_def idle_env_def)

theorem close_answers_writes_witness:
  "\<exists>w' out. close_stream_internal idle_env 0 cancel_world = Some w' \<and> w_output w' = out
    \<and> count_list out (Callback (Ev_Ack 7 UV_ECANCELED False)) = 1"
proof -
  show ?thesis using close_answers_writes [OF cancel_world_accounted(1) idle_silent, of 0] cancel_world_accounted(2) cancel_world_fields by fastforce
qed

text \<open>Destroying a connected stream first takes one more number, for the destroy packet.\<close>

lemma accounted_number:
  assumes "s_outgoing w (s_seq w) = None" "seq_off (s_remote_acked w) (s_seq w) + 1 < 2 ^ 32"
  shows "accounted (w\<lparr>s_seq := s_seq w + 1\<rparr>) = accounted w" "open_chunks (w\<lparr>s_seq := s_seq w + 1\<rparr>) = open_chunks w"
proof -
  let ?w = "w\<lparr>s_seq := s_seq w + 1\<rparr>"
  have n: "unat (s_seq w + 1 - s_remote_acked w) = Suc (unat (s_seq w - s_remote_acked w))"
    using seq_off_Suc [OF assms(2)] by (simp add: seq_off_def)
  have pc: "packet_chunks ?w = packet_chunks w" by (rule ext) (simp add: packet_chunks_def)
  have "s_remote_acked w + of_nat (unat (s_seq w - s_remote_acked w)) = s_seq w" by simp
  then have "flight_chunks ?w (s_remote_acked w) = flight_chunks w (s_remote_acked w)"
    using assms(1) unfolding flight_chunks_def pc by (simp add: n)
  then have ch: "sent_chunks ?w = sent_chunks w" by (simp add: sent_chunks_def packet_chunks_def)
  then show oc: "open_chunks ?w = open_chunks w" by (simp add: open_chunks_def queue_chunks_def)
  show "accounted ?w = accounted w" unfolding accounted_def oc ch covers_def lively_def by simp
qed

lemma destroy_flags:
  "(s AND NOT UDX_STREAM_TIMEWAIT_WANTED) AND UDX_STREAM_CLOSED = s AND UDX_STREAM_CLOSED"
  "(s AND NOT UDX_STREAM_TIMEWAIT_WANTED) AND UDX_STREAM_DESTROYING = s AND UDX_STREAM_DESTROYING"
  "(s OR UDX_STREAM_DESTROYING) AND UDX_STREAM_CLOSED = s AND UDX_STREAM_CLOSED"
proof -
  have "NOT UDX_STREAM_TIMEWAIT_WANTED AND UDX_STREAM_CLOSED = UDX_STREAM_CLOSED" "NOT UDX_STREAM_TIMEWAIT_WANTED AND UDX_STREAM_DESTROYING = UDX_STREAM_DESTROYING"
    "UDX_STREAM_DESTROYING AND UDX_STREAM_CLOSED = 0"
    by (simp_all add: stream_flag_defs)
  then show "(s AND NOT UDX_STREAM_TIMEWAIT_WANTED) AND UDX_STREAM_CLOSED = s AND UDX_STREAM_CLOSED"
    "(s AND NOT UDX_STREAM_TIMEWAIT_WANTED) AND UDX_STREAM_DESTROYING = s AND UDX_STREAM_DESTROYING"
    "(s OR UDX_STREAM_DESTROYING) AND UDX_STREAM_CLOSED = s AND UDX_STREAM_CLOSED"
    by (simp_all add: and.assoc bit.conj_disj_distrib2)
qed

lemma destroy_law:
  assumes acc: "accounted w" and env: "silent env"
    and st: "\<not> has_flag (s_status w) UDX_STREAM_CLOSED" "\<not> has_flag (s_status w) UDX_STREAM_DESTROYING"
    and seq: "s_outgoing w (s_seq w) = None" "seq_off (s_remote_acked w) (s_seq w) + 1 < 2 ^ 32"
    and ready: "env_try_send env (w_ios w) = UV_EAGAIN \<Longrightarrow> env_udp_send env (w_ios w + 1) < 0"
  shows "\<exists>r w' out. udx_stream_destroy env w = Some (r, w') \<and> has_flag (s_status w') UDX_STREAM_CLOSED \<and> s_writes_queued_bytes w' = 0
    \<and> w_output w' = w_output w @ out @ cancel_events w (open_chunks w) \<and> (\<forall>wr err sack. Callback (Ev_Ack wr err sack) \<notin> set out)"
proof -
  let ?quiet = "\<lambda>out. \<forall>wr err sack. Callback (Ev_Ack wr err sack) \<notin> set out"
  let ?answers = "\<lambda>v' v. \<exists>out. w_output v' = w_output v @ out @ cancel_events w (open_chunks w) \<and> ?quiet out"
  have close: "\<exists>v'. close_stream_internal env 0 v = Some v' \<and> has_flag (s_status v') UDX_STREAM_CLOSED \<and> s_writes_queued_bytes v' = 0 \<and> ?answers v' v"
    if v: "same_account u v" "accounted u" "open_chunks u = open_chunks w" "s_status v AND UDX_STREAM_CLOSED = 0" "w_wbufs u = w_wbufs w"
      "w_writes u = w_writes w" for u v
  proof -
    have a: "accounted v" "open_chunks v = open_chunks w" using accounted_same [OF v(1)] same_account_chunks(3) [OF v(1)] v(2,3) by simp_all
    have "same_writes w v" using v(1,5,6) by (simp add: same_account_def same_writes_def)
    then have "cancel_events v (open_chunks v) = cancel_events w (open_chunks w)" using a(2) cancel_events_same by simp
    then obtain v' where v': "close_stream_internal env 0 v = Some v'" "has_flag (s_status v') UDX_STREAM_CLOSED" "s_writes_queued_bytes v' = 0"
      "w_output v' = w_output v @ (if s_on_close v then [Callback (Ev_Close 0)] else []) @ cancel_events w (open_chunks w)"
      using close_internal_law [OF a(1) env v(4), of 0] by auto
    then show ?thesis by (intro exI [of _ v'] conjI exI [of _ "if s_on_close v then [Callback (Ev_Close 0)] else []"]) simp_all
  qed
  let ?w1 = "w\<lparr>s_status := s_status w AND NOT UDX_STREAM_TIMEWAIT_WANTED\<rparr>"
  let ?w2 = "?w1\<lparr>s_status := s_status ?w1 OR UDX_STREAM_DESTROYING\<rparr>"
  have cl1: "s_status ?w1 AND UDX_STREAM_CLOSED = 0" "\<not> has_flag (s_status ?w1) UDX_STREAM_DESTROYING" using st by (simp_all add: destroy_flags)
  have cl2: "s_status ?w2 AND UDX_STREAM_CLOSED = 0" using cl1(1) by (simp add: destroy_flags)
  show ?thesis
  proof (cases "s_status ?w1 AND UDX_STREAM_CONNECTED = 0")
    case True
    have "close_stream env 0 ?w1 = close_stream_internal env 0 ?w1" using cl1(2) by (simp add: close_stream_def)
    then have "udx_stream_destroy env w = do { w \<leftarrow> close_stream_internal env 0 ?w1; Some (0, w) }"
      using st True by (simp add: udx_stream_destroy_def del: One_nat_def)
    then show ?thesis using close [of w ?w1] acc cl1(1) by (force simp: same_account_def)
  next
    case False
    show ?thesis
    proof (cases "s_relayed w")
      case True
      then have "udx_stream_destroy env w = do { w \<leftarrow> close_stream_internal env 0 ?w2; Some (0, w) }"
        using st False by (simp add: udx_stream_destroy_def)
      then show ?thesis using close [of w ?w2] acc cl2 by (force simp: same_account_def)
    next
      case alone: False
      let ?quick = "env_try_send env (w_ios w)" and ?hd = "Datagram (s_remote_addr w) (udx_write_header env ?w2 UDX_HEADER_DESTROY (s_remote_id w))"
      define v where "v = ?w2\<lparr>s_seq := s_seq w + 1, w_ios := (if ?quick = UV_EAGAIN then w_ios w + 2 else w_ios w + 1),
        w_output := (if ?quick < 0 then w_output w else w_output w @ [?hd])\<rparr>"
      have eq: "udx_stream_destroy env w = do { w \<leftarrow> close_stream_internal env 0 (count_tx 20 v); Some (1, w) }"
        using st False alone ready by (simp add: udx_stream_destroy_def stream_on_destroy_send_def v_def Let_def UV_EAGAIN_def)
      have "same_account (w\<lparr>s_seq := s_seq w + 1\<rparr>) (count_tx 20 v)" by (simp add: same_account_def v_def count_tx_def)
      moreover have "s_status (count_tx 20 v) AND UDX_STREAM_CLOSED = 0" using cl2 by (simp add: v_def count_tx_def)
      ultimately obtain v' out where v': "close_stream_internal env 0 (count_tx 20 v) = Some v'" "has_flag (s_status v') UDX_STREAM_CLOSED"
        "s_writes_queued_bytes v' = 0" "w_output v' = w_output (count_tx 20 v) @ out @ cancel_events w (open_chunks w)" "?quiet out"
        using close [of "w\<lparr>s_seq := s_seq w + 1\<rparr>" "count_tx 20 v"] acc accounted_number [OF seq] by auto
      define sent where "sent = (if ?quick < 0 then [] else [?hd])"
      have "w_output (count_tx 20 v) = w_output w @ sent" by (simp add: v_def count_tx_def sent_def)
      moreover have "?quiet (sent @ out)" using v'(5) by (simp add: sent_def)
      ultimately show ?thesis using v' unfolding eq by (intro exI [of _ 1] exI [of _ v'] exI [of _ "sent @ out"]) simp
    qed
  qed
qed



end
