(* ===== verification/Udx_Flight.thy ===== *)
theory Udx_Flight
  imports Udx_Account
begin

text \<open>
  The invariant of the packets in flight.  Every packet that is not yet acknowledged is in the map \<open>outgoing\<close> under its
  own sequence number and in exactly one of two queues: in flight, or, when it is marked lost, waiting for
  retransmission; the byte count \<open>inflight\<close> is the sum over the first queue.  A packet waiting for retransmission
  is not in the hands of libuv.  Shown here: transmitting and retransmitting keep the invariant, pass every assertion
  on the way, and change nothing of the packets but what a transmission records, and the loop over the retransmission queue
  ends.  The queues and the map of packets are those of \<open>udx_stream_t\<close>, and the functions are \<open>_send_packet\<close>,
  \<open>retransmit_packet\<close> and the first loop of \<open>send_packets\<close>.
\<close>

section \<open>The invariant\<close>

text \<open>What holds of the packet \<open>p\<close> with number \<open>k\<close>; \<open>hi\<close> bounds the distance from the last acknowledged number.\<close>

definition packet_ok :: "nat \<Rightarrow> world \<Rightarrow> u32 \<Rightarrow> addr \<Rightarrow> bool" where
  "packet_ok hi w k p \<longleftrightarrow>
     (let pkt = w_packets w p in
      p_seq pkt = k \<and> seq_off (s_remote_acked w) k < hi \<and> p < w_next_packet w
      \<and> 0 < p_size pkt \<and> p_size pkt < 1500
      \<and> (p_lost pkt \<longleftrightarrow> p \<in> set (s_retransmit_queue w))
      \<and> (p_ref_count pkt = 1 \<or> (p_ref_count pkt = 2 \<and> \<not> p_lost pkt)))"

definition flight_bytes :: "world \<Rightarrow> addr list \<Rightarrow> u64" where
  "flight_bytes w q = sum_list (map (\<lambda>p. ucast (p_size (w_packets w p))) q)"

text \<open>The invariant, except that the packets \<open>X\<close> are about to be put in flight.\<close>

definition flight_but :: "nat \<Rightarrow> addr set \<Rightarrow> world \<Rightarrow> bool" where
  "flight_but hi X w \<longleftrightarrow>
     distinct (s_inflight_queue w @ s_retransmit_queue w)
     \<and> set (s_inflight_queue w) \<union> set (s_retransmit_queue w) \<union> X = ran (s_outgoing w)
     \<and> X \<inter> set (s_inflight_queue w) = {}
     \<and> (\<forall>k p. s_outgoing w k = Some p \<longrightarrow> packet_ok hi w k p)
     \<and> (\<forall>p \<in> X. p_ref_count (w_packets w p) = 1)
     \<and> (\<forall>p \<in> ran (s_outgoing w) - X. p_transmits (w_packets w p) > 0)
     \<and> s_inflight w = flight_bytes w (s_inflight_queue w)"

definition flight_inv :: "world \<Rightarrow> bool" where
  "flight_inv w \<longleftrightarrow> flight_but (seq_off (s_remote_acked w) (s_seq w)) {} w \<and> s_pkt w \<notin> ran (s_outgoing w)"

lemma flightD:
  assumes "flight_but hi X w"
  shows "distinct (s_inflight_queue w @ s_retransmit_queue w)"
    and "set (s_inflight_queue w) \<union> set (s_retransmit_queue w) \<union> X = ran (s_outgoing w)"
    and "X \<inter> set (s_inflight_queue w) = {}"
    and "s_outgoing w k = Some p \<Longrightarrow> packet_ok hi w k p"
    and "p \<in> X \<Longrightarrow> p_ref_count (w_packets w p) = 1"
    and "p \<in> ran (s_outgoing w) \<Longrightarrow> p \<notin> X \<Longrightarrow> p_transmits (w_packets w p) > 0"
    and "s_inflight w = flight_bytes w (s_inflight_queue w)"
  using assms unfolding flight_but_def by blast+

lemma flightI:
  assumes "distinct (s_inflight_queue w @ s_retransmit_queue w)"
    and "set (s_inflight_queue w) \<union> set (s_retransmit_queue w) \<union> X = ran (s_outgoing w)"
    and "X \<inter> set (s_inflight_queue w) = {}"
    and "\<And>k p. s_outgoing w k = Some p \<Longrightarrow> packet_ok hi w k p"
    and "\<And>p. p \<in> X \<Longrightarrow> p_ref_count (w_packets w p) = 1"
    and "\<And>p. p \<in> ran (s_outgoing w) \<Longrightarrow> p \<notin> X \<Longrightarrow> p_transmits (w_packets w p) > 0"
    and "s_inflight w = flight_bytes w (s_inflight_queue w)"
  shows "flight_but hi X w"
  unfolding flight_but_def using assms by blast

lemma packet_okD:
  assumes "packet_ok hi w k p"
  shows "p_seq (w_packets w p) = k" "seq_off (s_remote_acked w) k < hi" "p < w_next_packet w"
    "0 < p_size (w_packets w p)" "p_size (w_packets w p) < 1500"
    "p_lost (w_packets w p) \<longleftrightarrow> p \<in> set (s_retransmit_queue w)"
    "p_ref_count (w_packets w p) = 1 \<or> (p_ref_count (w_packets w p) = 2 \<and> \<not> p_lost (w_packets w p))"
  using assms unfolding packet_ok_def Let_def by blast+

lemma flight_inj: "flight_but hi X w \<Longrightarrow> s_outgoing w k = Some p \<Longrightarrow> s_outgoing w k' = Some p \<Longrightarrow> k = k'"
  using packet_okD(1) flightD(4) by metis

lemma flight_ranE:
  assumes "flight_but hi X w" "p \<in> ran (s_outgoing w)"
  shows "s_outgoing w (p_seq (w_packets w p)) = Some p" and "packet_ok hi w (p_seq (w_packets w p)) p"
proof -
  obtain k where k: "s_outgoing w k = Some p" using assms(2) by (auto simp: ran_def)
  with packet_okD(1) [OF flightD(4) [OF assms(1) k]] flightD(4) [OF assms(1) k]
  show "s_outgoing w (p_seq (w_packets w p)) = Some p" "packet_ok hi w (p_seq (w_packets w p)) p" by simp_all
qed

lemma flight_mem:
  assumes "flight_but hi X w"
  shows "p \<in> set (s_inflight_queue w) \<Longrightarrow> p \<in> ran (s_outgoing w) \<and> p \<notin> set (s_retransmit_queue w) \<and> p \<notin> X"
    and "p \<in> set (s_retransmit_queue w) \<Longrightarrow> p \<in> ran (s_outgoing w) \<and> p \<notin> set (s_inflight_queue w)"
  using flightD(1-3) [OF assms] by auto

lemma flight_bytes_cong:
  "(\<And>p. p \<in> set q \<Longrightarrow> p_size (w_packets w' p) = p_size (w_packets w p)) \<Longrightarrow> flight_bytes w' q = flight_bytes w q"
  unfolding flight_bytes_def by (intro arg_cong [where f = sum_list] map_cong refl) simp

text \<open>The fields the invariant reads.\<close>

lemma flight_but_cong:
  assumes "s_inflight_queue w' = s_inflight_queue w" "s_retransmit_queue w' = s_retransmit_queue w"
    "s_outgoing w' = s_outgoing w" "\<And>p. p \<in> ran (s_outgoing w) \<Longrightarrow> w_packets w' p = w_packets w p" "s_inflight w' = s_inflight w"
    "s_remote_acked w' = s_remote_acked w" "w_next_packet w \<le> w_next_packet w'" and fl: "flight_but hi X w"
  shows "flight_but hi X w'"
proof -
  have q: "set (s_inflight_queue w) \<subseteq> ran (s_outgoing w)" "X \<subseteq> ran (s_outgoing w)" using flightD(2) [OF fl] by auto
  then have "flight_bytes w' (s_inflight_queue w) = flight_bytes w (s_inflight_queue w)"
    using assms(4) by (intro flight_bytes_cong) (metis subsetD)
  then have "s_inflight w' = flight_bytes w' (s_inflight_queue w')" using flightD(7) [OF fl] by (simp add: assms(1,5))
  moreover have "packet_ok hi w' k p" if k: "s_outgoing w k = Some p" for k p
  proof -
    have e: "w_packets w' p = w_packets w p" using assms(4) [OF ranI [where m = "s_outgoing w", OF k]] .
    have n: "p < w_next_packet w'" using packet_okD(3) [OF flightD(4) [OF fl k]] assms(7) by linarith
    show ?thesis using packet_okD [OF flightD(4) [OF fl k]] n
      unfolding packet_ok_def Let_def assms(2,6) e by blast
  qed
  moreover have "p_ref_count (w_packets w' p) = 1" if "p \<in> X" for p
    using that q(2) assms(4) flightD(5) [OF fl that] by (metis subsetD)
  moreover have "p_transmits (w_packets w' p) > 0" if "p \<in> ran (s_outgoing w)" "p \<notin> X" for p
    using that assms(4) flightD(6) [OF fl that] by metis
  ultimately show ?thesis
    using flightD(1-3) [OF fl] by (intro flightI) (simp_all add: assms(1-3))
qed

text \<open>Changes of packet fields the invariant does not read, or keeps.\<close>

lemma flight_but_upd_packet:
  assumes fl: "flight_but hi X w"
    and pkt: "p_seq pkt = p_seq (w_packets w p)" "p_size pkt = p_size (w_packets w p)" "p_lost pkt = p_lost (w_packets w p)"
    "p_ref_count pkt = p_ref_count (w_packets w p) \<or> (p_ref_count pkt \<in> {1, 2} \<and> p \<in> set (s_inflight_queue w))"
    "p_transmits (w_packets w p) > 0 \<Longrightarrow> p_transmits pkt > 0"
  shows "flight_but hi X (w\<lparr>w_packets := (w_packets w)(p := pkt)\<rparr>)" (is "flight_but hi X ?w")
proof -
  have "flight_bytes ?w (s_inflight_queue w) = flight_bytes w (s_inflight_queue w)"
    using pkt(2) by (intro flight_bytes_cong) simp
  moreover have "packet_ok hi ?w k q" if k: "s_outgoing w k = Some q" for k q
    using packet_okD [OF flightD(4) [OF fl k]] pkt flight_mem(1) [OF fl, of q]
    unfolding packet_ok_def Let_def by (cases "q = p") auto
  moreover have "p_ref_count (w_packets ?w q) = 1" if "q \<in> X" for q
    using flightD(5) [OF fl that] pkt(4) flight_mem(1) [OF fl, of q] that by (cases "q = p") auto
  moreover have "p_transmits (w_packets ?w q) > 0" if "q \<in> ran (s_outgoing w)" "q \<notin> X" for q
    using flightD(6) [OF fl that] pkt(5) by (cases "q = p") simp_all
  ultimately show ?thesis
    using flightD(1-3,7) [OF fl] by (intro flightI) simp_all
qed

section \<open>Transmission\<close>

text \<open>Everything that transmitting a packet does not change.\<close>

definition send_rest :: "world \<Rightarrow> world" where
  "send_rest w = w\<lparr>s_app_limited := 0, s_first_sent_ts := 0, s_delivered_ts := 0, s_retransmit_queue := [],
     s_inflight_queue := [], s_inflight := 0, w_packets := undefined, w_ios := 0, w_drop_count := 0, w_output := [],
     s_packets_tx := 0, s_bytes_tx := 0, w_socket_packets_tx := 0, w_socket_bytes_tx := 0, w_udx_packets_tx := 0,
     w_udx_bytes_tx := 0, s_tb_available := 0, w_pacing_timer := None\<rparr>"

text \<open>What a packet keeps when it is transmitted.\<close>

definition packet_kept :: "udx_packet \<Rightarrow> udx_packet \<Rightarrow> bool" where
  "packet_kept pkt pkt' \<longleftrightarrow> p_seq pkt' = p_seq pkt \<and> p_size pkt' = p_size pkt \<and> p_header pkt' = p_header pkt
     \<and> p_slices pkt' = p_slices pkt \<and> p_is_mtu_probe pkt' = p_is_mtu_probe pkt \<and> p_remote_addr pkt' = p_remote_addr pkt
     \<and> p_remote_addr_len pkt' = p_remote_addr_len pkt \<and> p_remote_id pkt' = p_remote_id pkt"

lemma packet_kept_refl [simp]: "packet_kept pkt pkt"
  by (simp add: packet_kept_def)

lemma packet_kept_trans: "packet_kept a b \<Longrightarrow> packet_kept b c \<Longrightarrow> packet_kept a c"
  by (simp add: packet_kept_def)

text \<open>The bookkeeping in one step: what the fields become.\<close>

lemma transmits_pos: "0 < (if t < (255 :: u8) then t + 1 else t)"
proof -
  have "uint t < 256" using uint_bounded [of t] by simp
  then show ?thesis by (auto simp: word_less_def uint_plus_if' not_less)
qed

lemma rate_pkt_sent_eq:
  "\<exists>f d. udx__rate_pkt_sent p w = w\<lparr>s_first_sent_ts := f, s_delivered_ts := d, w_packets := (w_packets w)(p := (w_packets w p)
     \<lparr>p_first_sent_ts := f, p_delivered_ts := d, p_delivered := s_delivered w, p_is_app_limited := s_app_limited w \<noteq> 0\<rparr>)\<rparr>"
proof (cases "s_seq w = s_remote_acked w")
  case True
  then show ?thesis
    by (intro exI [of _ "w_now w"]) (simp add: udx__rate_pkt_sent_def Let_def)
next
  case False
  then show ?thesis
    by (intro exI [of _ "s_first_sent_ts w"] exI [of _ "s_delivered_ts w"]) (simp add: udx__rate_pkt_sent_def Let_def)
qed

lemma check_app_limited_eq:
  assumes "mtu_inv w"
  shows "\<exists>a. udx__rate_check_app_limited w = Some (w\<lparr>s_app_limited := a\<rparr>)"
proof (cases "s_writes_queued_bytes w < ucast (the (udx__max_payload w)) \<and> length (s_inflight_queue w) < unat (s_cwnd w) \<and> s_retransmit_queue w = []")
  case True
  then show ?thesis by (auto simp: udx__rate_check_app_limited_def max_payload_mtu [OF assms] Let_def)
next
  case False
  then have "udx__rate_check_app_limited w = Some w"
    by (auto simp: udx__rate_check_app_limited_def max_payload_mtu [OF assms] Let_def)
  then show ?thesis by (intro exI [of _ "s_app_limited w"]) simp
qed

text \<open>The bookkeeping in one step: what the fields become.\<close>

lemma enqueue_eq:
  assumes "mtu_inv w" and lost: "p_lost (w_packets w p) \<longleftrightarrow> p \<in> set (s_retransmit_queue w)"
  shows "\<exists>a f d pkt. packet_kept (w_packets w p) pkt \<and> \<not> p_lost pkt \<and> p_ref_count pkt = p_ref_count (w_packets w p)
    \<and> p_transmits pkt > 0
    \<and> send_packet_enqueue p r w = Some (w\<lparr>s_app_limited := a, s_first_sent_ts := f, s_delivered_ts := d,
        s_retransmit_queue := remove1 p (s_retransmit_queue w), w_packets := (w_packets w)(p := pkt),
        s_inflight_queue := s_inflight_queue w @ [p], s_inflight := s_inflight w + ucast (p_size (w_packets w p))\<rparr>)"
proof -
  obtain a where a: "udx__rate_check_app_limited w = Some (w\<lparr>s_app_limited := a\<rparr>)"
    using check_app_limited_eq [OF assms(1)] by blast
  define pkt1 where "pkt1 = (w_packets w p)\<lparr>p_transmits := (if p_transmits (w_packets w p) < 255 then p_transmits (w_packets w p) + 1
    else p_transmits (w_packets w p)), p_retransmitted := p_retransmitted (w_packets w p) \<or> r, p_time_sent := w_now w\<rparr>"
  define w1 where "w1 = w\<lparr>s_app_limited := a, w_packets := (w_packets w)(p := pkt1)\<rparr>"
  obtain f d where fd: "udx__rate_pkt_sent p w1 = w1\<lparr>s_first_sent_ts := f, s_delivered_ts := d, w_packets := (w_packets w1)(p := (w_packets w1 p)
     \<lparr>p_first_sent_ts := f, p_delivered_ts := d, p_delivered := s_delivered w1, p_is_app_limited := s_app_limited w1 \<noteq> 0\<rparr>)\<rparr>"
    using rate_pkt_sent_eq by blast
  define pkt2 where "pkt2 = pkt1\<lparr>p_first_sent_ts := f, p_delivered_ts := d, p_delivered := s_delivered w, p_is_app_limited := a \<noteq> 0\<rparr>"
  have sent: "udx__rate_pkt_sent p w1 = w\<lparr>s_app_limited := a, s_first_sent_ts := f, s_delivered_ts := d, w_packets := (w_packets w)(p := pkt2)\<rparr>"
    unfolding fd by (simp add: w1_def pkt2_def)
  have l2: "p_lost pkt2 = p_lost (w_packets w p)" by (simp add: pkt2_def pkt1_def)
  let ?r = "\<lambda>pkt. w\<lparr>s_app_limited := a, s_first_sent_ts := f, s_delivered_ts := d,
        s_retransmit_queue := remove1 p (s_retransmit_queue w), w_packets := (w_packets w)(p := pkt),
        s_inflight_queue := s_inflight_queue w @ [p], s_inflight := s_inflight w + ucast (p_size (w_packets w p))\<rparr>"
  have kept: "packet_kept (w_packets w p) pkt2" "p_ref_count pkt2 = p_ref_count (w_packets w p)" "p_transmits pkt2 > 0"
    using transmits_pos by (simp_all add: packet_kept_def pkt2_def pkt1_def)
  have size: "p_size pkt2 = p_size (w_packets w p)" using kept(1) by (simp add: packet_kept_def)
  have w1_eq: "upd_packet p (\<lambda>pkt. pkt\<lparr>p_transmits := (if p_transmits pkt < 255 then p_transmits pkt + 1 else p_transmits pkt),
       p_retransmitted := p_retransmitted pkt \<or> r, p_time_sent := w_now (w\<lparr>s_app_limited := a\<rparr>)\<rparr>) (w\<lparr>s_app_limited := a\<rparr>) = w1"
    by (simp add: w1_def pkt1_def)
  have step: "send_packet_enqueue p r w = do {
      w \<leftarrow> (if p_lost pkt2
        then do { q \<leftarrow> lq_unlink p (s_retransmit_queue w);
                  Some (w\<lparr>s_app_limited := a, s_first_sent_ts := f, s_delivered_ts := d, s_retransmit_queue := q,
                    w_packets := (w_packets w)(p := pkt2\<lparr>p_lost := False\<rparr>)\<rparr>) }
        else Some (w\<lparr>s_app_limited := a, s_first_sent_ts := f, s_delivered_ts := d, w_packets := (w_packets w)(p := pkt2)\<rparr>));
      Some (w\<lparr>s_inflight_queue := s_inflight_queue w @ [p], s_inflight := s_inflight w + ucast (p_size (w_packets w p))\<rparr>) }"
    unfolding send_packet_enqueue_def a Option.bind.simps Let_def w1_eq sent by (simp add: lq_tail_def)
  show ?thesis
  proof (cases "p_lost (w_packets w p)")
    case True
    then have "send_packet_enqueue p r w = Some (?r (pkt2\<lparr>p_lost := False\<rparr>))"
      using lost size by (simp add: step l2 lq_unlink_def)
    moreover have "packet_kept (w_packets w p) (pkt2\<lparr>p_lost := False\<rparr>)" using kept(1) by (simp add: packet_kept_def)
    ultimately show ?thesis using kept(2,3)
      by (intro exI [of _ a] exI [of _ f] exI [of _ d] exI [of _ "pkt2\<lparr>p_lost := False\<rparr>"]) simp
  next
    case False
    then have "send_packet_enqueue p r w = Some (?r pkt2)"
      using lost size by (simp add: step l2 remove1_idem)
    then show ?thesis using kept False l2
      by (intro exI [of _ a] exI [of _ f] exI [of _ d] exI [of _ pkt2]) simp
  qed
qed

text \<open>What one transmission does to the state.\<close>

definition sends :: "addr \<Rightarrow> world \<Rightarrow> world \<Rightarrow> bool" where
  "sends p w w' \<longleftrightarrow> send_rest w' = send_rest w \<and> (\<forall>q. q \<noteq> p \<longrightarrow> w_packets w' q = w_packets w q)
     \<and> packet_kept (w_packets w p) (w_packets w' p)
     \<and> s_inflight_queue w' = s_inflight_queue w @ [p] \<and> s_retransmit_queue w' = remove1 p (s_retransmit_queue w)
     \<and> w_output w' \<in> {w_output w, w_output w @ [Datagram (p_remote_addr (w_packets w p)) (packet_datagram w (w_packets w p))]}"

lemma sends_fields:
  assumes "sends p w w'"
  shows "s_seq w' = s_seq w" "s_ack w' = s_ack w" "s_remote_acked w' = s_remote_acked w" "s_outgoing w' = s_outgoing w"
    "s_pkt w' = s_pkt w" "w_next_packet w' = w_next_packet w" "s_write_queue w' = s_write_queue w" "w_wbufs w' = w_wbufs w"
    "w_writes w' = w_writes w" "s_mtu w' = s_mtu w" "s_mtu_state w' = s_mtu_state w" "s_mtu_probe_wanted w' = s_mtu_probe_wanted w"
    "s_mtu_probe_count w' = s_mtu_probe_count w" "s_mtu_probe_size w' = s_mtu_probe_size w" "s_mtu_max w' = s_mtu_max w"
    "s_rto w' = s_rto w" "s_status w' = s_status w" "s_remote_addr w' = s_remote_addr w"
    "s_remote_addr_len w' = s_remote_addr_len w" "s_remote_id w' = s_remote_id w" "s_pkt_capacity w' = s_pkt_capacity w"
    "s_pkt_header_flag w' = s_pkt_header_flag w" "s_cwnd w' = s_cwnd w" "w_now w' = w_now w"
    "s_tb_last_refill_ms w' = s_tb_last_refill_ms w" "s_pacing_bytes_per_ms w' = s_pacing_bytes_per_ms w"
    "s_bbr w' = s_bbr w" "s_send_rwnd w' = s_send_rwnd w" "s_bytes_packetized w' = s_bytes_packetized w"
proof -
  have e: "send_rest w' = send_rest w" using assms by (simp add: sends_def)
  show "s_seq w' = s_seq w" "s_ack w' = s_ack w" "s_remote_acked w' = s_remote_acked w" "s_outgoing w' = s_outgoing w" "s_pkt
    w' = s_pkt w" "w_next_packet w' = w_next_packet w" "s_write_queue w' = s_write_queue w" "w_wbufs w' = w_wbufs w"
    "w_writes w' = w_writes w" "s_mtu w' = s_mtu w" "s_mtu_state w' = s_mtu_state w" "s_mtu_probe_wanted w' =
    s_mtu_probe_wanted w" "s_mtu_probe_count w' = s_mtu_probe_count w" "s_mtu_probe_size w' = s_mtu_probe_size w" "s_mtu_max
    w' = s_mtu_max w" "s_rto w' = s_rto w" "s_status w' = s_status w" "s_remote_addr w' = s_remote_addr w"
    "s_remote_addr_len w' = s_remote_addr_len w" "s_remote_id w' = s_remote_id w" "s_pkt_capacity w' = s_pkt_capacity w"
    "s_pkt_header_flag w' = s_pkt_header_flag w" "s_cwnd w' = s_cwnd w" "w_now w' = w_now w" "s_tb_last_refill_ms w' =
    s_tb_last_refill_ms w" "s_pacing_bytes_per_ms w' = s_pacing_bytes_per_ms w" "s_bbr w' = s_bbr w" "s_send_rwnd w' =
    s_send_rwnd w" "s_bytes_packetized w' = s_bytes_packetized w"
    using arg_cong [OF e, of s_seq] arg_cong [OF e, of s_ack] arg_cong [OF e, of s_remote_acked] arg_cong [OF e, of s_outgoing]
      arg_cong [OF e, of s_pkt] arg_cong [OF e, of w_next_packet] arg_cong [OF e, of s_write_queue] arg_cong [OF e, of
      w_wbufs] arg_cong [OF e, of w_writes] arg_cong [OF e, of s_mtu] arg_cong [OF e, of s_mtu_state] arg_cong [OF e, of
      s_mtu_probe_wanted] arg_cong [OF e, of s_mtu_probe_count] arg_cong [OF e, of s_mtu_probe_size] arg_cong [OF e, of
      s_mtu_max] arg_cong [OF e, of s_rto] arg_cong [OF e, of s_status] arg_cong [OF e, of s_remote_addr] arg_cong [OF e, of
      s_remote_addr_len] arg_cong [OF e, of s_remote_id] arg_cong [OF e, of s_pkt_capacity] arg_cong [OF e, of
      s_pkt_header_flag] arg_cong [OF e, of s_cwnd] arg_cong [OF e, of w_now] arg_cong [OF e, of s_tb_last_refill_ms] arg_cong
      [OF e, of s_pacing_bytes_per_ms] arg_cong [OF e, of s_bbr] arg_cong [OF e, of s_send_rwnd] arg_cong [OF e, of
      s_bytes_packetized]
    by (simp_all add: send_rest_def)
qed

lemma flight_put:
  assumes fl: "flight_but hi {p} w" and kept: "packet_kept (w_packets w p) pkt" "\<not> p_lost pkt"
    "p_ref_count pkt = p_ref_count (w_packets w p)" "p_transmits pkt > 0"
  shows "flight_but hi {} (w\<lparr>s_app_limited := a, s_first_sent_ts := f, s_delivered_ts := d,
        s_retransmit_queue := remove1 p (s_retransmit_queue w), w_packets := (w_packets w)(p := pkt),
        s_inflight_queue := s_inflight_queue w @ [p], s_inflight := s_inflight w + ucast (p_size (w_packets w p))\<rparr>)"
    (is "flight_but hi {} ?w")
proof (rule flightI)
  have dq: "distinct (s_inflight_queue w)" "distinct (s_retransmit_queue w)"
    "set (s_inflight_queue w) \<inter> set (s_retransmit_queue w) = {}" "p \<notin> set (s_inflight_queue w)"
    using flightD(1,3) [OF fl] by auto
  show "distinct (s_inflight_queue ?w @ s_retransmit_queue ?w)" using dq by (auto simp: set_remove1_eq)
  show "set (s_inflight_queue ?w) \<union> set (s_retransmit_queue ?w) \<union> {} = ran (s_outgoing ?w)"
    using flightD(2) [OF fl] dq by (auto simp: set_remove1_eq)
  show "packet_ok hi ?w k q" if "s_outgoing ?w k = Some q" for k q
    using packet_okD [OF flightD(4) [OF fl, of k q]] that kept flightD(5) [OF fl, of p] dq
    by (cases "q = p") (simp_all add: packet_ok_def Let_def packet_kept_def set_remove1_eq)
  show "p_transmits (w_packets ?w q) > 0" if "q \<in> ran (s_outgoing ?w)" "q \<notin> {}" for q
    using flightD(6) [OF fl, of q] that kept(4) by (cases "q = p") simp_all
  have "flight_bytes ?w (s_inflight_queue w) = flight_bytes w (s_inflight_queue w)"
    using dq(4) by (intro flight_bytes_cong) auto
  then show "s_inflight ?w = flight_bytes ?w (s_inflight_queue ?w)"
    using flightD(7) [OF fl] kept(1) by (simp add: flight_bytes_def packet_kept_def)
qed simp_all

lemma enqueue_law:
  assumes fl: "flight_but hi {p} w" and mtu: "mtu_inv w"
  shows "\<exists>w'. send_packet_enqueue p r w = Some w' \<and> flight_but hi {} w' \<and> sends p w w' \<and> w_output w' = w_output w
    \<and> p_ref_count (w_packets w' p) = 1"
proof -
  have p: "p \<in> ran (s_outgoing w)" using flightD(2) [OF fl] by blast
  then have lost: "p_lost (w_packets w p) \<longleftrightarrow> p \<in> set (s_retransmit_queue w)" using packet_okD(6) [OF flight_ranE(2) [OF fl]] by blast
  obtain a f d pkt where e: "packet_kept (w_packets w p) pkt" "\<not> p_lost pkt" "p_ref_count pkt = p_ref_count (w_packets w p)"
    "p_transmits pkt > 0"
    "send_packet_enqueue p r w = Some (w\<lparr>s_app_limited := a, s_first_sent_ts := f, s_delivered_ts := d,
        s_retransmit_queue := remove1 p (s_retransmit_queue w), w_packets := (w_packets w)(p := pkt),
        s_inflight_queue := s_inflight_queue w @ [p], s_inflight := s_inflight w + ucast (p_size (w_packets w p))\<rparr>)"
    using enqueue_eq [OF mtu lost] by blast
  show ?thesis unfolding e(5) using flight_put [OF fl e(1-4)] e(1,3) flightD(5) [OF fl, of p]
    by (simp add: sends_def send_rest_def)
qed

text \<open>Transmitting touches the reference count and what leaves the program.\<close>

lemma transmit_eq:
  assumes "p_ref_count (w_packets w p) = 1"
  shows "\<exists>n out r. transmit env p w = Some (w\<lparr>w_ios := n, w_output := out, w_packets := (w_packets w)(p := (w_packets w p)\<lparr>p_ref_count := r\<rparr>)\<rparr>)
    \<and> r \<in> {1, 2} \<and> out \<in> {w_output w, w_output w @ [Datagram (p_remote_addr (w_packets w p)) (packet_datagram w (w_packets w p))]}"
proof -
  let ?d = "Datagram (p_remote_addr (w_packets w p)) (packet_datagram w (w_packets w p))"
  have id: "(w_packets w)(p := (w_packets w p)\<lparr>p_ref_count := 1\<rparr>) = w_packets w" using assms by (intro ext) simp
  consider "env_try_send env (w_ios w) = UV_EAGAIN" "env_udp_send env (w_ios w + 1) \<noteq> 0"
    | "env_try_send env (w_ios w) = UV_EAGAIN" "env_udp_send env (w_ios w + 1) = 0"
    | "env_try_send env (w_ios w) \<noteq> UV_EAGAIN" "env_try_send env (w_ios w) < 0"
    | "env_try_send env (w_ios w) \<noteq> UV_EAGAIN" "env_try_send env (w_ios w) \<ge> 0" by linarith
  then show ?thesis
  proof cases
    case 1
    then show ?thesis using assms id
      by (intro exI [of _ "w_ios w + 2"] exI [of _ "w_output w"] exI [of _ 1]) (simp add: transmit_def Let_def deref_packet_def)
  next
    case 2
    then show ?thesis using assms
      by (intro exI [of _ "w_ios w + 2"] exI [of _ "w_output w @ [?d]"] exI [of _ 2]) (simp add: transmit_def Let_def deref_packet_def)
  next
    case 3
    then show ?thesis using id
      by (intro exI [of _ "w_ios w + 1"] exI [of _ "w_output w"] exI [of _ 1]) (simp add: transmit_def Let_def)
  next
    case 4
    then show ?thesis using id
      by (intro exI [of _ "w_ios w + 1"] exI [of _ "w_output w @ [?d]"] exI [of _ 1]) (simp add: transmit_def Let_def)
  qed
qed

lemma packet_datagram_kept:
  "packet_kept a b \<Longrightarrow> w_wbufs w' = w_wbufs w \<Longrightarrow> packet_datagram w' b = packet_datagram w a"
  by (simp add: packet_datagram_def packet_payload_def packet_kept_def slice_bytes_def cong: map_cong)

lemma debug_drop_eq: "\<exists>b n. debug_drop p w = (b, w\<lparr>w_drop_count := n\<rparr>)"
proof (cases "has_flag (w_debug_flags w) UDX_DEBUG_FORCE_DROP_DATA")
  case False
  then show ?thesis by (auto simp: debug_drop_def Let_def intro!: exI [of _ "w_drop_count w"])
qed (auto simp: debug_drop_def Let_def)

lemma transmit_law:
  assumes fl: "flight_but hi {} w1" and s: "sends p w w1" and o: "w_output w1 = w_output w" and rc: "p_ref_count (w_packets w1 p) = 1"
  shows "\<exists>w2. (if drop_packet then Some w1 else transmit env p w1) = Some w2 \<and> flight_but hi {} w2 \<and> sends p w w2"
proof (cases drop_packet)
  case True
  then show ?thesis using fl s by simp
next
  case False
  obtain n out r where t: "transmit env p w1 = Some (w1\<lparr>w_ios := n, w_output := out, w_packets := (w_packets w1)(p := (w_packets w1 p)\<lparr>p_ref_count := r\<rparr>)\<rparr>)"
    "r \<in> {1, 2}" "out \<in> {w_output w1, w_output w1 @ [Datagram (p_remote_addr (w_packets w1 p)) (packet_datagram w1 (w_packets w1 p))]}"
    using transmit_eq [OF rc] by blast
  define w2 where "w2 = w1\<lparr>w_ios := n, w_output := out\<rparr>"
  have k: "packet_kept (w_packets w p) (w_packets w1 p)" and q: "p \<in> set (s_inflight_queue w1)" using s by (simp_all add: sends_def)
  have out: "out \<in> {w_output w, w_output w @ [Datagram (p_remote_addr (w_packets w p)) (packet_datagram w (w_packets w p))]}"
    using t(3) o k packet_datagram_kept [OF k sends_fields(8) [OF s]] by (auto simp: packet_kept_def)
  have fl2: "flight_but hi {} w2" by (rule flight_but_cong [OF _ _ _ _ _ _ _ fl]) (simp_all add: w2_def)
  have "flight_but hi {} (w2\<lparr>w_packets := (w_packets w2)(p := (w_packets w1 p)\<lparr>p_ref_count := r\<rparr>)\<rparr>)"
    using t(2) q by (intro flight_but_upd_packet [OF fl2]) (auto simp: w2_def)
  then have "flight_but hi {} (w1\<lparr>w_ios := n, w_output := out, w_packets := (w_packets w1)(p := (w_packets w1 p)\<lparr>p_ref_count := r\<rparr>)\<rparr>)"
    by (simp add: w2_def)
  moreover have "sends p w (w1\<lparr>w_ios := n, w_output := out, w_packets := (w_packets w1)(p := (w_packets w1 p)\<lparr>p_ref_count := r\<rparr>)\<rparr>)"
    using s out by (simp add: sends_def send_rest_def packet_kept_def)
  ultimately show ?thesis using False by (simp add: t(1))
qed

lemma account_law:
  assumes "flight_but hi {} w2" "sends p w w2"
  shows "flight_but hi {} (send_packet_account q w2)" and "sends p w (send_packet_account q w2)"
proof -
  show "flight_but hi {} (send_packet_account q w2)"
    by (rule flight_but_cong [OF _ _ _ _ _ _ _ assms(1)]) (simp_all add: send_packet_account_def Let_def count_tx_def)
  show "sends p w (send_packet_account q w2)"
    using assms(2) by (simp add: sends_def send_rest_def send_packet_account_def Let_def count_tx_def)
qed

lemma send_packet_law:
  assumes fl: "flight_but hi {p} w" and mtu: "mtu_inv w"
  shows "\<exists>w'. send_packet env p r w = Some w' \<and> flight_but hi {} w' \<and> sends p w w'"
proof -
  obtain w0 where w0: "send_packet_enqueue p r w = Some w0" "flight_but hi {} w0" "sends p w w0" "w_output w0 = w_output w"
    "p_ref_count (w_packets w0 p) = 1"
    using enqueue_law [OF fl mtu] by blast
  obtain b n where dd: "debug_drop p w0 = (b, w0\<lparr>w_drop_count := n\<rparr>)" using debug_drop_eq by blast
  define w1 where "w1 = w0\<lparr>w_drop_count := n\<rparr>"
  have fl1: "flight_but hi {} w1" by (rule flight_but_cong [OF _ _ _ _ _ _ _ w0(2)]) (simp_all add: w1_def)
  have s1: "sends p w w1" using w0(3) by (simp add: sends_def send_rest_def w1_def)
  have "w_output w1 = w_output w" "p_ref_count (w_packets w1 p) = 1" using w0(4,5) by (simp_all add: w1_def)
  from transmit_law [OF fl1 s1 this] obtain w2 where w2: "(if b then Some w1 else transmit env p w1) = Some w2"
    "flight_but hi {} w2" "sends p w w2" by blast
  have "send_packet env p r w = Some (send_packet_account p w2)"
    using w0(1) dd w2(1) [unfolded w1_def] by (simp add: send_packet_def split: if_splits)
  then show ?thesis using account_law [OF w2(2,3)] by blast
qed

lemma mtu_inv_sends: "sends p w w' \<Longrightarrow> mtu_inv w' = mtu_inv w"
  by (rule mtu_inv_cong) (simp_all add: sends_fields)

section \<open>Pacing and the start of a transmission\<close>

definition pace_ready :: "world \<Rightarrow> bool" where
  "pace_ready w \<longleftrightarrow> (w_now w > s_tb_last_refill_ms w \<longrightarrow> s_pacing_bytes_per_ms w > 0)"

lemma may_send_law:
  assumes "mtu_inv w" "s_cwnd w \<noteq> 0" "pace_ready w"
  shows "\<exists>b t l. stream_may_send r w = Some (b, w\<lparr>s_tb_available := t, s_tb_last_refill_ms := l\<rparr>) \<and> w_now w \<le> l"
proof -
  obtain t l where u: "update_pacing_time w = Some (w\<lparr>s_tb_available := t, s_tb_last_refill_ms := l\<rparr>)" "w_now w \<le> l"
  proof (cases "w_now w > s_tb_last_refill_ms w")
    case True
    then show ?thesis using assms(3) by (intro that) (auto simp: update_pacing_time_def pace_ready_def Let_def)
  next
    case False
    then show ?thesis by (intro that [where t = "s_tb_available w" and l = "s_tb_last_refill_ms w"]) (simp_all add: update_pacing_time_def not_less)
  qed
  define w1 where "w1 = w\<lparr>s_tb_available := t, s_tb_last_refill_ms := l\<rparr>"
  have "mtu_inv w1" using assms(1) by (subst mtu_inv_cong [where w = w]) (simp_all add: w1_def)
  then obtain n where "send_window_in_packets w1 = Some n"
    by (cases "s_send_rwnd w1 = 0") (simp_all add: send_window_in_packets_def send_rwnd_in_packets_def max_payload_mtu)
  then have "\<exists>b. stream_may_send r w = Some (b, w1)"
    using assms(2) u(1) by (auto simp: stream_may_send_def word_gt_0 w1_def [symmetric])
  then show ?thesis using u(2) unfolding w1_def by blast
qed

lemma transmit_start_law:
  assumes "mtu_inv w" "s_cwnd w \<noteq> 0"
  shows "\<exists>w'. bbr_on_transmit_start now w = Some w' \<and> bbr_rest w' = bbr_rest w \<and> s_cwnd w' \<noteq> 0"
proof -
  define w1 where "w1 = upd_bbr (\<lambda>b. b\<lparr>bb_idle_restart := True, bb_ack_epoch_start := now, bb_ack_epoch_acked := 0\<rparr>) w"
  have w1: "mtu_inv w1" "s_cwnd w1 \<noteq> 0" "bbr_rest w1 = bbr_rest w"
    using assms mtu_inv_rest [of w1 w] by (simp_all add: w1_def rest_simps)
  have done_cwnd: "s_cwnd (bbr_check_probe_rtt_done now w1) \<noteq> 0"
    using w1(2) max_nonzero [of "s_cwnd w1"]
    by (simp add: bbr_check_probe_rtt_done_def bbr_reset_mode_def bbr_reset_startup_mode_def
        bbr_reset_probe_bw_mode_def bbr_advance_cycle_phase_def)
  obtain w2 where w2: "bbr_set_pacing_rate (bbr_bw w1) 1 w1 = Some w2" "bbr_rest w2 = bbr_rest w1" "s_cwnd w2 = s_cwnd w1"
    using set_pacing_Some [OF w1(1,2)] by blast
  show ?thesis
    using assms(2) w1 w2 done_cwnd
    by (cases "s_app_limited w = 0") (simp_all add: bbr_on_transmit_start_def Let_def w1_def [symmetric] bbr_rest_probe_done)
qed

lemma bbr_rest_more:
  assumes e: "bbr_rest w' = bbr_rest w"
  shows "s_seq w' = s_seq w" "s_ack w' = s_ack w" "s_remote_acked w' = s_remote_acked w" "s_outgoing w' = s_outgoing w"
    "s_pkt w' = s_pkt w" "w_next_packet w' = w_next_packet w" "s_write_queue w' = s_write_queue w" "w_wbufs w' = w_wbufs w"
    "w_writes w' = w_writes w" "w_packets w' = w_packets w" "s_retransmit_queue w' = s_retransmit_queue w"
    "s_inflight w' = s_inflight w" "s_rto w' = s_rto w" "s_status w' = s_status w"
    "s_remote_addr_len w' = s_remote_addr_len w" "s_remote_id w' = s_remote_id w" "s_pkt_capacity w' = s_pkt_capacity w"
    "s_pkt_header_flag w' = s_pkt_header_flag w" "s_tb_last_refill_ms w' = s_tb_last_refill_ms w"
    "s_send_rwnd w' = s_send_rwnd w" "s_bytes_packetized w' = s_bytes_packetized w" "w_output w' = w_output w"
    "s_remote_changing w' = s_remote_changing w" "s_inflight_queue w' = s_inflight_queue w" "w_now w' = w_now w"
    "s_remote_addr w' = s_remote_addr w" "s_mtu_probe_wanted w' = s_mtu_probe_wanted w"
proof -
  note q = arg_cong [OF e]
  show "s_seq w' = s_seq w" "s_ack w' = s_ack w" "s_remote_acked w' = s_remote_acked w" "s_outgoing w' = s_outgoing w"
    "s_pkt w' = s_pkt w" "w_next_packet w' = w_next_packet w" "s_write_queue w' = s_write_queue w" "w_wbufs w' = w_wbufs w"
    "w_writes w' = w_writes w" "w_packets w' = w_packets w" "s_retransmit_queue w' = s_retransmit_queue w"
    "s_inflight w' = s_inflight w" "s_rto w' = s_rto w" "s_status w' = s_status w"
    "s_remote_addr_len w' = s_remote_addr_len w" "s_remote_id w' = s_remote_id w" "s_pkt_capacity w' = s_pkt_capacity w"
    "s_pkt_header_flag w' = s_pkt_header_flag w" "s_tb_last_refill_ms w' = s_tb_last_refill_ms w"
    "s_send_rwnd w' = s_send_rwnd w" "s_bytes_packetized w' = s_bytes_packetized w" "w_output w' = w_output w"
    "s_remote_changing w' = s_remote_changing w" "s_inflight_queue w' = s_inflight_queue w" "w_now w' = w_now w"
    "s_remote_addr w' = s_remote_addr w" "s_mtu_probe_wanted w' = s_mtu_probe_wanted w"
    using q [of s_seq] q [of s_ack] q [of s_remote_acked] q [of s_outgoing] q [of s_pkt] q [of w_next_packet] q [of s_write_queue]
      q [of w_wbufs] q [of w_writes] q [of w_packets] q [of s_retransmit_queue] q [of s_inflight] q [of s_rto] q [of s_status]
      q [of s_remote_addr_len] q [of s_remote_id] q [of s_pkt_capacity] q [of s_pkt_header_flag] q [of s_tb_last_refill_ms]
      q [of s_send_rwnd] q [of s_bytes_packetized] q [of w_output] q [of s_remote_changing] q [of s_inflight_queue] q [of w_now]
      q [of s_remote_addr] q [of s_mtu_probe_wanted]
    by (simp_all add: bbr_rest_def)
qed

section \<open>Retransmission\<close>

text \<open>A packet whose header is one of \<open>udx_write_header\<close> for its own number, of a type and with a padding.\<close>

definition headed :: "udx_packet \<Rightarrow> u8 \<Rightarrow> u8 \<Rightarrow> bool" where
  "headed pkt type pad \<longleftrightarrow> (\<exists>i r a. p_header pkt = [255, 1, type, pad] @ le_bytes i @ le_bytes r @ le_bytes (p_seq pkt) @ le_bytes a)"

text \<open>The form of an outstanding packet on the wire: padding belongs to a path MTU probe.\<close>

definition wire_form :: "udx_packet \<Rightarrow> u8 \<Rightarrow> bool" where
  "wire_form pkt type \<longleftrightarrow> (\<exists>pad. headed pkt type pad \<and> (p_is_mtu_probe pkt \<or> pad = 0))"

text \<open>What a packet keeps for as long as it is outstanding.\<close>

definition packet_body :: "udx_packet \<Rightarrow> udx_packet \<Rightarrow> bool" where
  "packet_body pkt pkt' \<longleftrightarrow> p_seq pkt' = p_seq pkt \<and> p_size pkt' = p_size pkt \<and> p_slices pkt' = p_slices pkt
     \<and> p_remote_addr pkt' = p_remote_addr pkt \<and> (\<forall>type. wire_form pkt type \<longrightarrow> wire_form pkt' type)"

lemma packet_body_refl [simp]: "packet_body pkt pkt"
  by (simp add: packet_body_def)

lemma packet_body_trans: "packet_body a b \<Longrightarrow> packet_body b c \<Longrightarrow> packet_body a c"
  by (simp add: packet_body_def)

lemma packet_kept_body: "packet_kept a b \<Longrightarrow> packet_body a b"
  by (simp add: packet_kept_def packet_body_def wire_form_def headed_def)

lemma retransmit_body:
  "packet_body pkt (pkt\<lparr>p_header := patch_word host 16 a (patch_word host 8 r (p_header pkt))\<rparr>)"
proof -
  have "patch_word host 16 a (patch_word host 8 r ([255, 1, type, pad] @ le_bytes i @ le_bytes r0 @ le_bytes s @ le_bytes a0))
    = [255, 1, type, pad] @ le_bytes i @ le_bytes r @ le_bytes s @ le_bytes a" for type pad i r0 s a0
    using patch_word_at [of "[255, 1, type, pad] @ le_bytes i" 8 "le_bytes r0" host r "le_bytes s @ le_bytes a0"]
      patch_word_at [of "[255, 1, type, pad] @ le_bytes i @ le_bytes r @ le_bytes s" 16 "le_bytes a0" host a "[]"] by simp
  then show ?thesis by (auto simp: packet_body_def wire_form_def headed_def)
qed

text \<open>Everything that sending does not change, apart from the packets themselves.\<close>

definition flow_rest :: "world \<Rightarrow> world" where
  "flow_rest w = (send_rest (bbr_rest w))\<lparr>s_retransmit_count := 0, s_pending_timer := UDX_TIMER_NONE, s_next_rto_ts := 0,
     w_timer := None, s_tb_last_refill_ms := 0\<rparr>"

lemma flow_rest_of_sends: "sends p w w' \<Longrightarrow> flow_rest w' = flow_rest w"
proof -
  assume "sends p w w'"
  then have "send_rest w' = send_rest w" by (simp add: sends_def)
  moreover have "flow_rest v = flow_rest (send_rest v)" for v by (simp add: flow_rest_def send_rest_def bbr_rest_def)
  ultimately show ?thesis by metis
qed

lemma flow_rest_of_bbr: "bbr_rest w' = bbr_rest w \<Longrightarrow> flow_rest w' = flow_rest w"
  by (simp add: flow_rest_def)

lemma flow_rest_fields:
  assumes e: "flow_rest w' = flow_rest w"
  shows "s_seq w' = s_seq w" "s_ack w' = s_ack w" "s_remote_acked w' = s_remote_acked w" "s_outgoing w' = s_outgoing w"
    "s_pkt w' = s_pkt w" "w_next_packet w' = w_next_packet w" "s_write_queue w' = s_write_queue w" "w_wbufs w' = w_wbufs w"
    "w_writes w' = w_writes w" "s_mtu w' = s_mtu w" "s_mtu_state w' = s_mtu_state w" "s_mtu_probe_wanted w' = s_mtu_probe_wanted w"
    "s_mtu_probe_count w' = s_mtu_probe_count w" "s_mtu_probe_size w' = s_mtu_probe_size w" "s_mtu_max w' = s_mtu_max w"
    "s_rto w' = s_rto w" "s_status w' = s_status w" "s_remote_addr w' = s_remote_addr w" "s_pkt_capacity w' = s_pkt_capacity w"
    "s_pkt_header_flag w' = s_pkt_header_flag w" "w_now w' = w_now w" "s_bytes_packetized w' = s_bytes_packetized w"
    "s_remote_changing w' = s_remote_changing w"
proof -
  note q = arg_cong [OF e]
  show "s_seq w' = s_seq w" "s_ack w' = s_ack w" "s_remote_acked w' = s_remote_acked w" "s_outgoing w' = s_outgoing w"
    "s_pkt w' = s_pkt w" "w_next_packet w' = w_next_packet w" "s_write_queue w' = s_write_queue w" "w_wbufs w' = w_wbufs w"
    "w_writes w' = w_writes w" "s_mtu w' = s_mtu w" "s_mtu_state w' = s_mtu_state w" "s_mtu_probe_wanted w' = s_mtu_probe_wanted w"
    "s_mtu_probe_count w' = s_mtu_probe_count w" "s_mtu_probe_size w' = s_mtu_probe_size w" "s_mtu_max w' = s_mtu_max w"
    "s_rto w' = s_rto w" "s_status w' = s_status w" "s_remote_addr w' = s_remote_addr w" "s_pkt_capacity w' = s_pkt_capacity w"
    "s_pkt_header_flag w' = s_pkt_header_flag w" "w_now w' = w_now w" "s_bytes_packetized w' = s_bytes_packetized w"
    "s_remote_changing w' = s_remote_changing w"
    using q [of s_seq] q [of s_ack] q [of s_remote_acked] q [of s_outgoing] q [of s_pkt] q [of w_next_packet] q [of s_write_queue]
      q [of w_wbufs] q [of w_writes] q [of s_mtu] q [of s_mtu_state] q [of s_mtu_probe_wanted] q [of s_mtu_probe_count]
      q [of s_mtu_probe_size] q [of s_mtu_max] q [of s_rto] q [of s_status] q [of s_remote_addr]
      q [of s_pkt_capacity] q [of s_pkt_header_flag] q [of w_now] q [of s_bytes_packetized] q [of s_remote_changing]
    by (simp_all add: flow_rest_def bbr_rest_def send_rest_def)
qed

lemma mtu_inv_flow:
  assumes e: "flow_rest w' = flow_rest w"
  shows "mtu_inv w' = mtu_inv w"
  by (intro mtu_inv_cong flow_rest_fields [OF e])

text \<open>Arming the timers.\<close>

lemma arm_timers_law:
  assumes "s_inflight_queue w \<noteq> []" "s_remote_acked w \<noteq> s_seq w" "s_rto w \<noteq> 0" "s_status w \<noteq> UDX_STREAM_CLOSED"
  shows "\<exists>w'. arm_stream_timers tlp w = Some w' \<and> (\<exists>t ts tm. w' = w\<lparr>s_pending_timer := t, s_next_rto_ts := ts, w_timer := tm\<rparr>)"
proof -
  have start: "\<exists>ts. stream_timer_start t n v = v\<lparr>s_pending_timer := t, s_next_rto_ts := ts, w_timer := Some (w_now v + ucast n)\<rparr>" for t n v
    by (intro exI [of _ "if t = UDX_TIMER_RTO then w_now v + ucast n else s_next_rto_ts v"]) (simp add: stream_timer_start_def)
  define upd where "upd = (\<lambda>v t ts tm. v\<lparr>s_pending_timer := t, s_next_rto_ts := ts, w_timer := tm\<rparr> :: world)"
  have self: "\<exists>t ts tm. v = upd v t ts tm" for v
    by (intro exI [of _ "s_pending_timer v"] exI [of _ "s_next_rto_ts v"] exI [of _ "w_timer v"]) (simp add: upd_def)
  have again: "upd (upd v t ts tm) t' ts' tm' = upd v t' ts' tm'" for v t ts tm t' ts' tm' by (simp add: upd_def)
  have start: "\<exists>t' ts tm. stream_timer_start t n v = upd v t' ts tm" for t n v
    using start [of t n v] unfolding upd_def by blast
  define w1 where "w1 = (if s_pending_timer w = UDX_TIMER_NONE \<or> s_pending_timer w = UDX_TIMER_ZWP \<or> s_pending_timer w = UDX_TIMER_KEEPALIVE
    then stream_timer_start UDX_TIMER_RTO (s_rto w) w else w)"
  have "\<exists>t ts tm. w1 = upd w t ts tm" unfolding w1_def using start [of UDX_TIMER_RTO "s_rto w" w] self [of w] by (simp split: if_split)
  then obtain t ts tm where w1: "w1 = upd w t ts tm" by blast
  have probe: "\<exists>t ts tm. snd (schedule_loss_probe False w1) = upd w1 t ts tm"
    using start [of _ _ w1] self [of w1] unfolding schedule_loss_probe_def Let_def by (simp split: if_split)
  have "\<exists>t ts tm. (if tlp \<and> s_ca_state w1 = UDX_CA_OPEN \<and> s_sacks w1 = 0 then snd (schedule_loss_probe False w1) else w1) = upd w1 t ts tm"
    using probe self [of w1] by simp
  then obtain t' ts' tm' where "(if tlp \<and> s_ca_state w1 = UDX_CA_OPEN \<and> s_sacks w1 = 0 then snd (schedule_loss_probe False w1) else w1) = upd w t' ts' tm'"
    unfolding w1 again by blast
  note res = this
  have arm: "arm_stream_timers tlp w = Some (if tlp \<and> s_ca_state w1 = UDX_CA_OPEN \<and> s_sacks w1 = 0 then snd (schedule_loss_probe False w1) else w1)"
    using assms by (simp add: arm_stream_timers_def Let_def w1_def [symmetric] word_gt_0)
  show ?thesis unfolding arm res unfolding upd_def by blast
qed

text \<open>The state the send path relies on, beside the flight.\<close>

definition path_ok :: "world \<Rightarrow> bool" where
  "path_ok w \<longleftrightarrow> mtu_inv w \<and> s_cwnd w \<noteq> 0 \<and> s_rto w \<noteq> 0 \<and> s_status w AND UDX_STREAM_DEAD = 0"

lemma not_dead_not_closed: "s AND UDX_STREAM_DEAD = 0 \<Longrightarrow> s \<noteq> UDX_STREAM_CLOSED"
  by (auto simp: stream_flag_defs)

definition resends :: "world \<Rightarrow> world \<Rightarrow> bool" where
  "resends w w' \<longleftrightarrow> flow_rest w' = flow_rest w \<and> (\<forall>q. packet_body (w_packets w q) (w_packets w' q))
     \<and> (\<forall>q. q \<notin> ran (s_outgoing w) \<longrightarrow> w_packets w' q = w_packets w q) \<and> callbacks w' = callbacks w"

lemma resends_refl [simp]: "resends w w"
  by (simp add: resends_def)

lemma resends_trans: "resends w1 w2 \<Longrightarrow> resends w2 w3 \<Longrightarrow> resends w1 w3"
proof -
  assume a: "resends w1 w2" "resends w2 w3"
  then have "s_outgoing w2 = s_outgoing w1" by (intro flow_rest_fields(4)) (simp add: resends_def)
  then show ?thesis using a by (auto simp: resends_def intro: packet_body_trans)
qed

lemma resends_bbr: "bbr_rest w' = bbr_rest w \<Longrightarrow> resends w w'"
  using flow_rest_of_bbr [of w' w] bbr_rest_more(10,22) [of w' w] by (simp add: resends_def callbacks_def)

lemma sends_callbacks: "sends p w w' \<Longrightarrow> callbacks w' = callbacks w"
  by (auto simp: sends_def callbacks_def)

lemma resends_sends: "sends p w w' \<Longrightarrow> p \<in> ran (s_outgoing w) \<Longrightarrow> resends w w'"
proof -
  assume a: "sends p w w'" "p \<in> ran (s_outgoing w)"
  have "packet_body (w_packets w q) (w_packets w' q)" for q
    using a(1) by (cases "q = p") (auto simp: sends_def packet_kept_body)
  moreover have "w_packets w' q = w_packets w q" if "q \<notin> ran (s_outgoing w)" for q
    using a that unfolding sends_def by metis
  ultimately show ?thesis using flow_rest_of_sends [OF a(1)] sends_callbacks [OF a(1)] by (simp add: resends_def)
qed

lemma path_ok_flow:
  assumes "flow_rest w' = flow_rest w" "s_cwnd w' \<noteq> 0" "path_ok w"
  shows "path_ok w'"
  using assms(2,3) mtu_inv_flow [OF assms(1)] flow_rest_fields(16,17) [OF assms(1)] by (simp add: path_ok_def)

lemma bbr_flight:
  assumes "bbr_rest w' = bbr_rest w" "flight_but hi X w"
  shows "flight_but hi X w'"
  using bbr_rest_more [OF assms(1)] by (intro flight_but_cong [OF _ _ _ _ _ _ _ assms(2)]) simp_all

lemma retransmit_packet_law:
  assumes fl: "flight_but hi {p} w" and ok: "path_ok w" and ack: "s_remote_acked w \<noteq> s_seq w"
  shows "\<exists>w'. retransmit_packet env p w = Some w' \<and> flight_but hi {} w' \<and> resends w w' \<and> path_ok w'
    \<and> s_retransmit_queue w' = remove1 p (s_retransmit_queue w) \<and> s_tb_last_refill_ms w' = s_tb_last_refill_ms w"
proof -
  have p: "p \<in> ran (s_outgoing w)" using flightD(2) [OF fl] by blast
  define pkt where "pkt = (w_packets w p)\<lparr>p_header := patch_word (env_host env) 16 (s_ack w)
    (patch_word (env_host env) 8 (get_recv_rwnd env w) (p_header (w_packets w p)))\<rparr>"
  define w0 where "w0 = w\<lparr>w_packets := (w_packets w)(p := pkt)\<rparr>"
  have fl0: "flight_but hi {p} w0"
    unfolding w0_def by (rule flight_but_upd_packet [OF fl]) (simp_all add: pkt_def)
  have mtu0: "mtu_inv w0" using ok by (simp add: w0_def path_ok_def mtu_inv_def)
  have body: "packet_body (w_packets w p) pkt" unfolding pkt_def by (rule retransmit_body)
  have r0: "resends w w0" using body p by (auto simp: resends_def callbacks_def w0_def flow_rest_def send_rest_def bbr_rest_def)
  obtain w1 where w1: "send_packet env p True w0 = Some w1" "flight_but hi {} w1" "sends p w0 w1"
    using send_packet_law [OF fl0 mtu0] by blast
  have r1: "resends w w1" using r0 resends_sends [OF w1(3)] p by (intro resends_trans [OF r0]) (simp add: w0_def)
  have last1: "s_tb_last_refill_ms w1 = s_tb_last_refill_ms w" "s_cwnd w1 = s_cwnd w"
    using sends_fields(25,23) [OF w1(3)] by (simp_all add: w0_def)
  have iq: "s_inflight_queue w1 = s_inflight_queue w @ [p]" "s_retransmit_queue w1 = remove1 p (s_retransmit_queue w)"
    using w1(3) by (simp_all add: sends_def w0_def)
  define w2 where "w2 = w1\<lparr>s_retransmit_count := s_retransmit_count w1 + 1\<rparr>"
  have fl2: "flight_but hi {} w2" by (rule flight_but_cong [OF _ _ _ _ _ _ _ w1(2)]) (simp_all add: w2_def)
  have r2: "resends w w2" by (rule resends_trans [OF r1]) (simp add: resends_def callbacks_def w2_def flow_rest_def send_rest_def bbr_rest_def)
  have ok2: "path_ok w2" using path_ok_flow [of w2 w] r2 ok last1 by (simp add: resends_def w2_def path_ok_def)
  obtain w3 where w3: "(if s_inflight_queue w = [] then bbr_on_transmit_start (w_now w2) w2 else Some w2) = Some w3"
    "bbr_rest w3 = bbr_rest w2" "s_cwnd w3 \<noteq> 0"
    using transmit_start_law [of w2 "w_now w2"] ok2 unfolding path_ok_def by (cases "s_inflight_queue w = []") auto
  note f3 = bbr_rest_more [OF w3(2)]
  have r3: "resends w w3" using resends_trans [OF r2 resends_bbr [OF w3(2)]] .
  have ok3: "path_ok w3" using path_ok_flow [OF _ w3(3) ok] r3 by (simp add: resends_def)
  have "flow_rest w3 = flow_rest w" using r3 by (simp add: resends_def)
  note g3 = flow_rest_fields [OF this]
  have arm: "s_inflight_queue w3 \<noteq> []" "s_remote_acked w3 \<noteq> s_seq w3" "s_rto w3 \<noteq> 0" "s_status w3 \<noteq> UDX_STREAM_CLOSED"
    using f3(24) iq(1) ack g3(1,3) ok3 not_dead_not_closed by (simp_all add: w2_def path_ok_def)
  obtain t ts tm where w4: "arm_stream_timers False w3 = Some (w3\<lparr>s_pending_timer := t, s_next_rto_ts := ts, w_timer := tm\<rparr>)" (is "_ = Some ?w4")
    using arm_timers_law [OF arm] by blast
  have r4: "resends w3 ?w4" by (simp add: resends_def callbacks_def flow_rest_def send_rest_def bbr_rest_def)
  have "flight_but hi {} w3" by (rule bbr_flight [OF w3(2) fl2])
  then have fl4: "flight_but hi {} ?w4" by (rule flight_but_cong [rotated 7]) simp_all
  have ok4: "path_ok ?w4" using ok3 by (simp add: path_ok_def mtu_inv_def)
  have q4: "s_retransmit_queue ?w4 = remove1 p (s_retransmit_queue w)" "s_tb_last_refill_ms ?w4 = s_tb_last_refill_ms w"
    using f3(11,19) iq(2) last1(1) by (simp_all add: w2_def)
  have "retransmit_packet env p w = Some ?w4"
    using w1(1) w3(1) [unfolded w2_def] w4 by (simp add: retransmit_packet_def Let_def w0_def pkt_def split: if_splits)
  then show ?thesis using fl4 ok4 q4 resends_trans [OF r3 r4] by blast
qed

text \<open>The loop over the retransmission queue: it ends, because each round takes a packet out of it.\<close>

lemma flight_head:
  assumes fl: "flight_but hi {} w" and p: "p \<in> set (s_retransmit_queue w)"
  shows "flight_but hi {p} w"
proof -
  have r: "p \<in> ran (s_outgoing w)" "p \<notin> set (s_inflight_queue w)" using flight_mem(2) [OF fl p] by auto
  have "p_ref_count (w_packets w p) = 1" using packet_okD(6,7) [OF flight_ranE(2) [OF fl r(1)]] p by blast
  then show ?thesis using r flightD [OF fl] by (intro flightI) auto
qed

lemma send_retransmits_law:
  assumes "flight_but hi {} w" "path_ok w" "pace_ready w" "s_remote_acked w = s_seq w \<longrightarrow> s_retransmit_queue w = []"
  shows "\<exists>w'. send_retransmits env w = Some w' \<and> flight_but hi {} w' \<and> resends w w' \<and> path_ok w' \<and> pace_ready w'"
  using assms
proof (induction "length (s_retransmit_queue w)" arbitrary: w rule: less_induct)
  case less
  show ?case
  proof (cases "s_retransmit_queue w")
    case Nil
    then show ?thesis using less.prems by (subst send_retransmits.simps) simp
  next
    case (Cons p rest)
    have "mtu_inv w" "s_cwnd w \<noteq> 0" using less.prems(2) by (simp_all add: path_ok_def)
    from may_send_law [OF this less.prems(3), of True]
    obtain b t l where may: "stream_may_send True w = Some (b, w\<lparr>s_tb_available := t, s_tb_last_refill_ms := l\<rparr>)" (is "_ = Some (b, ?w1)")
      and l: "w_now w \<le> l"
      by blast
    have fl1: "flight_but hi {} ?w1" by (rule flight_but_cong [OF _ _ _ _ _ _ _ less.prems(1)]) simp_all
    have ok1: "path_ok ?w1" using less.prems(2) by (simp add: path_ok_def mtu_inv_def)
    have r1: "resends w ?w1" by (simp add: resends_def callbacks_def flow_rest_def send_rest_def bbr_rest_def)
    have pr1: "pace_ready ?w1" using l by (simp add: pace_ready_def not_less [symmetric])
    show ?thesis
    proof (cases b)
      case False
      then show ?thesis using fl1 ok1 r1 pr1 Cons may by (subst send_retransmits.simps) simp
    next
      case True
      have "flight_but hi {p} ?w1" using flight_head [OF fl1, of p] Cons by simp
      then obtain w2 where w2: "retransmit_packet env p ?w1 = Some w2" "flight_but hi {} w2" "resends ?w1 w2" "path_ok w2"
        "s_retransmit_queue w2 = rest" "s_tb_last_refill_ms w2 = l"
        using retransmit_packet_law [OF _ ok1, of hi p] less.prems(4) Cons by auto
      have f2: "w_now w2 = w_now w" "s_remote_acked w2 = s_remote_acked w" "s_seq w2 = s_seq w"
        using w2(3) flow_rest_fields(1,3,21) [of w2 ?w1] by (simp_all add: resends_def)
      have "length (s_retransmit_queue w2) < length (s_retransmit_queue w)" using w2(5) Cons by simp
      moreover have "pace_ready w2" using l f2(1) w2(6) by (simp add: pace_ready_def not_less [symmetric])
      moreover have "s_remote_acked w2 = s_seq w2 \<longrightarrow> s_retransmit_queue w2 = []" using less.prems(4) f2 Cons by simp
      ultimately obtain w' where w': "send_retransmits env w2 = Some w'" "flight_but hi {} w'" "resends w2 w'" "path_ok w'" "pace_ready w'"
        using less.hyps [OF _ w2(2,4)] by blast
      have "send_retransmits env w = Some w'"
        using Cons may True w2(1) w'(1) by (subst send_retransmits.simps) simp
      then show ?thesis using w'(2,4,5) resends_trans [OF resends_trans [OF r1 w2(3)] w'(3)] by blast
    qed
  qed
qed

end
