(* ===== verification/Udx_Sender.thy ===== *)
theory Udx_Sender
  imports Udx_Flight
begin

text \<open>
  The sender: filling packets from the queued write buffers (the loop of \<open>send_new_packet\<close>), finishing and sending the
  packet under construction (\<open>_send_new_packet\<close>) and the loops of \<open>send_packets\<close>.  Shown: from a state that meets the
  invariants, \<open>send_packets\<close> returns, passes every assertion, keeps the invariants, and the packets it emits
  carry consecutive numbers and exactly the next bytes that were queued, in order, each byte once.  The measure of
  the loops is the number of bytes and buffers that are still queued.
\<close>

section \<open>What is still to be sent\<close>

text \<open>The bytes of a write buffer that are already in packets, the bytes that are not, and the payload of the packet under
  construction.\<close>

definition wb_done :: "udx_stream_write_buf \<Rightarrow> nat" where
  "wb_done wb = unat (wb_bytes_acked wb) + unat (wb_bytes_inflight wb)"

definition wb_left :: "udx_stream_write_buf \<Rightarrow> u8 list" where
  "wb_left wb = drop (wb_done wb) (wb_buf wb)"

definition unsent :: "world \<Rightarrow> u8 list" where
  "unsent w = concat (map (\<lambda>b. wb_left (w_wbufs w b)) (s_write_queue w))"

definition pending :: "world \<Rightarrow> u8 list" where
  "pending w = packet_payload w (w_packets w (s_pkt w))"

definition wbuf_ok :: "udx_stream_write_buf \<Rightarrow> bool" where
  "wbuf_ok wb \<longleftrightarrow> wb_done wb \<le> length (wb_buf wb) \<and> length (wb_buf wb) < 2 ^ 64"

text \<open>The queue of writes and the packet under construction fit together.\<close>

definition remote_ok :: "world \<Rightarrow> bool" where
  "remote_ok w \<longleftrightarrow> sa_family (s_remote_addr w) = AF_INET \<or> sa_family (s_remote_addr w) = AF_INET6"

definition building :: "world \<Rightarrow> bool" where
  "building w \<longleftrightarrow>
     (let pkt = w_packets w (s_pkt w) in
      distinct (s_write_queue w) \<and> (\<forall>b \<in> set (s_write_queue w). wbuf_ok (w_wbufs w b))
      \<and> s_pkt w < w_next_packet w
      \<and> 20 \<le> uint (p_size pkt) \<and> uint (p_size pkt) + uint (s_pkt_capacity w) \<le> 1472
      \<and> \<not> p_lost pkt \<and> \<not> p_is_mtu_probe pkt
      \<and> s_pkt_header_flag w AND NOT UDX_HEADER_DATA_OR_END = 0
      \<and> (if has_flag (s_pkt_header_flag w) UDX_HEADER_DATA
         then sa_family (p_remote_addr pkt) = AF_INET \<or> sa_family (p_remote_addr pkt) = AF_INET6
         else p_remote_addr_len pkt = 0 \<and> pending w = []))"

text \<open>Between calls the packet under construction has room and does not end the stream, and the prepare handle runs only
  when it carries data.\<close>

definition resting :: "world \<Rightarrow> bool" where
  "resting w \<longleftrightarrow> s_pkt_capacity w \<noteq> 0 \<and> \<not> has_flag (s_pkt_header_flag w) UDX_HEADER_END
     \<and> (w_prepare w \<longrightarrow> has_flag (s_pkt_header_flag w) UDX_HEADER_DATA)"

definition send_work :: "world \<Rightarrow> nat" where
  "send_work w = length (unsent w) + length (s_write_queue w)"

section \<open>Filling a packet\<close>

lemma wb_done_unat:
  assumes "wbuf_ok wb"
  shows "unat (wb_bytes_acked wb + wb_bytes_inflight wb) = wb_done wb"
    and "unat (of_nat (length (wb_buf wb)) - wb_bytes_acked wb - wb_bytes_inflight wb :: u64) = length (wb_left wb)"
    and "unat (of_nat (length (wb_buf wb)) :: u64) = length (wb_buf wb)"
proof -
  have b: "wb_done wb \<le> length (wb_buf wb)" "length (wb_buf wb) < 2 ^ 64" using assms by (simp_all add: wbuf_ok_def)
  show u: "unat (of_nat (length (wb_buf wb)) :: u64) = length (wb_buf wb)"
    using b(2) by (simp add: unat_of_nat)
  show a: "unat (wb_bytes_acked wb + wb_bytes_inflight wb) = wb_done wb"
    using b unfolding wb_done_def by (subst unat_plus_simple [THEN iffD1]) (simp_all add: no_olen_add_nat)
  have "unat (of_nat (length (wb_buf wb)) - (wb_bytes_acked wb + wb_bytes_inflight wb) :: u64)
      = unat (of_nat (length (wb_buf wb)) :: u64) - unat (wb_bytes_acked wb + wb_bytes_inflight wb)"
    using a u b(1) by (subst unat_sub) (simp_all add: word_le_nat_alt)
  then show "unat (of_nat (length (wb_buf wb)) - wb_bytes_acked wb - wb_bytes_inflight wb :: u64) = length (wb_left wb)"
    using a u by (simp add: wb_left_def diff_diff_eq)
qed

text \<open>Taking \<open>n\<close> bytes of a write buffer into a packet.\<close>

lemma take_left:
  assumes ok: "wbuf_ok wb" and n: "unat n \<le> length (wb_left wb)"
  shows "wb_left wb = take (unat n) (wb_left wb) @ wb_left (wb\<lparr>wb_bytes_inflight := wb_bytes_inflight wb + n\<rparr>)"
    and "wbuf_ok (wb\<lparr>wb_bytes_inflight := wb_bytes_inflight wb + n\<rparr>)"
    and "(wb_bytes_acked wb + (wb_bytes_inflight wb + n) = of_nat (length (wb_buf wb)))
      \<longleftrightarrow> wb_left (wb\<lparr>wb_bytes_inflight := wb_bytes_inflight wb + n\<rparr>) = []"
proof -
  let ?wb = "wb\<lparr>wb_bytes_inflight := wb_bytes_inflight wb + n\<rparr>"
  have b: "wb_done wb + unat n \<le> length (wb_buf wb)" "length (wb_buf wb) < 2 ^ 64"
    using n ok by (auto simp: wb_left_def wbuf_ok_def)
  then have "unat (wb_bytes_inflight wb + n) = unat (wb_bytes_inflight wb) + unat n"
    unfolding wb_done_def by (subst unat_plus_simple [THEN iffD1]) (simp_all add: no_olen_add_nat)
  then have d: "wb_done ?wb = wb_done wb + unat n" by (simp add: wb_done_def)
  then show ok': "wbuf_ok ?wb" using b by (simp add: wbuf_ok_def)
  have "wb_left ?wb = drop (unat n) (wb_left wb)" by (simp only: wb_left_def d drop_drop add.commute [of "unat n"]) simp
  then show "wb_left wb = take (unat n) (wb_left wb) @ wb_left ?wb" by simp
  have "(wb_bytes_acked wb + (wb_bytes_inflight wb + n) = of_nat (length (wb_buf wb))) \<longleftrightarrow> wb_done ?wb = length (wb_buf wb)"
    using wb_done_unat(1,3) [OF ok'] by (simp add: word_unat_eq_iff)
  then show "(wb_bytes_acked wb + (wb_bytes_inflight wb + n) = of_nat (length (wb_buf wb))) \<longleftrightarrow> wb_left ?wb = []"
    using ok' by (auto simp: wb_left_def wbuf_ok_def)
qed

text \<open>The rounds of the loop do not touch anything but the packet, the first buffer and the queue.\<close>

definition fill_rest :: "world \<Rightarrow> world" where
  "fill_rest w = w\<lparr>s_bytes_packetized := 0, s_pkt_capacity := 0, s_pkt_header_flag := 0, s_write_queue := [],
     w_packets := (w_packets w)(s_pkt w := empty_packet), w_wbufs := undefined\<rparr>"

lemma fill_rest_ops:
  "fill_rest (fill_append b n w) = fill_rest w"
  "fill_data_flag n w = Some w' \<Longrightarrow> fill_rest w' = fill_rest w"
  "fill_settle b w = Some w' \<Longrightarrow> fill_rest w' = fill_rest w"
  by (auto simp: fill_rest_def fill_append_def fill_data_flag_def fill_settle_def bind_packet_remote_def Let_def
      bind_eq_Some_conv split: if_splits)

text \<open>A slice stands for the bytes of its buffer, whatever happens to the buffer's counters.\<close>

definition same_bufs :: "world \<Rightarrow> world \<Rightarrow> bool" where
  "same_bufs w w' \<longleftrightarrow> (\<forall>b. wb_buf (w_wbufs w' b) = wb_buf (w_wbufs w b))"

lemma payload_same_bufs: "same_bufs w w' \<Longrightarrow> p_slices pkt' = p_slices pkt \<Longrightarrow> packet_payload w' pkt' = packet_payload w pkt"
  by (simp add: packet_payload_def slice_bytes_def same_bufs_def cong: map_cong)

lemma append_same_bufs: "same_bufs w (fill_append b n w)"
  by (simp add: same_bufs_def fill_append_def Let_def)

lemma flag_masks:
  fixes f :: u8
  assumes "f AND NOT UDX_HEADER_DATA_OR_END = 0"
  shows "(f OR UDX_HEADER_DATA) AND NOT UDX_HEADER_DATA_OR_END = 0" "(f OR UDX_HEADER_END) AND NOT UDX_HEADER_DATA_OR_END = 0"
    "has_flag (f OR UDX_HEADER_DATA) UDX_HEADER_DATA" "has_flag (f OR UDX_HEADER_END) UDX_HEADER_DATA \<longleftrightarrow> has_flag f UDX_HEADER_DATA"
proof -
  have c: "UDX_HEADER_DATA AND NOT UDX_HEADER_DATA_OR_END = 0" "UDX_HEADER_END AND NOT UDX_HEADER_DATA_OR_END = 0"
    "UDX_HEADER_DATA AND UDX_HEADER_DATA = 1" "UDX_HEADER_END AND UDX_HEADER_DATA = 0"
    by (simp_all add: header_flag_defs)
  show "(f OR UDX_HEADER_DATA) AND NOT UDX_HEADER_DATA_OR_END = 0" "(f OR UDX_HEADER_END) AND NOT UDX_HEADER_DATA_OR_END = 0"
    "has_flag (f OR UDX_HEADER_END) UDX_HEADER_DATA \<longleftrightarrow> has_flag f UDX_HEADER_DATA"
    using assms c by (simp_all add: bit.conj_disj_distrib2)
  have "(f OR UDX_HEADER_DATA) AND UDX_HEADER_DATA = UDX_HEADER_DATA" by simp
  then show "has_flag (f OR UDX_HEADER_DATA) UDX_HEADER_DATA" by (simp add: header_flag_defs)
qed

text \<open>Appending a slice moves its bytes from the buffer to the packet.\<close>

lemma append_law:
  assumes b: "building w" and q: "s_write_queue w = b # rest" and n: "unat n \<le> unat (s_pkt_capacity w)" "unat n \<le> length (wb_left (w_wbufs w b))"
  defines "w1 \<equiv> fill_append b n w"
  shows "pending w1 = pending w @ take (unat n) (wb_left (w_wbufs w b))"
    and "wb_left (w_wbufs w b) = take (unat n) (wb_left (w_wbufs w b)) @ wb_left (w_wbufs w1 b)"
    and "\<And>c. c \<noteq> b \<Longrightarrow> w_wbufs w1 c = w_wbufs w c"
    and "\<forall>c \<in> set (s_write_queue w1). wbuf_ok (w_wbufs w1 c)"
    and "20 \<le> uint (p_size (w_packets w1 (s_pkt w1)))"
      "uint (p_size (w_packets w1 (s_pkt w1))) + uint (s_pkt_capacity w1) \<le> 1472"
proof -
  have ok: "wbuf_ok (w_wbufs w b)" "\<forall>c \<in> set (s_write_queue w). wbuf_ok (w_wbufs w c)"
    using b q by (auto simp: building_def Let_def)
  note t = take_left [OF ok(1) n(2)]
  have bufs: "w_wbufs w1 = (w_wbufs w)(b := (w_wbufs w b)\<lparr>wb_bytes_inflight := wb_bytes_inflight (w_wbufs w b) + n\<rparr>)"
    by (simp add: w1_def fill_append_def Let_def)
  have sl: "p_slices (w_packets w1 (s_pkt w1)) = p_slices (w_packets w (s_pkt w))
      @ [\<lparr>sl_wbuf = b, sl_off = wb_bytes_acked (w_wbufs w b) + wb_bytes_inflight (w_wbufs w b), sl_len = n\<rparr>]"
    by (simp add: w1_def fill_append_def Let_def)
  have sb: "same_bufs w w1" unfolding w1_def by (rule append_same_bufs)
  have "slice_bytes w1 \<lparr>sl_wbuf = b, sl_off = wb_bytes_acked (w_wbufs w b) + wb_bytes_inflight (w_wbufs w b), sl_len = n\<rparr>
      = take (unat n) (wb_left (w_wbufs w b))"
    using wb_done_unat(1) [OF ok(1)] sb by (simp add: slice_bytes_def wb_left_def same_bufs_def)
  moreover have "slice_bytes w1 sl = slice_bytes w sl" for sl using sb by (simp add: slice_bytes_def same_bufs_def)
  ultimately show "pending w1 = pending w @ take (unat n) (wb_left (w_wbufs w b))"
    by (simp add: pending_def packet_payload_def sl cong: map_cong)
  show "wb_left (w_wbufs w b) = take (unat n) (wb_left (w_wbufs w b)) @ wb_left (w_wbufs w1 b)"
    using t(1) by (simp add: bufs)
  show "w_wbufs w1 c = w_wbufs w c" if "c \<noteq> b" for c using that by (simp add: bufs)
  have "s_write_queue w1 = s_write_queue w" by (simp add: w1_def fill_append_def Let_def)
  then show "\<forall>c \<in> set (s_write_queue w1). wbuf_ok (w_wbufs w1 c)" using ok t(2) by (simp add: bufs)
  have sz: "20 \<le> uint (p_size (w_packets w (s_pkt w)))" "uint (p_size (w_packets w (s_pkt w))) + uint (s_pkt_capacity w) \<le> 1472"
    using b by (simp_all add: building_def Let_def)
  have un: "uint (ucast n :: u16) = uint n" "uint n \<le> uint (s_pkt_capacity w)"
  proof -
    show l: "uint n \<le> uint (s_pkt_capacity w)" using n(1) by (metis of_nat_le_iff uint_nat)
    have "uint n < 65536" using l uint_bounded [of "s_pkt_capacity w"] by simp
    then show "uint (ucast n :: u16) = uint n" by (simp add: unsigned_ucast_eq take_bit_int_eq_self)
  qed
  have e: "p_size (w_packets w1 (s_pkt w1)) = p_size (w_packets w (s_pkt w)) + ucast n" "s_pkt_capacity w1 = s_pkt_capacity w - ucast n"
    by (simp_all add: w1_def fill_append_def Let_def)
  have p: "uint (p_size (w_packets w (s_pkt w)) + ucast n) = uint (p_size (w_packets w (s_pkt w))) + uint n"
    using sz un uint_bounded [of n] by (simp add: uint_plus_if')
  have c: "uint (s_pkt_capacity w - ucast n) = uint (s_pkt_capacity w) - uint n"
    using un by (simp add: uint_sub_if')
  have "0 \<le> uint n" by (rule unsigned_greater_eq)
  with sz show "20 \<le> uint (p_size (w_packets w1 (s_pkt w1)))"
      "uint (p_size (w_packets w1 (s_pkt w1))) + uint (s_pkt_capacity w1) \<le> 1472"
    unfolding e p c by linarith+
qed

lemma data_flag_law:
  assumes r: "remote_ok w" and b: "s_pkt_header_flag w AND NOT UDX_HEADER_DATA_OR_END = 0"
    and d: "if has_flag (s_pkt_header_flag w) UDX_HEADER_DATA
       then sa_family (p_remote_addr (w_packets w (s_pkt w))) = AF_INET \<or> sa_family (p_remote_addr (w_packets w (s_pkt w))) = AF_INET6
       else p_remote_addr_len (w_packets w (s_pkt w)) = 0 \<and> (n = 0 \<longrightarrow> pending w = [])"
  shows "\<exists>w'. fill_data_flag n w = Some w' \<and> s_pkt_header_flag w' AND NOT UDX_HEADER_DATA_OR_END = 0
    \<and> (if has_flag (s_pkt_header_flag w') UDX_HEADER_DATA
       then sa_family (p_remote_addr (w_packets w' (s_pkt w))) = AF_INET \<or> sa_family (p_remote_addr (w_packets w' (s_pkt w))) = AF_INET6
       else p_remote_addr_len (w_packets w' (s_pkt w)) = 0 \<and> pending w' = [])
    \<and> (\<exists>pkt fl. w' = w\<lparr>s_pkt_header_flag := fl, w_packets := (w_packets w)(s_pkt w := pkt)\<rparr>
        \<and> p_size pkt = p_size (w_packets w (s_pkt w)) \<and> p_slices pkt = p_slices (w_packets w (s_pkt w))
        \<and> p_lost pkt = p_lost (w_packets w (s_pkt w)) \<and> p_is_mtu_probe pkt = p_is_mtu_probe (w_packets w (s_pkt w))
        \<and> (has_flag fl UDX_HEADER_DATA \<longleftrightarrow> has_flag (s_pkt_header_flag w) UDX_HEADER_DATA \<or> n \<noteq> 0))"
proof (cases "n > 0 \<and> \<not> has_flag (s_pkt_header_flag w) UDX_HEADER_DATA")
  case True
  define pkt where "pkt = (w_packets w (s_pkt w))\<lparr>p_remote_id := s_remote_id w, p_remote_addr := s_remote_addr w, p_remote_addr_len := s_remote_addr_len w\<rparr>"
  let ?w = "w\<lparr>s_pkt_header_flag := s_pkt_header_flag w OR UDX_HEADER_DATA, w_packets := (w_packets w)(s_pkt w := pkt)\<rparr>"
  have "fill_data_flag n w = Some ?w" using True d by (simp add: fill_data_flag_def bind_packet_remote_def pkt_def)
  moreover have "sa_family (p_remote_addr pkt) = AF_INET \<or> sa_family (p_remote_addr pkt) = AF_INET6"
    using r by (simp add: remote_ok_def pkt_def)
  moreover have "p_size pkt = p_size (w_packets w (s_pkt w))" "p_slices pkt = p_slices (w_packets w (s_pkt w))"
    "p_lost pkt = p_lost (w_packets w (s_pkt w))" "p_is_mtu_probe pkt = p_is_mtu_probe (w_packets w (s_pkt w))"
    by (simp_all add: pkt_def)
  ultimately show ?thesis using flag_masks(1,3) [OF b] True
    by (intro exI [of _ ?w] conjI exI [of _ pkt] exI [of _ "s_pkt_header_flag w OR UDX_HEADER_DATA"]) (simp_all add: word_gt_0)
next
  case False
  have "fill_data_flag n w = Some w" by (simp only: fill_data_flag_def False if_False)
  moreover have "w = w\<lparr>s_pkt_header_flag := s_pkt_header_flag w, w_packets := (w_packets w)(s_pkt w := w_packets w (s_pkt w))\<rparr>" by simp
  ultimately show ?thesis using b d False
    by (intro exI [of _ w] conjI exI [of _ "w_packets w (s_pkt w)"] exI [of _ "s_pkt_header_flag w"]) (auto simp: word_gt_0)
qed

lemma settle_law:
  assumes q: "s_write_queue w = b # rest" and ok: "wbuf_ok (w_wbufs w b)" and m: "s_pkt_header_flag w AND NOT UDX_HEADER_DATA_OR_END = 0"
  shows "\<exists>fl. fill_settle b w = Some (w\<lparr>s_pkt_header_flag := fl, s_write_queue := (if wb_left (w_wbufs w b) = [] then rest else b # rest)\<rparr>)
    \<and> fl AND NOT UDX_HEADER_DATA_OR_END = 0 \<and> (has_flag fl UDX_HEADER_DATA \<longleftrightarrow> has_flag (s_pkt_header_flag w) UDX_HEADER_DATA)"
proof -
  have full: "(wb_bytes_acked (w_wbufs w b) + wb_bytes_inflight (w_wbufs w b) = of_nat (length (wb_buf (w_wbufs w b)))) \<longleftrightarrow> wb_left (w_wbufs w b) = []"
    using wb_done_unat(1,3) [OF ok] ok by (auto simp: word_unat_eq_iff wb_left_def wbuf_ok_def)
  show ?thesis
  proof (cases "wb_left (w_wbufs w b) = []")
    case False
    have "w = w\<lparr>s_pkt_header_flag := s_pkt_header_flag w, s_write_queue := b # rest\<rparr>" by (simp flip: q)
    then show ?thesis using False full m by (intro exI [of _ "s_pkt_header_flag w"]) (simp add: fill_settle_def Let_def)
  next
    case True
    have same: "w\<lparr>s_write_queue := rest\<rparr> = w\<lparr>s_pkt_header_flag := s_pkt_header_flag w, s_write_queue := rest\<rparr>" by simp
    show ?thesis
    proof (cases "wb_is_write_end (w_wbufs w b)")
      case wend: True
      then show ?thesis using True full m q flag_masks(2,4) [OF m]
        by (intro exI [of _ "s_pkt_header_flag w OR UDX_HEADER_END"]) (simp add: fill_settle_def Let_def lq_shift_def)
    next
      case False
      then show ?thesis using True full m q same
        by (intro exI [of _ "s_pkt_header_flag w"]) (simp add: fill_settle_def Let_def lq_shift_def)
    qed
  qed
qed

lemma data_flag_refs: "fill_data_flag n w = Some w' \<Longrightarrow> p_ref_count (w_packets w' p) = p_ref_count (w_packets w p)"
  by (auto simp: fill_data_flag_def bind_packet_remote_def bind_eq_Some_conv split: if_splits)

text \<open>One round keeps what is to be sent, and leaves less work.\<close>

lemma fill_step_law:
  assumes bw: "building w" and r: "remote_ok w" and q: "s_write_queue w \<noteq> []" and cap: "s_pkt_capacity w \<noteq> 0"
  shows "\<exists>w'. fill_step w = Some w' \<and> building w' \<and> pending w' @ unsent w' = pending w @ unsent w
    \<and> send_work w' < send_work w \<and> fill_rest w' = fill_rest w \<and> same_bufs w w'
    \<and> (s_pkt w \<notin> ran (s_outgoing w) \<longrightarrow> keeps_account w w')
    \<and> (has_flag (s_pkt_header_flag w') UDX_HEADER_DATA \<or>
        \<not> has_flag (s_pkt_header_flag w) UDX_HEADER_DATA \<and> s_pkt_capacity w' = s_pkt_capacity w)"
proof -
  obtain b rest where q: "s_write_queue w = b # rest" using q by (cases "s_write_queue w") auto
  have ok: "wbuf_ok (w_wbufs w b)" and d: "b \<notin> set rest" "distinct rest" using bw q by (auto simp: building_def Let_def)
  define n where "n = min_uint64 (ucast (s_pkt_capacity w))
      (of_nat (length (wb_buf (w_wbufs w b))) - wb_bytes_acked (w_wbufs w b) - wb_bytes_inflight (w_wbufs w b))"
  have ucap: "unat (ucast (s_pkt_capacity w) :: u64) = unat (s_pkt_capacity w)" 
  proof -
    have "unat (s_pkt_capacity w) < 65536" using unsigned_less [of "s_pkt_capacity w"] by simp
    then have "unat (s_pkt_capacity w) < 2 ^ 64" by simp
    then show ?thesis by (simp add: unsigned_ucast_eq take_bit_nat_eq_self)
  qed
  have n: "unat n = min (unat (s_pkt_capacity w)) (length (wb_left (w_wbufs w b)))"
    unfolding n_def min_uint64_eq min_def using wb_done_unat(2) [OF ok] ucap by (simp add: word_le_nat_alt)
  define w1 where "w1 = fill_append b n w"
  have nle: "unat n \<le> unat (s_pkt_capacity w)" "unat n \<le> length (wb_left (w_wbufs w b))" using n by simp_all
  note a = append_law [OF bw q nle, folded w1_def]
  have f1: "s_write_queue w1 = b # rest" "s_pkt w1 = s_pkt w" "s_pkt_header_flag w1 = s_pkt_header_flag w" "w_next_packet w1 = w_next_packet w"
    "s_remote_addr w1 = s_remote_addr w" "p_lost (w_packets w1 (s_pkt w)) = p_lost (w_packets w (s_pkt w))"
    "p_is_mtu_probe (w_packets w1 (s_pkt w)) = p_is_mtu_probe (w_packets w (s_pkt w))"
    "p_remote_addr (w_packets w1 (s_pkt w)) = p_remote_addr (w_packets w (s_pkt w))"
    "p_remote_addr_len (w_packets w1 (s_pkt w)) = p_remote_addr_len (w_packets w (s_pkt w))"
    using q by (simp_all add: w1_def fill_append_def Let_def)
  have bld: "s_pkt_header_flag w AND NOT UDX_HEADER_DATA_OR_END = 0" "s_pkt w < w_next_packet w"
    "\<not> p_lost (w_packets w (s_pkt w))" "\<not> p_is_mtu_probe (w_packets w (s_pkt w))"
    "if has_flag (s_pkt_header_flag w) UDX_HEADER_DATA
         then sa_family (p_remote_addr (w_packets w (s_pkt w))) = AF_INET \<or> sa_family (p_remote_addr (w_packets w (s_pkt w))) = AF_INET6
         else p_remote_addr_len (w_packets w (s_pkt w)) = 0 \<and> pending w = []"
    using bw by (simp_all add: building_def Let_def)
  have r1: "remote_ok w1" using r f1 by (simp add: remote_ok_def)
  have m1: "s_pkt_header_flag w1 AND NOT UDX_HEADER_DATA_OR_END = 0" using bld(1) f1(3) by simp
  have d1: "if has_flag (s_pkt_header_flag w1) UDX_HEADER_DATA
       then sa_family (p_remote_addr (w_packets w1 (s_pkt w1))) = AF_INET \<or> sa_family (p_remote_addr (w_packets w1 (s_pkt w1))) = AF_INET6
       else p_remote_addr_len (w_packets w1 (s_pkt w1)) = 0 \<and> (n = 0 \<longrightarrow> pending w1 = [])"
    using bld(5) unfolding f1 a(1) by (simp split: if_splits)
  obtain w2 pkt fl where w2: "fill_data_flag n w1 = Some w2" "s_pkt_header_flag w2 AND NOT UDX_HEADER_DATA_OR_END = 0"
    "if has_flag (s_pkt_header_flag w2) UDX_HEADER_DATA
       then sa_family (p_remote_addr (w_packets w2 (s_pkt w1))) = AF_INET \<or> sa_family (p_remote_addr (w_packets w2 (s_pkt w1))) = AF_INET6
       else p_remote_addr_len (w_packets w2 (s_pkt w1)) = 0 \<and> pending w2 = []"
    "w2 = w1\<lparr>s_pkt_header_flag := fl, w_packets := (w_packets w1)(s_pkt w1 := pkt)\<rparr>"
    "p_size pkt = p_size (w_packets w1 (s_pkt w1))" "p_slices pkt = p_slices (w_packets w1 (s_pkt w1))"
    "p_lost pkt = p_lost (w_packets w1 (s_pkt w1))" "p_is_mtu_probe pkt = p_is_mtu_probe (w_packets w1 (s_pkt w1))"
    "has_flag fl UDX_HEADER_DATA \<longleftrightarrow> has_flag (s_pkt_header_flag w1) UDX_HEADER_DATA \<or> n \<noteq> 0"
    using data_flag_law [OF r1 m1 d1] by blast
  obtain fl' where w3: "fill_settle b w2 = Some (w2\<lparr>s_pkt_header_flag := fl', s_write_queue := (if wb_left (w_wbufs w2 b) = [] then rest else b # rest)\<rparr>)"
    "fl' AND NOT UDX_HEADER_DATA_OR_END = 0" "has_flag fl' UDX_HEADER_DATA \<longleftrightarrow> has_flag (s_pkt_header_flag w2) UDX_HEADER_DATA"
    using settle_law [of w2 b rest] w2(2,4) f1(1) a(4) by auto
  let ?w = "w2\<lparr>s_pkt_header_flag := fl', s_write_queue := (if wb_left (w_wbufs w2 b) = [] then rest else b # rest)\<rparr>"
  have pay: "packet_payload w2 pkt = packet_payload w1 (w_packets w1 (s_pkt w1))" "packet_payload ?w pkt = packet_payload w2 pkt"
    using w2(6) by (intro payload_same_bufs; simp add: same_bufs_def w2(4))+
  then have p: "pending ?w = pending w2" "pending w2 = pending w1" by (simp_all add: pending_def w2(4))
  have bufs: "w_wbufs ?w = w_wbufs w1" "w_wbufs w2 = w_wbufs w1" by (simp_all add: w2(4))
  define left where "left = wb_left (w_wbufs w1 b)"
  have others: "map (\<lambda>c. wb_left (w_wbufs w1 c)) rest = map (\<lambda>c. wb_left (w_wbufs w c)) rest"
    using d(1) a(3) by (intro map_cong refl) metis
  have uw: "unsent w = wb_left (w_wbufs w b) @ concat (map (\<lambda>c. wb_left (w_wbufs w c)) rest)" by (simp add: unsent_def q)
  have uw': "unsent ?w = left @ concat (map (\<lambda>c. wb_left (w_wbufs w c)) rest)"
    unfolding others [symmetric] by (simp add: unsent_def bufs left_def)
  have flow: "pending ?w @ unsent ?w = pending w @ unsent w"
    unfolding uw uw' p a(1) left_def by (subst (2) a(2)) simp
  have "building ?w"
  proof -
    have "\<forall>c \<in> set (s_write_queue ?w). wbuf_ok (w_wbufs ?w c)" using a(4) f1(1) by (auto simp: bufs(2) split: if_splits)
    moreover have "distinct (s_write_queue ?w)" using d by simp
    moreover have "w_packets ?w (s_pkt ?w) = pkt" "s_pkt ?w = s_pkt w" "s_pkt_capacity ?w = s_pkt_capacity w1"
      "w_next_packet ?w = w_next_packet w" "s_pkt_header_flag ?w = fl'"
      by (simp_all add: w2(4) f1)
    moreover have "w_packets w2 (s_pkt w1) = pkt" by (simp add: w2(4))
    ultimately show ?thesis
      using a(5,6) w2(3,5,7,8) w3(2,3) bld(2-4) f1 p by (simp add: building_def Let_def split: if_splits)
  qed
  moreover have sw: "send_work ?w = length left + length (concat (map (\<lambda>c. wb_left (w_wbufs w c)) rest)) + (if left = [] then length rest else Suc (length rest))"
    unfolding send_work_def uw' by (simp add: bufs left_def)
  moreover have "send_work ?w < send_work w"
  proof (cases "left = []")
    case True
    then show ?thesis unfolding sw by (simp add: send_work_def uw q)
  next
    case False
    then have "unat n < length (wb_left (w_wbufs w b))" using arg_cong [OF a(2), of length] nle(2) by (simp add: left_def min_absorb2)
    then have "0 < unat n" using n cap by (simp add: unat_gt_0 word_gt_0 min_def split: if_splits)
    then have "length left < length (wb_left (w_wbufs w b))" using arg_cong [OF a(2), of length] nle(2) by (simp add: left_def min_absorb2)
    then show ?thesis using False unfolding sw by (simp add: send_work_def uw q)
  qed
  moreover have "fill_step w = Some ?w"
    unfolding fill_step_def q list.case Let_def n_def [symmetric] w1_def [symmetric] using w2(1) w3(1) by simp
  moreover have "fill_rest ?w = fill_rest w"
    using fill_rest_ops(1) [of b n w] fill_rest_ops(2) [OF w2(1)] fill_rest_ops(3) [OF w3(1)] by (simp add: w1_def)
  moreover have "same_bufs w ?w" using append_same_bufs [of w b n] by (simp add: same_bufs_def bufs w1_def)
  moreover have "keeps_account w ?w" if "s_pkt w \<notin> ran (s_outgoing w)"
  proof -
    have u: "unat (wb_rest (w_wbufs w b)) = length (wb_left (w_wbufs w b))" using wb_done_unat(2) [OF ok] by (simp add: wb_rest_def)
    have "length left = length (wb_left (w_wbufs w b)) - unat n"
      using arg_cong [OF a(2), of length] nle(2) by (simp add: left_def min_absorb2)
    then have full: "left = [] \<longleftrightarrow> n = wb_rest (w_wbufs w b)" using u nle(2) by (auto simp: word_unat_eq_iff)
    have "n \<le> wb_rest (w_wbufs w b)" "n = 0 \<longleftrightarrow> wb_rest (w_wbufs w b) = 0"
      using u n cap nle(2) by (auto simp: word_le_nat_alt word_unat_eq_iff min_def)
    from fill_account [OF _ q that this] have "keeps_account w (w1\<lparr>s_write_queue := (if left = [] then rest else b # rest)\<rparr>)"
      by (simp add: keeps_account_def w1_def full)
    moreover have "same_account (w1\<lparr>s_write_queue := (if left = [] then rest else b # rest)\<rparr>) ?w"
      using w2(6) data_flag_refs [OF w2(1), of "s_pkt w1"] by (simp add: same_account_def w2(4) bufs left_def)
    moreover have "callbacks ?w = callbacks (w1\<lparr>s_write_queue := (if left = [] then rest else b # rest)\<rparr>)" by (simp add: callbacks_def w2(4))
    ultimately show ?thesis using same_account_keeps keeps_account_trans by blast
  qed
  moreover have "has_flag (s_pkt_header_flag ?w) UDX_HEADER_DATA \<or>
        \<not> has_flag (s_pkt_header_flag w) UDX_HEADER_DATA \<and> s_pkt_capacity ?w = s_pkt_capacity w"
  proof -
    have "s_pkt_header_flag w2 = fl" "s_pkt_capacity w2 = s_pkt_capacity w1" by (simp_all add: w2(4))
    moreover have "n = 0 \<Longrightarrow> s_pkt_capacity w1 = s_pkt_capacity w" by (simp add: w1_def fill_append_def Let_def)
    ultimately show ?thesis using w2(9) w3(3) f1(3) by auto
  qed
  ultimately show ?thesis using flow by blast
qed

text \<open>The loop of \<open>send_new_packet\<close> ends with a full packet or an empty queue.\<close>

lemma fill_rest_fields:
  assumes e: "fill_rest w' = fill_rest w"
  shows "s_seq w' = s_seq w" "s_ack w' = s_ack w" "s_remote_acked w' = s_remote_acked w" "s_outgoing w' = s_outgoing w"
    "s_pkt w' = s_pkt w" "w_next_packet w' = w_next_packet w" "s_rto w' = s_rto w" "s_status w' = s_status w"
    "s_remote_addr w' = s_remote_addr w" "s_cwnd w' = s_cwnd w" "w_now w' = w_now w"
    "s_inflight_queue w' = s_inflight_queue w" "s_retransmit_queue w' = s_retransmit_queue w" "s_inflight w' = s_inflight w"
    "s_tb_last_refill_ms w' = s_tb_last_refill_ms w" "s_pacing_bytes_per_ms w' = s_pacing_bytes_per_ms w"
    "w_output w' = w_output w" "q \<noteq> s_pkt w \<Longrightarrow> w_packets w' q = w_packets w q" "mtu_inv w' = mtu_inv w"
proof -
  note f = arg_cong [OF e]
  show "s_seq w' = s_seq w" "s_ack w' = s_ack w" "s_remote_acked w' = s_remote_acked w" "s_outgoing w' = s_outgoing w"
    and pkt: "s_pkt w' = s_pkt w" and "w_next_packet w' = w_next_packet w" "s_rto w' = s_rto w" "s_status w' = s_status w"
    "s_remote_addr w' = s_remote_addr w" "s_cwnd w' = s_cwnd w" "w_now w' = w_now w"
    "s_inflight_queue w' = s_inflight_queue w" "s_retransmit_queue w' = s_retransmit_queue w" "s_inflight w' = s_inflight w"
    "s_tb_last_refill_ms w' = s_tb_last_refill_ms w" "s_pacing_bytes_per_ms w' = s_pacing_bytes_per_ms w"
    "w_output w' = w_output w"
    using f [of s_seq] f [of s_ack] f [of s_remote_acked] f [of s_outgoing] f [of s_pkt] f [of w_next_packet] f [of s_rto]
      f [of s_status] f [of s_remote_addr] f [of s_cwnd] f [of w_now] f [of s_inflight_queue] f [of s_retransmit_queue]
      f [of s_inflight] f [of s_tb_last_refill_ms] f [of s_pacing_bytes_per_ms] f [of w_output]
    by (simp_all add: fill_rest_def)
  show "w_packets w' q = w_packets w q" if "q \<noteq> s_pkt w"
    using fun_cong [OF f [of w_packets], of q] that pkt by (simp add: fill_rest_def)
  have "mtu_inv (fill_rest v) = mtu_inv v" for v by (simp add: fill_rest_def mtu_inv_def)
  then show "mtu_inv w' = mtu_inv w" using e by metis
qed

lemma same_bufs_trans: "same_bufs w1 w2 \<Longrightarrow> same_bufs w2 w3 \<Longrightarrow> same_bufs w1 w3"
  by (simp add: same_bufs_def)

lemma fill_packet_law:
  assumes "building w" "remote_ok w"
  shows "\<exists>w'. fill_packet w = Some w' \<and> building w' \<and> pending w' @ unsent w' = pending w @ unsent w
    \<and> fill_rest w' = fill_rest w \<and> same_bufs w w' \<and> (s_pkt_capacity w' = 0 \<or> s_write_queue w' = [])
    \<and> (if s_pkt_capacity w \<noteq> 0 \<and> s_write_queue w \<noteq> [] then send_work w' < send_work w else w' = w)
    \<and> (s_pkt w \<notin> ran (s_outgoing w) \<longrightarrow> keeps_account w w')
    \<and> (has_flag (s_pkt_header_flag w') UDX_HEADER_DATA \<or>
        \<not> has_flag (s_pkt_header_flag w) UDX_HEADER_DATA \<and> s_pkt_capacity w' = s_pkt_capacity w)"
  using assms
proof (induction "send_work w" arbitrary: w rule: less_induct)
  case less
  show ?case
  proof (cases "s_pkt_capacity w \<noteq> 0 \<and> s_write_queue w \<noteq> []")
    case False
    then have "fill_packet w = Some w" by (subst fill_packet.simps) (auto simp: word_gt_0)
    then show ?thesis using less.prems False by (intro exI [of _ w]) (auto simp: same_bufs_def)
  next
    case True
    obtain w1 where w1: "fill_step w = Some w1" "building w1" "pending w1 @ unsent w1 = pending w @ unsent w"
      "send_work w1 < send_work w" "fill_rest w1 = fill_rest w" "same_bufs w w1" "s_pkt w \<notin> ran (s_outgoing w) \<longrightarrow> keeps_account w w1"
      "has_flag (s_pkt_header_flag w1) UDX_HEADER_DATA \<or>
        \<not> has_flag (s_pkt_header_flag w) UDX_HEADER_DATA \<and> s_pkt_capacity w1 = s_pkt_capacity w"
      using fill_step_law [OF less.prems] True by blast
    have "remote_ok w1" using less.prems(2) fill_rest_fields(9) [OF w1(5)] by (simp add: remote_ok_def)
    then obtain w' where w': "fill_packet w1 = Some w'" "building w'" "pending w' @ unsent w' = pending w1 @ unsent w1"
      "fill_rest w' = fill_rest w1" "same_bufs w1 w'" "s_pkt_capacity w' = 0 \<or> s_write_queue w' = []"
      "if s_pkt_capacity w1 \<noteq> 0 \<and> s_write_queue w1 \<noteq> [] then send_work w' < send_work w1 else w' = w1"
      "s_pkt w1 \<notin> ran (s_outgoing w1) \<longrightarrow> keeps_account w1 w'"
      "has_flag (s_pkt_header_flag w') UDX_HEADER_DATA \<or>
        \<not> has_flag (s_pkt_header_flag w1) UDX_HEADER_DATA \<and> s_pkt_capacity w' = s_pkt_capacity w1"
      using less.hyps [OF w1(4,2)] by blast
    have "fill_packet w = Some w'" using True w1(1) w'(1) by (subst fill_packet.simps) (simp add: word_gt_0)
    moreover have "send_work w' < send_work w" using w'(7) w1(4) by (auto split: if_splits)
    moreover have "s_pkt w \<notin> ran (s_outgoing w) \<longrightarrow> keeps_account w w'"
      using w1(7) w'(8) fill_rest_fields(4,5) [OF w1(5)] keeps_account_trans by metis
    ultimately show ?thesis using True w' w1 same_bufs_trans [OF w1(6) w'(5)] by auto
  qed
qed

section \<open>Sending the packet under construction\<close>

lemma wire_form_body: "packet_body a b \<Longrightarrow> wire_form a type \<Longrightarrow> wire_form b type"
  by (simp add: packet_body_def)

lemma probeify_law:
  assumes "headed pkt type 0" "sa_family (p_remote_addr pkt) = AF_INET \<or> sa_family (p_remote_addr pkt) = AF_INET6 \<or> \<not> has_flag type UDX_HEADER_DATA"
    and "\<not> p_is_mtu_probe pkt"
  shows "\<exists>b hd pr. mtu_probeify_packet pkt wanted = Some (b, pkt\<lparr>p_header := hd, p_is_mtu_probe := pr\<rparr>)
    \<and> wire_form (pkt\<lparr>p_header := hd, p_is_mtu_probe := pr\<rparr>) type"
proof -
  obtain i r a where h: "p_header pkt = [255, 1, type, 0] @ le_bytes i @ le_bytes r @ le_bytes (p_seq pkt) @ le_bytes a"
    using assms(1) by (auto simp: headed_def)
  have h23: "p_header pkt ! 2 = type" "p_header pkt ! 3 = 0" by (simp_all add: h)
  have same: "pkt = pkt\<lparr>p_header := p_header pkt, p_is_mtu_probe := False\<rparr>" using assms(3) by simp
  have f0: "wire_form pkt type" using assms(1) by (auto simp: wire_form_def)
  have f1: "wire_form (pkt\<lparr>p_header := (p_header pkt)[3 := x], p_is_mtu_probe := True\<rparr>) type" for x
    unfolding wire_form_def headed_def by (auto simp: h)
  define pad where "pad = wanted - (uint (p_size pkt) + (uint (if sa_family (p_remote_addr pkt) = AF_INET then UDX_IPV4_HEADER_SIZE else UDX_IPV6_HEADER_SIZE) - int UDX_HEADER_SIZE))"
  have val: "mtu_probeify_packet pkt wanted = (if \<not> has_flag type UDX_HEADER_DATA \<or> pad < 0 \<or> pad > 255 then Some (False, pkt)
      else Some (True, pkt\<lparr>p_header := (p_header pkt)[3 := word_of_int pad], p_is_mtu_probe := True\<rparr>))"
    using assms(2) unfolding mtu_probeify_packet_def h23 Let_def pad_def [symmetric] by (auto simp: c_assert_def)
  show ?thesis
  proof (cases "\<not> has_flag type UDX_HEADER_DATA \<or> pad < 0 \<or> pad > 255")
    case True
    show ?thesis unfolding val if_P [OF True] using f0 same by metis
  next
    case False
    show ?thesis unfolding val if_not_P [OF False] using f1 by blast
  qed
qed

lemma finish_law:
  assumes bw: "building w" and r: "remote_ok w"
  shows "\<exists>b pkt. finish_packet env tlp w = Some (b, w\<lparr>w_packets := (w_packets w)(s_pkt w := pkt), s_outgoing := (s_outgoing w)(s_seq w \<mapsto> s_pkt w)\<rparr>)
    \<and> p_seq pkt = s_seq w \<and> p_ref_count pkt = 1 \<and> p_size pkt = p_size (w_packets w (s_pkt w))
    \<and> p_slices pkt = p_slices (w_packets w (s_pkt w)) \<and> \<not> p_lost pkt \<and> wire_form pkt (s_pkt_header_flag w) \<and> (b \<longrightarrow> s_mtu_probe_wanted w)"
proof -
  let ?p = "s_pkt w"
  define pkt1 where "pkt1 = (if p_remote_addr_len (w_packets w ?p) = 0
    then (w_packets w ?p)\<lparr>p_remote_id := s_remote_id w, p_remote_addr := s_remote_addr w, p_remote_addr_len := s_remote_addr_len w\<rparr>
    else w_packets w ?p)"
  define w1 where "w1 = w\<lparr>w_packets := (w_packets w)(?p := pkt1)\<rparr>"
  have bind: "(if p_remote_addr_len (w_packets w ?p) = 0 then bind_packet_remote ?p w else Some w) = Some w1"
    by (simp add: bind_packet_remote_def w1_def pkt1_def)
  define pkt2 where "pkt2 = pkt1\<lparr>p_header := udx_write_header env w1 (s_pkt_header_flag w) (p_remote_id pkt1), p_seq := s_seq w, p_ref_count := 1\<rparr>"
  have head: "headed pkt2 (s_pkt_header_flag w) 0"
    by (auto simp: headed_def pkt2_def udx_write_header_def header_bytes_wire w1_def)
  have nb: "\<not> p_is_mtu_probe pkt2" "\<not> p_lost pkt2"
    using bw by (simp_all add: pkt2_def pkt1_def building_def Let_def)
  have fam: "sa_family (p_remote_addr pkt2) = AF_INET \<or> sa_family (p_remote_addr pkt2) = AF_INET6 \<or> \<not> has_flag (s_pkt_header_flag w) UDX_HEADER_DATA"
    using bw r by (auto simp: pkt2_def pkt1_def building_def remote_ok_def Let_def split: if_splits)
  have f2: "p_seq pkt2 = s_seq w" "p_ref_count pkt2 = 1" "p_size pkt2 = p_size (w_packets w ?p)" "p_slices pkt2 = p_slices (w_packets w ?p)"
    by (simp_all add: pkt2_def pkt1_def)
  have step: "finish_packet env tlp w = do {
     (mtu_probe, pkt) \<leftarrow> (if s_mtu_probe_wanted w \<and> \<not> tlp \<and> \<not> s_remote_changing w
       then mtu_probeify_packet pkt2 (s_mtu_probe_size w) else Some (False, pkt2));
     Some (mtu_probe, w\<lparr>w_packets := (w_packets w)(?p := pkt), s_outgoing := (s_outgoing w)(p_seq pkt \<mapsto> ?p)\<rparr>) }"
  proof -
    have c: "c_assert (s_pkt_header_flag w AND NOT UDX_HEADER_DATA_OR_END = 0) = Some ()"
      using bw by (simp add: building_def Let_def)
    show ?thesis unfolding finish_packet_def c Option.bind.simps Let_def bind by (simp add: w1_def pkt2_def)
  qed
  show ?thesis
  proof (cases "s_mtu_probe_wanted w \<and> \<not> tlp \<and> \<not> s_remote_changing w")
    case True
    obtain b hd pr where p: "mtu_probeify_packet pkt2 (s_mtu_probe_size w) = Some (b, pkt2\<lparr>p_header := hd, p_is_mtu_probe := pr\<rparr>)"
      "wire_form (pkt2\<lparr>p_header := hd, p_is_mtu_probe := pr\<rparr>) (s_pkt_header_flag w)"
      using probeify_law [OF head fam nb(1)] by blast
    then show ?thesis unfolding step using True f2 nb by (intro exI [of _ b] exI [of _ "pkt2\<lparr>p_header := hd, p_is_mtu_probe := pr\<rparr>"]) simp
  next
    case False
    have "wire_form pkt2 (s_pkt_header_flag w)" using head by (auto simp: wire_form_def)
    then show ?thesis unfolding step if_not_P [OF False] using f2 nb by (intro exI [of _ False] exI [of _ pkt2]) simp
  qed
qed

text \<open>Putting a finished packet in flight.\<close>

lemma flight_new:
  assumes fl: "flight_but hi {} w" and new: "hi = seq_off (s_remote_acked w) (s_seq w)"
    and p: "s_pkt w \<notin> ran (s_outgoing w)" "s_pkt w < w_next_packet w"
    and pkt: "p_seq pkt = s_seq w" "p_ref_count pkt = 1" "0 < p_size pkt" "p_size pkt < 1500" "\<not> p_lost pkt"
  shows "flight_but (Suc hi) {s_pkt w} (w\<lparr>w_packets := (w_packets w)(s_pkt w := pkt), s_outgoing := (s_outgoing w)(s_seq w \<mapsto> s_pkt w)\<rparr>)"
    (is "flight_but _ _ ?w")
    and "s_outgoing w (s_seq w) = None"
proof -
  show none: "s_outgoing w (s_seq w) = None"
    using packet_okD(2) [OF flightD(4) [OF fl, of "s_seq w"]] new by (cases "s_outgoing w (s_seq w)") auto
  then have ran: "ran (s_outgoing ?w) = insert (s_pkt w) (ran (s_outgoing w))" by simp
  have q: "s_pkt w \<notin> set (s_inflight_queue w)" "s_pkt w \<notin> set (s_retransmit_queue w)"
    using flightD(2) [OF fl] p(1) by auto
  show "flight_but (Suc hi) {s_pkt w} ?w"
  proof (rule flightI)
    show "set (s_inflight_queue ?w) \<union> set (s_retransmit_queue ?w) \<union> {s_pkt w} = ran (s_outgoing ?w)"
      unfolding ran using flightD(2) [OF fl] by auto
    show "packet_ok (Suc hi) ?w k p" if "s_outgoing ?w k = Some p" for k p
    proof (cases "k = s_seq w")
      case True
      then show ?thesis using that pkt p(2) q(2) new by (simp add: packet_ok_def Let_def)
    next
      case False
      then have k: "s_outgoing w k = Some p" using that by simp
      then have "p \<noteq> s_pkt w" using p(1) by (auto simp: ran_def)
      then show ?thesis using packet_okD [OF flightD(4) [OF fl k]] by (auto simp: packet_ok_def Let_def)
    qed
    show "p_transmits (w_packets ?w p) > 0" if "p \<in> ran (s_outgoing ?w)" "p \<notin> {s_pkt w}" for p
      using that flightD(6) [OF fl, of p] unfolding ran by simp
    have "flight_bytes ?w (s_inflight_queue w) = flight_bytes w (s_inflight_queue w)"
      using q(1) by (intro flight_bytes_cong) auto
    then show "s_inflight ?w = flight_bytes ?w (s_inflight_queue ?w)" using flightD(7) [OF fl] by simp
  qed (use flightD(1) [OF fl] q pkt(2) in auto)
qed

lemma reset_law:
  assumes "mtu_inv w"
  shows "\<exists>cap. reset_next_packet w = Some (w\<lparr>s_pkt_capacity := cap, s_pkt_header_flag := 0, s_pkt := w_next_packet w,
      w_next_packet := w_next_packet w + 1,
      w_packets := (w_packets w)(w_next_packet w := empty_packet\<lparr>p_stream_offset := s_bytes_packetized w\<rparr>), w_prepare := False\<rparr>)
    \<and> 1132 \<le> uint cap \<and> uint cap \<le> 1452"
proof -
  obtain mp where mp: "udx__max_payload w = Some mp" using max_payload_mtu [OF assms] by blast
  note b = max_payload_bounds [OF assms mp]
  have "uint (ucast mp :: u16) = uint mp" using b by (simp add: unsigned_ucast_eq take_bit_int_eq_self)
  then show ?thesis using b mp by (intro exI [of _ "ucast mp"]) (simp add: reset_next_packet_def Let_def)
qed

text \<open>The fields the invariants and the flow of data read.\<close>

definition flow where
  "flow w = (s_remote_acked w, s_outgoing w, s_pkt w, w_next_packet w, s_write_queue w, w_wbufs w, w_packets w,
     s_inflight_queue w, s_retransmit_queue w, s_inflight w, s_rto w, s_status w, s_remote_addr w, w_now w,
     s_tb_last_refill_ms w)"

definition core where
  "core w = (flow w, w_writes w, s_writes_queued_bytes w, w_output w)"

lemma core_flow: "core w' = core w \<Longrightarrow> flow w' = flow w"
  by (simp add: core_def)

lemma core_bbr:
  assumes e: "bbr_rest w' = bbr_rest w"
  shows "core w' = core w"
proof -
  have "s_writes_queued_bytes w' = s_writes_queued_bytes w" using arg_cong [OF e, of s_writes_queued_bytes] by (simp add: bbr_rest_def)
  then show ?thesis using bbr_rest_more [OF e] by (simp add: core_def flow_def)
qed

lemma flight_flow: "flow w' = flow w \<Longrightarrow> flight_but hi X w \<Longrightarrow> flight_but hi X w'"
  unfolding flow_def by (rule flight_but_cong) simp_all

lemmas flight_core = flight_flow [OF core_flow]

text \<open>What happens after the datagram has left.\<close>

definition sent_tail :: "bool \<Rightarrow> bool \<Rightarrow> bool \<Rightarrow> addr \<Rightarrow> world \<Rightarrow> world option" where
  "sent_tail was_empty probe tlp p w = do {
     let w = w\<lparr>s_seq := s_seq w + 1\<rparr>;
     w \<leftarrow> (if was_empty then bbr_on_transmit_start (w_now w) w else Some w);
     let w = (if probe then w\<lparr>s_mtu_probe_count := s_mtu_probe_count w + 1, s_mtu_probe_wanted := False\<rparr> else w);
     let w = (if tlp then w\<lparr>s_tlp_is_retrans := False, s_tlp_in_flight := True, s_tlp_end_seq := p_seq (w_packets w p),
       s_tlp_permitted := False\<rparr> else w);
     w \<leftarrow> arm_stream_timers (\<not> tlp) w;
     c_assert (p_size (w_packets w p) > 0 \<and> p_size (w_packets w p) < 1500);
     reset_next_packet w
   }"

lemma sent_tail_law:
  assumes ok: "path_ok w" and probe: "probe \<longrightarrow> s_mtu_probe_wanted w" and iq: "s_inflight_queue w \<noteq> []"
    and seq: "s_remote_acked w \<noteq> s_seq w + 1" and size: "p_size (w_packets w p) > 0" "p_size (w_packets w p) < 1500"
  shows "\<exists>w' w1 cap. sent_tail we probe tlp p w = Some w' \<and> core w1 = core w \<and> path_ok w' \<and> s_seq w' = s_seq w + 1
    \<and> 1132 \<le> uint cap \<and> uint cap \<le> 1452 \<and> w' = w1\<lparr>s_pkt_capacity := cap, s_pkt_header_flag := 0, s_pkt := w_next_packet w1,
      w_next_packet := w_next_packet w1 + 1,
      w_packets := (w_packets w1)(w_next_packet w1 := empty_packet\<lparr>p_stream_offset := s_bytes_packetized w1\<rparr>), w_prepare := False\<rparr>"
proof -
  define w3 where "w3 = w\<lparr>s_seq := s_seq w + 1\<rparr>"
  have c3: "core w3 = core w" "mtu_inv w3" "s_cwnd w3 \<noteq> 0" "s_mtu_probe_wanted w3 = s_mtu_probe_wanted w" "s_seq w3 = s_seq w + 1"
    using ok by (simp_all add: w3_def core_def flow_def path_ok_def mtu_inv_def)
  obtain w4 where w4: "(if we then bbr_on_transmit_start (w_now w3) w3 else Some w3) = Some w4" "bbr_rest w4 = bbr_rest w3" "s_cwnd w4 \<noteq> 0"
    using transmit_start_law [OF c3(2,3), of "w_now w3"] c3(3) by (cases we) auto
  have c4: "core w4 = core w" "mtu_inv w4" "s_seq w4 = s_seq w + 1" "s_mtu_probe_wanted w4 = s_mtu_probe_wanted w"
    using core_bbr [OF w4(2)] c3 mtu_inv_rest [OF w4(2)] bbr_rest_more(1,27) [OF w4(2)] by simp_all
  define w5 where "w5 = (if probe then w4\<lparr>s_mtu_probe_count := s_mtu_probe_count w4 + 1, s_mtu_probe_wanted := False\<rparr> else w4)"
  have c5: "core w5 = core w" "mtu_inv w5" "s_seq w5 = s_seq w + 1" "s_cwnd w5 \<noteq> 0"
    using c4 w4(3) mtu_inv_probe_sent [OF c4(2)] probe by (cases probe; simp add: w5_def core_def flow_def)+
  define w6 where "w6 = (if tlp then w5\<lparr>s_tlp_is_retrans := False, s_tlp_in_flight := True, s_tlp_end_seq := p_seq (w_packets w5 p),
       s_tlp_permitted := False\<rparr> else w5)"
  have c6: "core w6 = core w" "mtu_inv w6" "s_seq w6 = s_seq w + 1" "s_cwnd w6 \<noteq> 0"
    using c5 by (cases tlp; simp add: w6_def core_def flow_def mtu_inv_def)+
  have f6: "s_remote_acked w6 = s_remote_acked w" "s_inflight_queue w6 = s_inflight_queue w" "s_rto w6 = s_rto w" "s_status w6 = s_status w"
    "w_packets w6 = w_packets w"
    using c6(1) by (simp_all add: core_def flow_def)
  have "s_inflight_queue w6 \<noteq> []" "s_remote_acked w6 \<noteq> s_seq w6" "s_rto w6 \<noteq> 0" "s_status w6 \<noteq> UDX_STREAM_CLOSED"
    using ok iq seq not_dead_not_closed f6 c6(3) by (simp_all add: path_ok_def)
  from arm_timers_law [OF this, of "\<not> tlp"] obtain t ts tm where
    w7: "arm_stream_timers (\<not> tlp) w6 = Some (w6\<lparr>s_pending_timer := t, s_next_rto_ts := ts, w_timer := tm\<rparr>)" by blast
  define w7 where "w7 = w6\<lparr>s_pending_timer := t, s_next_rto_ts := ts, w_timer := tm\<rparr>"
  have c7: "core w7 = core w" "mtu_inv w7" "s_seq w7 = s_seq w + 1" "s_cwnd w7 \<noteq> 0"
    using c6 by (simp_all add: w7_def core_def flow_def mtu_inv_def)
  have p7: "w_packets w7 = w_packets w" "s_rto w7 = s_rto w" "s_status w7 = s_status w" using c7(1) by (simp_all add: core_def flow_def)
  obtain cap where w8: "reset_next_packet w7 = Some (w7\<lparr>s_pkt_capacity := cap, s_pkt_header_flag := 0, s_pkt := w_next_packet w7,
      w_next_packet := w_next_packet w7 + 1,
      w_packets := (w_packets w7)(w_next_packet w7 := empty_packet\<lparr>p_stream_offset := s_bytes_packetized w7\<rparr>), w_prepare := False\<rparr>)"
    (is "_ = Some ?w8") and cap: "1132 \<le> uint cap" "uint cap \<le> 1452"
    using reset_law [OF c7(2)] by blast
  have "sent_tail we probe tlp p w = Some ?w8"
    unfolding sent_tail_def Let_def w3_def [symmetric] w4(1) Option.bind.simps w5_def [symmetric] w6_def [symmetric] w7 w7_def [symmetric]
    using size w8 by (simp add: p7)
  moreover have "path_ok ?w8" using ok c7 p7 by (simp add: path_ok_def mtu_inv_def)
  moreover have "s_seq ?w8 = s_seq w + 1" using c7(3) by simp
  ultimately show ?thesis using c7(1) cap by blast
qed

lemma send_current_eq:
  "send_current_packet env tlp w = do {
     (probe, w1) \<leftarrow> finish_packet env tlp w;
     w2 \<leftarrow> send_packet env (s_pkt w) False w1;
     sent_tail (s_inflight_queue w = []) probe tlp (s_pkt w) w2 }"
  by (simp add: send_current_packet_def sent_tail_def Let_def split_def)

text \<open>The state between calls of the send path.\<close>

definition sending :: "world \<Rightarrow> bool" where
  "sending w \<longleftrightarrow> flight_inv w \<and> building w \<and> path_ok w \<and> remote_ok w"

lemma sends_queued: "sends p w w' \<Longrightarrow> s_writes_queued_bytes w' = s_writes_queued_bytes w"
proof -
  assume "sends p w w'"
  then have e: "send_rest w' = send_rest w" by (simp add: sends_def)
  show ?thesis using arg_cong [OF e, of s_writes_queued_bytes] by (simp add: send_rest_def)
qed

lemma send_current_law:
  assumes s: "sending w" and room: "seq_off (s_remote_acked w) (s_seq w) + 1 < 2 ^ 32"
  shows "\<exists>w'. send_current_packet env tlp w = Some w' \<and> sending w' \<and> resting w'
    \<and> s_seq w' = s_seq w + 1 \<and> s_remote_acked w' = s_remote_acked w \<and> s_outgoing w' = (s_outgoing w)(s_seq w \<mapsto> s_pkt w)
    \<and> pending w' = [] \<and> s_write_queue w' = s_write_queue w \<and> w_wbufs w' = w_wbufs w
    \<and> (\<forall>k q. s_outgoing w k = Some q \<longrightarrow> packet_body (w_packets w q) (w_packets w' q))
    \<and> p_slices (w_packets w' (s_pkt w)) = p_slices (w_packets w (s_pkt w)) \<and> p_seq (w_packets w' (s_pkt w)) = s_seq w
    \<and> wire_form (w_packets w' (s_pkt w)) (s_pkt_header_flag w)
    \<and> w_now w' = w_now w \<and> s_tb_last_refill_ms w' = s_tb_last_refill_ms w \<and> keeps_account w w'"
proof -
  let ?p = "s_pkt w" let ?hi = "seq_off (s_remote_acked w) (s_seq w)"
  have fl: "flight_but ?hi {} w" and pr: "?p \<notin> ran (s_outgoing w)" and bw: "building w" and ok: "path_ok w" and r: "remote_ok w"
    using s by (simp_all add: sending_def flight_inv_def)
  have pn: "?p < w_next_packet w" and sz: "20 \<le> uint (p_size (w_packets w ?p))" "uint (p_size (w_packets w ?p)) + uint (s_pkt_capacity w) \<le> 1472"
    using bw by (simp_all add: building_def Let_def)
  obtain b pkt where f: "finish_packet env tlp w = Some (b, w\<lparr>w_packets := (w_packets w)(?p := pkt), s_outgoing := (s_outgoing w)(s_seq w \<mapsto> ?p)\<rparr>)"
    (is "_ = Some (b, ?w1)")
    "p_seq pkt = s_seq w" "p_ref_count pkt = 1" "p_size pkt = p_size (w_packets w ?p)"
    "p_slices pkt = p_slices (w_packets w ?p)" "\<not> p_lost pkt" "wire_form pkt (s_pkt_header_flag w)" "b \<longrightarrow> s_mtu_probe_wanted w"
    using finish_law [OF bw r] by blast
  have size: "0 < p_size pkt" "p_size pkt < 1500"
  proof -
    have "0 \<le> uint (s_pkt_capacity w)" by (rule unsigned_greater_eq)
    with sz have "uint (p_size pkt) < 1500" unfolding f(4) by linarith
    then show "p_size pkt < 1500" by (simp add: word_less_def)
    have "0 < uint (p_size pkt)" using sz unfolding f(4) by linarith
    then show "0 < p_size pkt" by (simp add: word_less_def)
  qed
  have fl1: "flight_but (Suc ?hi) {?p} ?w1" by (rule flight_new(1) [OF fl refl pr pn f(2,3) size f(6)])
  have none: "s_outgoing w (s_seq w) = None" by (rule flight_new(2) [OF fl refl pr pn f(2,3) size f(6)])
  have mtu1: "mtu_inv ?w1" using ok by (simp add: path_ok_def mtu_inv_def)
  obtain w2 where w2: "send_packet env ?p False ?w1 = Some w2" "flight_but (Suc ?hi) {} w2" "sends ?p ?w1 w2"
    using send_packet_law [OF fl1 mtu1] by blast
  note g = sends_fields [OF w2(3), simplified]
  have kept: "packet_kept pkt (w_packets w2 ?p)" "s_inflight_queue w2 \<noteq> []" "\<And>q. q \<noteq> ?p \<Longrightarrow> w_packets w2 q = w_packets w q"
    using w2(3) by (simp_all add: sends_def)
  have ok2: "path_ok w2" using ok mtu_inv_sends [OF w2(3)] mtu1 g(16,17,23) by (simp add: path_ok_def)
  have pr2: "b \<longrightarrow> s_mtu_probe_wanted w2" using f(8) g(12) by simp
  have seq2: "s_seq w2 = s_seq w" "s_remote_acked w2 = s_remote_acked w" using g(1,3) by simp_all
  have off: "seq_off (s_remote_acked w) (s_seq w + 1) = Suc ?hi" using seq_off_Suc room by simp
  then have "s_remote_acked w2 \<noteq> s_seq w2 + 1" unfolding seq2 by (metis nat.distinct(1) seq_off_self)
  moreover have "p_size (w_packets w2 ?p) > 0" "p_size (w_packets w2 ?p) < 1500" using kept(1) size by (simp_all add: packet_kept_def)
  ultimately obtain w' w3 cap where t: "sent_tail (s_inflight_queue w = []) b tlp ?p w2 = Some w'" "core w3 = core w2" "path_ok w'"
    "s_seq w' = s_seq w2 + 1" "1132 \<le> uint cap" "uint cap \<le> 1452"
    "w' = w3\<lparr>s_pkt_capacity := cap, s_pkt_header_flag := 0, s_pkt := w_next_packet w3, w_next_packet := w_next_packet w3 + 1,
      w_packets := (w_packets w3)(w_next_packet w3 := empty_packet\<lparr>p_stream_offset := s_bytes_packetized w3\<rparr>), w_prepare := False\<rparr>"
    using sent_tail_law [OF ok2 pr2 kept(2)] by blast
  have c3: "s_remote_acked w3 = s_remote_acked w" "s_outgoing w3 = (s_outgoing w)(s_seq w \<mapsto> ?p)" "w_next_packet w3 = w_next_packet w"
    "s_write_queue w3 = s_write_queue w" "w_wbufs w3 = w_wbufs w" "w_packets w3 = w_packets w2" "s_remote_addr w3 = s_remote_addr w"
    "w_now w3 = w_now w" "s_tb_last_refill_ms w3 = s_tb_last_refill_ms w"
    using t(2) g(3,4,6,7,8,18,24,25) by (simp_all add: core_def flow_def)
  have acct3: "w_writes w3 = w_writes w" "s_writes_queued_bytes w3 = s_writes_queued_bytes w" "callbacks w3 = callbacks w"
    using t(2) g(9) sends_queued [OF w2(3)] sends_callbacks [OF w2(3)] by (simp_all add: core_def flow_def callbacks_def)
  have ran3: "ran (s_outgoing w3) = insert ?p (ran (s_outgoing w))" unfolding c3(2) using none by simp
  have old: "q < w_next_packet w" if "q \<in> ran (s_outgoing w3)" for q
    using that pn packet_okD(3) [OF flight_ranE(2) [OF fl, of q]] unfolding ran3 by auto
  have fresh: "w_next_packet w \<notin> ran (s_outgoing w3)" using old by blast
  have fl3: "flight_but (Suc ?hi) {} w3" by (rule flight_core [OF t(2) w2(2)])
  have "flight_but (Suc ?hi) {} w'"
    by (rule flight_but_cong [OF _ _ _ _ _ _ _ fl3]) (use fresh c3(3) in \<open>auto simp: t(7)\<close>)
  moreover have "s_seq w' = s_seq w + 1" "s_pkt w' = w_next_packet w" "s_outgoing w' = s_outgoing w3" "s_remote_acked w' = s_remote_acked w"
    using t(4,7) seq2 c3 by simp_all
  ultimately have fi: "flight_inv w'" using off fresh by (simp add: flight_inv_def)
  have pend: "pending w' = []" by (simp add: pending_def packet_payload_def empty_packet_def t(7))
  have "building w'"
    using bw pend t(5,6) c3 by (simp add: building_def Let_def t(7) empty_packet_def)
  moreover have "remote_ok w'" using r c3(7) by (simp add: remote_ok_def t(7))
  moreover have "resting w'" using t(5) by (auto simp: resting_def t(7))
  moreover have "w_packets w' q = w_packets w2 q" if "q \<in> ran (s_outgoing w3)" for q
    using that fresh c3(3,6) by (auto simp: t(7))
  then have wp: "w_packets w' ?p = w_packets w2 ?p" "\<And>q. q \<in> ran (s_outgoing w) \<Longrightarrow> w_packets w' q = w_packets w q"
    using ran3 kept(3) pr by simp_all (metis ran3 insertI2 kept(3) pr)
  then have "\<forall>k q. s_outgoing w k = Some q \<longrightarrow> packet_body (w_packets w q) (w_packets w' q)"
    by (metis packet_body_refl ranI)
  moreover have "p_slices (w_packets w' ?p) = p_slices (w_packets w ?p)" "p_seq (w_packets w' ?p) = s_seq w"
    using wp(1) kept(1) f(2,5) by (simp_all add: packet_kept_def)
  moreover have "wire_form (w_packets w' ?p) (s_pkt_header_flag w)"
    using wire_form_body [OF packet_kept_body [OF kept(1)] f(7)] wp(1) by simp
  moreover have "send_current_packet env tlp w = Some w'"
    unfolding send_current_eq f(1) Option.bind.simps prod.case w2(1) using t(1) by simp
  moreover have "keeps_account w w'"
    unfolding keeps_account_def
  proof
    assume acc: "accounted w"
    have sl: "p_slices (w_packets w' ?p) = p_slices (w_packets w ?p)" using wp(1) kept(1) f(5) by (simp add: packet_kept_def)
    have new: "s_pkt w' \<noteq> NULL" "p_slices (w_packets w' (s_pkt w')) = []" "p_ref_count (w_packets w' (s_pkt w')) = 1"
      using pn c3(3) by (simp_all add: t(7) empty_packet_def)
    have same: "s_seq w' = s_seq w + 1" "s_outgoing w' = (s_outgoing w)(s_seq w \<mapsto> ?p)" "s_remote_acked w' = s_remote_acked w" "w_wbufs w' = w_wbufs w"
      "w_writes w' = w_writes w" "s_writes_queued_bytes w' = s_writes_queued_bytes w" "s_write_queue w' = s_write_queue w"
      using t(4) seq2(1) c3 acct3 by (simp_all add: t(7))
    have room': "unat (s_seq w - s_remote_acked w) + 1 < 2 ^ 32" using room by (simp add: seq_off_def)
    have "callbacks w' = callbacks w" using acct3(3) by (simp add: t(7) callbacks_def)
    then show "accounted w' \<and> same_answers w w'" by (intro send_account [OF acc room' same _ new]) (use sl wp(2) in auto)
  qed
  ultimately show ?thesis
    using fi pend t(3,4) seq2 c3 by (intro exI [of _ w']) (simp add: sending_def t(7))
qed

section \<open>The send loop\<close>

text \<open>A form a packet of the loop has on the wire: data or end, and data when it carries any.\<close>

definition sent_form :: "world \<Rightarrow> addr \<Rightarrow> bool" where
  "sent_form w p \<longleftrightarrow> (\<exists>type. wire_form (w_packets w p) type \<and> type AND NOT UDX_HEADER_DATA_OR_END = 0
     \<and> has_flag type UDX_HEADER_DATA_OR_END \<and> (packet_payload w (w_packets w p) \<noteq> [] \<longrightarrow> has_flag type UDX_HEADER_DATA))"

text \<open>The packets \<open>ps\<close> were sent, with consecutive numbers, and together carry the next bytes that were to be sent.\<close>

definition emits :: "addr list \<Rightarrow> world \<Rightarrow> world \<Rightarrow> bool" where
  "emits ps w w' \<longleftrightarrow> s_seq w' = s_seq w + of_nat (length ps) \<and> s_remote_acked w' = s_remote_acked w \<and> same_bufs w w'
     \<and> (\<forall>i < length ps. s_outgoing w' (s_seq w + of_nat i) = Some (ps ! i))
     \<and> (\<forall>k q. s_outgoing w k = Some q \<longrightarrow> s_outgoing w' k = Some q \<and> packet_body (w_packets w q) (w_packets w' q))
     \<and> (\<forall>k q. s_outgoing w' k = Some q \<longrightarrow> s_outgoing w k = Some q \<or> (\<exists>i < length ps. k = s_seq w + of_nat i))
     \<and> (\<forall>p \<in> set ps. sent_form w' p)
     \<and> concat (map (\<lambda>p. packet_payload w' (w_packets w' p)) ps) @ pending w' @ unsent w' = pending w @ unsent w
     \<and> keeps_account w w'"

lemma payload_body: "same_bufs w w' \<Longrightarrow> packet_body pkt pkt' \<Longrightarrow> packet_payload w' pkt' = packet_payload w pkt"
  by (rule payload_same_bufs) (simp_all add: packet_body_def)

lemma emits_trans:
  assumes a: "emits ps w1 w2" and b: "emits qs w2 w3"
  shows "emits (ps @ qs) w1 w3"
proof -
  have out2: "s_outgoing w2 (s_seq w1 + of_nat i) = Some (ps ! i)" if "i < length ps" for i using a that by (simp add: emits_def)
  have bufs: "same_bufs w2 w3" using b by (simp add: emits_def)
  have keep: "packet_body (w_packets w2 p) (w_packets w3 p)" if "p \<in> set ps" for p
    using that out2 b unfolding emits_def by (metis in_set_conv_nth)
  then have pay: "packet_payload w3 (w_packets w3 p) = packet_payload w2 (w_packets w2 p)" if "p \<in> set ps" for p
    using payload_body [OF bufs] that by blast
  have "s_outgoing w3 (s_seq w1 + of_nat i) = Some ((ps @ qs) ! i)" if i: "i < length (ps @ qs)" for i
  proof (cases "i < length ps")
    case True
    then show ?thesis using out2 b by (simp add: emits_def nth_append)
  next
    case False
    then obtain j where j: "i = length ps + j" by (metis le_add_diff_inverse not_less)
    have k: "s_seq w1 + of_nat i = s_seq w2 + of_nat j" using a by (simp add: emits_def j)
    have "s_outgoing w3 (s_seq w2 + of_nat j) = Some (qs ! j)" using b i j by (simp add: emits_def)
    then show ?thesis unfolding k by (simp add: j nth_append)
  qed
  moreover have "sent_form w3 p" if "p \<in> set (ps @ qs)" for p
  proof (cases "p \<in> set ps")
    case True
    then have "sent_form w2 p" using a by (simp add: emits_def)
    then show ?thesis using wire_form_body [OF keep [OF True]] pay [OF True] unfolding sent_form_def by metis
  next
    case False
    then show ?thesis using b that by (simp add: emits_def)
  qed
  moreover have "concat (map (\<lambda>p. packet_payload w3 (w_packets w3 p)) (ps @ qs)) @ pending w3 @ unsent w3 = pending w1 @ unsent w1"
  proof -
    have "map (\<lambda>p. packet_payload w3 (w_packets w3 p)) ps = map (\<lambda>p. packet_payload w2 (w_packets w2 p)) ps"
      using pay by (intro map_cong refl)
    moreover have "concat (map (\<lambda>p. packet_payload w2 (w_packets w2 p)) ps) @ pending w2 @ unsent w2 = pending w1 @ unsent w1"
      using a unfolding emits_def by blast
    moreover have "concat (map (\<lambda>p. packet_payload w3 (w_packets w3 p)) qs) @ pending w3 @ unsent w3 = pending w2 @ unsent w2"
      using b unfolding emits_def by blast
    ultimately show ?thesis by (simp only: map_append concat_append append_assoc)
  qed
  moreover have "same_bufs w1 w3" using a bufs same_bufs_trans by (auto simp: emits_def)
  moreover have "s_outgoing w3 k = Some q \<and> packet_body (w_packets w1 q) (w_packets w3 q)" if "s_outgoing w1 k = Some q" for k q
  proof -
    have "s_outgoing w2 k = Some q" "packet_body (w_packets w1 q) (w_packets w2 q)" using a that by (auto simp: emits_def)
    then show ?thesis using b packet_body_trans unfolding emits_def by blast
  qed
  moreover have "s_outgoing w1 k = Some q \<or> (\<exists>i < length (ps @ qs). k = s_seq w1 + of_nat i)" if k: "s_outgoing w3 k = Some q" for k q
  proof -
    consider (old) "s_outgoing w2 k = Some q" | (new) i where "i < length qs" "k = s_seq w2 + of_nat i" using b k unfolding emits_def by blast
    then show ?thesis
    proof cases
      case old
      then show ?thesis using a unfolding emits_def by (metis length_append trans_less_add1)
    next
      case new
      then have "length ps + i < length (ps @ qs)" "k = s_seq w1 + of_nat (length ps + i)" using a by (simp_all add: emits_def)
      then show ?thesis by blast
    qed
  qed
  moreover have "s_seq w3 = s_seq w1 + of_nat (length (ps @ qs))" "s_remote_acked w3 = s_remote_acked w1"
    using a b by (simp_all add: emits_def)
  moreover have "keeps_account w1 w3" using a b keeps_account_trans unfolding emits_def by blast
  ultimately show ?thesis unfolding emits_def by blast
qed

lemma emits_nilI:
  assumes "core w' = core w" "s_seq w' = s_seq w"
  shows "emits [] w w'"
proof -
  have "same_account w w'" "callbacks w' = callbacks w" using assms by (simp_all add: core_def flow_def same_account_def callbacks_def)
  then show ?thesis
    using assms same_account_keeps by (simp add: emits_def core_def flow_def same_bufs_def pending_def packet_payload_def slice_bytes_def unsent_def cong: map_cong)
qed

lemma data_or_end:
  assumes "has_flag f UDX_HEADER_DATA \<or> has_flag f UDX_HEADER_END"
  shows "has_flag (f :: u8) UDX_HEADER_DATA_OR_END"
proof
  assume "f AND UDX_HEADER_DATA_OR_END = 0"
  then have z: "f AND (UDX_HEADER_DATA OR UDX_HEADER_END) = 0" by (simp add: UDX_HEADER_DATA_OR_END_def)
  have "f AND UDX_HEADER_DATA = (f AND (UDX_HEADER_DATA OR UDX_HEADER_END)) AND UDX_HEADER_DATA"
    "f AND UDX_HEADER_END = (f AND (UDX_HEADER_DATA OR UDX_HEADER_END)) AND UDX_HEADER_END"
    by (simp_all add: and.assoc header_flag_defs)
  then show False using assms z by simp
qed

text \<open>The clock and the token bucket do not concern what is sent.\<close>

lemma time_law:
  assumes s: "sending w" and w': "w' = w\<lparr>w_now := n, s_tb_available := t, s_tb_last_refill_ms := l\<rparr>"
  shows "sending w'" and "resting w' = resting w" and "emits [] w w'" and "send_work w' = send_work w"
proof -
  have p: "pending w' = pending w" "unsent w' = unsent w"
    by (simp_all add: w' pending_def packet_payload_def slice_bytes_def unsent_def cong: map_cong)
  have "flight_but (seq_off (s_remote_acked w) (s_seq w)) {} w'"
    by (rule flight_but_cong [where w = w]) (use s in \<open>simp_all add: w' sending_def flight_inv_def\<close>)
  moreover have "building w'" using s p(1) by (simp add: sending_def building_def Let_def) (simp add: w')
  moreover have "mtu_inv w' = mtu_inv w" by (simp add: mtu_inv_def w')
  ultimately show "sending w'" using s by (simp add: sending_def flight_inv_def path_ok_def remote_ok_def) (simp add: w')
  show "resting w' = resting w" by (simp add: resting_def w')
  have "same_account w w'" "callbacks w' = callbacks w" by (simp_all add: same_account_def callbacks_def w')
  then show "emits [] w w'" using p same_account_keeps by (simp add: emits_def same_bufs_def) (simp add: w')
  show "send_work w' = send_work w" using p(2) by (simp add: send_work_def) (simp add: w')
qed

text \<open>The packet under construction is sent when it carries data or ends the stream.\<close>

lemma send_current_emits:
  assumes s: "sending w" and room: "seq_off (s_remote_acked w) (s_seq w) + 1 < 2 ^ 32"
    and full: "has_flag (s_pkt_header_flag w) UDX_HEADER_DATA \<or> has_flag (s_pkt_header_flag w) UDX_HEADER_END"
  shows "\<exists>w'. send_current_packet env tlp w = Some w' \<and> sending w' \<and> resting w' \<and> emits [s_pkt w] w w' \<and> send_work w' = send_work w
    \<and> pending w' = [] \<and> w_now w' = w_now w \<and> s_tb_last_refill_ms w' = s_tb_last_refill_ms w"
proof -
  let ?p = "s_pkt w"
  obtain w' where w': "send_current_packet env tlp w = Some w'" "sending w'" "resting w'" "s_seq w' = s_seq w + 1"
    "s_remote_acked w' = s_remote_acked w" "s_outgoing w' = (s_outgoing w)(s_seq w \<mapsto> ?p)" "pending w' = []"
    "s_write_queue w' = s_write_queue w" "w_wbufs w' = w_wbufs w"
    "\<forall>k q. s_outgoing w k = Some q \<longrightarrow> packet_body (w_packets w q) (w_packets w' q)"
    "p_slices (w_packets w' ?p) = p_slices (w_packets w ?p)" "wire_form (w_packets w' ?p) (s_pkt_header_flag w)"
    "w_now w' = w_now w" "s_tb_last_refill_ms w' = s_tb_last_refill_ms w" "keeps_account w w'"
    using send_current_law [OF s room] by blast
  have bufs: "same_bufs w w'" by (simp add: same_bufs_def w'(9))
  have pay: "packet_payload w' (w_packets w' ?p) = pending w" unfolding pending_def by (rule payload_same_bufs [OF bufs w'(11)])
  have un: "unsent w' = unsent w" "send_work w' = send_work w" using w'(8,9) by (simp_all add: unsent_def send_work_def)
  have "s_pkt_header_flag w AND NOT UDX_HEADER_DATA_OR_END = 0" "\<not> has_flag (s_pkt_header_flag w) UDX_HEADER_DATA \<longrightarrow> pending w = []"
    using s by (simp_all add: sending_def building_def Let_def split: if_splits)
  then have form: "sent_form w' ?p" unfolding sent_form_def pay using w'(12) data_or_end [OF full] by blast
  have none: "s_outgoing w (s_seq w) = None"
    using s packet_okD(2) flightD(4) unfolding sending_def flight_inv_def by (cases "s_outgoing w (s_seq w)") blast+
  then have old: "s_outgoing w' k = Some q \<and> packet_body (w_packets w q) (w_packets w' q)" if k: "s_outgoing w k = Some q" for k q
    using k w'(6,10) by (metis fun_upd_apply option.distinct(1))
  have fresh: "s_outgoing w k = Some q \<or> (\<exists>i < length [?p]. k = s_seq w + of_nat i)" if "s_outgoing w' k = Some q" for k q
    using that w'(6) by (cases "k = s_seq w") simp_all
  have "emits [?p] w w'"
    unfolding emits_def using w'(4,5,6,7,15) form old fresh pay un(1) bufs by simp
  then show ?thesis using w' un(2) by blast
qed

lemma send_new_packet_law:
  assumes s: "sending w" and rest: "resting w" and pr: "pace_ready w"
    and room: "seq_off (s_remote_acked w) (s_seq w) + 1 < 2 ^ 32"
  shows "\<exists>b w'. send_new_packet env False w = Some (b, w') \<and> sending w' \<and> resting w' \<and> pace_ready w'
    \<and> (if b then (\<exists>p. emits [p] w w') \<and> send_work w' < send_work w else emits [] w w') \<and> send_work w' \<le> send_work w"
proof (cases "s_write_queue w = []")
  case True
  then have "send_new_packet env False w = Some (False, w)" by (simp add: send_new_packet_def)
  then show ?thesis using assms emits_nilI [of w w] by auto
next
  case False
  have pk: "mtu_inv w" "s_cwnd w \<noteq> 0" using s by (simp_all add: sending_def path_ok_def)
  from may_send_law [OF pk pr, of False]
  obtain b t l where may: "stream_may_send False w = Some (b, w\<lparr>s_tb_available := t, s_tb_last_refill_ms := l\<rparr>)" and l: "w_now w \<le> l" by blast
  define w1 where "w1 = w\<lparr>s_tb_available := t, s_tb_last_refill_ms := l\<rparr>"
  have "w1 = w\<lparr>w_now := w_now w, s_tb_available := t, s_tb_last_refill_ms := l\<rparr>" by (simp add: w1_def)
  note t1 = time_law [OF s this]
  have f1: "s_remote_acked w1 = s_remote_acked w" "s_seq w1 = s_seq w" "s_write_queue w1 = s_write_queue w"
    "w_now w1 \<le> s_tb_last_refill_ms w1"
    using l by (simp_all add: w1_def)
  show ?thesis
  proof (cases b)
    case False
    have "send_new_packet env False w = Some (False, w1)" using \<open>s_write_queue w \<noteq> []\<close> False may by (simp add: send_new_packet_def w1_def)
    moreover have "pace_ready w1" using f1(4) by (simp add: pace_ready_def not_less [symmetric])
    ultimately show ?thesis using t1 rest by auto
  next
    case True
    have rest1: "resting w1" using t1(2) rest by simp
    obtain w2 where w2: "fill_packet w1 = Some w2" "building w2" "pending w2 @ unsent w2 = pending w1 @ unsent w1"
      "fill_rest w2 = fill_rest w1" "same_bufs w1 w2" "send_work w2 < send_work w1" "s_pkt w1 \<notin> ran (s_outgoing w1) \<longrightarrow> keeps_account w1 w2"
      "has_flag (s_pkt_header_flag w2) UDX_HEADER_DATA \<or>
        \<not> has_flag (s_pkt_header_flag w1) UDX_HEADER_DATA \<and> s_pkt_capacity w2 = s_pkt_capacity w1"
      using fill_packet_law [of w1] t1(1) False rest1 f1(3) by (auto simp: sending_def resting_def)
    note g = fill_rest_fields [OF w2(4)]
    have kept: "w_packets w2 q = w_packets w1 q" if "q \<in> ran (s_outgoing w1)" for q
      using that t1(1) g(18) unfolding sending_def flight_inv_def by metis
    have s2: "sending w2"
    proof -
      have "flight_but (seq_off (s_remote_acked w1) (s_seq w1)) {} w2"
        by (rule flight_but_cong [where w = w1]) (use t1(1) kept in \<open>simp_all add: g sending_def flight_inv_def\<close>)
      then show ?thesis using t1(1) w2(2) by (simp add: sending_def flight_inv_def path_ok_def remote_ok_def g)
    qed
    have "keeps_account w1 w2" using w2(7) t1(1) by (simp add: sending_def flight_inv_def)
    then have e2: "emits [] w1 w2" using w2(3,5) kept by (simp add: emits_def g ranI)
    have pace2: "w_now w2 \<le> s_tb_last_refill_ms w2" using f1(4) by (simp add: g)
    have may': "stream_may_send False w = Some (True, w1)" using may True by (simp add: w1_def)
    have step: "send_new_packet env False w =
      (if s_pkt_capacity w2 = 0 \<or> has_flag (s_pkt_header_flag w2) UDX_HEADER_END
         then do { w \<leftarrow> send_current_packet env False w2; Some (True, w) }
         else Some (False, if has_flag (s_pkt_header_flag w2) UDX_HEADER_DATA then w2\<lparr>w_prepare := True\<rparr> else w2))"
      using False w2(1) by (simp add: send_new_packet_def may')
    show ?thesis
    proof (cases "s_pkt_capacity w2 = 0 \<or> has_flag (s_pkt_header_flag w2) UDX_HEADER_END")
      case go: True
      have room2: "seq_off (s_remote_acked w2) (s_seq w2) + 1 < 2 ^ 32" using room by (simp add: g f1)
      have "has_flag (s_pkt_header_flag w2) UDX_HEADER_DATA \<or> has_flag (s_pkt_header_flag w2) UDX_HEADER_END"
        using go w2(8) rest1 by (auto simp: resting_def)
      then obtain w3 where w3: "send_current_packet env False w2 = Some w3" "sending w3" "resting w3" "emits [s_pkt w2] w2 w3"
        "send_work w3 = send_work w2" "w_now w3 = w_now w2" "s_tb_last_refill_ms w3 = s_tb_last_refill_ms w2"
        using send_current_emits [OF s2 room2] by blast
      have "emits [s_pkt w2] w w3" using emits_trans [OF t1(3) emits_trans [OF e2 w3(4)]] by simp
      moreover have "send_work w3 < send_work w" using w2(6) w3(5) t1(4) by simp
      moreover have "pace_ready w3" using pace2 w3(6,7) by (simp add: pace_ready_def not_less [symmetric])
      moreover have "send_new_packet env False w = Some (True, w3)" unfolding step if_P [OF go] using w3(1) by simp
      ultimately show ?thesis using w3(2,3) by (intro exI [of _ True] exI [of _ w3]) auto
    next
      case stop: False
      define w3 where "w3 = (if has_flag (s_pkt_header_flag w2) UDX_HEADER_DATA then w2\<lparr>w_prepare := True\<rparr> else w2)"
      have c3: "core w3 = core w2" "s_seq w3 = s_seq w2" "s_pkt_capacity w3 = s_pkt_capacity w2" "s_pkt_header_flag w3 = s_pkt_header_flag w2"
        "s_cwnd w3 = s_cwnd w2" "mtu_inv w3 = mtu_inv w2"
        by (cases "has_flag (s_pkt_header_flag w2) UDX_HEADER_DATA"; simp add: w3_def core_def flow_def mtu_inv_def)+
      have f3: "s_remote_acked w3 = s_remote_acked w2" "s_outgoing w3 = s_outgoing w2" "s_pkt w3 = s_pkt w2" "w_packets w3 = w_packets w2"
        "w_next_packet w3 = w_next_packet w2" "s_write_queue w3 = s_write_queue w2" "w_wbufs w3 = w_wbufs w2" "s_rto w3 = s_rto w2"
        "s_status w3 = s_status w2" "s_remote_addr w3 = s_remote_addr w2" "w_now w3 = w_now w2" "s_tb_last_refill_ms w3 = s_tb_last_refill_ms w2"
        using c3(1) by (simp_all add: core_def flow_def)
      have pay3: "pending w3 = pending w2" "unsent w3 = unsent w2"
        by (simp_all add: f3 pending_def packet_payload_def slice_bytes_def unsent_def cong: map_cong)
      have "sending w3"
        using s2 flight_core [OF c3(1)] pay3(1) c3 f3 by (simp add: sending_def flight_inv_def building_def path_ok_def remote_ok_def Let_def)
      moreover have "resting w3"
      proof -
        have "w_prepare w2 = w_prepare w1" using arg_cong [OF w2(4), of w_prepare] by (simp add: fill_rest_def)
        then show ?thesis using stop rest1 w2(8) unfolding resting_def c3 by (auto simp: w3_def)
      qed
      moreover have "pace_ready w3" using pace2 by (simp add: pace_ready_def f3 not_less [symmetric])
      moreover have "emits [] w w3" using emits_trans [OF t1(3) emits_trans [OF e2 emits_nilI [OF c3(1,2)]]] by simp
      moreover have "send_new_packet env False w = Some (False, w3)" unfolding step if_not_P [OF stop] w3_def ..
      moreover have "send_work w3 \<le> send_work w" using w2(6) t1(4) pay3(2) by (simp add: send_work_def f3)
      ultimately show ?thesis by (intro exI [of _ False] exI [of _ w3]) simp
    qed
  qed
qed

lemma send_new_packets_law:
  assumes "sending w" "resting w" "pace_ready w" "seq_off (s_remote_acked w) (s_seq w) + send_work w + 1 < 2 ^ 32"
  shows "\<exists>w' ps. send_new_packets env w = Some w' \<and> sending w' \<and> resting w' \<and> pace_ready w' \<and> emits ps w w'
    \<and> length ps + send_work w' \<le> send_work w"
  using assms
proof (induction "send_work w" arbitrary: w rule: less_induct)
  case less
  have room: "seq_off (s_remote_acked w) (s_seq w) + 1 < 2 ^ 32" using less.prems(4) by linarith
  obtain b w1 where w1: "send_new_packet env False w = Some (b, w1)" "sending w1" "resting w1" "pace_ready w1"
    "if b then (\<exists>p. emits [p] w w1) \<and> send_work w1 < send_work w else emits [] w w1" "send_work w1 \<le> send_work w"
    using send_new_packet_law [OF less.prems(1-3) room] by blast
  show ?case
  proof (cases b)
    case False
    then have "send_new_packets env w = Some w1" using w1(1) by (subst send_new_packets.simps) simp
    moreover have "send_work w1 \<le> send_work w" using w1(6) by simp
    ultimately show ?thesis using w1 False by (intro exI [of _ w1] exI [of _ "[]"]) simp
  next
    case True
    then obtain p where p: "emits [p] w w1" and lt: "send_work w1 < send_work w" using w1(5) by auto
    have "s_remote_acked w1 = s_remote_acked w" "s_seq w1 = s_seq w + 1" using p by (simp_all add: emits_def)
    then have "seq_off (s_remote_acked w1) (s_seq w1) = seq_off (s_remote_acked w) (s_seq w) + 1"
      using seq_off_Suc [of "s_remote_acked w" "s_seq w"] room by simp
    then have "seq_off (s_remote_acked w1) (s_seq w1) + send_work w1 + 1 < 2 ^ 32" using less.prems(4) lt by linarith
    then obtain w' ps where w': "send_new_packets env w1 = Some w'" "sending w'" "resting w'" "pace_ready w'" "emits ps w1 w'"
      "length ps + send_work w' \<le> send_work w1"
      using less.hyps [OF lt w1(2-4)] by blast
    have "send_new_packets env w = Some w'" using w1(1) True w'(1) by (subst send_new_packets.simps) simp
    moreover have "length ([p] @ ps) + send_work w' \<le> send_work w" using w'(6) lt by simp
    ultimately show ?thesis using w'(2-4) emits_trans [OF p w'(5)] by blast
  qed
qed

lemma resends_law:
  assumes s: "sending w" and rs: "resends w w1" and fl: "flight_but (seq_off (s_remote_acked w) (s_seq w)) {} w1" and ok: "path_ok w1"
  shows "sending w1" and "emits [] w w1" and "resting w1 = resting w" and "send_work w1 = send_work w"
proof -
  have e: "flow_rest w1 = flow_rest w" using rs by (simp add: resends_def)
  note g = flow_rest_fields [OF e]
  have pkt: "w_packets w1 (s_pkt w) = w_packets w (s_pkt w)" using s rs by (simp add: sending_def flight_inv_def resends_def)
  have pend: "pending w1 = pending w" "unsent w1 = unsent w" "send_work w1 = send_work w"
    using g(7,8) by (simp_all add: pending_def packet_payload_def slice_bytes_def unsent_def send_work_def g(5) pkt cong: map_cong)
  have "flight_inv w1" using fl s by (simp add: flight_inv_def sending_def g(1,3,4,5))
  moreover have "building w1" using s pend(1) pkt by (simp add: sending_def building_def Let_def g)
  moreover have "remote_ok w1" using s by (simp add: sending_def remote_ok_def g(18))
  ultimately show "sending w1" using ok by (simp add: sending_def)
  have "s_writes_queued_bytes w1 = s_writes_queued_bytes w"
    using arg_cong [OF e, of s_writes_queued_bytes] by (simp add: flow_rest_def bbr_rest_def send_rest_def)
  then have "same_account w w1" "callbacks w1 = callbacks w" using rs pkt by (simp_all add: same_account_def g resends_def packet_body_def)
  then show "emits [] w w1" using pend rs same_account_keeps by (simp add: emits_def g resends_def same_bufs_def)
  have "w_prepare w1 = w_prepare w" using arg_cong [OF e, of w_prepare] by (simp add: flow_rest_def bbr_rest_def send_rest_def)
  then show "resting w1 = resting w" by (simp add: resting_def g)
  show "send_work w1 = send_work w" by (rule pend(3))
qed

lemma send_packets_law:
  assumes s: "sending w" and rest: "resting w" and pr: "pace_ready w"
    and room: "seq_off (s_remote_acked w) (s_seq w) + send_work w + 1 < 2 ^ 32"
  shows "\<exists>w' ps. send_packets env w = Some w' \<and> sending w' \<and> resting w' \<and> pace_ready w' \<and> emits ps w w'
    \<and> length ps + send_work w' \<le> send_work w"
proof -
  have fl: "flight_but (seq_off (s_remote_acked w) (s_seq w)) {} w" and ok: "path_ok w" using s by (simp_all add: sending_def flight_inv_def)
  have "s_retransmit_queue w = []" if idle: "s_remote_acked w = s_seq w"
  proof -
    have "s_outgoing w k = None" for k
      using packet_okD(2) [OF flightD(4) [OF fl, of k]] idle by (cases "s_outgoing w k") auto
    then have "ran (s_outgoing w) = {}" by (auto simp: ran_def)
    then show ?thesis using flightD(2) [OF fl] by auto
  qed
  then obtain w1 where w1: "send_retransmits env w = Some w1" "flight_but (seq_off (s_remote_acked w) (s_seq w)) {} w1" "resends w w1"
    "path_ok w1" "pace_ready w1"
    using send_retransmits_law [OF fl ok pr] by blast
  note r = resends_law [OF s w1(3,2,4)]
  have "s_remote_acked w1 = s_remote_acked w" "s_seq w1 = s_seq w" using r(2) by (simp_all add: emits_def)
  then have "seq_off (s_remote_acked w1) (s_seq w1) + send_work w1 + 1 < 2 ^ 32" using room r(4) by simp
  then obtain w' ps where w': "send_new_packets env w1 = Some w'" "sending w'" "resting w'" "pace_ready w'" "emits ps w1 w'" "length ps + send_work w' \<le> send_work w"
    using send_new_packets_law [OF r(1)] r(3,4) rest w1(5) by metis
  have "send_packets env w = Some w'" using ok w1(1) w'(1) by (simp add: send_packets_def path_ok_def)
  then show ?thesis using w' emits_trans [OF r(2) w'(5)] by auto
qed

end
