(* ===== verification/Udx_Transfer.thy ===== *)
theory Udx_Transfer
  imports Udx_Sender Udx_Api Udx_Recv
begin

text \<open>
  The calls of the user: queueing a write (\<open>udx_stream_write\<close>), and initialising and
  connecting a stream, which establish and keep the invariants of Udx_Sender.  Then that the send loop stops only where it must.
\<close>

section \<open>Queueing writes\<close>

text \<open>The buffers of a new write are not in use: not queued and not part of a packet.\<close>

definition fresh_bufs :: "(addr \<times> u8 list) list \<Rightarrow> world \<Rightarrow> bool" where
  "fresh_bufs bufs w \<longleftrightarrow> distinct (map fst bufs) \<and> (\<forall>(b, buf) \<in> set bufs. length buf < 2 ^ 64 \<and> b \<notin> set (s_write_queue w)
     \<and> (\<forall>sl \<in> set (p_slices (w_packets w (s_pkt w))). sl_wbuf sl \<noteq> b))"

definition queued :: "world \<Rightarrow> (addr \<times> u8 list) list \<Rightarrow> world \<Rightarrow> bool" where
  "queued w bufs w' \<longleftrightarrow> sending w' \<and> resting w' \<and> pending w' = pending w \<and> unsent w' = unsent w @ concat (map snd bufs)
     \<and> s_write_queue w' = s_write_queue w @ map fst bufs
     \<and> s_seq w' = s_seq w \<and> s_remote_acked w' = s_remote_acked w \<and> s_outgoing w' = s_outgoing w \<and> w_packets w' = w_packets w
     \<and> w_now w' = w_now w \<and> s_tb_last_refill_ms w' = s_tb_last_refill_ms w \<and> s_pacing_bytes_per_ms w' = s_pacing_bytes_per_ms w
     \<and> s_pkt w' = s_pkt w \<and> (\<forall>b. b \<notin> fst ` set bufs \<longrightarrow> w_wbufs w' b = w_wbufs w b)"

lemma queue_wbufs_law:
  assumes "sending w" "resting w" "fresh_bufs bufs w"
  shows "queued w bufs (queue_wbufs wr is_end bufs w)"
  using assms
proof (induction bufs arbitrary: w)
  case Nil
  then show ?case by (simp add: queued_def)
next
  case (Cons x bufs)
  obtain b buf where x: "x = (b, buf)" by (cases x)
  define wb where "wb = \<lparr>wb_buf = buf, wb_bytes_inflight = 0, wb_bytes_acked = 0, wb_write = wr, wb_is_write_end = is_end \<and> bufs = []\<rparr>"
  define w1 where "w1 = w\<lparr>w_wbufs := (w_wbufs w)(b := wb),
               w_writes := (w_writes w)(wr := (w_writes w wr)\<lparr>wr_size := wr_size (w_writes w wr) + of_nat (length buf)\<rparr>),
               s_bytes_queued := s_bytes_queued w + of_nat (length buf), s_writes_queued_bytes := s_writes_queued_bytes w + of_nat (length buf),
               s_write_queue := lq_tail b (s_write_queue w)\<rparr>"
  have fresh: "b \<notin> set (s_write_queue w)" "\<And>sl. sl \<in> set (p_slices (w_packets w (s_pkt w))) \<Longrightarrow> sl_wbuf sl \<noteq> b" "length buf < 2 ^ 64"
    "b \<notin> fst ` set bufs"
    using Cons.prems(3) by (auto simp: fresh_bufs_def x)
  have pend: "pending w1 = pending w"
    using fresh(2) by (simp add: pending_def packet_payload_def slice_bytes_def w1_def cong: map_cong)
  have left: "wb_left wb = buf" "wbuf_ok wb" using fresh(3) by (simp_all add: wb_def wb_left_def wb_done_def wbuf_ok_def)
  have un: "unsent w1 = unsent w @ buf"
  proof -
    have "concat (map (\<lambda>c. wb_left (w_wbufs w1 c)) (s_write_queue w)) = unsent w"
      unfolding unsent_def using fresh(1) by (intro arg_cong [where f = concat] map_cong refl) (auto simp: w1_def)
    moreover have "s_write_queue w1 = s_write_queue w @ [b]" "w_wbufs w1 b = wb" by (simp_all add: w1_def lq_tail_def)
    ultimately show ?thesis using left(1) by (simp add: unsent_def)
  qed
  have s1: "sending w1"
  proof -
    have "flight_but (seq_off (s_remote_acked w) (s_seq w)) {} w1"
      by (rule flight_but_cong [where w = w]) (use Cons.prems(1) in \<open>simp_all add: w1_def sending_def flight_inv_def\<close>)
    moreover have "building w1"
      using Cons.prems(1) pend left(2) fresh(1) by (simp add: sending_def building_def Let_def w1_def lq_tail_def)
    ultimately show ?thesis
      using Cons.prems(1) by (simp add: sending_def flight_inv_def path_ok_def remote_ok_def mtu_inv_def w1_def)
  qed
  have r1: "resting w1" using Cons.prems(2) by (simp add: resting_def w1_def)
  have f1: "fresh_bufs bufs w1" using Cons.prems(3) fresh(4) by (force simp: fresh_bufs_def x w1_def lq_tail_def)
  have "queue_wbufs wr is_end (x # bufs) w = queue_wbufs wr is_end bufs w1"
    by (simp add: x Let_def w1_def wb_def)
  moreover have "queued w (x # bufs) v" if "queued w1 bufs v" for v
    using that pend un by (simp add: queued_def x) (simp add: w1_def lq_tail_def)
  ultimately show ?case using Cons.IH [OF s1 r1 f1] by simp
qed

text \<open>A write request that is not in use, with its buffers; an empty buffer is alone.\<close>

definition new_write :: "addr \<Rightarrow> (addr \<times> u8 list) list \<Rightarrow> world \<Rightarrow> bool" where
  "new_write wr bufs w \<longleftrightarrow> wr \<notin> unanswered w \<and> distinct (map fst bufs) \<and> fst ` set bufs \<inter> fst ` set (open_chunks w) = {}
     \<and> unat (s_writes_queued_bytes w) + length (concat (map snd bufs)) < 2 ^ 64
     \<and> ([] \<notin> snd ` set bufs \<or> (\<exists>x. bufs = [x]))"

lemma queue_wbufs_queued:
  "queue_wbufs wr is_end ((b, buf) # bufs) w = queue_wbufs wr is_end bufs (queued_wbuf wr (is_end \<and> bufs = []) b buf w)"
  by (simp add: queued_wbuf_def Let_def)

lemma queue_wbufs_account:
  assumes "accounted w" "write_open wr w" "distinct (map fst bufs)" "fst ` set bufs \<inter> fst ` set (open_chunks w) = {}"
    and "unat (s_writes_queued_bytes w) + length (concat (map snd bufs)) < 2 ^ 64"
    and "if [] \<in> snd ` set bufs then wr \<notin> unanswered w \<and> length bufs = 1 else \<forall>c \<in> set (open_chunks w). owner w (fst c) = wr \<longrightarrow> snd c \<noteq> 0"
  shows "accounted (queue_wbufs wr is_end bufs w) \<and> unanswered (queue_wbufs wr is_end bufs w) = (if bufs = [] then {} else {wr}) \<union> unanswered w
    \<and> callbacks (queue_wbufs wr is_end bufs w) = callbacks w
    \<and> (\<forall>x. wr_on_ack (w_writes (queue_wbufs wr is_end bufs w) x) = wr_on_ack (w_writes w x))"
  using assms
proof (induction bufs arbitrary: w)
  case (Cons x bufs)
  obtain b buf where x: "x = (b, buf)" by (cases x)
  let ?w = "queued_wbuf wr (is_end \<and> bufs = []) b buf w"
  have fresh: "b \<notin> fst ` set (open_chunks w)" "b \<notin> fst ` set bufs" using Cons.prems(3,4) by (auto simp: x)
  have size: "unat (s_writes_queued_bytes w) + length buf < 2 ^ 64" using Cons.prems(5) by (simp add: x)
  have live: "if buf = [] then wr \<notin> unanswered w else \<forall>c \<in> set (open_chunks w). owner w (fst c) = wr \<longrightarrow> snd c \<noteq> 0"
  proof (cases "buf = []")
    case False
    show ?thesis
    proof (cases "[] \<in> snd ` set (x # bufs)")
      case True
      then show ?thesis using Cons.prems(6) False by (auto simp: x)
    qed (use Cons.prems(6) False in auto)
  qed (use Cons.prems(6) in \<open>auto simp: x\<close>)
  note a = queue_account [OF Cons.prems(1,2) fresh(1) size live, where is_end = "is_end \<and> bufs = []"]
  have n: "unat (of_nat (length buf) :: u64) = length buf" using size by (simp add: unat_of_nat)
  have q: "unat (s_writes_queued_bytes ?w) = unat (s_writes_queued_bytes w) + length buf"
    using size n by (simp add: queued_wbuf_def unat_add_le [of _ _ "2 ^ 64 - 1"])
  have "accounted (queue_wbufs wr is_end bufs ?w) \<and> unanswered (queue_wbufs wr is_end bufs ?w) = (if bufs = [] then {} else {wr}) \<union> unanswered ?w
    \<and> callbacks (queue_wbufs wr is_end bufs ?w) = callbacks ?w
    \<and> (\<forall>x. wr_on_ack (w_writes (queue_wbufs wr is_end bufs ?w) x) = wr_on_ack (w_writes ?w x))"
  proof (cases "bufs = []")
    case False
    then have ne: "[] \<notin> snd ` set (x # bufs)" "buf \<noteq> []" using Cons.prems(6) by (auto simp: x split: if_splits)
    have "fst ` set bufs \<inter> fst ` set (open_chunks ?w) = {}" using Cons.prems(4) fresh(2) by (auto simp: a(3) x)
    moreover have "\<forall>c \<in> set (open_chunks ?w). owner ?w (fst c) = wr \<longrightarrow> snd c \<noteq> 0"
    proof
      fix c assume "c \<in> set (open_chunks ?w)"
      then consider "c \<in> set (open_chunks w)" | "c = (b, of_nat (length buf))" by (auto simp: a(3))
      then show "owner ?w (fst c) = wr \<longrightarrow> snd c \<noteq> 0"
      proof cases
        case 1
        then show ?thesis using a(4) [of "fst c"] Cons.prems(6) ne(1) by (auto split: if_splits)
      next
        case 2
        then show ?thesis using n ne(2) by auto
      qed
    qed
    ultimately show ?thesis
      using Cons.prems(3,5) ne(1) q by (intro Cons.IH [OF a(1,2)]) (auto simp: x)
  qed (use a(1) in simp)
  then show ?case unfolding x queue_wbufs_queued using a(5,6,7) by auto
qed simp

text \<open>A write has joined the unanswered ones.\<close>

definition opens_write :: "addr \<Rightarrow> bool \<Rightarrow> world \<Rightarrow> world \<Rightarrow> bool" where
  "opens_write wr cb w w' \<longleftrightarrow> unanswered w' = insert wr (unanswered w) \<and> callbacks w' = callbacks w
     \<and> (\<forall>x. wr_on_ack (w_writes w' x) = (if x = wr then cb else wr_on_ack (w_writes w x)))"

lemma new_write_account:
  fixes is_end cb :: bool
  assumes acc: "accounted w" and new: "new_write wr bufs w" "bufs \<noteq> []"
  defines "v \<equiv> queue_wbufs wr is_end bufs (w\<lparr>w_writes := (w_writes w)(wr := \<lparr>wr_size = 0, wr_bytes_acked = 0, wr_is_write_end = is_end, wr_on_ack = cb\<rparr>)\<rparr>)"
    (is "v \<equiv> queue_wbufs _ _ _ ?w")
  shows "accounted v" and "opens_write wr cb w v"
proof -
  have "flight_chunks ?w (s_remote_acked w) = flight_chunks w (s_remote_acked w)" by (rule flight_chunks_same) simp_all
  then have "sent_chunks ?w = sent_chunks w" by (simp add: sent_chunks_def packet_chunks_def)
  then have ch: "open_chunks ?w = open_chunks w" "sent_chunks ?w = sent_chunks w" by (simp_all add: open_chunks_def queue_chunks_def)
  have un: "unanswered ?w = unanswered w" by (simp add: unanswered_def ch)
  have no: "owner w b \<noteq> wr" if "b \<in> fst ` set (open_chunks w)" for b using new(1) that by (auto simp: new_write_def unanswered_def)
  then have "covers (open_chunks w) ?w" using accountedD(1) [OF acc] by (auto simp: covers_def)
  then have "accounted ?w" using acc by (simp add: accounted_def ch) (simp add: lively_def)
  moreover have "write_open wr ?w" using no by (auto simp: write_open_def ch intro!: chunk_sum_none)
  moreover have "if [] \<in> snd ` set bufs then wr \<notin> unanswered ?w \<and> length bufs = 1
    else \<forall>c \<in> set (open_chunks ?w). owner ?w (fst c) = wr \<longrightarrow> snd c \<noteq> 0"
    using new(1) no unfolding un ch by (auto simp: new_write_def)
  ultimately have v: "accounted v \<and> unanswered v = (if bufs = [] then {} else {wr}) \<union> unanswered ?w \<and> callbacks v = callbacks ?w
    \<and> (\<forall>x. wr_on_ack (w_writes v x) = wr_on_ack (w_writes ?w x))"
    unfolding v_def using new(1) by (intro queue_wbufs_account) (auto simp: new_write_def ch)
  then show "accounted v" by blast
  show "opens_write wr cb w v" using v new(2) un by (simp add: opens_write_def) (simp add: callbacks_def)
qed

lemma queued_work: "queued w bufs w' \<Longrightarrow> send_work w' = send_work w + length (concat (map snd bufs)) + length bufs"
  by (simp add: queued_def send_work_def)

text \<open>What does not concern the sender.\<close>

lemma sending_cong:
  assumes c: "flow w' = flow w" and f: "s_seq w' = s_seq w" "s_pkt_capacity w' = s_pkt_capacity w"
    "s_pkt_header_flag w' = s_pkt_header_flag w" "s_cwnd w' = s_cwnd w" "mtu_inv w' = mtu_inv w" "w_prepare w' = w_prepare w"
  shows "sending w \<Longrightarrow> sending w'" "resting w' = resting w" "pending w' = pending w" "unsent w' = unsent w" "send_work w' = send_work w"
proof -
  note e = c [unfolded flow_def prod.inject]
  show p: "pending w' = pending w" using e by (simp add: pending_def packet_payload_def slice_bytes_def cong: map_cong)
  show "unsent w' = unsent w" "send_work w' = send_work w" using e by (simp_all add: unsent_def send_work_def)
  show "resting w' = resting w" using f by (simp add: resting_def)
  show "sending w'" if "sending w"
    using that e f p flight_flow [OF c] by (simp add: sending_def flight_inv_def building_def path_ok_def remote_ok_def Let_def)
qed

lemma queued_cong:
  assumes c: "flow w' = flow v" and f: "s_seq w' = s_seq v" "s_pkt_capacity w' = s_pkt_capacity v"
    "s_pkt_header_flag w' = s_pkt_header_flag v" "s_cwnd w' = s_cwnd v" "mtu_inv w' = mtu_inv v" "w_prepare w' = w_prepare v"
    "s_pacing_bytes_per_ms w' = s_pacing_bytes_per_ms v"
    and q: "queued w bufs v"
  shows "queued w bufs w'"
  using q sending_cong [OF c f(1-6)] c [unfolded flow_def prod.inject] f(1,7) by (simp add: queued_def)

lemma send_datagram_frame:
  "\<exists>io out. send_datagram env dest bytes v = v\<lparr>w_ios := io, w_output := out\<rparr>"
proof -
  have "send_datagram env dest bytes v = v\<lparr>w_ios := (if env_try_send env (w_ios v) = UV_EAGAIN then w_ios v + 2 else w_ios v + 1),
    w_output := (if env_try_send env (w_ios v) = UV_EAGAIN \<and> env_udp_send env (w_ios v + 1) \<noteq> 0
        \<or> env_try_send env (w_ios v) \<noteq> UV_EAGAIN \<and> env_try_send env (w_ios v) < 0 then w_output v else w_output v @ [Datagram dest bytes])\<rparr>"
    by (simp add: send_datagram_def Let_def)
  then show ?thesis by blast
qed

lemma datagram_account:
  "same_account v (send_datagram env dest bytes v)" "callbacks (send_datagram env dest bytes v) = callbacks v"
  by (simp_all add: same_account_def callbacks_def send_datagram_def Let_def)

lemma probe_account: "same_account v (stream_timer_start t n (send_probe env v))" "callbacks (stream_timer_start t n (send_probe env v)) = callbacks v"
  using datagram_account by (simp_all add: same_account_def callbacks_def send_probe_def count_tx_def stream_timer_start_def Let_def)

lemma probe_queued:
  assumes q: "queued w bufs v"
  shows "queued w bufs (stream_timer_start t n (send_probe env v))"
proof -
  obtain io out where d: "send_datagram env (s_remote_addr v) (udx_write_header env v UDX_HEADER_HEARTBEAT (s_remote_id v)) v
      = v\<lparr>w_ios := io, w_output := out\<rparr>"
    using send_datagram_frame by blast
  have "queued w bufs (send_probe env v)"
  proof (cases "s_socket v = NULL")
    case False
    then have "send_probe env v = count_tx 20 (v\<lparr>w_ios := io, w_output := out\<rparr>)" by (simp add: send_probe_def d)
    then show ?thesis by (intro queued_cong [OF _ _ _ _ _ _ _ _ q]) (simp_all add: flow_def count_tx_def mtu_inv_def)
  qed (use q in \<open>simp add: send_probe_def\<close>)
  then show ?thesis
    by (rule queued_cong [rotated 8]) (simp_all add: flow_def stream_timer_start_def Let_def mtu_inv_def)
qed

text \<open>A write: the buffers are queued, and what the windows allow is sent.\<close>

lemma write_internal_law:
  assumes s: "sending w" and rest: "resting w" and pr: "pace_ready w" and fresh: "fresh_bufs bufs w" "bufs \<noteq> []"
    and room: "seq_off (s_remote_acked w) (s_seq w) + send_work w + length (concat (map snd bufs)) + length bufs + 1 < 2 ^ 32"
  shows "\<exists>w1 w' ps. udx_stream_write_internal env wr bufs cb is_end w = Some w' \<and> queued w bufs w1 \<and> sending w' \<and> resting w'
    \<and> pace_ready w' \<and> emits ps w1 w' \<and> length ps + send_work w' \<le> send_work w1
    \<and> (accounted w \<and> new_write wr bufs w \<longrightarrow> accounted w1 \<and> opens_write wr cb w w1)"
proof -
  define w0 where "w0 = w\<lparr>w_writes := (w_writes w)(wr := \<lparr>wr_size = 0, wr_bytes_acked = 0, wr_is_write_end = is_end, wr_on_ack = cb\<rparr>)\<rparr>"
  have c0: "flow w0 = flow w" "s_seq w0 = s_seq w" "s_pkt_capacity w0 = s_pkt_capacity w" "s_pkt_header_flag w0 = s_pkt_header_flag w"
    "s_cwnd w0 = s_cwnd w" "mtu_inv w0 = mtu_inv w" "w_prepare w0 = w_prepare w"
    by (simp_all add: w0_def flow_def mtu_inv_def)
  note g0 = sending_cong [OF c0]
  have "fresh_bufs bufs w0" using fresh(1) by (simp add: fresh_bufs_def w0_def)
  then have q: "queued w0 bufs (queue_wbufs wr is_end bufs w0)" (is "queued _ _ ?v") using queue_wbufs_law g0 s rest by blast
  define w1 where "w1 = (if s_writes_queued_bytes w = 0 \<and> s_send_rwnd ?v = 0
    then stream_timer_start UDX_TIMER_ZWP (s_rto (send_probe env ?v)) (send_probe env ?v) else ?v)"
  have q1: "queued w0 bufs w1" using q probe_queued [OF q] by (simp add: w1_def)
  have same: "queued w bufs w1" using q1 g0(3,4) c0(2) by (simp add: queued_def) (simp add: w0_def)
  have sr: "sending w1" "resting w1" using same by (simp_all add: queued_def)
  have "pace_ready w1" using pr same by (simp add: pace_ready_def queued_def)
  moreover have "seq_off (s_remote_acked w1) (s_seq w1) + send_work w1 + 1 < 2 ^ 32"
    using room queued_work [OF same] same by (simp add: queued_def)
  ultimately obtain w' ps where w': "send_packets env w1 = Some w'" "sending w'" "resting w'" "pace_ready w'" "emits ps w1 w'"
    "length ps + send_work w' \<le> send_work w1"
    using send_packets_law [OF sr] by blast
  have "udx_stream_write_internal env wr bufs cb is_end w = send_packets env w1"
    using fresh(2) by (simp add: udx_stream_write_internal_def Let_def w0_def [symmetric] w1_def)
  moreover have "accounted w1 \<and> opens_write wr cb w w1" if "accounted w" "new_write wr bufs w"
  proof -
    have v: "accounted ?v" "opens_write wr cb w ?v" using new_write_account [OF that fresh(2), where is_end=is_end and cb=cb] by (simp_all add: w0_def)
    have sa: "same_account ?v w1" "callbacks w1 = callbacks ?v" using probe_account [where v="?v"] by (simp_all add: w1_def same_account_def)
    then show ?thesis
      using v accounted_same [OF sa(1)] same_account_answers [OF sa] by (simp add: opens_write_def same_answers_def)
  qed
  ultimately show ?thesis using same w' by metis
qed


section \<open>Writing, and a fresh stream\<close>

lemma watermark_law:
  assumes "sending w"
  shows "\<exists>r b. watermark_result w = Some (r, w\<lparr>s_hit_high_watermark := b\<rparr>) \<and> r \<in> {0, 1}"
proof -
  obtain win where w: "send_window_in_bytes w = Some win"
    using assms by (auto simp: sending_def path_ok_def send_window_in_bytes_def cwnd_in_bytes_def max_payload_mtu)
  have same: "w = w\<lparr>s_hit_high_watermark := s_hit_high_watermark w\<rparr>" by simp
  show ?thesis
  proof (cases "s_writes_queued_bytes w > ucast (UDX_HIGH_WATERMARK + win)")
    case True
    then show ?thesis by (auto simp: watermark_result_def w)
  next
    case False
    then have "watermark_result w = Some (1, w)" by (simp add: watermark_result_def w)
    then show ?thesis using same by (intro exI [of _ 1] exI [of _ "s_hit_high_watermark w"]) simp
  qed
qed

lemma stream_write_law:
  assumes s: "sending w" and rest: "resting w" and pr: "pace_ready w" and fresh: "fresh_bufs bufs w" "bufs \<noteq> []"
    and st: "has_flag (s_status w) UDX_STREAM_CONNECTED" "\<not> has_flag (s_status w) UDX_STREAM_ENDING"
    and room: "seq_off (s_remote_acked w) (s_seq w) + send_work w + length (concat (map snd bufs)) + length bufs + 1 < 2 ^ 32"
  shows "\<exists>r w' ps. udx_stream_write env wr bufs cb w = Some (r, w') \<and> r \<in> {0, 1} \<and> sending w' \<and> resting w'
    \<and> s_seq w' = s_seq w + of_nat (length ps) \<and> (\<forall>i < length ps. s_outgoing w' (s_seq w + of_nat i) = Some (ps ! i))
    \<and> (\<forall>p \<in> set ps. sent_form w' p)
    \<and> concat (map (\<lambda>p. packet_payload w' (w_packets w' p)) ps) @ pending w' @ unsent w' = pending w @ unsent w @ concat (map snd bufs)"
proof -
  obtain w1 v ps where v: "udx_stream_write_internal env wr bufs cb False w = Some v" "queued w bufs w1" "sending v" "resting v" "emits ps w1 v"
    using write_internal_law [OF s rest pr fresh room] by blast
  obtain r b where r: "watermark_result v = Some (r, v\<lparr>s_hit_high_watermark := b\<rparr>)" (is "_ = Some (r, ?w')") "r \<in> {0, 1}"
    using watermark_law [OF v(3)] by blast
  have c: "flow ?w' = flow v" "s_seq ?w' = s_seq v" "s_pkt_capacity ?w' = s_pkt_capacity v" "s_pkt_header_flag ?w' = s_pkt_header_flag v"
    "s_cwnd ?w' = s_cwnd v" "mtu_inv ?w' = mtu_inv v" "w_prepare ?w' = w_prepare v"
    by (simp_all add: flow_def mtu_inv_def)
  note g = sending_cong [OF c]
  have pay: "packet_payload ?w' pkt = packet_payload v pkt" for pkt by (rule payload_same_bufs) (simp_all add: same_bufs_def)
  have sf: "sent_form ?w' p = sent_form v p" for p unfolding sent_form_def pay by simp
  have "udx_stream_write env wr bufs cb w = Some (r, ?w')" using st fresh(2) v(1) r(1) by (simp add: udx_stream_write_def)
  moreover have "concat (map (\<lambda>p. packet_payload ?w' (w_packets ?w' p)) ps) @ pending ?w' @ unsent ?w' = pending w @ unsent w @ concat (map snd bufs)"
    using v(2,5) unfolding pay g(3,4) by (simp add: emits_def queued_def)
  moreover have "s_seq ?w' = s_seq w + of_nat (length ps)" "\<forall>i < length ps. s_outgoing ?w' (s_seq w + of_nat i) = Some (ps ! i)"
    using v(2,5) by (simp_all add: emits_def queued_def)
  moreover have "\<forall>p \<in> set ps. sent_form ?w' p" using v(5) unfolding sf by (simp add: emits_def)
  ultimately show ?thesis using r(2) g(1,2) v(3,4) by blast
qed

text \<open>A stream that was initialised and connected is ready to send.\<close>

lemma init_law:
  "\<exists>w. udx_stream_init now debug_flags local_id close_cb = Some w \<and> flight_inv w \<and> building w \<and> path_ok w \<and> resting w \<and> pace_ready w
     \<and> pending w = [] \<and> s_write_queue w = [] \<and> s_seq w = 0 \<and> s_remote_acked w = 0 \<and> s_status w = 0 \<and> \<not> s_ack_needed w
     \<and> s_keepalive_timeout_ms w = 0 \<and> s_mtu_probe_size w = 1200 \<and> p_slices (w_packets w (s_pkt w)) = []
     \<and> s_outgoing w = Map.empty"
proof -
  have mp: "udx__max_payload (w :: world) = Some 1132" if "s_mtu w = 1200" "sa_family (s_remote_addr w) = AF_OTHER" for w
    using that by (simp add: udx__max_payload_def c_assert_def UDX_IPV4_HEADER_SIZE_def UDX_IPV6_HEADER_SIZE_def)
  obtain w where w: "udx_stream_init now debug_flags local_id close_cb = Some w"
    "w_packets w (s_pkt w) = empty_packet" "s_pkt w = 1" "w_next_packet w = 2" "s_pkt_capacity w = 1132" "s_pkt_header_flag w = 0"
    "s_write_queue w = []" "s_outgoing w = Map.empty" "s_inflight_queue w = []" "s_retransmit_queue w = []" "s_inflight w = 0"
    "s_cwnd w = 10" "s_rto w = 1000" "s_status w = 0" "mtu_inv w" "s_tb_last_refill_ms w = now" "w_now w = now" "s_seq w = 0"
    "s_remote_acked w = 0" "\<not> s_ack_needed w" "s_keepalive_timeout_ms w = 0" "s_mtu_probe_size w = 1200" "\<not> w_prepare w"
    by (simp add: udx_stream_init_def bbr_init_def init_pacing mp reset_next_packet_def Let_def
        reset_mtu_state_machine_def zero_stream_def zero_sockaddr_def zero_bbr_def mtu_consts mtu_inv_def bbr_modes_def
        bbr_full_bw_reached_def bbr_reset_startup_mode_def empty_packet_def)
  have "flight_inv w" unfolding flight_inv_def by (auto intro!: flightI simp: w flight_bytes_def)
  moreover have pend: "pending w = []" unfolding pending_def w(2) packet_payload_def by (simp add: empty_packet_def)
  moreover have "building w" using pend unfolding building_def Let_def w(2) by (simp add: w empty_packet_def)
  moreover have "path_ok w" using w(15) by (simp add: path_ok_def w)
  moreover have "resting w" by (simp add: resting_def w)
  moreover have "pace_ready w" by (simp add: pace_ready_def w)
  moreover have "p_slices (w_packets w (s_pkt w)) = []" unfolding w(2) by (simp add: empty_packet_def)
  ultimately show ?thesis using w by blast
qed

lemma connect_law:
  assumes "flight_inv w" "building w" "path_ok w" "resting w" "pending w = []" and st: "s_status w = 0" "\<not> s_ack_needed w" "s_keepalive_timeout_ms w = 0"
    "s_mtu_probe_size w = 1200"
    and a: "sa_family addr = AF_INET \<or> sa_family addr = AF_INET6" "sa_port addr \<noteq> 0"
  shows "\<exists>w'. udx_stream_connect env False sock family remote_id addr link_mtu w = Some (0, w') \<and> sending w' \<and> resting w'
    \<and> s_status w' = UDX_STREAM_CONNECTED \<and> pending w' = [] \<and> s_write_queue w' = s_write_queue w \<and> s_seq w' = s_seq w
    \<and> s_remote_acked w' = s_remote_acked w \<and> w_packets w' = w_packets w \<and> s_pkt w' = s_pkt w \<and> s_outgoing w' = s_outgoing w
    \<and> w_now w' = w_now w \<and> s_tb_last_refill_ms w' = s_tb_last_refill_ms w \<and> s_pacing_bytes_per_ms w' = s_pacing_bytes_per_ms w"
proof -
  define w1 where "w1 = w\<lparr>s_status := s_status w OR UDX_STREAM_CONNECTED, s_remote_id := remote_id, s_socket := sock, w_socket_family := family\<rparr>"
  obtain l where l: "set_remote_len addr w1 = (True, w1\<lparr>s_remote_addr_len := l\<rparr>)"
    using a by (auto simp: set_remote_len_def)
  obtain ra rl where ra: "store_remote family addr (w1\<lparr>s_remote_addr_len := l\<rparr>) = w1\<lparr>s_remote_addr_len := rl, s_remote_addr := ra\<rparr>"
    "sa_family ra = AF_INET \<or> sa_family ra = AF_INET6"
  proof (cases "family = 6 \<and> sa_family addr = AF_INET")
    case True
    then show ?thesis by (intro that [where rl = SOCKADDR_IN6_LEN and ra = "addr_to_v6 addr"]) (simp_all add: store_remote_def Let_def addr_to_v6_def)
  next
    case False
    then show ?thesis using a(1) by (intro that [where rl = l and ra = addr]) (auto simp: store_remote_def Let_def)
  qed
  define mtu where "mtu = (if link_mtu = - 1 \<or> link_mtu > UDX_MTU_MAX then UDX_MTU_MAX else link_mtu)"
  define ms where "ms = (if link_mtu \<noteq> - 1 \<and> link_mtu \<le> UDX_MTU_BASE then UDX_MTU_STATE_SEARCH_COMPLETE else s_mtu_state w)"
  define v where "v = w1\<lparr>s_remote_addr_len := rl, s_remote_addr := ra\<rparr>"
  define w' where "w' = v\<lparr>s_mtu_state := ms, s_mtu_max := mtu\<rparr>"
  have v: "v\<lparr>s_mtu_state := s_mtu_state w\<rparr> = v" by (simp add: v_def w1_def)
  have base: "UDX_MTU_BASE \<le> UDX_MTU_MAX" by (simp add: mtu_consts)
  have pick: "(if link_mtu = - 1 \<or> link_mtu > UDX_MTU_MAX then (UDX_MTU_MAX, v)
      else if link_mtu \<le> UDX_MTU_BASE then (link_mtu, v\<lparr>s_mtu_state := UDX_MTU_STATE_SEARCH_COMPLETE\<rparr>)
      else (link_mtu, v)) = (mtu, v\<lparr>s_mtu_state := ms\<rparr>)"
    using base by (cases "link_mtu = - 1"; cases "link_mtu > UDX_MTU_MAX"; cases "link_mtu \<le> UDX_MTU_BASE") (simp_all add: mtu_def ms_def v)
  have alive: "\<not> stream_dead w" "\<not> has_flag (s_status w) UDX_STREAM_CONNECTED" "\<not> stream_dead w'" "s_status w' = UDX_STREAM_CONNECTED"
    using st(1) by (simp_all add: stream_dead_def w'_def v_def w1_def stream_flag_defs)
  have same: "s_ack_needed w' = s_ack_needed w" "s_keepalive_timeout_ms w' = s_keepalive_timeout_ms w"
    by (simp_all add: w'_def v_def w1_def)
  have "udx_stream_connect env False sock family remote_id addr link_mtu w = Some (0, w')"
    unfolding udx_stream_connect_def Let_def w1_def [symmetric] l prod.case bool.case ra(1) v_def [symmetric] pick w'_def [symmetric]
    using alive(1-3) st(2,3) by (simp add: same)
  moreover have "pending w' = []"
    using assms(5) by (simp add: pending_def packet_payload_def slice_bytes_def w'_def v_def w1_def cong: map_cong)
  moreover have "sending w'"
  proof -
    have "flight_but (seq_off (s_remote_acked w) (s_seq w)) {} w'"
      by (rule flight_but_cong [where w = w]) (use assms(1) in \<open>simp_all add: flight_inv_def w'_def v_def w1_def\<close>)
    moreover have "mtu_inv w'"
    proof -
      have "mtu_inv w" using assms(3) by (simp add: path_ok_def)
      moreover have "mtu \<le> UDX_MTU_MAX" by (simp add: mtu_def)
      moreover have "ms = UDX_MTU_STATE_SEARCH_COMPLETE \<or> ms = s_mtu_state w \<and> 1200 \<le> mtu"
        by (auto simp: ms_def mtu_def mtu_consts)
      moreover have "s_mtu_state w' = ms" "s_mtu_max w' = mtu" "s_mtu w' = s_mtu w" "s_mtu_probe_size w' = 1200"
        "s_mtu_probe_count w' = s_mtu_probe_count w" "s_mtu_probe_wanted w' = s_mtu_probe_wanted w"
        using st(4) by (simp_all add: w'_def v_def w1_def)
      ultimately show ?thesis using st(4) unfolding mtu_inv_def by auto
    qed
    ultimately show ?thesis
      using assms(1-3) \<open>pending w' = []\<close> assms(5) alive(3) ra(2)
      by (simp add: sending_def flight_inv_def path_ok_def building_def Let_def remote_ok_def stream_dead_def) (simp add: w'_def v_def w1_def)
  qed
  moreover have "resting w'" using assms(4) by (simp add: resting_def w'_def v_def w1_def)
  ultimately show ?thesis using alive(4) by (intro exI [of _ w']) (simp add: w'_def v_def w1_def)
qed

section \<open>The send loop stops only where it must\<close>

lemma fill_packet_stops: "fill_packet w = Some w' \<Longrightarrow> s_pkt_capacity w' = 0 \<or> s_write_queue w' = []"
proof (induction rule: fill_packet.raw_induct [rotated, consumes 1])
  case (1 fill w w')
  then show ?case by (auto simp: word_gt_0 bind_eq_Some_conv split: if_splits)
qed

lemma send_new_packets_stops: "send_new_packets env w = Some w' \<Longrightarrow> \<exists>v. send_new_packet env False v = Some (False, w')"
proof (induction rule: send_new_packets.raw_induct [rotated, consumes 1])
  case (1 send env w w')
  then show ?case by (auto simp: bind_eq_Some_conv split: if_splits)
qed

definition window_full :: "world \<Rightarrow> bool" where
  "window_full w \<longleftrightarrow> (\<exists>n. send_window_in_packets w = Some n \<and> unat n \<le> length (s_inflight_queue w))"

lemma send_new_packet_stops:
  assumes "send_new_packet env False w = Some (False, w')"
  shows "s_write_queue w' = [] \<or> s_tb_available w' = 0 \<or> window_full w'"
proof (cases "s_write_queue w = []")
  case True
  then show ?thesis using assms by (simp add: send_new_packet_def)
next
  case False
  then obtain may w1 where m: "stream_may_send False w = Some (may, w1)"
    using assms by (auto simp: send_new_packet_def bind_eq_Some_conv)
  show ?thesis
  proof (cases may)
    case True
    then obtain w2 where f: "fill_packet w1 = Some w2" "s_pkt_capacity w2 \<noteq> 0" "s_write_queue w' = s_write_queue w2"
      using assms False m by (auto simp: send_new_packet_def bind_eq_Some_conv split: if_splits)
    then show ?thesis using fill_packet_stops [OF f(1)] by simp
  next
    case False
    then have "w' = w1" using assms m \<open>s_write_queue w \<noteq> []\<close> by (simp add: send_new_packet_def)
    then show ?thesis using m False by (auto simp: stream_may_send_def window_full_def not_less bind_eq_Some_conv split: if_splits)
  qed
qed

section \<open>A stream with something to send\<close>

text \<open>A stream that was initialised and connected.\<close>

definition demo_start :: "world option" where
  "demo_start = do {
     w \<leftarrow> udx_stream_init 5 0 1 False;
     (r, w) \<leftarrow> udx_stream_connect idle_env False 1 4 2 \<lparr>sa_family = AF_INET, sa_port = 10000, sa_addr = [127, 0, 0, 1]\<rparr> 1500 w;
     Some w
   }"

lemma ready_stream:
  "\<exists>w. demo_start = Some w \<and> sending w \<and> resting w \<and> pace_ready w \<and> pending w = [] \<and> s_write_queue w = [] \<and> s_seq w = 0 \<and> s_remote_acked w = 0
     \<and> s_status w = UDX_STREAM_CONNECTED \<and> p_slices (w_packets w (s_pkt w)) = [] \<and> s_outgoing w = Map.empty"
proof -
  obtain v where v: "udx_stream_init 5 0 1 False = Some v" "flight_inv v" "building v" "path_ok v" "resting v" "pace_ready v"
    "pending v = []" "s_write_queue v = []" "s_seq v = 0" "s_remote_acked v = 0" "s_status v = 0" "\<not> s_ack_needed v"
    "s_keepalive_timeout_ms v = 0" "s_mtu_probe_size v = 1200" "p_slices (w_packets v (s_pkt v)) = []" "s_outgoing v = Map.empty"
    using init_law [of 5 0 1 False] by blast
  let ?addr = "\<lparr>sa_family = AF_INET, sa_port = 10000, sa_addr = [127, 0, 0, 1]\<rparr>"
  have "sa_family ?addr = AF_INET \<or> sa_family ?addr = AF_INET6" "sa_port ?addr \<noteq> 0" by simp_all
  from connect_law [OF v(2-5,7,11-14) this, of idle_env 1 4 2 1500]
  obtain w where "udx_stream_connect idle_env False 1 4 2 ?addr 1500 v = Some (0, w)" "sending w" "resting w" "s_status w = UDX_STREAM_CONNECTED"
    "pending w = []" "s_write_queue w = s_write_queue v"
    "s_seq w = s_seq v" "s_remote_acked w = s_remote_acked v" "w_packets w = w_packets v" "s_pkt w = s_pkt v" "w_now w = w_now v"
    "s_tb_last_refill_ms w = s_tb_last_refill_ms v" "s_pacing_bytes_per_ms w = s_pacing_bytes_per_ms v" "s_outgoing w = s_outgoing v" by blast
  then show ?thesis using v(1,6,8-10,15,16) by (intro exI [of _ w]) (simp add: pace_ready_def demo_start_def)
qed

lemma ready_write:
  "\<exists>w. sending w \<and> resting w \<and> pace_ready w \<and> pending w = [] \<and> unsent w = [1, 2, 3] \<and> seq_off (s_remote_acked w) (s_seq w) = 0
     \<and> send_work w = 4 \<and> s_seq w = 0 \<and> \<not> stream_dead w"
proof -
  obtain v where v: "sending v" "resting v" "pace_ready v" "pending v = []" "s_write_queue v = []" "s_seq v = 0" "s_remote_acked v = 0"
    "p_slices (w_packets v (s_pkt v)) = []"
    using ready_stream by blast
  have "fresh_bufs [(5, [1, 2, 3])] v" using v(5,8) by (simp add: fresh_bufs_def)
  from queue_wbufs_law [OF v(1,2) this, of 7 False] obtain w where w: "queued v [(5, [1, 2, 3])] w" by blast
  moreover have "unsent v = []" using v(5) by (simp add: unsent_def)
  moreover have "sending w" using w by (simp add: queued_def)
  then have "\<not> stream_dead w" by (simp add: sending_def path_ok_def stream_dead_def)
  ultimately show ?thesis
    using v(3-7) by (intro exI [of _ w]) (simp add: queued_def pace_ready_def send_work_def seq_off_def)
qed

section \<open>Properties\<close>

text \<open>C9. Initialising a stream and connecting it to an address with a port succeeds, and the stream is ready to send: the
  invariants of the sender hold, nothing is queued and no packet is under construction.\<close>

theorem connected_stream_ready:
  assumes "sa_family addr = AF_INET \<or> sa_family addr = AF_INET6" "sa_port addr \<noteq> 0"
  shows "\<exists>w w'. udx_stream_init now debug_flags local_id close_cb = Some w
    \<and> udx_stream_connect env False sock family remote_id addr link_mtu w = Some (0, w')
    \<and> sending w' \<and> resting w' \<and> pace_ready w' \<and> pending w' = [] \<and> s_write_queue w' = [] \<and> s_status w' = UDX_STREAM_CONNECTED"
proof -
  obtain v where v: "udx_stream_init now debug_flags local_id close_cb = Some v" "flight_inv v" "building v" "path_ok v" "resting v" "pace_ready v"
    "pending v = []" "s_write_queue v = []" "s_status v = 0" "\<not> s_ack_needed v" "s_keepalive_timeout_ms v = 0" "s_mtu_probe_size v = 1200"
    using init_law [of now debug_flags local_id close_cb] by blast
  show ?thesis
    using connect_law [OF v(2-5,7,9-12) assms, of env sock family remote_id link_mtu] v(1,6,8) by (fastforce simp: pace_ready_def)
qed

theorem connected_stream_ready_witness:
  "\<exists>w w'. udx_stream_init 5 0 1 False = Some w
    \<and> udx_stream_connect idle_env False 1 6 2 \<lparr>sa_family = AF_INET, sa_port = 10000, sa_addr = [127, 0, 0, 1]\<rparr> 1400 w = Some (0, w')
    \<and> sending w' \<and> resting w' \<and> pace_ready w' \<and> pending w' = [] \<and> s_write_queue w' = [] \<and> s_status w' = UDX_STREAM_CONNECTED"
  by (rule connected_stream_ready) simp_all

text \<open>C7. A write on a connected stream returns 0 or 1 (whether the caller should wait), never fails an assertion and keeps the
  sender's invariants.  What it sends and what stays behind is, in order, what was queued before followed by the
  bytes of the write, and the packets it sends have the next numbers and are stored for retransmission.\<close>

theorem stream_write_sends:
  assumes "sending w" "resting w" "pace_ready w" and "fresh_bufs bufs w" "bufs \<noteq> []"
    and "has_flag (s_status w) UDX_STREAM_CONNECTED" "\<not> has_flag (s_status w) UDX_STREAM_ENDING"
    and "seq_off (s_remote_acked w) (s_seq w) + send_work w + length (concat (map snd bufs)) + length bufs + 1 < 2 ^ 32"
  shows "\<exists>r w' ps. udx_stream_write env wr bufs cb w = Some (r, w') \<and> r \<in> {0, 1} \<and> sending w' \<and> resting w'
    \<and> s_seq w' = s_seq w + of_nat (length ps) \<and> (\<forall>i < length ps. s_outgoing w' (s_seq w + of_nat i) = Some (ps ! i))
    \<and> (\<forall>p \<in> set ps. sent_form w' p)
    \<and> concat (map (\<lambda>p. packet_payload w' (w_packets w' p)) ps) @ pending w' @ unsent w' = pending w @ unsent w @ concat (map snd bufs)"
  using assms by (rule stream_write_law)

theorem stream_write_sends_witness:
  "\<exists>w r w' ps. udx_stream_write idle_env 7 [(5, [1, 2]), (6, [3])] True w = Some (r, w') \<and> r \<in> {0, 1} \<and> sending w'
    \<and> concat (map (\<lambda>p. packet_payload w' (w_packets w' p)) ps) @ pending w' @ unsent w' = [1, 2, 3]"
proof -
  obtain w where w: "sending w" "resting w" "pace_ready w" "pending w = []" "s_write_queue w = []" "s_seq w = 0" "s_remote_acked w = 0"
    "s_status w = UDX_STREAM_CONNECTED" "p_slices (w_packets w (s_pkt w)) = []"
    using ready_stream by blast
  have f: "fresh_bufs [(5, [1, 2]), (6, [3])] w" using w(5,9) by (simp add: fresh_bufs_def)
  have st: "has_flag (s_status w) UDX_STREAM_CONNECTED" "\<not> has_flag (s_status w) UDX_STREAM_ENDING"
    using w(8) by (simp_all add: stream_flag_defs)
  have un: "unsent w = []" "send_work w = 0" using w(5) by (simp_all add: unsent_def send_work_def)
  have room: "seq_off (s_remote_acked w) (s_seq w) + send_work w + length (concat (map snd [(5 :: nat, [1, 2 :: u8]), (6, [3])]))
      + length [(5 :: nat, [1, 2 :: u8]), (6, [3])] + 1 < 2 ^ 32"
    using w(6,7) un by (simp add: seq_off_def)
  show ?thesis using stream_write_sends [OF w(1-3) f _ st room, of idle_env 7 True] w(4) un by fastforce
qed

text \<open>C8. The send loop ends, and it is work-conserving: it stops only when every queued byte is in a packet, when
  pacing allows no more, or when the window (congestion window or the peer's receive window) is full.\<close>

theorem send_packets_work_conserving:
  assumes "sending w" "resting w" "pace_ready w" "seq_off (s_remote_acked w) (s_seq w) + send_work w + 1 < 2 ^ 32"
  shows "\<exists>w'. send_packets env w = Some w' \<and> (s_write_queue w' = [] \<or> s_tb_available w' = 0 \<or> window_full w')"
proof -
  obtain w' where w': "send_packets env w = Some w'" using send_packets_law [OF assms] by blast
  then obtain v where "send_new_packets env v = Some w'" by (auto simp: send_packets_def bind_eq_Some_conv)
  then show ?thesis using w' send_new_packets_stops send_new_packet_stops by blast
qed

theorem send_packets_work_conserving_witness:
  "\<exists>w w'. unsent w = [1, 2, 3] \<and> send_packets idle_env w = Some w' \<and> (s_write_queue w' = [] \<or> s_tb_available w' = 0 \<or> window_full w')"
proof -
  obtain w where w: "sending w" "resting w" "pace_ready w" "unsent w = [1, 2, 3]" "seq_off (s_remote_acked w) (s_seq w) = 0" "send_work w = 4"
    using ready_write by blast
  have room: "seq_off (s_remote_acked w) (s_seq w) + send_work w + 1 < 2 ^ 32" using w by simp
  show ?thesis using send_packets_work_conserving [OF w(1-3) room, of idle_env] w(4) by blast
qed

end
