(* ===== verification/Udx_Session.thy ===== *)
theory Udx_Session
  imports Udx_Transfer
begin

text \<open>
  Sender and receiver together, over the life of a sender.  A step relation lists what can happen to a sending stream; each step
  advances a log of the packets that got a sequence number, and the log, what is under construction and what
  is queued are together exactly the bytes written.  Any datagram of any outstanding packet is read by any host as
  its entry of the log, so that with the receive path of Udx_Recv the reader gets the bytes that were
  written, in order and once, however the datagrams arrive.
\<close>

section \<open>What a step of the sender adds\<close>

text \<open>The packet \<open>p\<close> is \<open>b\<close> on the wire.\<close>

definition as_sent :: "udx_buf \<Rightarrow> world \<Rightarrow> addr \<Rightarrow> bool" where
  "as_sent b w p \<longleftrightarrow> wire_form (w_packets w p) (ub_type b) \<and> packet_payload w (w_packets w p) = ub_data b"

definition data_form :: "udx_buf \<Rightarrow> bool" where
  "data_form b \<longleftrightarrow> has_flag (ub_type b) UDX_HEADER_DATA_OR_END \<and> (ub_data b \<noteq> [] \<longrightarrow> has_flag (ub_type b) UDX_HEADER_DATA)"

definition packet_same :: "world \<Rightarrow> world \<Rightarrow> addr \<Rightarrow> bool" where
  "packet_same w w' q \<longleftrightarrow> packet_body (w_packets w q) (w_packets w' q)
     \<and> packet_payload w' (w_packets w' q) = packet_payload w (w_packets w q)"

text \<open>From \<open>w\<close> to \<open>w'\<close> the user handed over the bytes \<open>bs\<close>, and the packets \<open>new\<close> got the next numbers.  The packets that were
  outstanding before are the same or were acknowledged.\<close>

definition advances :: "u8 list \<Rightarrow> udx_buf list \<Rightarrow> world \<Rightarrow> world \<Rightarrow> bool" where
  "advances bs new w w' \<longleftrightarrow> s_seq w' = s_seq w + of_nat (length new) \<and> (\<forall>b \<in> set new. data_form b)
     \<and> (\<forall>k p. s_outgoing w' k = Some p \<longrightarrow> s_outgoing w k = Some p \<and> packet_same w w' p
         \<or> (\<exists>i < length new. k = s_seq w + of_nat i \<and> as_sent (new ! i) w' p))
     \<and> concat (map ub_data new) @ pending w' @ unsent w' = pending w @ unsent w @ bs"

lemma as_sent_same: "packet_same w w' p \<Longrightarrow> as_sent b w p \<Longrightarrow> as_sent b w' p"
  unfolding packet_same_def as_sent_def using wire_form_body by metis

lemma packet_same_trans: "packet_same w1 w2 p \<Longrightarrow> packet_same w2 w3 p \<Longrightarrow> packet_same w1 w3 p"
  unfolding packet_same_def using packet_body_trans by metis

lemma advances_refl [simp]: "advances [] [] w w"
  by (simp add: advances_def packet_same_def)

lemma advances_trans:
  assumes a: "advances bs new w1 w2" and b: "advances cs newer w2 w3"
  shows "advances (bs @ cs) (new @ newer) w1 w3"
proof -
  have "s_outgoing w1 k = Some p \<and> packet_same w1 w3 p
      \<or> (\<exists>i < length (new @ newer). k = s_seq w1 + of_nat i \<and> as_sent ((new @ newer) ! i) w3 p)"
    if k: "s_outgoing w3 k = Some p" for k p
  proof -
    consider (old) "s_outgoing w2 k = Some p" "packet_same w2 w3 p"
      | (new) i where "i < length newer" "k = s_seq w2 + of_nat i" "as_sent (newer ! i) w3 p"
      using b k unfolding advances_def by blast
    then show ?thesis
    proof cases
      case old
      then consider (older) "s_outgoing w1 k = Some p" "packet_same w1 w2 p"
        | (mid) i where "i < length new" "k = s_seq w1 + of_nat i" "as_sent (new ! i) w2 p"
        using a unfolding advances_def by blast
      then show ?thesis
      proof cases
        case older
        then show ?thesis using packet_same_trans old(2) by blast
      next
        case mid
        then have "i < length (new @ newer)" "as_sent ((new @ newer) ! i) w3 p" using as_sent_same [OF old(2)] by (simp_all add: nth_append)
        then show ?thesis using mid(2) by blast
      qed
    next
      case new
      then have "length new + i < length (new @ newer)" "k = s_seq w1 + of_nat (length new + i)" "as_sent ((new @ newer) ! (length new + i)) w3 p"
        using a by (simp_all add: advances_def)
      then show ?thesis by blast
    qed
  qed
  moreover have "concat (map ub_data (new @ newer)) @ pending w3 @ unsent w3 = pending w1 @ unsent w1 @ bs @ cs"
  proof -
    have "concat (map ub_data newer) @ pending w3 @ unsent w3 = (pending w2 @ unsent w2) @ cs" using b by (simp add: advances_def)
    moreover have "concat (map ub_data new) @ (pending w2 @ unsent w2) = pending w1 @ unsent w1 @ bs" using a by (simp add: advances_def)
    ultimately show ?thesis by (simp only: map_append concat_append append_assoc) (metis append_assoc)
  qed
  moreover have "s_seq w3 = s_seq w1 + of_nat (length (new @ newer))" "\<forall>b \<in> set (new @ newer). data_form b"
    using a b by (auto simp: advances_def)
  ultimately show ?thesis unfolding advances_def by blast
qed

text \<open>The packets of a call of the send path, as they are on the wire.\<close>

definition sent_bufs :: "world \<Rightarrow> addr list \<Rightarrow> udx_buf list" where
  "sent_bufs w ps = map (\<lambda>p. \<lparr>ub_type = p_header (w_packets w p) ! 2, ub_data = packet_payload w (w_packets w p)\<rparr>) ps"

lemma wire_type_form: "wire_form pkt type \<Longrightarrow> p_header pkt ! 2 = type"
  by (auto simp: wire_form_def headed_def)

lemma sent_form_bufs:
  assumes "sent_form w p"
  shows "as_sent \<lparr>ub_type = p_header (w_packets w p) ! 2, ub_data = packet_payload w (w_packets w p)\<rparr> w p"
    and "data_form \<lparr>ub_type = p_header (w_packets w p) ! 2, ub_data = packet_payload w (w_packets w p)\<rparr>"
  using assms by (auto simp: sent_form_def as_sent_def data_form_def dest: wire_type_form)

lemma emits_advances:
  assumes e: "emits ps w w'"
  shows "advances [] (sent_bufs w' ps) w w'"
proof -
  have form: "sent_form w' p" if "p \<in> set ps" for p using e that by (simp add: emits_def)
  have seq: "s_seq w' = s_seq w + of_nat (length ps)" using e by (simp add: emits_def)
  have "s_outgoing w k = Some p \<and> packet_same w w' p \<or>
      (\<exists>i < length (sent_bufs w' ps). k = s_seq w + of_nat i \<and> as_sent (sent_bufs w' ps ! i) w' p)"
    if k: "s_outgoing w' k = Some p" for k p
  proof (cases "s_outgoing w k")
    case (Some q)
    then have "s_outgoing w' k = Some q" "packet_body (w_packets w q) (w_packets w' q)" "same_bufs w w'" using e by (auto simp: emits_def)
    then show ?thesis using Some k payload_body by (simp add: packet_same_def)
  next
    case None
    then obtain i where i: "i < length ps" "k = s_seq w + of_nat i" using e k unfolding emits_def by (metis option.distinct(1))
    then have p: "p = ps ! i" using e k by (simp add: emits_def)
    have "as_sent (sent_bufs w' ps ! i) w' p" using sent_form_bufs(1) [OF form [OF nth_mem [OF i(1)]]] i(1) by (simp add: sent_bufs_def p)
    then show ?thesis using i by (auto simp: sent_bufs_def)
  qed
  moreover have "concat (map ub_data (sent_bufs w' ps)) @ pending w' @ unsent w' = pending w @ unsent w"
    using e by (simp add: emits_def sent_bufs_def comp_def)
  moreover have "\<forall>b \<in> set (sent_bufs w' ps). data_form b" using sent_form_bufs(2) [OF form] by (auto simp: sent_bufs_def)
  moreover have "s_seq w' = s_seq w + of_nat (length (sent_bufs w' ps))" by (simp add: seq sent_bufs_def)
  ultimately show ?thesis unfolding advances_def by simp
qed

text \<open>The buffers of a write must not be in use by packets that are still outstanding.\<close>

definition unused_bufs :: "(addr \<times> u8 list) list \<Rightarrow> world \<Rightarrow> bool" where
  "unused_bufs bufs w \<longleftrightarrow> fresh_bufs bufs w
     \<and> (\<forall>p \<in> ran (s_outgoing w). \<forall>sl \<in> set (p_slices (w_packets w p)). sl_wbuf sl \<notin> fst ` set bufs)"

lemma queued_advances:
  assumes q: "queued w bufs w'" and u: "unused_bufs bufs w"
  shows "advances (concat (map snd bufs)) [] w w'"
proof -
  have "packet_payload w' (w_packets w p) = packet_payload w (w_packets w p)" if "p \<in> ran (s_outgoing w)" for p
    unfolding packet_payload_def
  proof (intro arg_cong [where f = concat] map_cong refl)
    fix sl assume "sl \<in> set (p_slices (w_packets w p))"
    then have "sl_wbuf sl \<notin> fst ` set bufs" using u that by (auto simp: unused_bufs_def)
    then show "slice_bytes w' sl = slice_bytes w sl" using q by (simp add: slice_bytes_def queued_def)
  qed
  then show ?thesis using q by (auto simp: advances_def queued_def packet_same_def ranI)
qed

section \<open>From the wire to the reader\<close>

text \<open>A datagram of a data packet at the receiver: the header and the payload are read from the bytes, then the data part of the
  handler runs.\<close>

definition deliver_datagram :: "env \<Rightarrow> u8 list \<Rightarrow> world \<Rightarrow> world option" where
  "deliver_datagram env bytes v = do {
     h \<leftarrow> read_header (env_host env) bytes;
     data \<leftarrow> read_payload bytes h;
     Some (receive_packet env (h_type h) (h_seq h) data v)
   }"

fun deliver_datagrams :: "env \<Rightarrow> u8 list list \<Rightarrow> world \<Rightarrow> world option" where
  "deliver_datagrams env [] v = Some v"
| "deliver_datagrams env (d # ds) v = do { v \<leftarrow> deliver_datagram env d v; deliver_datagrams env ds v }"

definition datagram_seq :: "env \<Rightarrow> u8 list \<Rightarrow> u32 option" where
  "datagram_seq env bytes = map_option h_seq (read_header (env_host env) bytes)"

text \<open>Any host reads the datagram \<open>d\<close> as the packet \<open>b\<close> with number \<open>seq\<close>.\<close>

definition reads_as :: "u8 list \<Rightarrow> u32 \<Rightarrow> udx_buf \<Rightarrow> bool" where
  "reads_as d seq b \<longleftrightarrow> (\<forall>host. \<exists>h. read_header host d = Some h \<and> h_type h = ub_type b \<and> h_seq h = seq \<and> read_payload d h = Some (ub_data b))"

lemma reads_as_deliver: "reads_as d seq b \<Longrightarrow> deliver_datagram env d v = Some (receive_packet env (ub_type b) seq (ub_data b) v)"
  by (auto simp: reads_as_def deliver_datagram_def dest: spec [of _ "env_host env"])

lemma reads_as_seq: "reads_as d seq b \<Longrightarrow> datagram_seq env d = Some seq"
  by (auto simp: reads_as_def datagram_seq_def dest: spec [of _ "env_host env"])

lemma datagram_read:
  assumes a: "as_sent b w p"
  shows "reads_as (packet_datagram w (w_packets w p)) (p_seq (w_packets w p)) b"
  unfolding reads_as_def
proof
  fix host
  let ?pkt = "w_packets w p"
  have "wire_form ?pkt (ub_type b)" and pay: "packet_payload w ?pkt = ub_data b" using a by (simp_all add: as_sent_def)
  then obtain pad i r k where h: "p_header ?pkt = [255, 1, ub_type b, pad] @ le_bytes i @ le_bytes r @ le_bytes (p_seq ?pkt) @ le_bytes k"
    "p_is_mtu_probe ?pkt \<or> pad = 0"
    by (auto simp: wire_form_def headed_def)
  define fill where "fill = (if p_is_mtu_probe ?pkt then replicate (unat pad) (0 :: u8) else [])"
  have d: "packet_datagram w ?pkt
      = [255, 1, ub_type b, pad] @ le_bytes i @ le_bytes r @ le_bytes (p_seq ?pkt) @ le_bytes k @ fill @ packet_payload w ?pkt"
    by (simp add: packet_datagram_def h(1) fill_def)
  have l: "length fill = unat pad" using h(2) by (auto simp: fill_def)
  let ?h = "\<lparr>h_type = ub_type b, h_data_offset = pad, h_id = i, h_rwnd = r, h_seq = p_seq ?pkt, h_ack = k\<rparr>"
  have "read_header host (packet_datagram w ?pkt) = Some ?h" unfolding d by (rule read_header_wire)
  moreover have "drop UDX_HEADER_SIZE (packet_datagram w ?pkt) = fill @ packet_payload w ?pkt"
    unfolding d by (simp add: UDX_HEADER_SIZE_def)
  then have "read_payload (packet_datagram w ?pkt) ?h = Some (ub_data b)"
    using l pay by (cases "pad = 0") (simp_all add: read_payload_def Let_def unat_eq_zero)
  ultimately show "\<exists>h. read_header host (packet_datagram w ?pkt) = Some h \<and> h_type h = ub_type b \<and> h_seq h = p_seq ?pkt
      \<and> read_payload (packet_datagram w ?pkt) h = Some (ub_data b)"
    by (intro exI [of _ ?h]) simp
qed

lemma deliver_all:
  assumes "list_all2 (\<lambda>d i. reads_as d (base + of_nat i) (lg ! i)) ds ks"
  shows "deliver_datagrams env ds v = Some (receive_all env base (\<lambda>i. lg ! i) ks v)"
  using assms
proof (induction arbitrary: v rule: list_all2_induct)
  case Nil
  then show ?case by (simp add: receive_all_def)
next
  case (Cons d ds i ks)
  then show ?case by (simp add: reads_as_deliver receive_all_def)
qed

lemma first_missing_all: "first_missing {..<n} = n"
  by (rule first_missing_eqI) auto

lemma first_missing_le:
  assumes "A \<subseteq> {..<n}"
  shows "first_missing A \<le> n"
  unfolding first_missing_def using assms by (intro Least_le) auto

lemma payloads_form:
  assumes "\<forall>b \<in> set bs. data_form b"
  shows "concat (payloads bs) = concat (map ub_data bs)"
  using assms by (induction bs) (auto simp: payloads_def data_form_def)

text \<open>Whatever part of a log arrives, in whatever order and however often, is read up to the first gap.\<close>

lemma log_delivered:
  assumes r: "passive_reader renv" "s_sack_tree v = []" "stream_reads v" "s_on_read v" "s_ack v = base"
    and form: "\<forall>b \<in> set lg. data_form b" and few: "length lg < 2 ^ 31"
    and ds: "list_all2 (\<lambda>d i. reads_as d (base + of_nat i) (lg ! i)) ds ks" and ks: "set ks \<subseteq> {..<length lg}"
  shows "\<exists>v'. deliver_datagrams renv ds v = Some v'
    \<and> concat (reads_of (w_output v')) = concat (reads_of (w_output v)) @ concat (map ub_data (take (first_missing (set ks)) lg))"
proof -
  let ?v = "receive_all renv base (\<lambda>i. lg ! i) ks v" let ?n = "first_missing (set ks)"
  have arr: "arrivals_in_window ks"
    unfolding arrivals_in_window_def in_recv_window_def
  proof (intro allI impI)
    fix i assume i: "i < length ks"
    have "first_missing (set (take i ks)) \<le> length lg"
      by (rule first_missing_le) (use ks in_set_takeD [of _ i ks] in blast)
    moreover have "ks ! i < length lg" using ks nth_mem [OF i] by blast
    ultimately show "ks ! i + 1 < first_missing (set (take i ks)) + 2 ^ 31 \<and> first_missing (set (take i ks)) < ks ! i + 2 ^ 31"
      using few by linarith
  qed
  have kind: "\<forall>i \<in> set ks. has_flag (ub_type (lg ! i)) UDX_HEADER_DATA_OR_END"
    using ks form nth_mem unfolding data_form_def by blast
  have n: "?n \<le> length lg" by (rule first_missing_le [OF ks])
  have "map (\<lambda>i. lg ! i) [0..<?n] = take ?n lg" using n by (intro nth_equalityI) simp_all
  moreover have "concat (payloads (take ?n lg)) = concat (map ub_data (take ?n lg))"
    by (rule payloads_form) (use form in_set_takeD in fast)
  ultimately have "concat (reads_of (w_output ?v)) = concat (reads_of (w_output v)) @ concat (map ub_data (take ?n lg))"
    using recv_in_order_once [OF r(1-4) arr kind] unfolding r(5) Let_def by simp
  then show ?thesis using deliver_all [OF ds] by blast
qed

section \<open>The life of a sender\<close>

definition ready :: "world \<Rightarrow> bool" where
  "ready w \<longleftrightarrow> sending w \<and> resting w \<and> pace_ready w"

text \<open>Fewer than \<open>2 ^ 31\<close> sequence numbers are outstanding or needed for what is queued and \<open>n\<close> more.\<close>

definition room :: "nat \<Rightarrow> world \<Rightarrow> bool" where
  "room n w \<longleftrightarrow> seq_off (s_remote_acked w) (s_seq w) + send_work w + n + 1 < 2 ^ 31"

text \<open>What happens to a sender: the user writes (a write that is not refused), the pacing timer fires, the loop is about to block and
  runs the prepare handle, time passes.  The pacing rate is at least one when it is computed; that it is not zero after
  it was truncated to 32 bits (a rate that is a multiple of \<open>2 ^ 32\<close> bytes per millisecond) is a premise of the last two.\<close>

inductive sender_step :: "env \<Rightarrow> u8 list \<Rightarrow> world \<Rightarrow> world \<Rightarrow> bool" for env where
  step_write: "\<lbrakk>unused_bufs bufs w; bufs \<noteq> []; room (length (concat (map snd bufs)) + length bufs) w;
      udx_stream_write env wr bufs cb w = Some (r, w'); r \<ge> 0\<rbrakk> \<Longrightarrow> sender_step env (concat (map snd bufs)) w w'"
| step_pacing: "\<lbrakk>room 0 w; pacing_timer_timeout env w = Some w'\<rbrakk> \<Longrightarrow> sender_step env [] w w'"
| step_prepare: "\<lbrakk>room 0 w; w_prepare w; on_pending_packet_prepare env w = Some w'; s_pacing_bytes_per_ms w' > 0\<rbrakk> \<Longrightarrow> sender_step env [] w w'"
| step_clock: "\<lbrakk>w_now w \<le> t; s_pacing_bytes_per_ms w > 0\<rbrakk> \<Longrightarrow> sender_step env [] w (w\<lparr>w_now := t\<rparr>)"

inductive_cases sender_stepE: "sender_step env bs w w'"

lemma send_packets_step:
  assumes r: "ready w" and room: "room 0 w" and w': "send_packets env w = Some w'"
  shows "ready w' \<and> (\<exists>new. advances [] new w w' \<and> length new < 2 ^ 31)"
proof -
  have "seq_off (s_remote_acked w) (s_seq w) + send_work w + 1 < 2 ^ 32" using room by (simp add: room_def)
  then obtain v ps where v: "send_packets env w = Some v" "sending v" "resting v" "pace_ready v" "emits ps w v"
    "length ps + send_work v \<le> send_work w"
    using send_packets_law [where w = w and env = env] r unfolding ready_def by blast
  then show ?thesis using w' emits_advances [OF v(5)] room
    by (intro conjI exI [of _ "sent_bufs v ps"]) (auto simp: ready_def room_def sent_bufs_def)
qed

lemma step_write_law:
  assumes r: "ready w" and u: "unused_bufs bufs w" "bufs \<noteq> []" and room: "room (length (concat (map snd bufs)) + length bufs) w"
    and w': "udx_stream_write env wr bufs cb w = Some (res, w')" "res \<ge> 0"
  shows "ready w' \<and> (\<exists>new. advances (concat (map snd bufs)) new w w' \<and> length new < 2 ^ 31)"
proof -
  have st: "has_flag (s_status w) UDX_STREAM_CONNECTED" "\<not> has_flag (s_status w) UDX_STREAM_ENDING"
    using w' u(2) by (auto simp: udx_stream_write_def UV_ENOTCONN_def UV_EPIPE_def split: if_splits)
  have few: "seq_off (s_remote_acked w) (s_seq w) + send_work w + length (concat (map snd bufs)) + length bufs + 1 < 2 ^ 32"
    using room by (simp add: room_def)
  obtain w1 v ps where v: "udx_stream_write_internal env wr bufs cb False w = Some v" "queued w bufs w1" "sending v" "resting v"
    "pace_ready v" "emits ps w1 v" "length ps + send_work v \<le> send_work w1"
    using write_internal_law [OF _ _ _ _ u(2) few] r u(1) unfolding ready_def unused_bufs_def by blast
  obtain x b where x: "watermark_result v = Some (x, v\<lparr>s_hit_high_watermark := b\<rparr>)" (is "_ = Some (x, ?v)") using watermark_law [OF v(3)] by blast
  have c: "flow ?v = flow v" "s_seq ?v = s_seq v" "s_pkt_capacity ?v = s_pkt_capacity v" "s_pkt_header_flag ?v = s_pkt_header_flag v"
    "s_cwnd ?v = s_cwnd v" "mtu_inv ?v = mtu_inv v" "w_prepare ?v = w_prepare v"
    by (simp_all add: flow_def mtu_inv_def)
  have "w' = ?v" using w'(1) st u(2) v(1) x by (simp add: udx_stream_write_def)
  moreover have "ready ?v" using sending_cong [OF c] v(3-5) by (simp add: ready_def pace_ready_def)
  moreover have "advances (concat (map snd bufs)) (sent_bufs v ps) w ?v"
    using advances_trans [OF queued_advances [OF v(2) u(1)] advances_trans [OF emits_advances [OF v(6)]
      emits_advances [OF emits_nilI [OF _ c(2)]]]] by (simp add: sent_bufs_def core_def flow_def)
  moreover have "length (sent_bufs v ps) < 2 ^ 31" using v(7) queued_work [OF v(2)] room by (simp add: room_def sent_bufs_def)
  ultimately show ?thesis by blast
qed

lemma sender_step_law:
  assumes "sender_step env bs w w'" "ready w"
  shows "ready w' \<and> (\<exists>new. advances bs new w w' \<and> length new < 2 ^ 31)"
  using assms(1)
proof cases
  case (step_write bufs wr cb r)
  then show ?thesis using step_write_law assms(2) by blast
next
  case step_pacing
  then obtain v where v: "update_pacing_time w = Some v" "send_packets env v = Some w'" by (auto simp: pacing_timer_timeout_def bind_eq_Some_conv)
  obtain t l where tl: "v = w\<lparr>w_now := w_now w, s_tb_available := t, s_tb_last_refill_ms := l\<rparr>" "w_now w \<le> l"
  proof (cases "w_now w > s_tb_last_refill_ms w")
    case True
    then show ?thesis using v(1) by (intro that) (auto simp: update_pacing_time_def c_assert_def split: if_splits)
  next
    case False
    then show ?thesis using v(1) by (intro that [where t = "s_tb_available w" and l = "s_tb_last_refill_ms w"]) (auto simp: update_pacing_time_def)
  qed
  have s: "sending w" using assms(2) by (simp add: ready_def)
  note t = time_law [OF s tl(1)]
  have "ready v" using t(1,2) assms(2) tl(2) by (simp add: ready_def pace_ready_def tl(1) not_less [symmetric])
  moreover have "room 0 v" using step_pacing t(3,4) by (simp add: room_def emits_def)
  ultimately obtain new where "ready w'" "advances [] new v w'" "length new < 2 ^ 31" using send_packets_step v(2) by blast
  moreover have "advances [] [] w v" using emits_advances [OF t(3)] by (simp add: sent_bufs_def)
  ultimately show ?thesis using advances_trans [of "[]" "[]" w v "[]" new w'] step_pacing(1) by auto
next
  case step_prepare
  have s: "sending w" "has_flag (s_pkt_header_flag w) UDX_HEADER_DATA"
    using assms(2) step_prepare by (simp_all add: ready_def resting_def)
  have "seq_off (s_remote_acked w) (s_seq w) + 1 < 2 ^ 32" using step_prepare by (simp add: room_def)
  then obtain v where v: "send_current_packet env False w = Some v" "sending v" "resting v" "emits [s_pkt w] w v"
    using send_current_emits [OF s(1)] s(2) by blast
  have "v = w'" using v(1) step_prepare by (simp add: on_pending_packet_prepare_def)
  then show ?thesis using v(2,3) emits_advances [OF v(4)] step_prepare
    by (intro conjI exI [of _ "sent_bufs v [s_pkt w]"]) (simp_all add: ready_def pace_ready_def sent_bufs_def)
next
  case (step_clock t)
  have s: "sending w" using assms(2) by (simp add: ready_def)
  have "w' = w\<lparr>w_now := t, s_tb_available := s_tb_available w, s_tb_last_refill_ms := s_tb_last_refill_ms w\<rparr>" using step_clock by simp
  note t = time_law [OF s this]
  have "ready w'" using t(1,2) assms(2) step_clock by (simp add: ready_def) (simp add: pace_ready_def)
  moreover have "advances [] [] w w'" using emits_advances [OF t(3)] by (simp add: sent_bufs_def)
  ultimately show ?thesis using step_clock(1) by (intro conjI exI [of _ "[]"]) auto
qed

text \<open>The datagrams of the outstanding packets.\<close>

definition wire_of :: "world \<Rightarrow> u8 list set" where
  "wire_of w = {packet_datagram w (w_packets w p) | p. p \<in> ran (s_outgoing w)}"

text \<open>A run of the sender from \<open>w0\<close>: the number of packets so far, the bytes written, every datagram that can have been sent
  (each packet in each form it had, since retransmissions refresh the header), and the present state.\<close>

inductive sender_run :: "env \<Rightarrow> world \<Rightarrow> nat \<Rightarrow> u8 list \<Rightarrow> u8 list set \<Rightarrow> world \<Rightarrow> bool" for env w0 where
  run_start: "sender_run env w0 0 [] (wire_of w0) w0"
| run_step: "\<lbrakk>sender_run env w0 n bs wire w; sender_step env cs w w'\<rbrakk>
    \<Longrightarrow> sender_run env w0 (n + unat (s_seq w' - s_seq w)) (bs @ cs) (wire \<union> wire_of w') w'"

lemma wire_reads:
  assumes a: "advances bs lg w0 w" and fl: "flight_inv w" and z: "s_outgoing w0 = Map.empty" and d: "d \<in> wire_of w"
  shows "\<exists>i < length lg. reads_as d (s_seq w0 + of_nat i) (lg ! i)"
proof -
  obtain k p where p: "s_outgoing w k = Some p" "d = packet_datagram w (w_packets w p)" using d by (auto simp: wire_of_def ran_def)
  then obtain i where i: "i < length lg" "k = s_seq w0 + of_nat i" "as_sent (lg ! i) w p" using a z unfolding advances_def by fastforce
  moreover have "p_seq (w_packets w p) = k" using fl p(1) packet_okD(1) flightD(4) unfolding flight_inv_def by blast
  ultimately show ?thesis using datagram_read [OF i(3)] p(2) by auto
qed

lemma run_log:
  assumes "sender_run env w0 n bs wire w" "ready w0" "s_outgoing w0 = Map.empty"
  shows "ready w \<and> (\<exists>lg. length lg = n \<and> advances bs lg w0 w
    \<and> (\<forall>d \<in> wire. \<exists>i < n. reads_as d (s_seq w0 + of_nat i) (lg ! i)))"
  using assms
proof (induction rule: sender_run.induct)
  case run_start
  then show ?case by (simp add: wire_of_def)
next
  case (run_step n bs wire w cs w')
  obtain lg where lg: "length lg = n" "advances bs lg w0 w" "\<forall>d \<in> wire. \<exists>i < n. reads_as d (s_seq w0 + of_nat i) (lg ! i)" "ready w"
    using run_step by blast
  obtain new where new: "ready w'" "advances cs new w w'" "length new < 2 ^ 31" using sender_step_law [OF run_step(2) lg(4)] by blast
  have n: "unat (s_seq w' - s_seq w) = length new" using new(2,3) by (simp add: advances_def unsigned_of_nat take_bit_nat_eq_self)
  have adv: "advances (bs @ cs) (lg @ new) w0 w'" by (rule advances_trans [OF lg(2) new(2)])
  have "\<exists>i < n + length new. reads_as d (s_seq w0 + of_nat i) ((lg @ new) ! i)" if d: "d \<in> wire \<union> wire_of w'" for d
  proof (cases "d \<in> wire")
    case True
    then obtain i where "i < n" "reads_as d (s_seq w0 + of_nat i) (lg ! i)" using lg(3) by blast
    then show ?thesis using lg(1) by (intro exI [of _ i]) (simp add: nth_append)
  next
    case False
    have "flight_inv w'" using new(1) by (simp add: ready_def sending_def)
    then show ?thesis using wire_reads [OF adv _ run_step.prems(2)] d False lg(1) by auto
  qed
  then show ?case using new(1) adv lg(1) n by (intro conjI exI [of _ "lg @ new"]) simp_all
qed


definition demo_run :: "(world \<times> world \<times> world) option" where
  "demo_run = do {
     w0 \<leftarrow> demo_start;
     (r, w1) \<leftarrow> udx_stream_write idle_env 7 [(5, [1, 2, 3])] True w0;
     c_assert (r \<ge> 0 \<and> w_prepare w1);
     w \<leftarrow> on_pending_packet_prepare idle_env w1;
     c_assert (s_pacing_bytes_per_ms w > 0 \<and> s_outgoing w 0 \<noteq> None);
     Some (w0, w1, w)
   }"


end
