(* ===== verification/Udx_Settle.thy ===== *)
theory Udx_Settle
  imports Udx_Cancel Udx_Session Udx_Process
begin

text \<open>
  Acknowledgements settle writes.  \<open>ack_packet\<close> and \<open>on_bytes_acked\<close> of \<open>src/udx.c\<close> on a stream whose account
  (\<open>Udx_Account\<close>) and flight (\<open>Udx_Flight\<close>) are right: no assertion fails, the packet leaves its queue and the map of
  outstanding packets, what is still to be answered for is what it was without the chunks of the packet, and the callback
  of a write is called when, and only when, the last of its bytes is acknowledged.
\<close>

section \<open>Counting answers\<close>

fun answers_write :: "addr \<Rightarrow> udx_output \<Rightarrow> bool" where
  "answers_write wr (Callback ev) = (case ev of Ev_Ack wr' status sack \<Rightarrow> wr' = wr | _ \<Rightarrow> False)"
| "answers_write wr (Datagram dest bytes) = False"

definition answers :: "addr \<Rightarrow> world \<Rightarrow> nat" where
  "answers wr w = length (filter (answers_write wr) (w_output w))"

text \<open>From \<open>w\<close> to \<open>w'\<close> exactly the writes that are no longer unanswered were answered, once each.\<close>

definition settles :: "world \<Rightarrow> world \<Rightarrow> bool" where
  "settles w w' \<longleftrightarrow> (accounted w \<longrightarrow> accounted w' \<and> unanswered w' \<subseteq> unanswered w
     \<and> (\<forall>wr. wr_on_ack (w_writes w' wr) = wr_on_ack (w_writes w wr))
     \<and> (\<forall>wr. answers wr w' = answers wr w + (if wr \<in> unanswered w - unanswered w' \<and> wr_on_ack (w_writes w wr) then 1 else 0)))"

lemma settles_refl [simp]: "settles w w"
  by (simp add: settles_def)

lemma settles_trans: "settles u v \<Longrightarrow> settles v w \<Longrightarrow> settles u w"
  unfolding settles_def by (auto 0 3 split: if_splits)

lemma answers_callbacks: "answers wr w = length (filter (answers_write wr) (callbacks w))"
proof -
  have "is_callback x \<and> answers_write wr x \<longleftrightarrow> answers_write wr x" for x by (cases x) simp_all
  then show ?thesis by (simp add: answers_def callbacks_def)
qed

lemma keeps_account_settles: "keeps_account w w' \<Longrightarrow> settles w w'"
  by (simp add: keeps_account_def same_answers_def settles_def answers_callbacks)

lemmas same_account_settles = keeps_account_settles [OF same_account_keeps]

section \<open>One chunk\<close>

text \<open>The account with the chunks in packets, and those in the queue, given as lists.\<close>

definition account_of :: "chunk list \<Rightarrow> chunk list \<Rightarrow> world \<Rightarrow> bool" where
  "account_of S Q w \<longleftrightarrow> covers (S @ Q) w \<and> lively w (S @ Q)
     \<and> (\<forall>b \<in> fst ` set (S @ Q). unat (wb_bytes_inflight (w_wbufs w b)) = chunk_sum (\<lambda>c. c = b) S)"

lemma accounted_of: "accounted w \<longleftrightarrow> account_of (sent_chunks w) (queue_chunks w) w \<and> distinct (s_write_queue w)
    \<and> s_pkt w \<noteq> NULL \<and> p_ref_count (w_packets w (s_pkt w)) = 1"
  unfolding accounted_def account_of_def open_chunks_def by blast

lemma account_of_mset:
  assumes "mset S = mset S'"
  shows "account_of S Q w = account_of S' Q w"
proof -
  have "mset (S @ Q) = mset (S' @ Q)" using assms by simp
  then show ?thesis
    unfolding account_of_def using covers_mset lively_mset mset_eq_setD chunk_sum_mset [OF assms] by metis
qed

text \<open>The fields the account reads of buffers and writes.\<close>

lemma account_of_same:
  assumes "w_wbufs w' = w_wbufs w" "w_writes w' = w_writes w" "s_writes_queued_bytes w' = s_writes_queued_bytes w"
  shows "account_of S Q w' = account_of S Q w"
  by (simp add: account_of_def covers_def lively_def assms)

definition chunk_settled :: "addr \<Rightarrow> u64 \<Rightarrow> world \<Rightarrow> world" where
  "chunk_settled b n w =
    w\<lparr>w_wbufs := (w_wbufs w)(b := (w_wbufs w b)
        \<lparr>wb_bytes_inflight := wb_bytes_inflight (w_wbufs w b) - n, wb_bytes_acked := wb_bytes_acked (w_wbufs w b) + n\<rparr>),
      w_writes := (w_writes w)(owner w b := (w_writes w (owner w b))\<lparr>wr_bytes_acked := wr_bytes_acked (w_writes w (owner w b)) + n\<rparr>),
      s_writes_queued_bytes := s_writes_queued_bytes w - n\<rparr>"

lemma chunk_settled_fields:
  "wb_buf (w_wbufs (chunk_settled b n w) c) = wb_buf (w_wbufs w c)" "owner (chunk_settled b n w) c = owner w c"
  "wb_bytes_acked (w_wbufs (chunk_settled b n w) c) = wb_bytes_acked (w_wbufs (chunk_done b n w) c)"
  "w_writes (chunk_settled b n w) = w_writes (chunk_done b n w)"
  "s_writes_queued_bytes (chunk_settled b n w) = s_writes_queued_bytes (chunk_done b n w)"
  "wr_on_ack (w_writes (chunk_settled b n w) wr) = wr_on_ack (w_writes w wr)"
  "wb_buf (w_wbufs (chunk_done b n w) c) = wb_buf (w_wbufs w c)" "owner (chunk_done b n w) c = owner w c"
  by (simp_all add: chunk_settled_def chunk_done_def)

lemma settle_chunk:
  assumes acc: "account_of ((b, n) # S) Q w"
  shows "account_of S Q (chunk_settled b n w)" and "n \<le> wb_bytes_inflight (w_wbufs w b)"
    and "wb_done (w_wbufs (chunk_settled b n w) c) = wb_done (w_wbufs w c)" "wb_rest (w_wbufs (chunk_settled b n w) c) = wb_rest (w_wbufs w c)"
    and "wr_bytes_acked (w_writes (chunk_settled b n w) (owner w b)) = wr_size (w_writes (chunk_settled b n w) (owner w b))
      \<longleftrightarrow> owner w b \<notin> owner w ` fst ` set (S @ Q)"
proof -
  have cov: "covers ((b, n) # S @ Q) w" and liv: "lively w ((b, n) # S @ Q)" using acc by (simp_all add: account_of_def)
  have inf: "unat (wb_bytes_inflight (w_wbufs w c)) = chunk_sum (\<lambda>d. d = c) ((b, n) # S)" if "c \<in> fst ` set ((b, n) # S @ Q)" for c
    using acc that unfolding account_of_def append_Cons by blast
  note L = chunk_done_law [OF cov]
  show n: "n \<le> wb_bytes_inflight (w_wbufs w b)" using inf [of b] by (simp add: word_le_nat_alt)
  have in1: "unat (wb_bytes_inflight (w_wbufs w b) - n) = chunk_sum (\<lambda>d. d = b) S" using inf [of b] n by (simp add: unat_sub)
  have cov': "covers (S @ Q) (chunk_settled b n w)" using L(1) by (simp add: covers_def chunk_settled_fields)
  moreover have "lively (chunk_settled b n w) (S @ Q)" using lively_tl [OF liv] by (simp add: lively_def chunk_settled_fields)
  moreover have "unat (wb_bytes_inflight (w_wbufs (chunk_settled b n w) c)) = chunk_sum (\<lambda>d. d = c) S" if "c \<in> fst ` set (S @ Q)" for c
    using that in1 inf [of c] by (cases "c = b") (auto simp: chunk_settled_def chunk_done_def)
  ultimately show "account_of S Q (chunk_settled b n w)" unfolding account_of_def by blast
  show "wb_done (w_wbufs (chunk_settled b n w) c) = wb_done (w_wbufs w c)"
    using L(2) n by (simp add: wb_done_def chunk_settled_def chunk_done_def unat_sub word_le_nat_alt)
  show "wb_rest (w_wbufs (chunk_settled b n w) c) = wb_rest (w_wbufs w c)"
    by (simp add: wb_rest_def chunk_settled_def chunk_done_def)
  have "wr_bytes_acked (w_writes (chunk_settled b n w) (owner w b)) = wr_size (w_writes (chunk_settled b n w) (owner w b))
      \<longleftrightarrow> chunk_sum (\<lambda>c. owner w c = owner w b) (S @ Q) = 0"
    using L(5) unfolding word_unat_eq_iff by (simp add: chunk_settled_def chunk_done_def) linarith
  then show "wr_bytes_acked (w_writes (chunk_settled b n w) (owner w b)) = wr_size (w_writes (chunk_settled b n w) (owner w b))
      \<longleftrightarrow> owner w b \<notin> owner w ` fst ` set (S @ Q)"
    using lively_last [OF liv] by simp
qed

lemma on_bytes_acked_law:
  assumes acc: "account_of ((b, n) # S) Q w" and mtu: "mtu_inv w" and env: "silent env"
  shows "\<exists>h out. on_bytes_acked env b n False w = Some ((chunk_settled b n w)\<lparr>s_hit_high_watermark := h, w_output := w_output w @ out\<rparr>)
    \<and> set out \<subseteq> {Callback Ev_Drain}"
proof -
  have cov: "covers ((b, n) # S @ Q) w" using acc by (simp add: account_of_def)
  note L = chunk_done_law [OF cov]
  have u: "unat (of_nat (length (wb_buf (w_wbufs w b))) :: u64) = length (wb_buf (w_wbufs w b))" using L(4) by (simp add: unat_of_nat)
  have a: "wb_bytes_acked (w_wbufs w b) + n \<le> of_nat (length (wb_buf (w_wbufs w b)))" using L(2,3) u by (simp add: word_le_nat_alt)
  have s: "wr_bytes_acked (w_writes w (owner w b)) + n \<le> wr_size (w_writes w (owner w b))" using L(5) by (simp add: word_le_nat_alt)
  have q: "n \<le> s_writes_queued_bytes w" using L(6) by (simp add: word_le_nat_alt)
  let ?w = "chunk_settled b n w"
  have "mtu_inv ?w" using mtu by (simp add: mtu_inv_def chunk_settled_def chunk_done_def)
  then obtain win where win: "send_window_in_bytes ?w = Some win"
    by (auto simp: send_window_in_bytes_def cwnd_in_bytes_def max_payload_mtu)
  note step = on_bytes_acked_def Let_def c_assert_def settle_chunk(2) [OF acc] a s q
  note win' = win [unfolded chunk_settled_def]
  have same: "?w = ?w\<lparr>s_hit_high_watermark := s_hit_high_watermark ?w, w_output := w_output w @ []\<rparr>"
    by (simp add: chunk_settled_def chunk_done_def)
  show ?thesis
  proof (cases "s_hit_high_watermark w \<and> s_writes_queued_bytes w - n < ucast (UDX_HIGH_WATERMARK + win)")
    case True
    then have "on_bytes_acked env b n False w = Some (?w\<lparr>s_hit_high_watermark := False, w_output := w_output w @ (if s_on_drain w then [Callback Ev_Drain] else [])\<rparr>)"
      using win' by (simp add: step chunk_settled_def chunk_done_def notify_silent [OF env])
    then show ?thesis
      by (intro exI [of _ False] exI [of _ "if s_on_drain w then [Callback Ev_Drain] else []"]) auto
  next
    case False
    then have "on_bytes_acked env b n False w = Some ?w"
      using win' by (cases "s_hit_high_watermark w") (simp_all add: step chunk_settled_def chunk_done_def)
    then show ?thesis using same by (intro exI [of _ "s_hit_high_watermark ?w"] exI [of _ "[]"]) simp
  qed
qed

section \<open>The slices of a packet\<close>

text \<open>What settling bytes does not touch.\<close>

definition ack_rest :: "world \<Rightarrow> world" where
  "ack_rest w = w\<lparr>s_bytes_acked := 0, w_wbufs := undefined, w_writes := undefined, s_writes_queued_bytes := 0,
     s_hit_high_watermark := False, w_output := []\<rparr>"

lemma ack_rest_fields:
  assumes e: "ack_rest w' = ack_rest w"
  shows "s_status w' = s_status w" "s_outgoing w' = s_outgoing w" "w_packets w' = w_packets w" "s_write_queue w' = s_write_queue w" "s_seq
    w' = s_seq w" "s_remote_acked w' = s_remote_acked w" "s_pkt w' = s_pkt w" "s_inflight_queue w' = s_inflight_queue w"
    "s_retransmit_queue w' = s_retransmit_queue w" "s_inflight w' = s_inflight w" "w_next_packet w' = w_next_packet w" "s_cwnd w' =
    s_cwnd w" "s_rto w' = s_rto w" "s_remote_addr w' = s_remote_addr w" "s_pkt_capacity w' = s_pkt_capacity w" "s_pkt_header_flag w' =
    s_pkt_header_flag w" "w_prepare w' = w_prepare w" "w_now w' = w_now w" "s_tb_last_refill_ms w' = s_tb_last_refill_ms w"
    "s_pacing_bytes_per_ms w' = s_pacing_bytes_per_ms w"
  using arg_cong [OF e, of s_status] arg_cong [OF e, of s_outgoing] arg_cong [OF e, of w_packets] arg_cong [OF e, of s_write_queue] arg_cong [OF e, of s_seq]
    arg_cong [OF e, of s_remote_acked] arg_cong [OF e, of s_pkt] arg_cong [OF e, of s_inflight_queue] arg_cong [OF e, of s_retransmit_queue] arg_cong [OF e, of s_inflight]
    arg_cong [OF e, of w_next_packet] arg_cong [OF e, of s_cwnd] arg_cong [OF e, of s_rto] arg_cong [OF e, of s_remote_addr] arg_cong [OF e, of s_pkt_capacity]
    arg_cong [OF e, of s_pkt_header_flag] arg_cong [OF e, of w_prepare] arg_cong [OF e, of w_now] arg_cong [OF e, of s_tb_last_refill_ms] arg_cong [OF e, of s_pacing_bytes_per_ms]
  by (simp_all add: ack_rest_def)

lemma mtu_inv_ack_rest: "ack_rest w' = ack_rest w \<Longrightarrow> mtu_inv w' = mtu_inv w"
proof -
  have "mtu_inv (ack_rest v) = mtu_inv v" for v by (simp add: mtu_inv_def ack_rest_def)
  then show "ack_rest w' = ack_rest w \<Longrightarrow> mtu_inv w' = mtu_inv w" by metis
qed

text \<open>From \<open>w\<close> to \<open>w'\<close> the chunks \<open>cs\<close> were settled; \<open>S\<close> and \<open>Q\<close> are left.\<close>

definition settled :: "chunk list \<Rightarrow> chunk list \<Rightarrow> chunk list \<Rightarrow> world \<Rightarrow> world \<Rightarrow> bool" where
  "settled cs S Q w w' \<longleftrightarrow> account_of S Q w' \<and> ack_rest w' = ack_rest w \<and> same_writes w w'
     \<and> (\<forall>b. wb_done (w_wbufs w' b) = wb_done (w_wbufs w b) \<and> wb_rest (w_wbufs w' b) = wb_rest (w_wbufs w b))
     \<and> (\<forall>wr. answers wr w' = answers wr w +
         (if wr \<in> owner w ` fst ` set cs - owner w ` fst ` set (S @ Q) \<and> wr_on_ack (w_writes w wr) then 1 else 0))"

lemma ack_slices_law:
  assumes "account_of (map slice_chunk sls @ S) Q w" "mtu_inv w" "silent env" "\<not> stream_dead w"
  shows "\<exists>w'. ack_slices env sack sls w = Some (False, w') \<and> settled (map slice_chunk sls) S Q w w'"
  using assms(1,2,4)
proof (induction sls arbitrary: w)
  case Nil
  then show ?case by (simp add: settled_def)
next
  case (Cons sl sls)
  let ?b = "sl_wbuf sl" and ?n = "sl_len sl" and ?cs = "map slice_chunk sls"
  let ?w0 = "w\<lparr>s_bytes_acked := s_bytes_acked w + ?n\<rparr>"
  have acc: "account_of ((?b, ?n) # ?cs @ S) Q ?w0" using Cons.prems(1) by (simp add: slice_chunk_def [of sl] account_of_same [of ?w0 w])
  have mtu: "mtu_inv ?w0" using Cons.prems(2) by (simp add: mtu_inv_def)
  obtain h out w1 where step: "on_bytes_acked env ?b ?n False ?w0 = Some w1"
    and w1: "w1 = (chunk_settled ?b ?n ?w0)\<lparr>s_hit_high_watermark := h, w_output := w_output w @ out\<rparr>" and out: "set out \<subseteq> {Callback Ev_Drain}"
    using on_bytes_acked_law [OF acc mtu assms(3)] by auto
  let ?wr = "owner w ?b"
  let ?fin = "?wr \<notin> owner w ` fst ` set (?cs @ S @ Q)" and ?cb = "wr_on_ack (w_writes w ?wr)"
  define w2 where "w2 = (if ?fin \<and> ?cb then notify env (Ev_Ack ?wr 0 sack) w1 else w1)"
  define evs where "evs = (if ?fin \<and> ?cb then [Callback (Ev_Ack ?wr 0 sack)] else [])"
  have w2: "w2 = w1\<lparr>w_output := w_output w @ out @ evs\<rparr>"
    by (simp add: w2_def evs_def notify_silent [OF assms(3)] w1)
  have fields: "w_writes w2 = w_writes (chunk_settled ?b ?n w)" "w_wbufs w2 = w_wbufs (chunk_settled ?b ?n w)"
    "s_writes_queued_bytes w2 = s_writes_queued_bytes (chunk_settled ?b ?n w)"
    by (simp_all add: w2 w1 chunk_settled_def)
  note sc = settle_chunk [OF acc]
  have "write_settled ?wr w1 \<longleftrightarrow> ?fin \<and> ?cb"
    using sc(5) by (simp add: write_settled_def w1) (simp add: chunk_settled_def)
  moreover have "\<not> stream_dead w2" "\<not> stream_dead w1" "owner w1 ?b = ?wr"
    using Cons.prems(3) by (simp_all add: w2 w1 chunk_settled_def stream_dead_def)
  ultimately have eq: "ack_slices env sack (sl # sls) w = ack_slices env sack sls w2"
    unfolding ack_slices.simps Let_def step Option.bind.simps w2_def by (cases "?fin \<and> ?cb") (simp_all only: if_True if_False simp_thms)
  have acc2: "account_of (?cs @ S) Q w2"
    using sc(1) by (simp add: account_of_def covers_def lively_def fields chunk_settled_def cong: if_cong)
  have mtu2: "mtu_inv w2" "\<not> stream_dead w2" using Cons.prems(2,3) by (simp_all add: w2 w1 chunk_settled_def mtu_inv_def stream_dead_def)
  obtain w' where w': "ack_slices env sack sls w2 = Some (False, w')" "settled ?cs S Q w2 w'" using Cons.IH [OF acc2 mtu2] by blast
  have "settled (map slice_chunk (sl # sls)) S Q w w'"
    unfolding settled_def
  proof (intro conjI allI)
    show "account_of S Q w'" using w'(2) by (simp add: settled_def)
    have "ack_rest w2 = ack_rest w" by (simp add: ack_rest_def w2 w1 chunk_settled_def)
    then show "ack_rest w' = ack_rest w" using w'(2) by (simp add: settled_def)
    have sw: "same_writes w w2" by (simp add: same_writes_def fields chunk_settled_def)
    then show "same_writes w w'" using w'(2) same_writes_trans by (auto simp: settled_def)
    show "wb_done (w_wbufs w' c) = wb_done (w_wbufs w c)" "wb_rest (w_wbufs w' c) = wb_rest (w_wbufs w c)" for c
      using w'(2) sc(3,4) [of c] by (simp_all add: settled_def fields chunk_settled_def)
    show "answers wr w' = answers wr w + (if wr \<in> owner w ` fst ` set (map slice_chunk (sl # sls)) - owner w ` fst ` set (S @ Q)
        \<and> wr_on_ack (w_writes w wr) then 1 else 0)" for wr
    proof -
      have "answers_write wr x = False" if "x \<in> set out" for x using out that by auto
      then have "answers wr w2 = answers wr w + (if wr = ?wr \<and> ?fin \<and> ?cb then 1 else 0)"
        by (auto simp: answers_def w2 evs_def filter_empty_conv)
      moreover have "answers wr w' = answers wr w2 + (if wr \<in> owner w ` fst ` set ?cs - owner w ` fst ` set (S @ Q) \<and> wr_on_ack (w_writes w wr) then 1 else 0)"
      proof -
        have own: "owner w2 = owner w" "wr_on_ack (w_writes w2 wr) = wr_on_ack (w_writes w wr)" using sw by (auto simp: same_writes_def)
        show ?thesis using w'(2) unfolding settled_def own(1) by (simp only: own(2))
      qed
      moreover define A R where "A = owner w ` fst ` set ?cs" and "R = owner w ` fst ` set (S @ Q)"
      moreover have "owner w ` fst ` set (map slice_chunk (sl # sls)) = insert ?wr A" "owner w ` fst ` set (?cs @ S @ Q) = A \<union> R"
        by (simp_all add: slice_chunk_def [of sl] A_def R_def image_Un Un_assoc)
      ultimately show ?thesis by (cases "wr \<in> R"; cases "wr \<in> A"; cases "wr = ?wr") simp_all
    qed
  qed
  then show ?case using eq w'(1) by auto
qed

section \<open>A packet leaves the flight\<close>

lemma flight_chunks_gone:
  assumes k: "s_outgoing w seq = Some p" and off: "seq_off base seq < seq_off base (s_seq w)"
  shows "mset (flight_chunks w base) = mset (packet_chunks w p @ flight_chunks (w\<lparr>s_outgoing := (s_outgoing w)(seq := None)\<rparr>) base)"
proof -
  let ?w = "w\<lparr>s_outgoing := (s_outgoing w)(seq := None)\<rparr>" let ?n = "unat (s_seq w - base)" and ?i = "seq_off base seq"
  define f where "f i = (case s_outgoing w (base + of_nat i) of None \<Rightarrow> [] | Some p \<Rightarrow> packet_chunks w p)" for i
  define g where "g i = (case s_outgoing ?w (base + of_nat i) of None \<Rightarrow> [] | Some p \<Rightarrow> packet_chunks ?w p)" for i
  have pc: "packet_chunks ?w = packet_chunks w" by (rule ext) (simp add: packet_chunks_def)
  have i: "?i < ?n" "base + of_nat ?i = seq" using off by (simp_all add: seq_off_def)
  have "base + of_nat j \<noteq> seq" if "j < ?n" "j \<noteq> ?i" for j
  proof
    assume "base + of_nat j = seq"
    moreover have "j < 2 ^ 32" using less_trans [OF that(1) unat_u32_less] by simp
    ultimately have "seq_off base seq = j" by (auto simp: seq_off_def unat_of_nat)
    then show False using that(2) by simp
  qed
  then have g: "g j = f j" if "j < ?n" "j \<noteq> ?i" for j using that unfolding f_def g_def pc by simp
  have gi: "g ?i = []" "f ?i = packet_chunks w p" using i(2) k by (simp_all add: f_def g_def)
  have split: "[0..<?n] = [0..<?i] @ ?i # [Suc ?i..<?n]" using i(1) upt_add_eq_append [of 0 ?i "?n - ?i"] by (simp add: upt_conv_Cons)
  have maps: "map g [0..<?i] = map f [0..<?i]" "map g [Suc ?i..<?n] = map f [Suc ?i..<?n]" using i(1) by (auto intro!: map_cong g)
  then have "concat (map g [0..<?n]) = concat (map f [0..<?i]) @ concat (map f [Suc ?i..<?n])"
    "concat (map f [0..<?n]) = concat (map f [0..<?i]) @ packet_chunks w p @ concat (map f [Suc ?i..<?n])"
    unfolding split map_append list.map concat_append concat.simps gi maps by simp_all
  moreover have "flight_chunks w base = concat (map f [0..<?n])" "flight_chunks ?w base = concat (map g [0..<?n])"
    unfolding flight_chunks_def f_def [abs_def] g_def [abs_def] by simp_all
  ultimately show ?thesis by simp
qed

lemma flight_gone:
  assumes fl: "flight_but hi {} w" and k: "s_outgoing w seq = Some p"
  shows "\<exists>iq rq n. ack_unlink p (w\<lparr>s_outgoing := (s_outgoing w)(seq := None)\<rparr>)
      = Some (w\<lparr>s_outgoing := (s_outgoing w)(seq := None), s_inflight_queue := iq, s_retransmit_queue := rq, s_inflight := n\<rparr>)
    \<and> flight_but hi {} (w\<lparr>s_outgoing := (s_outgoing w)(seq := None), s_inflight_queue := iq, s_retransmit_queue := rq, s_inflight := n\<rparr>)"
proof -
  let ?iq = "remove1 p (s_inflight_queue w)" and ?rq = "remove1 p (s_retransmit_queue w)"
  define n where "n = (if p_lost (w_packets w p) then s_inflight w else s_inflight w - ucast (p_size (w_packets w p)))"
  let ?v = "w\<lparr>s_outgoing := (s_outgoing w)(seq := None), s_inflight_queue := ?iq, s_retransmit_queue := ?rq, s_inflight := n\<rparr>"
  note ok = packet_okD [OF flightD(4) [OF fl k]]
  have dist: "distinct (s_inflight_queue w)" "distinct (s_retransmit_queue w)" "set (s_inflight_queue w) \<inter> set (s_retransmit_queue w) = {}"
    using flightD(1) [OF fl] by auto
  have p: "p \<in> set (s_inflight_queue w) \<union> set (s_retransmit_queue w)" using flightD(2) [OF fl] k by (auto simp: ranI)
  have inj: "k' = seq" if "s_outgoing w k' = Some p" for k' using flight_inj [OF fl that k] .
  have ran: "ran ((s_outgoing w)(seq := None)) = ran (s_outgoing w) - {p}"
  proof (intro equalityI subsetI)
    fix x assume "x \<in> ran ((s_outgoing w)(seq := None))"
    then obtain k' where "k' \<noteq> seq" "s_outgoing w k' = Some x" by (auto simp: ran_def split: if_splits)
    then show "x \<in> ran (s_outgoing w) - {p}" using inj by (auto simp: ranI)
  next
    fix x assume "x \<in> ran (s_outgoing w) - {p}"
    then obtain k' where k': "s_outgoing w k' = Some x" "x \<noteq> p" by (auto simp: ran_def)
    then have "((s_outgoing w)(seq := None)) k' = Some x" using k by auto
    then show "x \<in> ran ((s_outgoing w)(seq := None))" by (rule ranI)
  qed
  have q: "set ?iq = set (s_inflight_queue w) - {p}" "set ?rq = set (s_retransmit_queue w) - {p}"
    using dist by (simp_all add: set_remove1_eq)
  have q3: "distinct (?iq @ ?rq)" using dist q by (simp add: distinct_remove1) blast
  have bytes: "flight_bytes ?v ?iq = n"
  proof (cases "p \<in> set (s_inflight_queue w)")
    case True
    then have "flight_bytes w (s_inflight_queue w) = ucast (p_size (w_packets w p)) + flight_bytes w ?iq"
      unfolding flight_bytes_def by (simp add: sum_list_map_remove1)
    then show ?thesis using True ok(6) dist(3) flightD(7) [OF fl] by (auto simp: n_def flight_bytes_def)
  next
    case False
    then show ?thesis using p ok(6) flightD(7) [OF fl] by (simp add: n_def remove1_idem flight_bytes_def)
  qed
  have "flight_but hi {} ?v"
  proof (rule flightI)
    show "packet_ok hi ?v k' p'" if k': "s_outgoing ?v k' = Some p'" for k' p'
    proof -
      have "s_outgoing w k' = Some p'" "p' \<noteq> p" using k' inj by (auto split: if_splits)
      then show ?thesis using packet_okD [OF flightD(4) [OF fl, of k' p']] q(2) unfolding packet_ok_def Let_def by simp
    qed
    show "p_transmits (w_packets ?v p') > 0" if "p' \<in> ran (s_outgoing ?v)" for p' using that flightD(6) [OF fl] ran by auto
  qed (use q q3 ran bytes flightD(2) [OF fl] in auto)
  moreover have "ack_unlink p (w\<lparr>s_outgoing := (s_outgoing w)(seq := None)\<rparr>) = Some ?v"
  proof (cases "p_lost (w_packets w p)")
    case True
    then have "p \<in> set (s_retransmit_queue w)" "?iq = s_inflight_queue w" using True ok(6) dist(3) by (blast intro: remove1_idem)+
    then show ?thesis using True by (simp add: ack_unlink_def lq_unlink_def n_def)
  next
    case False
    then have "p \<in> set (s_inflight_queue w)" "?rq = s_retransmit_queue w" using False ok(6) p by (blast intro: remove1_idem)+
    then show ?thesis using False by (simp add: ack_unlink_def lq_unlink_def n_def)
  qed
  ultimately show ?thesis by blast
qed

section \<open>What is measured\<close>

text \<open>The path MTU search, the rate sample and the round trip: the fields \<open>ack_packet\<close> updates for them.\<close>

definition sample_rest :: "world \<Rightarrow> world" where
  "sample_rest w = w\<lparr>s_mtu := 0, s_mtu_state := UDX_MTU_STATE_BASE, s_mtu_probe_count := 0, s_mtu_probe_size := 0, s_mtu_probe_wanted := False,
     s_sacks := 0, s_first_sent_ts := 0, s_rtt_min := undefined, s_srtt := 0, s_rttvar := 0, s_tlp_permitted := False, s_rto := 0,
     s_rack_rtt := 0, s_rack_time_sent := 0, s_rack_next_seq := 0, s_rack_fack := 0, s_reordering_seen := False\<rparr>"

text \<open>The measurements keep the invariants of the path.\<close>

definition samples :: "world \<Rightarrow> world \<Rightarrow> bool" where
  "samples w w' \<longleftrightarrow> sample_rest w' = sample_rest w \<and> (mtu_inv w \<longrightarrow> mtu_inv w') \<and> (s_rto w \<noteq> 0 \<longrightarrow> s_rto w' \<noteq> 0)"

lemma samples_refl [simp]: "samples w w"
  by (simp add: samples_def)

lemma samples_trans: "samples u v \<Longrightarrow> samples v w \<Longrightarrow> samples u w"
  by (simp add: samples_def)

lemma sample_rest_mtu_field [simp]:
  "sample_rest (w\<lparr>s_mtu := a\<rparr>) = sample_rest w" "sample_rest (w\<lparr>s_mtu_state := b\<rparr>) = sample_rest w"
  "sample_rest (w\<lparr>s_mtu_probe_count := c\<rparr>) = sample_rest w" "sample_rest (w\<lparr>s_mtu_probe_size := d\<rparr>) = sample_rest w"
  "sample_rest (w\<lparr>s_mtu_probe_wanted := e\<rparr>) = sample_rest w"
  by (simp_all add: sample_rest_def)

lemma samples_mtu: "samples w (mtu_on_ack pkt w)"
proof -
  have "sample_rest (mtu_on_ack pkt w) = sample_rest w"
    by (simp only: mtu_on_ack_def Let_def sample_rest_mtu_field split: if_split) simp
  moreover have "s_rto (mtu_on_ack pkt w) = s_rto w" by (simp add: mtu_on_ack_def Let_def)
  ultimately show ?thesis using mtu_inv_on_ack [of w pkt] by (simp add: samples_def)
qed

lemma samples_sacks: "samples w (w\<lparr>s_sacks := n\<rparr>)"
  by (simp add: samples_def sample_rest_def mtu_inv_def)

lemma samples_rate: "samples w (snd (udx__rate_pkt_delivered pkt rs w))"
  by (simp add: udx__rate_pkt_delivered_def Let_def samples_def sample_rest_def mtu_inv_def)

lemma samples_rtt_update: "samples w (rtt_update rtt w)"
proof -
  define w1 where "w1 = w\<lparr>s_rtt_min := snd (win_filter_apply_min (s_rtt_min w) UDX_RTT_MIN_WINDOW_MS (w_now w) rtt)\<rparr>"
  define w2 where "w2 = (if s_srtt w1 = 0 then w1\<lparr>s_srtt := rtt, s_rttvar := rtt div 2\<rparr>
      else let delta = (if rtt < s_srtt w1 then s_srtt w1 - rtt else rtt - s_srtt w1)
           in w1\<lparr>s_rttvar := (3 * s_rttvar w1 + delta) div 4, s_srtt := (7 * s_srtt w1 + rtt) div 8\<rparr>)"
  define w3 where "w3 = w2\<lparr>s_tlp_permitted := True, s_rto := max_uint32 (s_srtt w2 + 4 * s_rttvar w2) 1000\<rparr>"
  have eq: "rtt_update rtt w = (if s_rto w3 > UDX_RTO_MAX_MS then w3\<lparr>s_rto := UDX_RTO_MAX_MS\<rparr> else w3)"
    unfolding rtt_update_def w1_def w2_def w3_def Let_def ..
  have 1: "sample_rest w1 = sample_rest w" "mtu_inv w1 = mtu_inv w" by (simp_all add: w1_def sample_rest_def mtu_inv_def)
  have 2: "sample_rest w2 = sample_rest w1" "mtu_inv w2 = mtu_inv w1"
    by (simp_all add: w2_def Let_def) (simp_all add: sample_rest_def mtu_inv_def)
  have 3: "sample_rest w3 = sample_rest w2" "mtu_inv w3 = mtu_inv w2" by (simp_all add: w3_def sample_rest_def mtu_inv_def)
  have "sample_rest (rtt_update rtt w) = sample_rest w3" "mtu_inv (rtt_update rtt w) = mtu_inv w3"
    unfolding eq by (simp_all add: sample_rest_def mtu_inv_def)
  then have "sample_rest (rtt_update rtt w) = sample_rest w" "mtu_inv (rtt_update rtt w) = mtu_inv w" using 1 2 3 by simp_all
  moreover have "s_rto (rtt_update rtt w) \<noteq> 0" using rto_bounds(1) [of rtt w] by auto
  ultimately show ?thesis by (simp add: samples_def)
qed

lemma samples_rtt: "samples w (snd (ack_rtt pkt seq rs w))"
proof -
  define upd where "upd u = (u :: world)\<lparr>s_rack_rtt := s_rack_rtt u\<rparr>" for u
  have rack: "samples u (u\<lparr>s_rack_rtt := a\<rparr>)" "samples u (u\<lparr>s_rack_time_sent := t, s_rack_next_seq := k\<rparr>)"
    "samples u (u\<lparr>s_rack_fack := k\<rparr>)" "samples u (u\<lparr>s_reordering_seen := b\<rparr>)" for u a t k b
    by (simp_all add: samples_def sample_rest_def mtu_inv_def)
  obtain rtt w1 where 1: "(if \<not> p_retransmitted pkt then (let rtt = (if clamp_rtt w (w_now w - p_time_sent pkt) = 0 then 1 else clamp_rtt w (w_now w - p_time_sent pkt))
      in (rtt, rtt_update rtt w)) else (clamp_rtt w (w_now w - p_time_sent pkt), w)) = (rtt, w1)" "samples w w1"
    using samples_rtt_update by (cases "p_retransmitted pkt") (auto simp: Let_def)
  define w2 where "w2 = (if \<not> p_retransmitted pkt \<or> rtt \<ge> udx_rtt_min w1 then
      (let w = w1\<lparr>s_rack_rtt := rtt\<rparr>
       in if rack_sent_after (p_time_sent pkt) (seq + 1) (s_rack_time_sent w) (s_rack_next_seq w)
          then w\<lparr>s_rack_time_sent := p_time_sent pkt, s_rack_next_seq := seq + 1\<rparr> else w) else w1)"
  have "samples w1 (w1\<lparr>s_rack_rtt := rtt, s_rack_time_sent := p_time_sent pkt, s_rack_next_seq := seq + 1\<rparr>)"
    using samples_trans rack(1,2) by blast
  then have 2: "samples w1 w2" using rack(1) by (auto simp: w2_def Let_def)
  define w3 where "w3 = (if seq_compare (seq + 1) (s_rack_fack w2) > 0 then w2\<lparr>s_rack_fack := seq + 1\<rparr>
      else if seq_compare (seq + 1) (s_rack_fack w2) < 0 \<and> \<not> p_retransmitted pkt then w2\<lparr>s_reordering_seen := True\<rparr> else w2)"
  have 3: "samples w2 w3" using rack(3,4) by (simp add: w3_def)
  have "snd (ack_rtt pkt seq rs w) = w3"
    unfolding ack_rtt_def Let_def [of "clamp_rtt w (w_now w - p_time_sent pkt)"] 1(1)
    by (simp add: w3_def w2_def Let_def split: if_splits)
  then show ?thesis using samples_trans [OF 1(2) samples_trans [OF 2 3]] by simp
qed

lemma sample_rest_fields:
  assumes e: "sample_rest w' = sample_rest w"
  shows "s_status w' = s_status w" "s_outgoing w' = s_outgoing w" "w_packets w' = w_packets w" "s_write_queue w' = s_write_queue w" "s_seq
    w' = s_seq w" "s_remote_acked w' = s_remote_acked w" "s_pkt w' = s_pkt w" "s_inflight_queue w' = s_inflight_queue w"
    "s_retransmit_queue w' = s_retransmit_queue w" "s_inflight w' = s_inflight w" "w_next_packet w' = w_next_packet w" "s_cwnd w' =
    s_cwnd w" "s_remote_addr w' = s_remote_addr w" "s_pkt_capacity w' = s_pkt_capacity w" "s_pkt_header_flag w' = s_pkt_header_flag w"
    "w_prepare w' = w_prepare w" "w_now w' = w_now w" "s_tb_last_refill_ms w' = s_tb_last_refill_ms w" "s_pacing_bytes_per_ms w' =
    s_pacing_bytes_per_ms w" "w_wbufs w' = w_wbufs w" "w_writes w' = w_writes w" "s_writes_queued_bytes w' = s_writes_queued_bytes w"
    "w_output w' = w_output w"
  using arg_cong [OF e, of s_status] arg_cong [OF e, of s_outgoing] arg_cong [OF e, of w_packets] arg_cong [OF e, of s_write_queue] arg_cong [OF e, of s_seq]
    arg_cong [OF e, of s_remote_acked] arg_cong [OF e, of s_pkt] arg_cong [OF e, of s_inflight_queue] arg_cong [OF e, of s_retransmit_queue] arg_cong [OF e, of s_inflight]
    arg_cong [OF e, of w_next_packet] arg_cong [OF e, of s_cwnd] arg_cong [OF e, of s_remote_addr] arg_cong [OF e, of s_pkt_capacity] arg_cong [OF e, of s_pkt_header_flag]
    arg_cong [OF e, of w_prepare] arg_cong [OF e, of w_now] arg_cong [OF e, of s_tb_last_refill_ms] arg_cong [OF e, of s_pacing_bytes_per_ms] arg_cong [OF e, of w_wbufs]
    arg_cong [OF e, of w_writes] arg_cong [OF e, of s_writes_queued_bytes] arg_cong [OF e, of w_output]
  by (simp_all add: sample_rest_def)

section \<open>Settling a packet\<close>

text \<open>What a step of the acknowledging side keeps: the sender stays ready and no byte to be sent changes; writes are answered when their last
  chunk goes.\<close>

definition acknowledges :: "world \<Rightarrow> world \<Rightarrow> bool" where
  "acknowledges w w' \<longleftrightarrow> ready w' \<and> accounted w' \<and> settles w w' \<and> advances [] [] w w' \<and> s_remote_acked w' = s_remote_acked w \<and> send_work w' = send_work w
     \<and> s_write_queue w' = s_write_queue w"

lemma acknowledges_refl: "ready w \<Longrightarrow> accounted w \<Longrightarrow> acknowledges w w"
  by (simp add: acknowledges_def)

lemma acknowledges_trans: "acknowledges u v \<Longrightarrow> acknowledges v w \<Longrightarrow> acknowledges u w"
  unfolding acknowledges_def using settles_trans advances_trans [of "[]" "[]" u v "[]" "[]" w] by auto

text \<open>Changes of fields the sender and the account do not read.\<close>

lemma acknowledges_core:
  assumes r: "ready w" "accounted w" and c: "core w' = core w" "s_seq w' = s_seq w" "s_pkt_capacity w' = s_pkt_capacity w"
    "s_pkt_header_flag w' = s_pkt_header_flag w" "s_cwnd w' = s_cwnd w" "mtu_inv w' = mtu_inv w" "w_prepare w' = w_prepare w"
    "s_pacing_bytes_per_ms w' = s_pacing_bytes_per_ms w"
  shows "acknowledges w w'"
proof -
  note f = core_flow [OF c(1)] and g = sending_cong [OF core_flow [OF c(1)] c(2-7)]
  have "ready w'" using r f c(8) g by (simp add: ready_def pace_ready_def flow_def)
  moreover have same: "same_account w w'" "callbacks w' = callbacks w" using c(1,2) f by (simp_all add: same_account_def callbacks_def core_def flow_def)
  moreover have "advances [] [] w w'" using emits_advances [OF emits_nilI [OF c(1,2)]] by (simp add: sent_bufs_def)
  ultimately show ?thesis
    using r accounted_same [OF same(1)] same_account_settles [OF same] g f by (simp add: acknowledges_def send_work_def flow_def)
qed

lemma ack_unlink_samples:
  assumes e: "sample_rest u = sample_rest v" and s: "ack_unlink p v = Some (v\<lparr>s_inflight_queue := iq, s_retransmit_queue := rq, s_inflight := n\<rparr>)"
  shows "ack_unlink p u = Some (u\<lparr>s_inflight_queue := iq, s_retransmit_queue := rq, s_inflight := n\<rparr>)"
proof -
  note f = sample_rest_fields [OF e]
  show ?thesis
  proof (cases "p_lost (w_packets v p)")
    case True
    then obtain q where q: "lq_unlink p (s_retransmit_queue v) = Some q"
      "v\<lparr>s_retransmit_queue := q\<rparr> = v\<lparr>s_inflight_queue := iq, s_retransmit_queue := rq, s_inflight := n\<rparr>"
      using s by (auto simp: ack_unlink_def bind_eq_Some_conv)
    have "q = rq" "iq = s_inflight_queue v" "n = s_inflight v"
      using arg_cong [OF q(2), of s_retransmit_queue] arg_cong [OF q(2), of s_inflight_queue] arg_cong [OF q(2), of s_inflight] by simp_all
    then show ?thesis using True q(1) f by (simp add: ack_unlink_def)
  next
    case False
    then obtain q where q: "lq_unlink p (s_inflight_queue v) = Some q"
      "v\<lparr>s_inflight_queue := q, s_inflight := s_inflight v - ucast (p_size (w_packets v p))\<rparr>
        = v\<lparr>s_inflight_queue := iq, s_retransmit_queue := rq, s_inflight := n\<rparr>"
      using s by (auto simp: ack_unlink_def bind_eq_Some_conv)
    have "rq = s_retransmit_queue v" "q = iq" "n = s_inflight v - ucast (p_size (w_packets v p))"
      using arg_cong [OF q(2), of s_retransmit_queue] arg_cong [OF q(2), of s_inflight_queue] arg_cong [OF q(2), of s_inflight] by simp_all
    then show ?thesis using False q(1) f by (simp add: ack_unlink_def)
  qed
qed

text \<open>The state before the slices: \<open>w\<close> without the packet, with new measurements.\<close>

definition without :: "u32 \<Rightarrow> world \<Rightarrow> world \<Rightarrow> bool" where
  "without seq w w' \<longleftrightarrow> (\<exists>iq rq n. samples (w\<lparr>s_outgoing := (s_outgoing w)(seq := None), s_inflight_queue := iq, s_retransmit_queue := rq, s_inflight := n\<rparr>) w'
     \<and> flight_but (seq_off (s_remote_acked w) (s_seq w)) {} (w\<lparr>s_outgoing := (s_outgoing w)(seq := None), s_inflight_queue := iq, s_retransmit_queue := rq, s_inflight := n\<rparr>))"

lemma ack_front_law:
  assumes fl: "flight_but (seq_off (s_remote_acked w) (s_seq w)) {} w" and k: "s_outgoing w seq = Some p"
  shows "\<exists>rs' w'. without seq w w' \<and> ack_packet env seq sack rs w = do {
    (dead, w) \<leftarrow> ack_slices env sack (p_slices (w_packets w p)) w';
    let w = deref_packet p w;
    Some (if dead then (2, rs', w)
          else if s_status w AND UDX_STREAM_SHOULD_END = UDX_STREAM_END \<and> s_inflight_queue w = []
                  \<and> s_retransmit_queue w = [] \<and> s_write_queue w = []
          then (2, rs', w\<lparr>s_status := s_status w OR UDX_STREAM_ENDED\<rparr>)
          else (1, rs', w)) }"
proof -
  let ?pkt = "w_packets w p" and ?w0 = "w\<lparr>s_outgoing := (s_outgoing w)(seq := None)\<rparr>"
  obtain iq rq n where g: "ack_unlink p ?w0 = Some (?w0\<lparr>s_inflight_queue := iq, s_retransmit_queue := rq, s_inflight := n\<rparr>)"
    "flight_but (seq_off (s_remote_acked w) (s_seq w)) {} (?w0\<lparr>s_inflight_queue := iq, s_retransmit_queue := rq, s_inflight := n\<rparr>)"
    using flight_gone [OF fl k] by (auto simp: fun_upd_def)
  define w1 where "w1 = mtu_on_ack ?pkt ?w0"
  define w2 where "w2 = (if sack then w1\<lparr>s_sacks := s_sacks w1 + 1\<rparr> else w1)"
  have "samples w1 w2" using samples_sacks by (simp add: w2_def)
  then have s2: "samples ?w0 w2" using samples_trans [OF samples_mtu [of ?w0 ?pkt]] by (simp add: w1_def)
  define w3 where "w3 = w2\<lparr>s_inflight_queue := iq, s_retransmit_queue := rq, s_inflight := n\<rparr>"
  have w3: "ack_unlink p w2 = Some w3" using ack_unlink_samples [OF _ g(1), of w2] s2 by (simp add: samples_def w3_def)
  have s3: "samples (?w0\<lparr>s_inflight_queue := iq, s_retransmit_queue := rq, s_inflight := n\<rparr>) w3"
  proof -
    have "sample_rest w3 = (sample_rest w2)\<lparr>s_inflight_queue := iq, s_retransmit_queue := rq, s_inflight := n\<rparr>"
      by (simp add: w3_def sample_rest_def)
    also have "\<dots> = (sample_rest ?w0)\<lparr>s_inflight_queue := iq, s_retransmit_queue := rq, s_inflight := n\<rparr>" using s2 by (simp add: samples_def)
    also have "\<dots> = sample_rest (?w0\<lparr>s_inflight_queue := iq, s_retransmit_queue := rq, s_inflight := n\<rparr>)" by (simp add: sample_rest_def)
    finally show ?thesis using s2 by (simp add: samples_def) (simp add: w3_def mtu_inv_def)
  qed
  obtain rs4 w4 where 4: "udx__rate_pkt_delivered ?pkt rs w3 = (rs4, w4)" by fastforce
  obtain rs5 w5 where 5: "ack_rtt ?pkt seq rs4 w4 = (rs5, w5)" by fastforce
  have "samples w3 w5" using samples_rate [of w3 ?pkt rs] samples_rtt [of w4 ?pkt seq rs4] samples_trans 4 5 by fastforce
  then have "without seq w w5" unfolding without_def using samples_trans [OF s3] g(2) by blast
  moreover have "ack_packet env seq sack rs w = do {
      (dead, w) \<leftarrow> ack_slices env sack (p_slices ?pkt) w5;
      let w = deref_packet p w;
      Some (if dead then (2, rs5, w)
            else if s_status w AND UDX_STREAM_SHOULD_END = UDX_STREAM_END \<and> s_inflight_queue w = []
                    \<and> s_retransmit_queue w = [] \<and> s_write_queue w = []
            then (2, rs5, w\<lparr>s_status := s_status w OR UDX_STREAM_ENDED\<rparr>)
            else (1, rs5, w)) }"
    unfolding ack_packet_def k option.case Let_def w1_def [symmetric] w2_def [symmetric] w3 Option.bind.simps 4 5 prod.case ..
  ultimately show ?thesis by blast
qed

lemma without_account:
  assumes wo: "without seq w u" and k: "s_outgoing w seq = Some p" and fl: "flight_but (seq_off (s_remote_acked w) (s_seq w)) {} w"
    and acc: "accounted w" and r: "ready w"
  shows "account_of (packet_chunks w p @ packet_chunks w (s_pkt w) @ flight_chunks (w\<lparr>s_outgoing := (s_outgoing w)(seq := None)\<rparr>) (s_remote_acked w))
      (queue_chunks w) u"
    and "mset (sent_chunks w) = mset (packet_chunks w p @ packet_chunks w (s_pkt w)
      @ flight_chunks (w\<lparr>s_outgoing := (s_outgoing w)(seq := None)\<rparr>) (s_remote_acked w))"
proof -
  have off: "seq_off (s_remote_acked w) seq < seq_off (s_remote_acked w) (s_seq w)" using packet_okD(2) [OF flightD(4) [OF fl k]] .
  show m: "mset (sent_chunks w) = mset (packet_chunks w p @ packet_chunks w (s_pkt w)
      @ flight_chunks (w\<lparr>s_outgoing := (s_outgoing w)(seq := None)\<rparr>) (s_remote_acked w))"
    using flight_chunks_gone [OF k off] by (simp add: sent_chunks_def)
  have f: "w_wbufs u = w_wbufs w" "w_writes u = w_writes w" "s_writes_queued_bytes u = s_writes_queued_bytes w"
    using wo sample_rest_fields(20-22) [of u] unfolding without_def samples_def by fastforce+
  show "account_of (packet_chunks w p @ packet_chunks w (s_pkt w) @ flight_chunks (w\<lparr>s_outgoing := (s_outgoing w)(seq := None)\<rparr>) (s_remote_acked w))
      (queue_chunks w) u"
    using acc account_of_mset [OF m] by (simp add: accounted_of account_of_same [OF f])
qed

text \<open>Settling the packet with number \<open>seq\<close>.\<close>

lemma settled_law:
  assumes r: "ready w" and acc: "accounted w" and k: "s_outgoing w seq = Some p" and wo: "without seq w u"
    and st: "settled (packet_chunks w p) (packet_chunks w (s_pkt w) @ flight_chunks (w\<lparr>s_outgoing := (s_outgoing w)(seq := None)\<rparr>) (s_remote_acked w))
      (queue_chunks w) u v"
    and w': "w' = (deref_packet p v)\<lparr>s_status := st\<rparr>" "st AND UDX_STREAM_DEAD = 0"
  shows "acknowledges w w'" and "s_outgoing w' = (s_outgoing w)(seq := None)"
proof -
  let ?w0 = "w\<lparr>s_outgoing := (s_outgoing w)(seq := None)\<rparr>"
  have snd: "sending w" "resting w" "pace_ready w" using r by (simp_all add: ready_def)
  have fl: "flight_but (seq_off (s_remote_acked w) (s_seq w)) {} w" "s_pkt w \<notin> ran (s_outgoing w)" using snd(1) by (simp_all add: sending_def flight_inv_def)
  obtain iq rq n where u0: "samples (?w0\<lparr>s_inflight_queue := iq, s_retransmit_queue := rq, s_inflight := n\<rparr>) u"
    "flight_but (seq_off (s_remote_acked w) (s_seq w)) {} (?w0\<lparr>s_inflight_queue := iq, s_retransmit_queue := rq, s_inflight := n\<rparr>)"
    using wo unfolding without_def by blast
  let ?w1 = "?w0\<lparr>s_inflight_queue := iq, s_retransmit_queue := rq, s_inflight := n\<rparr>"
  note u = u0(1) and fl1 = u0(2)
  have "sample_rest u = sample_rest ?w1" using u by (simp add: samples_def)
  note uf = sample_rest_fields [OF this, simplified]
  have "ack_rest v = ack_rest u" using st by (simp add: settled_def)
  note vf = ack_rest_fields [OF this]
  have mtu: "mtu_inv v" using snd(1) u mtu_inv_ack_rest [OF \<open>ack_rest v = ack_rest u\<close>]
    by (simp add: samples_def sending_def path_ok_def) (simp add: mtu_inv_def)
  have dp: "p_slices (w_packets w' q) = p_slices (w_packets w q)" "q \<noteq> p \<Longrightarrow> w_packets w' q = w_packets w q" for q
    by (simp_all add: w' deref_packet_def vf uf)
  note F = vf uf
  have wf: "s_outgoing w' = (s_outgoing w)(seq := None)" "s_write_queue w' = s_write_queue w" "s_seq w' = s_seq w"
    "s_remote_acked w' = s_remote_acked w" "s_pkt w' = s_pkt w" "w_wbufs w' = w_wbufs v" "w_writes w' = w_writes v"
    "s_writes_queued_bytes w' = s_writes_queued_bytes v" "w_next_packet w' = w_next_packet w" "w_output w' = w_output v"
    by (simp_all add: w' deref_packet_def F)
  then show "s_outgoing w' = (s_outgoing w)(seq := None)" by simp
  have p: "p \<noteq> s_pkt w" "p \<notin> ran (s_outgoing w')"
  proof -
    show "p \<noteq> s_pkt w" using k fl(2) by (auto simp: ranI)
    show "p \<notin> ran (s_outgoing w')" using flight_inj [OF fl(1) k] by (auto simp: wf(1) ran_def split: if_splits)
  qed
  have sw: "same_writes w w'"
    using st by (simp add: settled_def same_writes_def wf uf)
  have buf: "wb_buf (w_wbufs w' b) = wb_buf (w_wbufs w b)" "wb_done (w_wbufs w' b) = wb_done (w_wbufs w b)" "wb_rest (w_wbufs w' b) = wb_rest (w_wbufs w b)" for b
    using st by (simp_all add: settled_def wf uf same_writes_def)
  have sb: "same_bufs w w'" using buf by (simp add: same_bufs_def)
  have pk: "w_packets w' (s_pkt w) = w_packets w (s_pkt w)" using dp(2) p(1) by metis
  have pend: "pending w' = pending w" using payload_same_bufs [OF sb] by (simp add: pending_def pk wf(5))
  have left: "wb_left (w_wbufs w' b) = wb_left (w_wbufs w b)" "wbuf_ok (w_wbufs w' b) = wbuf_ok (w_wbufs w b)" for b
    by (simp_all add: wb_left_def wbuf_ok_def buf)
  have un: "unsent w' = unsent w" unfolding unsent_def left wf(2) ..
  have rest: "s_pkt_capacity w' = s_pkt_capacity w" "s_pkt_header_flag w' = s_pkt_header_flag w" "w_prepare w' = w_prepare w"
    "s_cwnd w' = s_cwnd w" "s_remote_addr w' = s_remote_addr w" "w_now w' = w_now w" "s_tb_last_refill_ms w' = s_tb_last_refill_ms w"
    "s_pacing_bytes_per_ms w' = s_pacing_bytes_per_ms w" "s_status w' = st" "mtu_inv w' = mtu_inv v" "s_rto w' = s_rto u"
    by (simp_all add: w' deref_packet_def F mtu_inv_def)
  have "s_rto u \<noteq> 0" using u snd(1) by (simp add: samples_def sending_def path_ok_def)
  then have path: "path_ok w'" using snd(1) mtu w'(2) by (simp add: path_ok_def rest sending_def)
  have "flight_but (seq_off (s_remote_acked w) (s_seq w)) {} w'"
    by (rule flight_but_cong [OF _ _ _ _ _ _ _ fl1]) (use p(2) dp(2) in \<open>auto simp: wf w' deref_packet_def F\<close>)
  moreover have "s_pkt w' \<notin> ran (s_outgoing w')" using fl(2) by (auto simp: wf ran_def split: if_splits)
  ultimately have "sending w'"
    using snd(1) path by (simp add: sending_def flight_inv_def building_def remote_ok_def rest wf(2-5,9) pk pend left Let_def)
  then have rdy: "ready w'" using snd by (simp add: ready_def resting_def pace_ready_def rest)
  let ?S = "packet_chunks w (s_pkt w) @ flight_chunks ?w0 (s_remote_acked w)"
  have pc: "packet_chunks w' = packet_chunks w" "packet_chunks ?w0 = packet_chunks w" by (rule ext, simp add: packet_chunks_def dp)+
  have "flight_chunks w' (s_remote_acked w) = flight_chunks ?w0 (s_remote_acked w)"
    by (rule flight_chunks_same) (simp_all add: wf dp)
  then have ch: "sent_chunks w' = ?S" "queue_chunks w' = queue_chunks w"
    by (simp_all add: sent_chunks_def queue_chunks_def wf(1-5) pc buf)
  have acc': "account_of ?S (queue_chunks w) w'" using st account_of_same [of w' v] wf(6-8) by (simp add: settled_def)
  have ref: "s_pkt w \<noteq> NULL" "p_ref_count (w_packets w (s_pkt w)) = 1" "distinct (s_write_queue w)" using acc by (simp_all add: accounted_def)
  have a: "accounted w'" using acc' ref pk by (simp add: accounted_of ch wf)
  have own: "owner w' = owner w" using sw by (auto simp: same_writes_def)
  have un1: "unanswered w' = owner w ` fst ` set (?S @ queue_chunks w)" unfolding unanswered_def own open_chunks_def ch ..
  have "set (sent_chunks w) = set (packet_chunks w p @ ?S)" using without_account(2) [OF wo k fl(1) acc r] by (rule mset_eq_setD)
  then have un2: "unanswered w = owner w ` fst ` set (packet_chunks w p) \<union> unanswered w'"
    by (simp add: un1 unanswered_def [of w] open_chunks_def [of w] image_Un Un_assoc)
  have "answers wr w' = answers wr w + (if wr \<in> unanswered w - unanswered w' \<and> wr_on_ack (w_writes w wr) then 1 else 0)" for wr
  proof -
    have ow: "owner u = owner w" "w_writes u = w_writes w" by (simp_all add: uf)
    have an: "answers wr v = answers wr w'" "answers wr u = answers wr w" by (simp_all add: uf answers_def wf)
    have "answers wr w' = answers wr w + (if wr \<in> owner w ` fst ` set (packet_chunks w p) - unanswered w' \<and> wr_on_ack (w_writes w wr) then 1 else 0)"
      using st unfolding settled_def un1 an [symmetric] ow [symmetric] by blast
    then show ?thesis unfolding un2 by (cases "wr \<in> unanswered w'") simp_all
  qed
  then have "settles w w'" using a un2 sw unfolding settles_def same_writes_def by blast
  moreover have "advances [] [] w w'"
  proof -
    have "packet_kept (w_packets w q) (w_packets w' q)" for q
      using dp(2) [of q] by (cases "q = p") (simp_all add: packet_kept_def w' deref_packet_def F)
    then have "packet_same w w' q" for q
      unfolding packet_same_def using payload_same_bufs [OF sb dp(1)] packet_kept_body by blast
    then show ?thesis by (simp add: advances_def wf pend un)
  qed
  ultimately show "acknowledges w w'" using rdy a un by (simp add: acknowledges_def wf send_work_def)
qed

text \<open>When nothing is outstanding.\<close>

lemma flight_empty:
  assumes "flight_but hi {} w" "s_inflight_queue w = []" "s_retransmit_queue w = []"
  shows "s_outgoing w = Map.empty"
proof -
  have "ran (s_outgoing w) = {}" using flightD(2) [OF assms(1)] assms(2,3) by simp
  then have "s_outgoing w k = None" for k using ranI [of "s_outgoing w" k] by (cases "s_outgoing w k") auto
  then show ?thesis by (rule ext)
qed

lemma ready_flight: "ready w \<Longrightarrow> flight_but (seq_off (s_remote_acked w) (s_seq w)) {} w"
  by (simp add: ready_def sending_def flight_inv_def)

lemma ended_alive: "s AND UDX_STREAM_DEAD = 0 \<Longrightarrow> (s OR UDX_STREAM_ENDED) AND UDX_STREAM_DEAD = 0"
  by (simp add: bit.conj_disj_distrib2) (simp add: stream_flag_defs)

lemma ack_packet_law:
  assumes r: "ready w" and acc: "accounted w" and env: "silent env"
  shows "\<exists>a rs' w'. ack_packet env seq sack rs w = Some (a, rs', w') \<and> acknowledges w w' \<and> s_outgoing w' = (s_outgoing w)(seq := None)
    \<and> (a = 0 \<longleftrightarrow> s_outgoing w seq = None) \<and> (a = 2 \<longrightarrow> s_outgoing w' = Map.empty \<and> s_write_queue w' = [])"
proof (cases "s_outgoing w seq")
  case None
  let ?w = "if \<not> sack then w\<lparr>s_sacks := s_sacks w - 1\<rparr> else w"
  have "acknowledges w ?w" by (rule acknowledges_core [OF r acc]) (simp_all add: core_def flow_def mtu_inv_def)
  moreover have "s_outgoing ?w = (s_outgoing w)(seq := None)" using None by (auto simp: fun_upd_idem)
  ultimately show ?thesis using None by (simp add: ack_packet_def)
next
  case (Some p)
  let ?S = "packet_chunks w (s_pkt w) @ flight_chunks (w\<lparr>s_outgoing := (s_outgoing w)(seq := None)\<rparr>) (s_remote_acked w)"
  have fl: "flight_but (seq_off (s_remote_acked w) (s_seq w)) {} w" and alive: "s_status w AND UDX_STREAM_DEAD = 0" and mtu: "mtu_inv w"
    using r by (simp_all add: ready_def sending_def flight_inv_def path_ok_def)
  from ack_front_law [OF fl Some] obtain rs' u where u: "without seq w u"
    "ack_packet env seq sack rs w = do {
      (dead, w) \<leftarrow> ack_slices env sack (p_slices (w_packets w p)) u;
      let w = deref_packet p w;
      Some (if dead then (2, rs', w)
            else if s_status w AND UDX_STREAM_SHOULD_END = UDX_STREAM_END \<and> s_inflight_queue w = []
                    \<and> s_retransmit_queue w = [] \<and> s_write_queue w = []
            then (2, rs', w\<lparr>s_status := s_status w OR UDX_STREAM_ENDED\<rparr>)
            else (1, rs', w)) }" by blast
  have u': "s_status u = s_status w" "mtu_inv u"
    using u(1) sample_rest_fields(1) [of u] mtu unfolding without_def samples_def by (fastforce simp: mtu_inv_def)+
  have pcs: "map slice_chunk (p_slices (w_packets w p)) = packet_chunks w p" by (simp add: packet_chunks_def)
  have au: "account_of (map slice_chunk (p_slices (w_packets w p)) @ ?S) (queue_chunks w) u"
    unfolding pcs by (rule without_account(1) [OF u(1) Some fl acc r])
  have "\<not> stream_dead u" using alive by (simp add: stream_dead_def u'(1))
  from ack_slices_law [OF au u'(2) env this, of sack] obtain v where v: "ack_slices env sack (p_slices (w_packets w p)) u = Some (False, v)"
    "settled (packet_chunks w p) ?S (queue_chunks w) u v"
    unfolding pcs by blast
  let ?v = "deref_packet p v"
  have rest: "ack_rest v = ack_rest u" using v(2) by (simp add: settled_def)
  have st: "s_status ?v = s_status w" using ack_rest_fields(1) [OF rest] u'(1) by (simp add: deref_packet_def)
  define fin where "fin \<longleftrightarrow> s_status ?v AND UDX_STREAM_SHOULD_END = UDX_STREAM_END \<and> s_inflight_queue ?v = []
                    \<and> s_retransmit_queue ?v = [] \<and> s_write_queue ?v = []"
  define w' where "w' = ?v\<lparr>s_status := (if fin then s_status w OR UDX_STREAM_ENDED else s_status w)\<rparr>"
  have same: "?v\<lparr>s_status := s_status w\<rparr> = ?v" unfolding st [symmetric] by simp
  have "ack_packet env seq sack rs w = Some (if fin then 2 else 1, rs', w')"
    using v(1) st same by (cases fin) (auto simp: u(2) w'_def fin_def Let_def)
  moreover have "acknowledges w w'" "s_outgoing w' = (s_outgoing w)(seq := None)"
    using settled_law [OF r acc Some u(1) v(2) w'_def] alive ended_alive by simp_all
  moreover have "s_outgoing w' = Map.empty" if fin
  proof (rule flight_empty)
    have "ready w'" using \<open>acknowledges w w'\<close> by (simp add: acknowledges_def)
    then show "flight_but (seq_off (s_remote_acked w') (s_seq w')) {} w'" by (rule ready_flight)
    show "s_inflight_queue w' = []" "s_retransmit_queue w' = []" using that by (simp_all add: w'_def fin_def)
  qed
  moreover have "s_write_queue w' = []" if fin using that by (simp add: w'_def fin_def)
  ultimately show ?thesis using Some by (cases fin) simp_all
qed

end
