(* ===== verification/Udx_Loss.thy ===== *)
theory Udx_Loss
  imports Udx_Settle
begin

text \<open>
  Losses and acknowledgements of ranges.  The loops of \<open>src/udx.c\<close> over acknowledged numbers (\<open>process_packet\<close>), over the
  flight (\<open>rack_detect_loss\<close>) and over the outstanding numbers (\<open>udx_rto_timeout\<close>), and the timers: on a
  ready stream with a right account they pass every assertion, and what they leave is ready and accounted for again.
\<close>


section \<open>Ranges of numbers\<close>

lemma acknowledgesD: "acknowledges w w' \<Longrightarrow> ready w'" "acknowledges w w' \<Longrightarrow> accounted w'"
  by (simp_all add: acknowledges_def)

lemma count_delivered:
  assumes "ready w" "accounted w"
  shows "acknowledges w (w\<lparr>s_delivered := n\<rparr>)"
  using assms by (rule acknowledges_core) (simp_all add: core_def flow_def mtu_inv_def)

text \<open>From \<open>w\<close> to \<open>w'\<close> the numbers \<open>ps\<close> were settled, or everything outstanding is.\<close>

definition clears_range :: "u32 list \<Rightarrow> world \<Rightarrow> world \<Rightarrow> bool" where
  "clears_range ps w w' \<longleftrightarrow> acknowledges w w' \<and> (\<forall>k. s_outgoing w' k \<noteq> None \<longrightarrow> s_outgoing w k \<noteq> None \<and> k \<notin> set ps)"

lemma clears_range_step:
  assumes a: "acknowledges w w1" "s_outgoing w1 = (s_outgoing w)(p := None)" and c: "clears_range ps w1 w'"
  shows "clears_range (p # ps) w w'"
proof -
  have "s_outgoing w k \<noteq> None \<and> k \<notin> set (p # ps)" if "s_outgoing w' k \<noteq> None" for k
  proof -
    have "s_outgoing w1 k \<noteq> None" "k \<notin> set ps" using c that by (auto simp: clears_range_def)
    then show ?thesis using a(2) by (auto split: if_splits)
  qed
  then show ?thesis using acknowledges_trans [OF a(1)] c unfolding clears_range_def by blast
qed

lemma ack_cumulative_law:
  assumes env: "silent env"
  shows "ready w \<Longrightarrow> accounted w \<Longrightarrow> \<exists>e rs' w'. ack_cumulative env ps rs w = Some (e, rs', w') \<and> clears_range ps w w'
    \<and> (e \<longrightarrow> s_outgoing w' = Map.empty \<and> s_write_queue w' = [])"
proof (induction ps arbitrary: rs w)
  case Nil
  then show ?case by (auto simp: clears_range_def acknowledges_refl)
next
  case (Cons p ps)
  obtain a rs1 w1 where w1: "ack_packet env p False rs w = Some (a, rs1, w1)" "acknowledges w w1" "s_outgoing w1 = (s_outgoing w)(p := None)"
    "a = 2 \<longrightarrow> s_outgoing w1 = Map.empty \<and> s_write_queue w1 = []"
    using ack_packet_law [OF Cons.prems env] by blast
  define w2 where "w2 = (if a = 1 then w1\<lparr>s_delivered := s_delivered w1 + 1\<rparr> else w1)"
  have "acknowledges w1 w2" using count_delivered acknowledges_refl w1(2) by (auto simp: w2_def acknowledges_def)
  then have w2: "acknowledges w w2" "s_outgoing w2 = (s_outgoing w)(p := None)" "ready w2" "accounted w2"
    using acknowledges_trans [OF w1(2)] w1(3) by (auto simp: w2_def acknowledges_def)
  show ?case
  proof (cases "a = 2")
    case True
    then have "ack_cumulative env (p # ps) rs w = Some (True, rs1, w2)" using w1(1) by (simp add: w2_def)
    moreover have "clears_range (p # ps) w w2" using w2(1) w1(4) True by (simp add: clears_range_def w2_def)
    moreover have "s_outgoing w2 = Map.empty" "s_write_queue w2 = []" using w1(4) True by (simp_all add: w2_def)
    ultimately show ?thesis by blast
  next
    case False
    obtain e rs' w' where w': "ack_cumulative env ps rs1 w2 = Some (e, rs', w')" "clears_range ps w2 w'"
      "e \<longrightarrow> s_outgoing w' = Map.empty \<and> s_write_queue w' = []" using Cons.IH [OF w2(3,4)] by blast
    have "ack_cumulative env (p # ps) rs w = Some (e, rs', w')" using w1(1) False w'(1) by (simp add: w2_def cong: if_cong)
    then show ?thesis using clears_range_step [OF w2(1,2) w'(2)] w'(3) by blast
  qed
qed

lemma ack_selective_law:
  assumes env: "silent env"
  shows "ready w \<Longrightarrow> accounted w \<Longrightarrow> \<exists>rs' w'. ack_selective env ps rs w = Some (rs', w') \<and> clears_range ps w w'"
proof (induction ps arbitrary: rs w)
  case Nil
  then show ?case by (simp add: clears_range_def acknowledges_refl)
next
  case (Cons p ps)
  obtain a rs1 w1 where w1: "ack_packet env p True rs w = Some (a, rs1, w1)" "acknowledges w w1" "s_outgoing w1 = (s_outgoing w)(p := None)"
    "a = 2 \<longrightarrow> s_outgoing w1 = Map.empty \<and> s_write_queue w1 = []"
    using ack_packet_law [OF Cons.prems env] by blast
  show ?case
  proof (cases "a = 2")
    case True
    then have "ack_selective env (p # ps) rs w = Some (rs1, w1)" using w1(1) by simp
    moreover have "clears_range (p # ps) w w1" using w1(2,4) True by (simp add: clears_range_def)
    ultimately show ?thesis by blast
  next
    case False
    define w2 where "w2 = (if a = 1 then w1\<lparr>s_delivered := s_delivered w1 + 1\<rparr> else w1)"
    have "acknowledges w1 w2" using count_delivered acknowledges_refl w1(2) by (auto simp: w2_def acknowledges_def)
    then have w2: "acknowledges w w2" "s_outgoing w2 = (s_outgoing w)(p := None)" "ready w2" "accounted w2"
      using acknowledges_trans [OF w1(2)] w1(3) by (auto simp: w2_def acknowledges_def)
    obtain rs' w' where w': "ack_selective env ps rs1 w2 = Some (rs', w')" "clears_range ps w2 w'" using Cons.IH [OF w2(3,4)] by blast
    have "ack_selective env (p # ps) rs w = Some (rs', w')" using w1(1) False w'(1) by (simp add: w2_def cong: if_cong)
    then show ?thesis using clears_range_step [OF w2(1,2) w'(2)] by blast
  qed
qed

lemma process_sacks_law:
  assumes env: "silent env"
  shows "ready w \<Longrightarrow> accounted w \<Longrightarrow> \<exists>rs' w'. process_sacks env blocks rs w = Some (rs', w') \<and> acknowledges w w'"
proof (induction blocks arbitrary: rs w)
  case Nil
  then show ?case by (simp add: acknowledges_refl)
next
  case (Cons x blocks)
  obtain a b where x: "x = (a, b)" by (cases x)
  show ?case
  proof (cases "udx_sack_is_valid a b w")
    case True
    obtain rs1 w1 where w1: "ack_selective env (seq_range a b) rs w = Some (rs1, w1)" "acknowledges w w1"
      using ack_selective_law [OF env Cons.prems] unfolding clears_range_def by blast
    obtain rs' w' where w': "process_sacks env blocks rs1 w1 = Some (rs', w')" "acknowledges w1 w'"
      using Cons.IH acknowledgesD [OF w1(2)] by blast
    then show ?thesis using True w1(1) acknowledges_trans [OF w1(2) w'(2)] by (auto simp: x)
  next
    case False
    let ?w = "w\<lparr>s_dropped_sacks := s_dropped_sacks w + 1\<rparr>"
    have a: "acknowledges w ?w" using Cons.prems by (rule acknowledges_core) (simp_all add: core_def flow_def mtu_inv_def)
    obtain rs' w' where w': "process_sacks env blocks rs ?w = Some (rs', w')" "acknowledges ?w w'"
      using Cons.IH acknowledgesD [OF a] by blast
    then show ?thesis using False acknowledges_trans [OF a w'(2)] by (auto simp: x)
  qed
qed


section \<open>Progress\<close>

text \<open>What any step of the sender keeps: it stays ready and accounted for, answers writes exactly when they are settled, and
  numbers are used only for bytes that were queued.\<close>

definition progresses :: "world \<Rightarrow> world \<Rightarrow> bool" where
  "progresses w w' \<longleftrightarrow> ready w' \<and> accounted w' \<and> settles w w'
     \<and> (\<exists>new. advances [] new w w' \<and> length new + send_work w' \<le> send_work w
          \<and> seq_off (s_remote_acked w') (s_seq w') \<le> seq_off (s_remote_acked w) (s_seq w) + length new)"

definition live :: "world \<Rightarrow> bool" where
  "live w \<longleftrightarrow> ready w \<and> accounted w"

lemma progresses_live: "progresses w w' \<Longrightarrow> live w'"
  by (simp add: progresses_def live_def)

lemma progresses_trans:
  assumes "progresses u v" "progresses v w"
  shows "progresses u w"
proof -
  obtain n m where n: "advances [] n u v" "length n + send_work v \<le> send_work u" "seq_off (s_remote_acked v) (s_seq v) \<le> seq_off (s_remote_acked u) (s_seq u) + length n"
    and m: "advances [] m v w" "length m + send_work w \<le> send_work v" "seq_off (s_remote_acked w) (s_seq w) \<le> seq_off (s_remote_acked v) (s_seq v) + length m"
    using assms unfolding progresses_def by blast
  have "advances [] (n @ m) u w" using advances_trans [OF n(1) m(1)] by simp
  moreover have "length (n @ m) + send_work w \<le> send_work u" "seq_off (s_remote_acked w) (s_seq w) \<le> seq_off (s_remote_acked u) (s_seq u) + length (n @ m)"
    using n(2,3) m(2,3) by simp_all
  ultimately show ?thesis using assms settles_trans unfolding progresses_def by blast
qed

lemma progresses_room: "progresses w w' \<Longrightarrow> room n w \<Longrightarrow> room n w'"
  unfolding progresses_def room_def by fastforce

lemma acknowledges_progresses: "acknowledges w w' \<Longrightarrow> progresses w w'"
  unfolding progresses_def acknowledges_def by (auto simp: advances_def intro!: exI [of _ "[]"])

lemma progresses_refl: "live w \<Longrightarrow> progresses w w"
  using acknowledges_progresses acknowledges_refl by (simp add: live_def)

lemmas progresses_core = acknowledges_progresses [OF acknowledges_core]

lemma send_packets_progresses:
  assumes l: "live w" and room: "room 0 w"
  shows "\<exists>w'. send_packets env w = Some w' \<and> progresses w w'"
proof -
  have few: "seq_off (s_remote_acked w) (s_seq w) + send_work w + 1 < 2 ^ 32" using room by (simp add: room_def)
  obtain v ps where v: "send_packets env w = Some v" "sending v" "resting v" "pace_ready v" "emits ps w v" "length ps + send_work v \<le> send_work w"
    using send_packets_law [OF _ _ _ few, of env] l by (auto simp: live_def ready_def)
  have "keeps_account w v" using v(5) by (simp add: emits_def)
  then have "settles w v" "accounted v" using keeps_account_settles l by (auto simp: keeps_account_def live_def)
  moreover have "seq_off (s_remote_acked v) (s_seq v) \<le> seq_off (s_remote_acked w) (s_seq w) + length ps"
  proof -
    have d: "s_seq v - s_remote_acked v = (s_seq w - s_remote_acked w) + of_nat (length ps)" using v(5) by (simp add: emits_def)
    have "unat (x + of_nat n) \<le> unat x + n" for x :: u32 and n
    proof -
      have "unat (x + of_nat n) = (unat x + unat (of_nat n :: u32)) mod 2 ^ 32" by (simp add: unat_word_ariths)
      also have "\<dots> \<le> unat x + unat (of_nat n :: u32)" by (rule mod_less_eq_dividend)
      finally show ?thesis by (simp add: unat_of_nat)
    qed
    then show ?thesis unfolding seq_off_def d .
  qed
  ultimately show ?thesis
    using v emits_advances [OF v(5)] unfolding progresses_def ready_def by (intro exI [of _ v] conjI exI [of _ "sent_bufs v ps"]) (simp_all add: sent_bufs_def)
qed

section \<open>Marking packets lost\<close>

text \<open>What marking packets lost does not touch.\<close>

definition mark_rest :: "world \<Rightarrow> world" where
  "mark_rest w = w\<lparr>w_packets := undefined, s_inflight := 0, s_inflight_queue := [], s_retransmit_queue := [], s_lost := 0,
     s_mtu_state := UDX_MTU_STATE_BASE, s_mtu_probe_wanted := False\<rparr>"

text \<open>What becomes of the packets.\<close>

definition marks :: "world \<Rightarrow> world \<Rightarrow> bool" where
  "marks w w' \<longleftrightarrow> mark_rest w' = mark_rest w \<and> (mtu_inv w \<longrightarrow> mtu_inv w')
     \<and> (\<forall>q. packet_body (w_packets w q) (w_packets w' q) \<and> p_ref_count (w_packets w' q) = p_ref_count (w_packets w q)
          \<and> p_transmits (w_packets w' q) = p_transmits (w_packets w q))
     \<and> (\<forall>q. q \<notin> ran (s_outgoing w) \<longrightarrow> w_packets w' q = w_packets w q)"

lemma mark_rest_fields:
  assumes e: "mark_rest w' = mark_rest w"
  shows "s_status w' = s_status w" "s_outgoing w' = s_outgoing w" "s_write_queue w' = s_write_queue w" "s_seq w' = s_seq w"
    "s_remote_acked w' = s_remote_acked w" "s_pkt w' = s_pkt w" "w_next_packet w' = w_next_packet w" "s_cwnd w' = s_cwnd w"
    "s_remote_addr w' = s_remote_addr w" "s_pkt_capacity w' = s_pkt_capacity w" "s_pkt_header_flag w' = s_pkt_header_flag w"
    "w_prepare w' = w_prepare w" "w_now w' = w_now w" "s_tb_last_refill_ms w' = s_tb_last_refill_ms w" "s_pacing_bytes_per_ms w' =
    s_pacing_bytes_per_ms w" "s_rto w' = s_rto w" "w_wbufs w' = w_wbufs w" "w_writes w' = w_writes w" "s_writes_queued_bytes w' =
    s_writes_queued_bytes w" "w_output w' = w_output w" "s_rack_rtt w' = s_rack_rtt w" "s_rack_time_sent w' = s_rack_time_sent w"
    "s_rack_next_seq w' = s_rack_next_seq w"
  using arg_cong [OF e, of s_status] arg_cong [OF e, of s_outgoing] arg_cong [OF e, of s_write_queue] arg_cong [OF e, of s_seq] arg_cong [OF e, of s_remote_acked]
    arg_cong [OF e, of s_pkt] arg_cong [OF e, of w_next_packet] arg_cong [OF e, of s_cwnd] arg_cong [OF e, of s_remote_addr] arg_cong [OF e, of s_pkt_capacity]
    arg_cong [OF e, of s_pkt_header_flag] arg_cong [OF e, of w_prepare] arg_cong [OF e, of w_now] arg_cong [OF e, of s_tb_last_refill_ms] arg_cong [OF e, of s_pacing_bytes_per_ms]
    arg_cong [OF e, of s_rto] arg_cong [OF e, of w_wbufs] arg_cong [OF e, of w_writes] arg_cong [OF e, of s_writes_queued_bytes] arg_cong [OF e, of w_output]
    arg_cong [OF e, of s_rack_rtt] arg_cong [OF e, of s_rack_time_sent] arg_cong [OF e, of s_rack_next_seq]
  by (simp_all add: mark_rest_def)

lemma marks_refl [simp]: "marks w w"
  by (simp add: marks_def)

lemma marks_trans:
  assumes "marks u v" "marks v w"
  shows "marks u w"
proof -
  have "s_outgoing v = s_outgoing u" using assms(1) by (intro mark_rest_fields) (simp add: marks_def)
  then show ?thesis using assms unfolding marks_def by (metis packet_body_trans)
qed

text \<open>A marked flight is as good as before.\<close>

lemma marks_acknowledges:
  assumes r: "ready w" "accounted w" and m: "marks w w'" and fl: "flight_but (seq_off (s_remote_acked w) (s_seq w)) {} w'"
  shows "acknowledges w w'"
proof -
  have e: "mark_rest w' = mark_rest w" using m by (simp add: marks_def)
  note f = mark_rest_fields [OF e]
  have s: "sending w" "resting w" "pace_ready w" using r(1) by (simp_all add: ready_def)
  have pkt: "s_pkt w \<notin> ran (s_outgoing w)" using s(1) by (simp add: sending_def flight_inv_def)
  then have pk: "w_packets w' (s_pkt w) = w_packets w (s_pkt w)" using m by (simp add: marks_def)
  have body: "packet_body (w_packets w q) (w_packets w' q)" for q using m by (simp add: marks_def)
  then have sl: "p_slices (w_packets w' q) = p_slices (w_packets w q)" for q by (simp add: packet_body_def)
  have sb: "same_bufs w w'" by (simp add: same_bufs_def f)
  have pend: "pending w' = pending w" using payload_same_bufs [OF sb] by (simp add: pending_def f pk)
  have un: "unsent w' = unsent w" by (simp add: unsent_def f)
  have mt: "mtu_inv w'" using m s(1) by (simp add: marks_def sending_def path_ok_def)
  have "sending w'" using s(1) fl pkt mt by (simp add: sending_def flight_inv_def building_def path_ok_def remote_ok_def f pk pend Let_def)
  then have rdy: "ready w'" using s by (simp add: ready_def resting_def pace_ready_def f)
  have same: "same_account w w'" "callbacks w' = callbacks w" by (simp_all add: same_account_def callbacks_def f sl pk)
  have "packet_same w w' q" for q unfolding packet_same_def using body payload_body [OF sb body] by blast
  then have "advances [] [] w w'" by (simp add: advances_def f pend un)
  then show ?thesis
    using rdy r(2) accounted_same [OF same(1)] same_account_settles [OF same] by (simp add: acknowledges_def f send_work_def un)
qed


lemma mark_lost_law:
  assumes fl: "flight_but hi {} w" and p: "p \<in> set (s_inflight_queue w)" "p_ref_count (w_packets w p) \<noteq> 2"
  shows "\<exists>w'. mark_lost p w = Some w' \<and> flight_but hi {} w' \<and> marks w w' \<and> s_inflight_queue w' = remove1 p (s_inflight_queue w)
    \<and> s_retransmit_queue w' = s_retransmit_queue w @ [p]
    \<and> (\<forall>q. w_packets w' q = (if q = p then (w_packets w p)\<lparr>p_lost := True\<rparr> else w_packets w q))"
proof -
  let ?w = "w\<lparr>w_packets := (w_packets w)(p := (w_packets w p)\<lparr>p_lost := True\<rparr>), s_inflight := s_inflight w - ucast (p_size (w_packets w p)),
    s_inflight_queue := remove1 p (s_inflight_queue w), s_retransmit_queue := s_retransmit_queue w @ [p]\<rparr>"
  have mem: "p \<in> ran (s_outgoing w)" "p \<notin> set (s_retransmit_queue w)" using flight_mem(1) [OF fl p(1)] by simp_all
  have dist: "distinct (s_inflight_queue w)" "distinct (s_retransmit_queue w)" "set (s_inflight_queue w) \<inter> set (s_retransmit_queue w) = {}"
    using flightD(1) [OF fl] by auto
  have q: "set (remove1 p (s_inflight_queue w)) = set (s_inflight_queue w) - {p}" using dist(1) by (simp add: set_remove1_eq)
  have "flight_but hi {} ?w"
  proof (rule flightI)
    show "distinct (s_inflight_queue ?w @ s_retransmit_queue ?w)" using dist mem(2) q by (auto simp: distinct_remove1)
    show "set (s_inflight_queue ?w) \<union> set (s_retransmit_queue ?w) \<union> {} = ran (s_outgoing ?w)"
      using flightD(2) [OF fl] p(1) q by auto
    show "packet_ok hi ?w k p'" if k: "s_outgoing ?w k = Some p'" for k p'
    proof -
      have "s_outgoing w k = Some p'" using k by simp
      note ok = packet_okD [OF flightD(4) [OF fl this]]
      show ?thesis using ok mem(2) p(2) unfolding packet_ok_def Let_def by (cases "p' = p") simp_all
    qed
    show "s_inflight ?w = flight_bytes ?w (s_inflight_queue ?w)"
    proof -
      have "flight_bytes w (s_inflight_queue w) = ucast (p_size (w_packets w p)) + flight_bytes w (remove1 p (s_inflight_queue w))"
        using p(1) unfolding flight_bytes_def by (simp add: sum_list_map_remove1)
      moreover have "flight_bytes ?w (remove1 p (s_inflight_queue w)) = flight_bytes w (remove1 p (s_inflight_queue w))"
        by (rule flight_bytes_cong) simp
      ultimately show ?thesis using flightD(7) [OF fl] by simp
    qed
  qed (use flightD(6) [OF fl] in auto)
  moreover have "mark_lost p w = Some ?w" using p(1) by (simp add: mark_lost_def lq_unlink_def lq_tail_def)
  moreover have "marks w ?w"
    using mem(1) by (auto simp: marks_def mark_rest_def mtu_inv_def packet_body_def wire_form_def headed_def)
  ultimately show ?thesis by (intro exI [of _ ?w]) simp
qed

lemma unprobe_body: "packet_body pkt (pkt\<lparr>p_header := (p_header pkt)[3 := 0], p_is_mtu_probe := False\<rparr>)"
proof -
  have "([255, 1, type, pad] @ xs)[3 := 0] = [255, 1, type, 0] @ xs" for type pad :: u8 and xs by simp
  then show ?thesis by (auto simp: packet_body_def wire_form_def headed_def)
qed

lemma unprobeify_marks:
  assumes fl: "flight_but hi {} w" and p: "p_is_mtu_probe (w_packets w p)" "p \<in> ran (s_outgoing w)"
  shows "\<exists>w'. mtu_unprobeify_packet p w = Some w' \<and> flight_but hi {} w' \<and> marks w w' \<and> s_inflight_queue w' = s_inflight_queue w
    \<and> s_retransmit_queue w' = s_retransmit_queue w
    \<and> (\<forall>q. w_packets w' q = (if q = p then (w_packets w p)\<lparr>p_header := (p_header (w_packets w p))[3 := 0], p_is_mtu_probe := False\<rparr> else w_packets w q))"
proof -
  let ?pkt = "(w_packets w p)\<lparr>p_header := (p_header (w_packets w p))[3 := 0], p_is_mtu_probe := False\<rparr>"
  define w1 where "w1 = w\<lparr>w_packets := (w_packets w)(p := ?pkt)\<rparr>"
  define w' where "w' = (if s_mtu_state w1 = UDX_MTU_STATE_SEARCH then
             if s_mtu_probe_count w1 \<ge> UDX_MTU_MAX_PROBES then w1\<lparr>s_mtu_state := UDX_MTU_STATE_SEARCH_COMPLETE\<rparr>
             else w1\<lparr>s_mtu_probe_wanted := True\<rparr>
           else w1)"
  have eq: "mtu_unprobeify_packet p w = Some w'" using p(1) by (simp add: mtu_unprobeify_packet_def w'_def w1_def)
  have fl1: "flight_but hi {} w1" unfolding w1_def by (rule flight_but_upd_packet [OF fl]) simp_all
  have f: "w_packets w' = w_packets w1" "s_inflight_queue w' = s_inflight_queue w" "s_retransmit_queue w' = s_retransmit_queue w"
    "s_outgoing w' = s_outgoing w" "s_inflight w' = s_inflight w1" "s_remote_acked w' = s_remote_acked w1" "w_next_packet w' = w_next_packet w1"
    "s_outgoing w1 = s_outgoing w" "s_inflight_queue w1 = s_inflight_queue w" "s_retransmit_queue w1 = s_retransmit_queue w"
    by (simp_all add: w'_def w1_def)
  have "flight_but hi {} w'" by (rule flight_but_cong [OF _ _ _ _ _ _ _ fl1]) (simp_all add: f)
  moreover have "marks w w'"
  proof -
    have "mark_rest w' = mark_rest w1" by (simp add: w'_def mark_rest_def)
    moreover have "mark_rest w1 = mark_rest w" by (simp add: w1_def mark_rest_def)
    moreover have "packet_body (w_packets w q) (w_packets w' q)" for q using unprobe_body by (simp add: f w1_def)
    ultimately show ?thesis
      using mtu_inv_unprobeify [OF _ eq] p(2) by (auto simp: marks_def f) (auto simp: w1_def)
  qed
  ultimately show ?thesis using eq f(1-3) by (auto simp: w1_def)
qed


lemma marks_lost_count: "marks w (w\<lparr>s_lost := n\<rparr>)"
  by (simp add: marks_def mark_rest_def mtu_inv_def)

lemma flight_lost_count: "flight_but hi X (w\<lparr>s_lost := n\<rparr>) = flight_but hi X w"
  by (simp add: flight_but_def packet_ok_def flight_bytes_def)

text \<open>Marking one packet lost, a path MTU probe losing its padding: the common step of RACK and of the timeout.\<close>

lemma mark_one_law:
  assumes fl: "flight_but hi {} w" and p: "p \<in> set (s_inflight_queue w)" "p_ref_count (w_packets w p) \<noteq> 2"
  shows "\<exists>w1. mark_lost p w = Some w1 \<and> flight_but hi {} w1 \<and> marks w w1 \<and> s_inflight_queue w1 = remove1 p (s_inflight_queue w)
    \<and> (p_is_mtu_probe (w_packets w p) \<longrightarrow> (\<exists>w2. mtu_unprobeify_packet p w1 = Some w2 \<and> flight_but hi {} w2 \<and> marks w w2
         \<and> s_inflight_queue w2 = remove1 p (s_inflight_queue w)))"
proof -
  obtain w1 where w1: "mark_lost p w = Some w1" "flight_but hi {} w1" "marks w w1" "s_inflight_queue w1 = remove1 p (s_inflight_queue w)"
    "\<forall>q. w_packets w1 q = (if q = p then (w_packets w p)\<lparr>p_lost := True\<rparr> else w_packets w q)"
    using mark_lost_law [OF assms] by blast
  have "s_outgoing w1 = s_outgoing w" using w1(3) by (intro mark_rest_fields) (simp add: marks_def)
  then have ran: "p \<in> ran (s_outgoing w1)" using flight_mem(1) [OF fl p(1)] by simp
  have "\<exists>w2. mtu_unprobeify_packet p w1 = Some w2 \<and> flight_but hi {} w2 \<and> marks w w2 \<and> s_inflight_queue w2 = remove1 p (s_inflight_queue w)"
    if "p_is_mtu_probe (w_packets w p)"
    using unprobeify_marks [OF w1(2) _ ran] w1(3-5) marks_trans [OF w1(3)] that by fastforce
  then show ?thesis using w1(1-4) by blast
qed

lemma rack_scan_law:
  assumes "flight_but hi {} w" "distinct ps" "set ps \<subseteq> set (s_inflight_queue w)"
  shows "\<exists>rk' w'. rack_scan_queue reo ps rk w = Some (rk', w') \<and> flight_but hi {} w' \<and> marks w w'"
  using assms
proof (induction ps arbitrary: rk w)
  case Nil
  then show ?case by simp
next
  case (Cons p ps)
  let ?pkt = "w_packets w p"
  have p: "p \<in> set (s_inflight_queue w)" using Cons.prems(3) by simp
  have ran: "p \<in> ran (s_outgoing w)" using flight_mem(1) [OF Cons.prems(1) p] by simp
  have tr: "p_transmits ?pkt > 0" using flightD(6) [OF Cons.prems(1) ran] by simp
  have size: "0 < p_size ?pkt" "p_size ?pkt < 1500" using packet_okD(4,5) [OF flight_ranE(2) [OF Cons.prems(1) ran]] .
  have skip: "\<exists>rk' w'. rack_scan_queue reo ps rk1 w = Some (rk', w') \<and> flight_but hi {} w' \<and> marks w w'" for rk1
    using Cons.IH [OF Cons.prems(1)] Cons.prems(2,3) by simp
  show ?case
  proof (cases "p_time_sent ?pkt \<le> s_rack_time_sent w \<and> p_ref_count ?pkt \<noteq> 2
      \<and> rack_sent_after (s_rack_time_sent w) (s_rack_next_seq w) (p_time_sent ?pkt) (p_seq ?pkt + 1) \<and> rack_remaining ?pkt reo w \<le> 0")
    case False
    then show ?thesis using Cons.prems(1) tr skip by (auto simp: not_le Let_def)
  next
    case True
    let ?w = "w\<lparr>s_lost := s_lost w + 1\<rparr>"
    have fl: "flight_but hi {} ?w" using Cons.prems(1) by (simp add: flight_lost_count)
    obtain w1 where w1: "mark_lost p ?w = Some w1" "flight_but hi {} w1" "marks ?w w1" "s_inflight_queue w1 = remove1 p (s_inflight_queue w)"
      and probe: "p_is_mtu_probe ?pkt \<Longrightarrow> \<exists>w2. mtu_unprobeify_packet p w1 = Some w2 \<and> flight_but hi {} w2 \<and> marks ?w w2
         \<and> s_inflight_queue w2 = remove1 p (s_inflight_queue w)"
      using mark_one_law [OF fl, of p] p True by auto
    obtain rk2 w2 where w2: "(if p_is_mtu_probe ?pkt then do {
             w \<leftarrow> mtu_unprobeify_packet p w1;
             Some (rk\<lparr>rk_probes_lost := rk_probes_lost rk + 1\<rparr>, w)
           } else Some (rk, w1)) = Some (rk2, w2)" "flight_but hi {} w2" "marks ?w w2" "s_inflight_queue w2 = remove1 p (s_inflight_queue w)"
      using w1 probe by (cases "p_is_mtu_probe ?pkt") auto
    have "set ps \<subseteq> set (s_inflight_queue w2)"
      using Cons.prems(2,3) flightD(1) [OF Cons.prems(1)] by (auto simp: w2(4) set_remove1_eq)
    then obtain rk' w' where w': "rack_scan_queue reo ps (rk2\<lparr>rk_resending := rk_resending rk2 + 1\<rparr>) w2 = Some (rk', w')" "flight_but hi {} w'" "marks w2 w'"
      using Cons.IH [OF w2(2)] Cons.prems(2) by fastforce
    have "rack_scan_queue reo (p # ps) rk w = Some (rk', w')"
      using True tr size w1(1) w2(1) w'(1) by (simp add: Let_def not_less [symmetric])
    moreover have "marks w w'" using marks_trans [OF marks_lost_count marks_trans [OF w2(3) w'(3)]] .
    ultimately show ?thesis using w'(2) by blast
  qed
qed

lemma rack_scan_acknowledges:
  assumes "live w"
  shows "\<exists>rk' w'. rack_scan_queue reo (s_inflight_queue w) rk w = Some (rk', w') \<and> acknowledges w w'"
proof -
  have fl: "flight_but (seq_off (s_remote_acked w) (s_seq w)) {} w" using assms ready_flight by (simp add: live_def)
  then have "distinct (s_inflight_queue w)" using flightD(1) by fastforce
  then obtain rk' w' where w': "rack_scan_queue reo (s_inflight_queue w) rk w = Some (rk', w')"
    "flight_but (seq_off (s_remote_acked w) (s_seq w)) {} w'" "marks w w'"
    using rack_scan_law [OF fl] by blast
  then show ?thesis using marks_acknowledges assms by (auto simp: live_def)
qed

section \<open>The timeout\<close>

text \<open>The packets of a range that are already marked lost, in the order of their numbers: \<open>udx_rto_timeout\<close> empties the
  retransmission queue and puts them back.\<close>

definition lost_of :: "world \<Rightarrow> u32 list \<Rightarrow> addr list" where
  "lost_of w seqs = concat (map (\<lambda>seq. case s_outgoing w seq of None \<Rightarrow> [] | Some p \<Rightarrow> if p_lost (w_packets w p) then [p] else []) seqs)"

lemma lost_of_simps [simp]:
  "lost_of w [] = []"
  "lost_of w (seq # seqs) = (case s_outgoing w seq of None \<Rightarrow> [] | Some p \<Rightarrow> if p_lost (w_packets w p) then [p] else []) @ lost_of w seqs"
  by (simp_all add: lost_of_def)

lemma lost_of_set: "p \<in> set (lost_of w seqs) \<longleftrightarrow> (\<exists>seq \<in> set seqs. s_outgoing w seq = Some p) \<and> p_lost (w_packets w p)"
  by (induction seqs) (auto split: option.split)

lemma lost_of_distinct:
  assumes "flight_but hi X w" "distinct seqs"
  shows "distinct (lost_of w seqs)"
  using assms(2)
proof (induction seqs)
  case (Cons seq seqs)
  have "p \<notin> set (lost_of w seqs)" if "s_outgoing w seq = Some p" for p
    using flight_inj [OF assms(1) that] Cons.prems by (auto simp: lost_of_set)
  then show ?case using Cons by (auto split: option.split)
qed simp

lemma lost_of_same:
  assumes "s_outgoing w' = s_outgoing w" "\<And>seq p. seq \<in> set seqs \<Longrightarrow> s_outgoing w seq = Some p \<Longrightarrow> p_lost (w_packets w' p) = p_lost (w_packets w p)"
  shows "lost_of w' seqs = lost_of w seqs"
  unfolding lost_of_def assms(1) using assms(2) by (intro arg_cong [where f = concat] map_cong) (auto split: option.split)

text \<open>The order of the retransmission queue does not matter to the invariant.\<close>

lemma flight_requeue:
  assumes "flight_but hi X w" "mset q = mset (s_retransmit_queue w)"
  shows "flight_but hi X (w\<lparr>s_retransmit_queue := q\<rparr>)"
proof -
  have "set q = set (s_retransmit_queue w)" "distinct q = distinct (s_retransmit_queue w)"
    using assms(2) mset_eq_setD mset_eq_imp_distinct_iff by blast+
  then show ?thesis using assms(1) by (simp add: flight_but_def packet_ok_def flight_bytes_def)
qed


lemma lost_of_requeue [simp]: "lost_of (w\<lparr>s_retransmit_queue := q\<rparr>) seqs = lost_of w seqs"
  by (rule lost_of_same) simp_all

lemma marks_requeue: "marks (w\<lparr>s_retransmit_queue := q\<rparr>) v = marks w v" "marks v (w\<lparr>s_retransmit_queue := q\<rparr>) = marks v w"
  by (simp_all add: marks_def mark_rest_def mtu_inv_def)

lemma unprobeify_requeue:
  "mtu_unprobeify_packet p (w\<lparr>s_retransmit_queue := q\<rparr>) = map_option (\<lambda>w. w\<lparr>s_retransmit_queue := q\<rparr>) (mtu_unprobeify_packet p w)"
  by (simp add: mtu_unprobeify_packet_def Let_def c_assert_def)

lemma mark_lost_requeue:
  "mark_lost p (w\<lparr>s_retransmit_queue := q\<rparr>) = map_option (\<lambda>w. w\<lparr>s_retransmit_queue := q @ [p]\<rparr>) (mark_lost p w)"
  by (cases "p \<in> set (s_inflight_queue w)") (simp_all add: mark_lost_def lq_unlink_def lq_tail_def)

text \<open>One round, with the packets still to be put back in the queue.\<close>

lemma rto_mark_law:
  assumes fl: "flight_but hi {} (w\<lparr>s_retransmit_queue := s_retransmit_queue w @ lost_of w (seq # seqs)\<rparr>)" and new: "seq \<notin> set seqs"
  shows "\<exists>w'. rto_mark reo seq w = Some w' \<and> flight_but hi {} (w'\<lparr>s_retransmit_queue := s_retransmit_queue w' @ lost_of w' seqs\<rparr>) \<and> marks w w'"
proof (cases "s_outgoing w seq")
  case None
  then show ?thesis using fl by (simp add: rto_mark_def)
next
  case (Some p)
  let ?pkt = "w_packets w p" and ?q = "s_retransmit_queue w @ lost_of w (seq # seqs)"
  let ?v = "w\<lparr>s_retransmit_queue := ?q\<rparr>"
  have k: "s_outgoing ?v seq = Some p" using Some by simp
  note ok = packet_okD [OF flightD(4) [OF fl k]]
  have other: "p' \<noteq> p" if "s \<in> set seqs" "s_outgoing w s = Some p'" for s p'
    using flight_inj [OF fl k] that new by auto
  show ?thesis
  proof (cases "p_lost ?pkt")
    case True
    let ?w' = "w\<lparr>s_retransmit_queue := s_retransmit_queue w @ [p]\<rparr>"
    have "rto_mark reo seq w = Some ?w'" using Some True by (simp add: rto_mark_def lq_tail_def)
    moreover have "flight_but hi {} (?w'\<lparr>s_retransmit_queue := s_retransmit_queue ?w' @ lost_of ?w' seqs\<rparr>)" using fl Some True by simp
    moreover have "marks w ?w'" using marks_requeue(2) marks_refl by blast
    ultimately show ?thesis by blast
  next
    case lost: False
    then have lo: "lost_of w (seq # seqs) = lost_of w seqs" using Some by simp
    have "p \<in> set (s_inflight_queue ?v) \<union> set (s_retransmit_queue ?v) \<union> {}" unfolding flightD(2) [OF fl] using k by (rule ranI)
    moreover have "p \<notin> set (s_retransmit_queue ?v)" using ok(6) lost by simp
    ultimately have "p \<in> set (s_inflight_queue ?v)" by blast
    then have p: "p \<in> set (s_inflight_queue w)" by simp
    show ?thesis
    proof (cases "p_seq ?pkt = s_remote_acked w \<or> rack_remaining ?pkt reo w < 0")
      case False
      then show ?thesis using Some lost fl by (simp add: rto_mark_def lo)
    next
      case True
      define w0 where "w0 = w\<lparr>s_lost := s_lost w + 1\<rparr>"
      have fl0: "flight_but hi {} (w0\<lparr>s_retransmit_queue := ?q\<rparr>)"
        using fl by (simp add: w0_def flight_but_def packet_ok_def flight_bytes_def)
      have "\<exists>w1. (if p_is_mtu_probe ?pkt then mtu_unprobeify_packet p w0 else Some w0) = Some w1
          \<and> flight_but hi {} (w1\<lparr>s_retransmit_queue := ?q\<rparr>) \<and> marks w0 w1 \<and> s_inflight_queue w1 = s_inflight_queue w
          \<and> s_retransmit_queue w1 = s_retransmit_queue w
          \<and> (\<forall>q. p_lost (w_packets w1 q) = p_lost (w_packets w q) \<and> p_ref_count (w_packets w1 q) = p_ref_count (w_packets w q))"
      proof (cases "p_is_mtu_probe ?pkt")
        case True
        let ?u = "w0\<lparr>s_retransmit_queue := ?q\<rparr>"
        have "p_is_mtu_probe (w_packets ?u p)" "p \<in> ran (s_outgoing ?u)" using True Some by (simp_all add: w0_def ranI)
        then obtain u where u: "mtu_unprobeify_packet p ?u = Some u" "flight_but hi {} u" "marks ?u u" "s_inflight_queue u = s_inflight_queue ?u"
          "\<forall>q. w_packets u q = (if q = p then (w_packets ?u p)\<lparr>p_header := (p_header (w_packets ?u p))[3 := 0], p_is_mtu_probe := False\<rparr> else w_packets ?u q)"
          using unprobeify_marks [OF fl0] by blast
        obtain w1 where w1: "mtu_unprobeify_packet p w0 = Some w1" "u = w1\<lparr>s_retransmit_queue := ?q\<rparr>"
          using u(1) by (auto simp: unprobeify_requeue)
        have "s_retransmit_queue w1 = s_retransmit_queue w"
          using w1(1) by (auto simp: mtu_unprobeify_packet_def Let_def c_assert_def w0_def split: if_splits)
        then show ?thesis using True u w1 by (auto simp: marks_requeue w0_def)
      next
        case False
        then show ?thesis using fl0 by (auto simp: w0_def)
      qed
      then obtain w1 where w1: "(if p_is_mtu_probe ?pkt then mtu_unprobeify_packet p w0 else Some w0) = Some w1"
        "flight_but hi {} (w1\<lparr>s_retransmit_queue := ?q\<rparr>)" "marks w0 w1" "s_inflight_queue w1 = s_inflight_queue w" "s_retransmit_queue w1 = s_retransmit_queue w"
        "\<And>q. p_lost (w_packets w1 q) = p_lost (w_packets w q)" "\<And>q. p_ref_count (w_packets w1 q) = p_ref_count (w_packets w q)" by blast
      have m1: "marks w w1" using marks_trans [OF marks_lost_count w1(3) [unfolded w0_def]] .
      have o1: "s_outgoing w1 = s_outgoing w" using m1 by (intro mark_rest_fields) (simp add: marks_def)
      have l1: "lost_of w1 seqs = lost_of w seqs" using o1 w1(6) by (intro lost_of_same) simp_all
      show ?thesis
      proof (cases "p_ref_count ?pkt = 2")
        case True
        then have "rto_mark reo seq w = Some w1" using Some lost w1(1) \<open>p_seq ?pkt = s_remote_acked w \<or> rack_remaining ?pkt reo w < 0\<close>
          by (simp add: rto_mark_def Let_def w0_def [symmetric])
        then show ?thesis using w1(2) [unfolded lo] w1(5) l1 m1 by simp
      next
        case False
        let ?u = "w1\<lparr>s_retransmit_queue := ?q\<rparr>"
        have "p \<in> set (s_inflight_queue ?u)" "p_ref_count (w_packets ?u p) \<noteq> 2" using p False w1(4,7) by simp_all
        then obtain u where u: "mark_lost p ?u = Some u" "flight_but hi {} u" "marks ?u u"
          "\<forall>q. w_packets u q = (if q = p then (w_packets ?u p)\<lparr>p_lost := True\<rparr> else w_packets ?u q)"
          using mark_lost_law [OF w1(2)] by blast
        obtain w2 where w2: "mark_lost p w1 = Some w2" "u = w2\<lparr>s_retransmit_queue := ?q @ [p]\<rparr>" using u(1) by (auto simp: mark_lost_requeue)
        have q2: "s_retransmit_queue w2 = s_retransmit_queue w @ [p]"
          using w2(1) w1(5) by (auto simp: mark_lost_def bind_eq_Some_conv lq_tail_def)
        have m2: "marks w w2" using marks_trans [OF m1] u(3) by (simp add: w2(2) marks_requeue)
        have o2: "s_outgoing w2 = s_outgoing w" using m2 by (intro mark_rest_fields) (simp add: marks_def)
        have l2: "lost_of w2 seqs = lost_of w seqs"
          using o2 other u(4) w1(6) by (intro lost_of_same) (auto simp: w2(2))
        have "flight_but hi {} (u\<lparr>s_retransmit_queue := s_retransmit_queue w @ [p] @ lost_of w seqs\<rparr>)"
          by (rule flight_requeue [OF u(2)]) (simp add: w2(2) lo [simplified])
        then have "flight_but hi {} (w2\<lparr>s_retransmit_queue := s_retransmit_queue w2 @ lost_of w2 seqs\<rparr>)" by (simp add: w2(2) q2 l2)
        moreover have "rto_mark reo seq w = Some w2"
          using Some lost w1(1) False w2(1) \<open>p_seq ?pkt = s_remote_acked w \<or> rack_remaining ?pkt reo w < 0\<close>
          by (simp add: rto_mark_def Let_def w0_def [symmetric])
        ultimately show ?thesis using m2 by blast
      qed
    qed
  qed
qed

lemma rto_mark_all_law:
  assumes "flight_but hi {} (w\<lparr>s_retransmit_queue := s_retransmit_queue w @ lost_of w seqs\<rparr>)" "distinct seqs"
  shows "\<exists>w'. rto_mark_all reo seqs w = Some w' \<and> flight_but hi {} w' \<and> marks w w'"
  using assms
proof (induction seqs arbitrary: w)
  case Nil
  then show ?case by simp
next
  case (Cons seq seqs)
  have new: "seq \<notin> set seqs" using Cons.prems(2) by simp
  obtain w1 where w1: "rto_mark reo seq w = Some w1" "flight_but hi {} (w1\<lparr>s_retransmit_queue := s_retransmit_queue w1 @ lost_of w1 seqs\<rparr>)" "marks w w1"
    using rto_mark_law [OF Cons.prems(1) new] by blast
  obtain w' where w': "rto_mark_all reo seqs w1 = Some w'" "flight_but hi {} w'" "marks w1 w'" using Cons.IH [OF w1(2)] Cons.prems(2) by auto
  show ?case using w1(1) w'(1,2) marks_trans [OF w1(3) w'(3)] by auto
qed

lemma seq_range_distinct: "distinct (seq_range a b)" and seq_range_set: "k \<in> set (seq_range a b) \<longleftrightarrow> seq_off a k < seq_off a b"
proof -
  have un: "unat (of_nat i :: u32) = i" if "i < seq_off a b" for i
    using less_trans [OF that [unfolded seq_off_def] unat_u32_less] by (simp add: unat_of_nat)
  then have inj: "i = j" if "i < seq_off a b" "j < seq_off a b" "(of_nat i :: u32) = of_nat j" for i j using that by metis
  then show "distinct (seq_range a b)" by (auto simp: seq_range_def distinct_map seq_off_def inj_on_def)
  show "k \<in> set (seq_range a b) \<longleftrightarrow> seq_off a k < seq_off a b"
  proof
    assume "k \<in> set (seq_range a b)"
    then obtain i where "i < seq_off a b" "k = a + of_nat i" by (auto simp: seq_range_def seq_off_def)
    then show "seq_off a k < seq_off a b" using un [of i] by (simp add: seq_off_def)
  next
    assume "seq_off a k < seq_off a b"
    moreover have "k = a + of_nat (seq_off a k)" by (simp add: seq_off_def)
    ultimately show "k \<in> set (seq_range a b)" by (force simp: seq_range_def seq_off_def)
  qed
qed

text \<open>Emptying the retransmission queue and marking over the range of outstanding numbers.\<close>

lemma rto_marks_acknowledges:
  assumes l: "live w"
  shows "\<exists>w'. rto_mark_all reo (seq_range (s_remote_acked w) (s_seq w)) (w\<lparr>s_retransmit_queue := []\<rparr>) = Some w' \<and> acknowledges w w'"
proof -
  let ?seqs = "seq_range (s_remote_acked w) (s_seq w)" and ?w = "w\<lparr>s_retransmit_queue := []\<rparr>"
  have fl: "flight_but (seq_off (s_remote_acked w) (s_seq w)) {} w" using l ready_flight by (simp add: live_def)
  have "set (lost_of w ?seqs) = set (s_retransmit_queue w)"
  proof (intro set_eqI iffI)
    fix p assume "p \<in> set (lost_of w ?seqs)"
    then obtain seq where "s_outgoing w seq = Some p" "p_lost (w_packets w p)" by (auto simp: lost_of_set)
    then show "p \<in> set (s_retransmit_queue w)" using packet_okD(6) [OF flightD(4) [OF fl]] by blast
  next
    fix p assume "p \<in> set (s_retransmit_queue w)"
    then have ran: "p \<in> ran (s_outgoing w)" and q: "p \<in> set (s_retransmit_queue w)" using flight_mem(2) [OF fl] by simp_all
    note k = flight_ranE [OF fl ran]
    have "p_seq (w_packets w p) \<in> set ?seqs" using packet_okD(2) [OF k(2)] by (simp add: seq_range_set)
    then show "p \<in> set (lost_of w ?seqs)" using k(1) packet_okD(6) [OF k(2)] q by (auto simp: lost_of_set)
  qed
  then have "mset (lost_of w ?seqs) = mset (s_retransmit_queue w)"
    using lost_of_distinct [OF fl seq_range_distinct] flightD(1) [OF fl] by (intro set_eq_iff_mset_eq_distinct [THEN iffD1]) auto
  then have "flight_but (seq_off (s_remote_acked w) (s_seq w)) {} (w\<lparr>s_retransmit_queue := lost_of w ?seqs\<rparr>)" by (rule flight_requeue [OF fl])
  then have "flight_but (seq_off (s_remote_acked w) (s_seq w)) {} (?w\<lparr>s_retransmit_queue := s_retransmit_queue ?w @ lost_of ?w ?seqs\<rparr>)" by simp
  from rto_mark_all_law [OF this seq_range_distinct] obtain w' where w': "rto_mark_all reo ?seqs ?w = Some w'"
    "flight_but (seq_off (s_remote_acked w) (s_seq w)) {} w'" "marks ?w w'" by blast
  then show ?thesis using marks_acknowledges l by (auto simp: live_def marks_requeue)
qed


section \<open>Steps that do not touch the flight\<close>

text \<open>The fields of timers and of what is measured.\<close>

lemma progresses_paced:
  assumes l: "live w" and c: "flow w' = flow w" "s_seq w' = s_seq w" "s_pkt_capacity w' = s_pkt_capacity w"
    "s_pkt_header_flag w' = s_pkt_header_flag w" "s_cwnd w' \<noteq> 0" "mtu_inv w' = mtu_inv w" "w_prepare w' = w_prepare w" "pace_ready w'"
    and a: "w_writes w' = w_writes w" "s_writes_queued_bytes w' = s_writes_queued_bytes w" "\<And>wr. answers wr w' = answers wr w"
  shows "progresses w w'"
proof -
  note f = c(1) [unfolded flow_def prod.inject]
  have s: "sending w" "resting w" "pace_ready w" "accounted w" using l by (simp_all add: live_def ready_def)
  have pend: "pending w' = pending w" using f by (simp add: pending_def packet_payload_def slice_bytes_def cong: map_cong)
  have un: "unsent w' = unsent w" using f by (simp add: unsent_def)
  have "sending w'"
    using s(1) f c pend flight_flow [OF c(1)] by (simp add: sending_def flight_inv_def building_def path_ok_def remote_ok_def Let_def)
  then have r: "ready w'" using s f c by (simp add: ready_def resting_def)
  have same: "same_account w w'" using f c(2) a by (simp add: same_account_def)
  have "settles w w'"
    using s(4) accounted_same [OF same] same_account_chunks(3) [OF same] f a by (simp add: settles_def unanswered_def)
  moreover have "advances [] [] w w'" using f c(2) pend un by (simp add: advances_def packet_same_def packet_payload_def slice_bytes_def cong: map_cong)
  ultimately show ?thesis
    using r s(4) accounted_same [OF same] f c(2) un unfolding progresses_def by (intro conjI exI [of _ "[]"]) (simp_all add: send_work_def)
qed

lemma progresses_flow:
  assumes l: "live w" and c: "flow w' = flow w" "s_seq w' = s_seq w" "s_pkt_capacity w' = s_pkt_capacity w"
    "s_pkt_header_flag w' = s_pkt_header_flag w" "s_cwnd w' \<noteq> 0" "mtu_inv w' = mtu_inv w" "w_prepare w' = w_prepare w"
    "s_pacing_bytes_per_ms w' = s_pacing_bytes_per_ms w"
    and a: "w_writes w' = w_writes w" "s_writes_queued_bytes w' = s_writes_queued_bytes w" "\<And>wr. answers wr w' = answers wr w"
  shows "progresses w w'"
  using l c(8) c(1) [unfolded flow_def prod.inject] by (intro progresses_paced [OF l c(1-7) _ a]) (simp add: live_def ready_def pace_ready_def)

lemma progresses_timer: "live w \<Longrightarrow> progresses w (stream_timer_start t n w)" "live w \<Longrightarrow> progresses w (stream_timer_stop w)"
  by (rule progresses_flow; simp add: stream_timer_start_def stream_timer_stop_def Let_def flow_def mtu_inv_def answers_def live_def ready_def sending_def path_ok_def)+

text \<open>A change of the status that leaves the stream alive.\<close>

lemma progresses_status:
  assumes l: "live w" and st: "st AND UDX_STREAM_DEAD = 0"
  shows "progresses w (w\<lparr>s_status := st\<rparr>)"
proof -
  let ?w = "w\<lparr>s_status := st\<rparr>"
  have s: "sending w" "resting w" "pace_ready w" "accounted w" using l by (simp_all add: live_def ready_def)
  have pend: "pending ?w = pending w" by (simp add: pending_def packet_payload_def slice_bytes_def cong: map_cong)
  have un: "unsent ?w = unsent w" by (simp add: unsent_def)
  have fl: "flight_but hi X ?w = flight_but hi X w" for hi X by (simp add: flight_but_def packet_ok_def flight_bytes_def)
  have "sending ?w" using s(1) st by (simp add: sending_def flight_inv_def fl building_def path_ok_def remote_ok_def Let_def pend mtu_inv_def)
  then have r: "ready ?w" using s by (simp add: ready_def resting_def pace_ready_def)
  have same: "same_account w ?w" "callbacks ?w = callbacks w" by (simp_all add: same_account_def callbacks_def)
  have "advances [] [] w ?w" using pend un by (simp add: advances_def packet_same_def packet_payload_def slice_bytes_def cong: map_cong)
  then show ?thesis
    using r s(4) accounted_same [OF same(1)] same_account_settles [OF same] un unfolding progresses_def
    by (intro conjI exI [of _ "[]"]) (simp_all add: send_work_def)
qed

lemma progresses_datagram: "live w \<Longrightarrow> progresses w (count_tx n (send_datagram env dest bytes w))"
  by (rule progresses_flow)
    (simp_all add: send_datagram_def count_tx_def Let_def flow_def mtu_inv_def answers_def live_def ready_def sending_def path_ok_def)

lemma progresses_probe: "live w \<Longrightarrow> progresses w (send_probe env w)"
  using progresses_datagram progresses_refl by (simp add: send_probe_def Let_def)

lemma progresses_notify:
  assumes "live w" "silent env" "\<And>wr. \<not> answers_write wr (Callback ev)"
  shows "progresses w (notify env ev w)"
  unfolding notify_silent [OF assms(2)] using assms(1,3)
  by (intro progresses_flow) (simp_all add: flow_def mtu_inv_def answers_def live_def ready_def sending_def path_ok_def)

lemma live_alive: "live w \<Longrightarrow> \<not> stream_dead w" "live w \<Longrightarrow> s_status w AND UDX_STREAM_CLOSED = 0"
proof -
  assume "live w"
  then have d: "s_status w AND UDX_STREAM_DEAD = 0" by (simp add: live_def ready_def sending_def path_ok_def)
  then show "\<not> stream_dead w" by (simp add: stream_dead_def)
  have "s_status w AND UDX_STREAM_CLOSED = (s_status w AND UDX_STREAM_DEAD) AND UDX_STREAM_CLOSED"
    by (simp add: and.assoc) (simp add: stream_flag_defs)
  then show "s_status w AND UDX_STREAM_CLOSED = 0" by (simp add: d)
qed

lemma rearm_law:
  assumes "live w" "from_now \<or> s_pending_timer w = UDX_TIMER_RACK_REO \<or> s_pending_timer w = UDX_TIMER_TLP"
  shows "\<exists>w'. rearm_rto from_now w = Some w' \<and> progresses w w'"
  using assms progresses_timer unfolding rearm_rto_def by (auto simp: c_assert_def)

section \<open>Loss detection\<close>

lemma rack_detect_law:
  assumes l: "live w" and room: "room 0 w"
  shows "\<exists>t w'. rack_detect_loss env w = Some (t, w') \<and> progresses w w'"
proof -
  define reo where "reo = rack_update_reo_wnd w"
  obtain rk w1 where w1: "rack_scan_queue reo (s_inflight_queue w) \<lparr>rk_timeout = 0, rk_resending = 0, rk_probes_lost = 0\<rparr> w = Some (rk, w1)"
    "acknowledges w w1"
    using rack_scan_acknowledges [OF l] by blast
  have p1: "progresses w w1" using acknowledges_progresses [OF w1(2)] .
  define w2 where "w2 = (if rk_resending rk = rk_probes_lost rk then w1\<lparr>s_lost := s_lost w1 - word_of_int (rk_probes_lost rk)\<rparr> else w1)"
  have p2: "progresses w1 w2"
    using progresses_live [OF p1] by (intro progresses_flow) (simp_all add: w2_def flow_def mtu_inv_def answers_def live_def ready_def sending_def path_ok_def)
  define w3 where "w3 = (if rk_resending rk > rk_probes_lost rk \<and> s_ca_state w2 = UDX_CA_OPEN
       then (let w = w2\<lparr>s_fast_recovery_count := s_fast_recovery_count w2 + 1, s_ca_state := UDX_CA_RECOVERY\<rparr>;
                 w = bbr_save_cwnd w
             in w\<lparr>s_high_seq := s_seq w, s_tlp_in_flight := False, s_tlp_is_retrans := False\<rparr>)
       else w2)"
  have p3: "progresses w2 w3"
    using progresses_live [OF p2] by (intro progresses_flow)
      (simp_all add: w3_def Let_def bbr_save_cwnd_def flow_def mtu_inv_def answers_def live_def ready_def sending_def path_ok_def)
  have p: "progresses w w3" using progresses_trans [OF p1 progresses_trans [OF p2 p3]] .
  obtain w4 where w4: "send_packets env w3 = Some w4" "progresses w3 w4"
    using send_packets_progresses [OF progresses_live [OF p] progresses_room [OF p room]] by blast
  have "rack_detect_loss env w = do { w \<leftarrow> send_packets env w3; Some (ucast (rk_timeout rk), w) }"
    by (simp only: rack_detect_loss_def Let_def w1(1) [unfolded reo_def] Option.bind.simps prod.case w3_def w2_def)
  then have "rack_detect_loss env w = Some (ucast (rk_timeout rk), w4)" using w4(1) by simp
  then show ?thesis using progresses_trans [OF p w4(2)] by blast
qed


section \<open>Timers\<close>

text \<open>The timer of RACK: it fires while it is the pending timer.\<close>

lemma rack_timeout_law:
  assumes l: "live w" and room: "room 0 w"
  shows "\<exists>w'. udx_rack_reo_timeout env w = Some w' \<and> progresses w w'"
proof -
  obtain t w1 where w1: "rack_detect_loss env w = Some (t, w1)" "progresses w w1" using rack_detect_law [OF l room] by blast
  define from_now where "from_now = (\<not> (s_pending_timer w1 = UDX_TIMER_RACK_REO \<or> s_pending_timer w1 = UDX_TIMER_TLP))"
  obtain w2 where w2: "rearm_rto from_now w1 = Some w2" "progresses w1 w2"
    using rearm_law [OF progresses_live [OF w1(2)], of from_now] by (auto simp: from_now_def)
  show ?thesis
    using w1 w2(1) [unfolded from_now_def] progresses_trans [OF w1(2) w2(2)]
    by (cases "s_pending_timer w1 = UDX_TIMER_RTO") (auto simp: udx_rack_reo_timeout_def Let_def)
qed

lemma outstanding_flight:
  assumes "flight_but (seq_off (s_remote_acked w) (s_seq w)) {} w" "s_remote_acked w = s_seq w"
  shows "s_outgoing w = Map.empty" "s_inflight_queue w = []" "s_retransmit_queue w = []"
proof -
  have "s_outgoing w k = None" for k
    using packet_okD(2) [OF flightD(4) [OF assms(1), of k]] assms(2) by (cases "s_outgoing w k") auto
  then show e: "s_outgoing w = Map.empty" by (rule ext)
  then show "s_inflight_queue w = []" "s_retransmit_queue w = []" using flightD(2) [OF assms(1)] by auto
qed

lemma distinct_u32_length:
  assumes "distinct xs" "set xs \<subseteq> set (seq_range a b)"
  shows "length (xs :: u32 list) \<le> seq_off a b"
  using card_mono [OF _ assms(2)] distinct_card [OF assms(1)] distinct_card [OF seq_range_distinct, of a b]
  by (simp add: seq_range_def seq_off_def)

text \<open>No more packets are in flight than numbers are outstanding.\<close>

lemma inflight_bounded:
  assumes fl: "flight_but (seq_off (s_remote_acked w) (s_seq w)) {} w"
  shows "length (s_inflight_queue w) \<le> seq_off (s_remote_acked w) (s_seq w)"
proof -
  let ?k = "\<lambda>p. p_seq (w_packets w p)"
  have ran: "s_outgoing w (?k p) = Some p" "packet_ok (seq_off (s_remote_acked w) (s_seq w)) w (?k p) p" if "p \<in> set (s_inflight_queue w)" for p
    using flight_ranE [OF fl] flight_mem(1) [OF fl that] by blast+
  have "inj_on ?k (set (s_inflight_queue w))" using ran(1) by (intro inj_onI) (metis option.inject)
  then have "distinct (map ?k (s_inflight_queue w))" using flightD(1) [OF fl] by (simp add: distinct_map)
  moreover have "set (map ?k (s_inflight_queue w)) \<subseteq> set (seq_range (s_remote_acked w) (s_seq w))"
    using packet_okD(2) [OF ran(2)] by (auto simp: seq_range_set)
  ultimately show ?thesis using distinct_u32_length by fastforce
qed

text \<open>The retransmission timeout, while it is not the last one.\<close>

lemma rto_timeout_law:
  assumes l: "live w" and room: "room 0 w" and con: "has_flag (s_status w) UDX_STREAM_CONNECTED" "s_remote_acked w \<noteq> s_seq w"
    and count: "s_rto_count w + 1 \<le> UDX_MAX_RTO_TIMEOUTS"
  shows "\<exists>w'. udx_rto_timeout env w = Some w' \<and> progresses w w'"
proof -
  define w1 where "w1 = (bbr_save_cwnd (w\<lparr>s_pending_timer := UDX_TIMER_NONE\<rparr>))"
  define w2 where "w2 = w1\<lparr>s_high_seq := s_seq w1, s_rto_count := s_rto_count w1 + 1, s_lifetime_rto_count := s_lifetime_rto_count w1 + 1,
              s_ca_state := UDX_CA_LOSS, s_tlp_in_flight := False, s_tlp_is_retrans := False\<rparr>"
  have p2: "progresses w w2"
    using l by (intro progresses_flow)
      (simp_all add: w1_def w2_def bbr_save_cwnd_def flow_def mtu_inv_def answers_def live_def ready_def sending_def path_ok_def)
  have l2: "live w2" using progresses_live [OF p2] .
  define w3 where "w3 = stream_timer_start UDX_TIMER_RTO (s_rto w2 * 2) w2"
  have p3: "progresses w2 w3" unfolding w3_def by (rule progresses_timer(1) [OF l2])
  have l3: "live w3" using progresses_live [OF p3] .
  have c3: "s_rto_count w3 = s_rto_count w + 1" by (simp add: w3_def stream_timer_start_def Let_def w2_def w1_def bbr_save_cwnd_def)
  define reo where "reo = rack_update_reo_wnd (w3\<lparr>s_retransmit_queue := []\<rparr>)"
  obtain w4 where w4: "rto_mark_all reo (seq_range (s_remote_acked w3) (s_seq w3)) (w3\<lparr>s_retransmit_queue := []\<rparr>) = Some w4" "acknowledges w3 w4"
    using rto_marks_acknowledges [OF l3] by blast
  have p4: "progresses w3 w4" using acknowledges_progresses [OF w4(2)] .
  have p: "progresses w w4" using progresses_trans [OF p2 progresses_trans [OF p3 p4]] .
  have r4: "room 0 w4" using progresses_room [OF p room] .
  define w5 where "w5 = bbr_on_rto (w4\<lparr>s_cwnd := of_nat (length (s_inflight_queue w4)) + 1\<rparr>)"
  have l4: "live w4" using progresses_live [OF p4] .
  have "length (s_inflight_queue w4) < 2 ^ 31"
    using inflight_bounded [OF ready_flight, of w4] l4 r4 by (simp add: live_def room_def)
  then have "unat (of_nat (length (s_inflight_queue w4)) + 1 :: u32) = length (s_inflight_queue w4) + 1"
    by (simp add: unat_word_ariths unat_of_nat)
  then have cw: "(of_nat (length (s_inflight_queue w4)) + 1 :: u32) \<noteq> 0" by (metis Suc_eq_plus1 nat.distinct(1) unat_0)
  have p5: "progresses w4 w5"
    using cw by (intro progresses_flow [OF l4]) (simp_all add: w5_def bbr_on_rto_def flow_def mtu_inv_def answers_def)
  obtain w6 where w6: "send_packets env w5 = Some w6" "progresses w5 w6"
    using send_packets_progresses [OF progresses_live [OF p5] progresses_room [OF p5 r4]] by blast
  have con1: "has_flag (s_status (w\<lparr>s_pending_timer := UDX_TIMER_NONE\<rparr>)) UDX_STREAM_CONNECTED" using con(1) by simp
  have cl: "\<not> has_flag (s_status w2) UDX_STREAM_CLOSED" using live_alive(2) [OF l2] by simp
  have few: "\<not> UDX_MAX_RTO_TIMEOUTS < s_rto_count w3" using count c3 by (simp add: not_less)
  have "udx_rto_timeout env w = Some w6"
    unfolding udx_rto_timeout_def Let_def w1_def [symmetric] w2_def [symmetric] w3_def [symmetric]
    using con cl few w4(1) w6(1) by (simp add: reo_def [symmetric] w5_def [symmetric])
  then show ?thesis using progresses_trans [OF p progresses_trans [OF p5 w6(2)]] by blast
qed

text \<open>Probing a closed window, and keeping an idle stream alive.\<close>

lemma zwp_timeout_law:
  assumes l: "live w" and st: "has_flag (s_status w) UDX_STREAM_CONNECTED" "s_send_rwnd w = 0" "s_pending_timer w = UDX_TIMER_ZWP"
    and work: "s_writes_queued_bytes w > 0 \<or> s_status w AND (UDX_STREAM_ENDING OR UDX_STREAM_ENDED) = UDX_STREAM_ENDING"
  shows "\<exists>w'. udx_zwp_timeout env w = Some w' \<and> progresses w w'"
proof -
  let ?w = "w\<lparr>s_zwp_count := s_zwp_count w + 1\<rparr>"
  have p1: "progresses w ?w"
    using l by (intro progresses_flow) (simp_all add: flow_def mtu_inv_def answers_def live_def ready_def sending_def path_ok_def)
  have p2: "progresses ?w (send_probe env ?w)" using progresses_probe [OF progresses_live [OF p1]] .
  have f: "s_pending_timer (send_probe env ?w) = s_pending_timer w" "s_writes_queued_bytes (send_probe env ?w) = s_writes_queued_bytes w"
    "s_status (send_probe env ?w) = s_status w" "s_rto (send_probe env ?w) = s_rto w"
    by (simp_all add: send_probe_def send_datagram_def count_tx_def Let_def)
  have "udx_zwp_timeout env w = Some (stream_timer_start UDX_TIMER_ZWP (s_rto (send_probe env ?w) * 2) (send_probe env ?w))"
    using st work live_alive(2) [OF l] by (simp add: udx_zwp_timeout_def Let_def f)
  then show ?thesis
    using progresses_trans [OF p1 progresses_trans [OF p2 progresses_timer(1) [OF progresses_live [OF p2]]]] by blast
qed

lemma keepalive_timeout_law:
  assumes l: "live w" and idle: "s_seq w = s_remote_acked w"
  shows "\<exists>w'. udx_keepalive_timeout env w = Some w' \<and> progresses w w'"
proof -
  have p: "progresses w (send_probe env w)" using progresses_probe [OF l] .
  have "udx_keepalive_timeout env w
      = Some (stream_timer_start UDX_TIMER_KEEPALIVE (s_keepalive_timeout_ms (send_probe env w)) (send_probe env w))"
    using idle by (simp add: udx_keepalive_timeout_def Let_def)
  then show ?thesis using progresses_trans [OF p progresses_timer(1) [OF progresses_live [OF p]]] by blast
qed


section \<open>Closing\<close>

text \<open>The stream is closed and every write that was unanswered was answered once.\<close>

definition closes :: "world \<Rightarrow> world \<Rightarrow> bool" where
  "closes w w' \<longleftrightarrow> has_flag (s_status w') UDX_STREAM_CLOSED \<and> s_writes_queued_bytes w' = 0
     \<and> (\<forall>wr. answers wr w' = answers wr w + (if wr \<in> unanswered w \<and> wr_on_ack (w_writes w wr) then 1 else 0))"

lemma progresses_closes: "live w \<Longrightarrow> progresses w v \<Longrightarrow> closes v w' \<Longrightarrow> closes w w'"
  unfolding closes_def progresses_def settles_def live_def by (auto split: if_splits)

lemma cancel_answers: "length (filter (answers_write wr) (cancel_events w cs)) = count_list (cancel_events w cs) (cancelled wr)"
  by (induction cs) auto

lemma closes_same:
  assumes "unanswered v = unanswered w" "\<And>wr. answers wr v = answers wr w" "w_writes v = w_writes w" "closes v w'"
  shows "closes w w'"
  using assms by (simp add: closes_def)

lemma close_accounted:
  assumes acc: "accounted w" and env: "silent env" and st: "s_status w AND UDX_STREAM_DEAD = 0"
  shows "\<exists>w'. close_stream env err w = Some w' \<and> closes w w'"
proof -
  define v where "v = (if err \<noteq> 0 then w\<lparr>s_status := s_status w AND NOT UDX_STREAM_TIMEWAIT_WANTED\<rparr> else w)"
  have masked: "(s AND NOT UDX_STREAM_TIMEWAIT_WANTED) AND UDX_STREAM_DEAD = s AND UDX_STREAM_DEAD" for s
    by (simp add: and.assoc) (simp add: stream_flag_defs)
  have dead: "s_status v AND UDX_STREAM_DEAD = 0" using st by (simp add: v_def masked)
  have part: "s_status v AND f = (s_status v AND UDX_STREAM_DEAD) AND f" if "UDX_STREAM_DEAD AND f = f" for f by (simp add: and.assoc that)
  have "UDX_STREAM_DEAD AND UDX_STREAM_CLOSED = UDX_STREAM_CLOSED" "UDX_STREAM_DEAD AND UDX_STREAM_DESTROYING = UDX_STREAM_DESTROYING"
    by (simp_all add: stream_flag_defs)
  from part [OF this(1)] part [OF this(2)]
  have cl: "s_status v AND UDX_STREAM_CLOSED = 0" "s_status v AND UDX_STREAM_DESTROYING = 0" by (simp_all add: dead)
  have same: "same_account w v" "w_writes v = w_writes w" "\<And>wr. answers wr v = answers wr w"
    by (simp_all add: v_def same_account_def answers_def)
  have av: "accounted v" "unanswered v = unanswered w"
    using acc accounted_same [OF same(1)] same_account_chunks(3) [OF same(1)] by (simp_all add: unanswered_def v_def)
  obtain w' where w': "close_stream_internal env err v = Some w'" "has_flag (s_status w') UDX_STREAM_CLOSED"
    "s_writes_queued_bytes w' = 0"
    "w_output w' = w_output v @ (if s_on_close v then [Callback (Ev_Close err)] else []) @ cancel_events v (open_chunks v)"
    using close_internal_law [OF av(1) env cl(1)] by blast
  have "answers wr w' = answers wr v + (if wr \<in> unanswered v \<and> wr_on_ack (w_writes v wr) then 1 else 0)" for wr
    using cancel_events_account [OF av(1), of wr] by (simp add: answers_def w'(4) cancel_answers)
  then have "closes v w'" using w'(2,3) by (simp add: closes_def)
  then have "closes w w'" by (rule closes_same [OF av(2) same(3,2)])
  moreover have "close_stream env err w = close_stream_internal env err v" using cl(2) by (simp add: close_stream_def Let_def v_def [symmetric])
  ultimately show ?thesis using w'(1) by auto
qed

lemma close_law: "live w \<Longrightarrow> silent env \<Longrightarrow> \<exists>w'. close_stream env err w = Some w' \<and> closes w w'"
  by (rule close_accounted) (simp_all add: live_def ready_def sending_def path_ok_def)

text \<open>The stream counts as ended while packets or buffers are left: the assertions of \<open>send_ack\<close> exclude it.\<close>

definition early_end :: "world \<Rightarrow> bool" where
  "early_end w \<longleftrightarrow> has_flag (s_status w) UDX_STREAM_ENDED \<and> (s_retransmit_queue w \<noteq> [] \<or> s_write_queue w \<noteq> [])"

text \<open>An acknowledgement is sent; it may find that both sides have ended.\<close>

lemma send_ack_cases:
  assumes l: "live w" and env: "silent env"
  shows "(\<exists>w'. send_ack env w = Some w' \<and> (progresses w w' \<or> closes w w'))
    \<or> (send_ack env w = None \<and> (s_retransmit_queue w \<noteq> [] \<or> s_write_queue w \<noteq> []) \<and> (\<exists>v. progresses w v \<and> early_end v))"
proof (cases "s_socket w = NULL")
  case True
  then have "progresses w (w\<lparr>s_ack_needed := True\<rparr>)"
    using l by (intro progresses_flow) (simp_all add: flow_def mtu_inv_def answers_def live_def ready_def sending_def path_ok_def)
  then show ?thesis using True by (simp add: send_ack_def)
next
  case False
  define bytes where "bytes = ack_packet_bytes (env_host env) (sack_ranges w) (s_remote_id w) (get_recv_rwnd env w) (s_seq w) (s_ack w)"
  define w1 where "w1 = count_tx (of_nat (length bytes)) (send_datagram env (s_remote_addr w) bytes w)"
  have p1: "progresses w w1" unfolding w1_def by (rule progresses_datagram [OF l])
  have f1: "s_retransmit_queue w1 = s_retransmit_queue w" "s_write_queue w1 = s_write_queue w" by (simp_all add: w1_def count_tx_def send_datagram_def Let_def)
  define w2 where "w2 = (if s_status w1 AND UDX_STREAM_SHOULD_END_REMOTE = UDX_STREAM_END_REMOTE \<and> seq_compare (s_remote_ended w1) (s_ack w1) \<le> 0
                then (let w = w1\<lparr>s_status := s_status w1 OR UDX_STREAM_ENDED_REMOTE\<rparr> in if s_on_read w then notify env Ev_Eof w else w)
                else w1)"
  have "s_status w1 AND UDX_STREAM_DEAD = 0" using progresses_live [OF p1] by (simp add: live_def ready_def sending_def path_ok_def)
  then have "(s_status w1 OR UDX_STREAM_ENDED_REMOTE) AND UDX_STREAM_DEAD = 0" by (simp add: bit.conj_disj_distrib2) (simp add: stream_flag_defs)
  from progresses_status [OF progresses_live [OF p1] this] have ps: "progresses w1 (w1\<lparr>s_status := s_status w1 OR UDX_STREAM_ENDED_REMOTE\<rparr>)" .
  have pn: "progresses (w1\<lparr>s_status := s_status w1 OR UDX_STREAM_ENDED_REMOTE\<rparr>) (notify env Ev_Eof (w1\<lparr>s_status := s_status w1 OR UDX_STREAM_ENDED_REMOTE\<rparr>))"
    by (rule progresses_notify [OF progresses_live [OF ps] env]) simp
  have p2: "progresses w1 w2"
    using progresses_refl [OF progresses_live [OF p1]] ps progresses_trans [OF ps pn] by (simp add: w2_def Let_def)
  have f2: "s_retransmit_queue w2 = s_retransmit_queue w" "s_write_queue w2 = s_write_queue w"
    using f1 by (simp_all add: w2_def Let_def notify_silent [OF env])
  have p: "progresses w w2" using progresses_trans [OF p1 p2] .
  have eq: "send_ack env w = (if s_status w2 AND UDX_STREAM_ALL_ENDED = UDX_STREAM_ALL_ENDED then do {
         c_assert (s_retransmit_queue w2 = []);
         c_assert (s_write_queue w2 = []);
         close_stream env 0 w2
       } else Some w2)"
    using False by (simp only: send_ack_def Let_def bytes_def w1_def w2_def if_False)
  consider "s_status w2 AND UDX_STREAM_ALL_ENDED = UDX_STREAM_ALL_ENDED" "s_retransmit_queue w = []" "s_write_queue w = []"
    | "s_status w2 AND UDX_STREAM_ALL_ENDED = UDX_STREAM_ALL_ENDED" "s_retransmit_queue w \<noteq> [] \<or> s_write_queue w \<noteq> []"
    | "s_status w2 AND UDX_STREAM_ALL_ENDED \<noteq> UDX_STREAM_ALL_ENDED" by blast
  then show ?thesis
  proof cases
    case 1
    then show ?thesis using close_law [OF progresses_live [OF p] env, of 0] progresses_closes [OF l p] by (auto simp: eq f2)
  next
    case 2
    have "s_status w2 AND UDX_STREAM_ENDED = (s_status w2 AND UDX_STREAM_ALL_ENDED) AND UDX_STREAM_ENDED"
      by (simp add: and.assoc) (simp add: stream_flag_defs)
    also have "\<dots> = UDX_STREAM_ENDED" unfolding 2(1) by (simp add: stream_flag_defs)
    finally have "has_flag (s_status w2) UDX_STREAM_ENDED" by (simp add: stream_flag_defs)
    then have "early_end w2" using 2(2) by (auto simp: early_end_def f2)
    then show ?thesis using p 2 by (auto simp: eq f2 c_assert_def)
  next
    case 3
    then show ?thesis using p by (simp add: eq)
  qed
qed

lemma process_ended_law:
  assumes l: "live w" and env: "silent env" and idle: "s_retransmit_queue w = []" "s_write_queue w = []"
  shows "\<exists>w'. process_ended env w = Some w' \<and> (progresses w w' \<or> closes w w')"
proof -
  define w1 where "w1 = (if s_remote_acked w = s_seq w then
                  if s_keepalive_timeout_ms w \<noteq> 0 then stream_timer_start UDX_TIMER_KEEPALIVE (s_keepalive_timeout_ms w) w
                  else stream_timer_stop w
                else w)"
  have p: "progresses w w1" using progresses_timer [OF l] progresses_refl [OF l] by (simp add: w1_def)
  have f: "s_retransmit_queue w1 = []" "s_write_queue w1 = []"
    using idle by (simp_all add: w1_def stream_timer_start_def stream_timer_stop_def Let_def)
  have eq: "process_ended env w = (if s_status w1 AND UDX_STREAM_ALL_ENDED = UDX_STREAM_ALL_ENDED then close_stream env 0 w1 else send_ack env w1)"
    using live_alive(1) [OF l] by (simp add: process_ended_def w1_def Let_def)
  show ?thesis
    using close_law [OF progresses_live [OF p] env, of 0] send_ack_cases [OF progresses_live [OF p] env] f
      progresses_closes [OF l p] progresses_trans [OF p] unfolding eq by (cases "s_status w1 AND UDX_STREAM_ALL_ENDED = UDX_STREAM_ALL_ENDED") auto
qed


text \<open>The last retransmission timeout closes the stream.\<close>

lemma rto_last_law:
  assumes l: "live w" and env: "silent env" and con: "has_flag (s_status w) UDX_STREAM_CONNECTED" "s_remote_acked w \<noteq> s_seq w"
    and count: "\<not> s_rto_count w + 1 \<le> UDX_MAX_RTO_TIMEOUTS"
  shows "\<exists>w'. udx_rto_timeout env w = Some w' \<and> closes w w'"
proof -
  define w1 where "w1 = bbr_save_cwnd (w\<lparr>s_pending_timer := UDX_TIMER_NONE\<rparr>)"
  define wa where "wa = w1\<lparr>s_high_seq := s_seq w1, s_rto_count := s_rto_count w1 + 1,
    s_lifetime_rto_count := s_lifetime_rto_count w1 + 1, s_ca_state := UDX_CA_LOSS, s_tlp_in_flight := False, s_tlp_is_retrans := False\<rparr>"
  define w2 where "w2 = stream_timer_start UDX_TIMER_RTO (s_rto wa * 2) wa"
  let ?w = "w2\<lparr>s_retransmit_queue := []\<rparr>"
  have f: "s_status w1 = s_status w" "s_rto_count w1 = s_rto_count w" "s_status w2 = s_status w" "s_rto_count w2 = s_rto_count w + 1" "s_status wa = s_status w"
    by (simp_all add: w2_def wa_def w1_def bbr_save_cwnd_def stream_timer_start_def Let_def)
  have same: "same_account w ?w" "w_writes ?w = w_writes w" "w_wbufs ?w = w_wbufs w" "\<And>wr. answers wr ?w = answers wr w"
    by (simp_all add: w2_def wa_def w1_def bbr_save_cwnd_def stream_timer_start_def Let_def same_account_def answers_def)
  have acc: "accounted ?w" "unanswered ?w = unanswered w"
    using l accounted_same [OF same(1)] same_account_chunks(3) [OF same(1)] by (simp_all add: unanswered_def live_def same)
  have dead: "s_status ?w AND UDX_STREAM_DEAD = 0" using l by (simp add: f live_def ready_def sending_def path_ok_def)
  obtain w' where w': "close_stream env UV_ETIMEDOUT ?w = Some w'" "closes ?w w'" using close_accounted [OF acc(1) env dead] by blast
  have "udx_rto_timeout env w = close_stream env UV_ETIMEDOUT ?w"
    using con count live_alive(2) [OF l]
    unfolding udx_rto_timeout_def Let_def w1_def [symmetric] wa_def [symmetric] w2_def [symmetric] by (simp add: f not_le)
  then show ?thesis using w'(1) closes_same [OF acc(2) same(4,2) w'(2)] by simp
qed

section \<open>Moving the last acknowledged number\<close>

lemma seq_off_between:
  assumes "seq_off b a \<le> seq_off b x"
  shows "seq_off a x = seq_off b x - seq_off b a"
proof -
  have "x - a = (x - b) - (a - b)" by simp
  then show ?thesis using assms unfolding seq_off_def by (metis unat_sub word_le_nat_alt)
qed

lemma seq_off_of_nat: "i < seq_off b x \<Longrightarrow> seq_off b (b + of_nat i) = i"
proof -
  assume i: "i < seq_off b x"
  then have "i < 2 ^ 32" unfolding seq_off_def using less_trans [OF _ unat_u32_less] by simp
  then show "seq_off b (b + of_nat i) = i" by (simp add: seq_off_def unat_of_nat)
qed

lemma flight_chunks_from:
  assumes le: "seq_off base ack \<le> seq_off base (s_seq w)"
    and gone: "\<And>k. s_outgoing w k \<noteq> None \<Longrightarrow> seq_off base ack \<le> seq_off base k"
  shows "flight_chunks w ack = flight_chunks w base"
proof -
  let ?d = "seq_off base ack" and ?n = "seq_off base (s_seq w)"
  define f where "f i = (case s_outgoing w (base + of_nat i) of None \<Rightarrow> [] | Some p \<Rightarrow> packet_chunks w p)" for i
  have none: "f i = []" if "i < ?d" for i
  proof -
    have "seq_off base (base + of_nat i) = i" using seq_off_of_nat [OF that] .
    then have "s_outgoing w (base + of_nat i) = None" using gone [of "base + of_nat i"] that by fastforce
    then show ?thesis by (simp add: f_def)
  qed
  have n: "unat (s_seq w - base) = ?n" "unat (s_seq w - ack) = ?n - ?d" using seq_off_between [OF le] by (simp_all add: seq_off_def)
  have "[0..<?n] = [0..<?d] @ [?d..<?n]" using upt_add_eq_append [of 0 ?d "?n - ?d"] le by simp
  moreover have "map f [0..<?d] = map (\<lambda>_. []) [0..<?d]" using none by (intro map_cong) simp_all
  moreover have "map f [?d..<?n] = map (\<lambda>i. f (i + ?d)) [0..<?n - ?d]"
  proof -
    have "[?d..<?n] = map (\<lambda>i. i + ?d) [0..<?n - ?d]" using map_add_upt [of ?d "?n - ?d"] le by simp
    then show ?thesis by (simp only: map_map comp_def)
  qed
  moreover have "concat (map (\<lambda>_. []) [0..<m]) = []" for m by (induction m) simp_all
  ultimately have "concat (map f [0..<?n]) = concat (map (\<lambda>i. f (i + ?d)) [0..<?n - ?d])" by simp
  moreover have "f (i + ?d) = (case s_outgoing w (ack + of_nat i) of None \<Rightarrow> [] | Some p \<Rightarrow> packet_chunks w p)" for i
  proof -
    have "base + of_nat (i + ?d) = (base + of_nat ?d) + of_nat i" by simp
    also have "\<dots> = ack + of_nat i" by (simp add: seq_off_def)
    finally show ?thesis by (simp only: f_def)
  qed
  ultimately show ?thesis unfolding flight_chunks_def n f_def [abs_def, symmetric] by (simp add: f_def)
qed

lemma progresses_acked:
  assumes l: "live w" and le: "seq_off (s_remote_acked w) ack \<le> seq_off (s_remote_acked w) (s_seq w)"
    and gone: "\<And>k. s_outgoing w k \<noteq> None \<Longrightarrow> seq_off (s_remote_acked w) ack \<le> seq_off (s_remote_acked w) k"
  shows "progresses w (w\<lparr>s_remote_acked := ack, s_rto_count := n\<rparr>)"
proof -
  let ?w = "w\<lparr>s_remote_acked := ack, s_rto_count := n\<rparr>"
  have s: "sending w" "resting w" "pace_ready w" "accounted w" using l by (simp_all add: live_def ready_def)
  have fl: "flight_but (seq_off (s_remote_acked w) (s_seq w)) {} w" using s(1) by (simp add: sending_def flight_inv_def)
  have off: "seq_off ack (s_seq w) = seq_off (s_remote_acked w) (s_seq w) - seq_off (s_remote_acked w) ack" using seq_off_between [OF le] .
  have "packet_ok (seq_off ack (s_seq w)) ?w k p" if k: "s_outgoing w k = Some p" for k p
  proof -
    note ok = packet_okD [OF flightD(4) [OF fl k]]
    have g: "seq_off (s_remote_acked w) ack \<le> seq_off (s_remote_acked w) k" using gone k by simp
    have "seq_off ack k < seq_off ack (s_seq w)" unfolding off seq_off_between [OF g] using ok(2) g by linarith
    then show ?thesis using ok unfolding packet_ok_def Let_def by simp
  qed
  then have fl': "flight_but (seq_off ack (s_seq w)) {} ?w"
    using flightD(1-3,6,7) [OF fl] by (intro flightI) (simp_all add: flight_bytes_def)
  have pend: "pending ?w = pending w" by (simp add: pending_def packet_payload_def slice_bytes_def cong: map_cong)
  have un: "unsent ?w = unsent w" by (simp add: unsent_def)
  have "sending ?w"
    using s(1) fl' by (simp add: sending_def flight_inv_def building_def path_ok_def remote_ok_def Let_def pend mtu_inv_def)
  then have r: "ready ?w" using s by (simp add: ready_def resting_def pace_ready_def)
  have pc: "packet_chunks ?w = packet_chunks w" by (rule ext) (simp add: packet_chunks_def)
  have "flight_chunks ?w ack = flight_chunks w ack" by (rule flight_chunks_same) simp_all
  also have "\<dots> = flight_chunks w (s_remote_acked w)" by (rule flight_chunks_from [OF le gone])
  finally have ch: "sent_chunks ?w = sent_chunks w" "queue_chunks ?w = queue_chunks w" by (simp_all add: sent_chunks_def pc queue_chunks_def)
  have a: "accounted ?w" using s(4) by (simp add: accounted_of ch account_of_same [of ?w w])
  have "unanswered ?w = unanswered w" by (simp add: unanswered_def open_chunks_def ch)
  then have "settles w ?w" using a by (simp add: settles_def answers_def)
  moreover have "advances [] [] w ?w" using pend un by (simp add: advances_def packet_same_def packet_payload_def slice_bytes_def cong: map_cong)
  ultimately show ?thesis
    using r a un off unfolding progresses_def by (intro conjI exI [of _ "[]"]) (simp_all add: send_work_def)
qed

section \<open>The acknowledging part of the handler\<close>

lemma ack_window:
  assumes few: "seq_off prior seq < 2 ^ 31" and ok: "\<not> seq_compare seq ack < 0"
  shows "if seq_diff ack prior > 0 then seq_off prior ack \<le> seq_off prior seq \<and> acked_range prior ack = seq_range prior ack
    else acked_range prior ack = []"
proof -
  have sa: "0 \<le> seq_diff seq ack" using ok by simp
  show ?thesis
  proof (cases "seq_off prior ack < 2 ^ 31")
    case True
    have "seq_diff ack prior = int (seq_off prior ack)" "seq_diff prior ack = - int (seq_off prior ack)" "seq_diff seq ack = int (seq_off prior seq) - int (seq_off prior ack)"
      using seq_diff_window [OF True, of prior] seq_diff_window [of prior prior ack] seq_diff_window [OF few True] True by simp_all
    then show ?thesis using sa by (auto simp: acked_range_def)
  next
    case False
    let ?a = "ack - prior"
    have a: "2 ^ 31 \<le> unat ?a" "unat ?a < 2 ^ 32" using False unat_u32_less [of ?a] by (simp_all add: seq_off_def)
    have sub: "unat (x - y) = unat x + 2 ^ 32 - unat y" if "unat x < 2 ^ 31" "2 ^ 31 \<le> unat y" for x y :: u32
      using that by (simp add: unat_sub_if')
    have "seq - ack = (seq - prior) - ?a" by simp
    then have u: "unat (seq - ack) = unat (seq - prior) + 2 ^ 32 - unat ?a"
      using sub [of "seq - prior" ?a] few a(1) by (simp only: seq_off_def)
    have "unat (seq - ack) < 2 ^ 31"
    proof (rule ccontr)
      assume "\<not> unat (seq - ack) < 2 ^ 31"
      moreover have "int (unat (seq - ack)) < 4294967296" using unat_u32_less [of "seq - ack"] by linarith
      ultimately have "seq_diff seq ack < 0" unfolding seq_diff_def sint_u32 by (simp only: if_False) simp
      then show False using sa by simp
    qed
    then have big: "unat ?a > 2 ^ 31" using u a unfolding numeral_2_eq_2 [symmetric] by (simp add: less_diff_conv2)
    have "sint ?a = int (unat ?a) - 2 ^ 32" using a by (simp add: sint_u32)
    then have neg: "seq_diff ack prior < 0" using uint_u32_less [of ?a] by (simp add: seq_diff_def)
    have "unat (prior - ack) = 2 ^ 32 - unat ?a"
    proof -
      have "prior - ack = 0 - ?a" by simp
      then show ?thesis using sub [of 0 ?a] a(1) by simp
    qed
    then have "seq_diff prior ack > 0" using big a by (simp add: seq_diff_def sint_u32)
    then show ?thesis using neg by (simp add: acked_range_def)
  qed
qed


lemma process_delivered_law:
  assumes l: "live w" and room: "room 0 w"
  shows "\<exists>arm' w'. process_delivered env arm w = Some (arm', w') \<and> progresses w w'"
proof -
  have "\<exists>arm1 w1. (if s_remote_acked w = s_seq w then do {
         c_assert (s_inflight_queue w = [] \<and> s_retransmit_queue w = []);
         let end_queued = (s_status w AND (UDX_STREAM_ENDING OR UDX_STREAM_ENDED) = UDX_STREAM_ENDING);
         Some (False,
           if s_send_rwnd w = 0 \<and> (s_writes_queued_bytes w > 0 \<or> end_queued) then stream_timer_start UDX_TIMER_ZWP (s_rto w) w
           else if s_keepalive_timeout_ms w \<noteq> 0 then stream_timer_start UDX_TIMER_KEEPALIVE (s_keepalive_timeout_ms w) w
           else stream_timer_stop w)
       } else Some (arm, w\<lparr>s_next_rto_ts := w_now w + ucast (s_rto w)\<rparr>)) = Some (arm1, w1) \<and> progresses w w1"
  proof (cases "s_remote_acked w = s_seq w")
    case True
    have "s_inflight_queue w = []" "s_retransmit_queue w = []" using outstanding_flight [OF ready_flight True] l by (simp_all add: live_def)
    then show ?thesis using True progresses_timer [OF l] by (auto simp: Let_def)
  next
    case False
    have "progresses w (w\<lparr>s_next_rto_ts := n\<rparr>)" for n
      using l by (intro progresses_flow) (simp_all add: flow_def mtu_inv_def answers_def live_def ready_def sending_def path_ok_def)
    then show ?thesis using False by simp
  qed
  then obtain arm1 w1 where w1: "(if s_remote_acked w = s_seq w then do {
         c_assert (s_inflight_queue w = [] \<and> s_retransmit_queue w = []);
         let end_queued = (s_status w AND (UDX_STREAM_ENDING OR UDX_STREAM_ENDED) = UDX_STREAM_ENDING);
         Some (False,
           if s_send_rwnd w = 0 \<and> (s_writes_queued_bytes w > 0 \<or> end_queued) then stream_timer_start UDX_TIMER_ZWP (s_rto w) w
           else if s_keepalive_timeout_ms w \<noteq> 0 then stream_timer_start UDX_TIMER_KEEPALIVE (s_keepalive_timeout_ms w) w
           else stream_timer_stop w)
       } else Some (arm, w\<lparr>s_next_rto_ts := w_now w + ucast (s_rto w)\<rparr>)) = Some (arm1, w1)" and p1: "progresses w w1" by blast
  obtain t w2 where w2: "rack_detect_loss env w1 = Some (t, w2)" "progresses w1 w2"
    using rack_detect_law [OF progresses_live [OF p1] progresses_room [OF p1 room]] by blast
  define armed where "armed = (t > 0)"
  define w3 where "w3 = (if t > 0 then stream_timer_start UDX_TIMER_RACK_REO t w2 else w2)"
  have p3: "progresses w2 w3" using progresses_timer(1) progresses_refl progresses_live [OF w2(2)] by (simp add: w3_def)
  have "\<not> has_flag (s_status w2) UDX_STREAM_CLOSED" using live_alive(2) [OF progresses_live [OF w2(2)]] by simp
  then have "rack_detect_loss_and_arm_timer env w1 = Some (armed, w3)"
    using w2(1) by (simp add: rack_detect_loss_and_arm_timer_def armed_def w3_def)
  then have "process_delivered env arm w = Some (arm1 \<and> \<not> armed, w3)" unfolding process_delivered_def w1 by simp
  then show ?thesis using progresses_trans [OF p1 progresses_trans [OF w2(2) p3]] by blast
qed

lemma arm_law:
  assumes l: "live w"
  shows "\<exists>w'. (if arm then (case schedule_loss_probe True w of (True, w) \<Rightarrow> Some w | (False, w) \<Rightarrow> rearm_rto True w) else Some w) = Some w' \<and> progresses w w'"
proof -
  have p: "progresses w (snd (schedule_loss_probe True w))"
    using progresses_timer(1) [OF l] progresses_refl [OF l] unfolding schedule_loss_probe_def Let_def by (simp split: if_split)
  obtain b v where v: "schedule_loss_probe True w = (b, v)" by fastforce
  have pv: "progresses w v" using p v by simp
  obtain u where u: "rearm_rto True v = Some u" "progresses v u" using rearm_law [OF progresses_live [OF pv], of True] by blast
  show ?thesis using v pv u progresses_trans [OF pv u(2)] progresses_refl [OF l] by (cases b) auto
qed

end
