(* ===== verification/Udx_Handler.thy ===== *)
theory Udx_Handler
  imports Udx_Loss
begin

text \<open>
  The packet handler as a whole (\<open>process_packet\<close> of \<open>src/udx.c\<close>).  Whatever packet arrives at a live stream, each stage of the handler
  passes its assertions, keeps the sender ready and accounted for, or closes the stream and answers every write; only its tail
  (rate sample and congestion control) has assertions of its own.
\<close>


section \<open>Congestion control, when it returns\<close>

lemma next_cwnd_frame:
  "bbr_next_cwnd rs acked bw gain w = (cwnd, w') \<Longrightarrow> bbr_rest w' = bbr_rest w"
  by (auto simp: bbr_next_cwnd_def bbr_set_cwnd_to_recover_or_restore_def Let_def rest_simps split: if_splits prod.splits)

lemma set_cwnd_frame:
  assumes "bbr_set_cwnd rs acked bw gain w = Some w'"
  shows "bbr_rest w' = bbr_rest w" "s_cwnd w' \<noteq> 0"
proof -
  obtain cwnd v where v: "bbr_next_cwnd rs acked bw gain w = (cwnd, v)" by fastforce
  have "min x bbr_cwnd_min_target \<noteq> 0" "min bbr_cwnd_min_target x \<noteq> 0" if "x > 0" for x using that by (auto simp: bbr_cwnd_min_target_def min_def)
  then show "bbr_rest w' = bbr_rest w" "s_cwnd w' \<noteq> 0"
    using assms next_cwnd_frame [OF v] v by (auto simp: bbr_set_cwnd_def c_assert_def Let_def rest_simps split: if_splits)
qed

lemma set_pacing_frame:
  assumes "bbr_set_pacing_rate bw gain w = Some w'"
  shows "bbr_rest w' = bbr_rest w"
proof -
  have init: "bbr_rest v = bbr_rest u" if e: "bbr_init_pacing_rate_from_rtt u = Some v" for u v
  proof (cases "s_srtt u = 0")
    case True
    then show ?thesis using e by (auto simp: bbr_init_pacing_rate_from_rtt_def c_assert_def Let_def bind_eq_Some_conv rest_simps)
  next
    case False
    then show ?thesis using e by (auto simp: bbr_init_pacing_rate_from_rtt_def c_assert_def Let_def bind_eq_Some_conv rest_simps)
  qed
  obtain r :: u64 and v where v: "(if \<not> bb_has_seen_rtt (s_bbr w) \<and> s_srtt w \<noteq> 0 then bbr_init_pacing_rate_from_rtt w else Some w) = Some v"
    "Some (if bb_full_bw_reached (s_bbr v) \<or> r > ucast (s_pacing_bytes_per_ms v) then v\<lparr>s_pacing_bytes_per_ms := ucast r\<rparr> else v) = Some w'"
    using assms unfolding bbr_set_pacing_rate_def bind_eq_Some_conv by blast
  have "bbr_rest v = bbr_rest w" using v(1) init by (cases "\<not> bb_has_seen_rtt (s_bbr w) \<and> s_srtt w \<noteq> 0") auto
  then show ?thesis using v(2) by (auto simp: rest_simps split: if_splits)
qed

lemma bbr_main_frame:
  assumes "bbr_main rs w = Some w'"
  shows "bbr_rest w' = bbr_rest w" "s_cwnd w' \<noteq> 0"
proof -
  obtain w1 w2 where w: "bbr_update_model rs w = Some w1" "bbr_set_pacing_rate (bbr_bw w1) (bb_pacing_gain (s_bbr w1)) w1 = Some w2"
    "bbr_set_cwnd rs (rs_acked_sacked rs) (bbr_bw w1) (bb_cwnd_gain (s_bbr w2)) w2 = Some w'"
    using assms by (auto simp: bbr_main_def Let_def bind_eq_Some_conv)
  obtain v v' where v: "bbr_update_bw rs w = Some v" "bbr_update_ack_aggregation rs v = Some v'"
    "w1 = bbr_update_gains (bbr_update_min_rtt rs (bbr_check_drain (bbr_check_full_bw_reached rs (bbr_update_cycle_phase rs v'))))"
    using w(1) by (auto simp: bbr_update_model_def bind_eq_Some_conv)
  have "bbr_rest w1 = bbr_rest w"
    using update_bw_frame [OF v(1)] update_aggregation_Some [of rs v] v(2) unfolding v(3) by (simp add: rest_simps)
  then show "bbr_rest w' = bbr_rest w" "s_cwnd w' \<noteq> 0"
    using set_pacing_frame [OF w(2)] set_cwnd_frame [OF w(3)] by simp_all
qed

lemma progresses_bbr:
  assumes l: "live w" and e: "bbr_rest w' = bbr_rest w" and ok: "s_cwnd w' \<noteq> 0" "pace_ready w'"
  shows "progresses w w'"
proof -
  note f = bbr_rest_more [OF e]
  have "w_prepare w' = w_prepare w" "s_writes_queued_bytes w' = s_writes_queued_bytes w"
    using arg_cong [OF e, of w_prepare] arg_cong [OF e, of s_writes_queued_bytes] by (simp_all add: bbr_rest_def)
  then show ?thesis
    using l ok core_flow [OF core_bbr [OF e]] mtu_inv_rest [OF e] by (intro progresses_paced) (simp_all add: f answers_def)
qed

lemma progresses_rate:
  assumes l: "live w"
  shows "progresses w (snd (udx__rate_gen delivered lost rs w))"
proof -
  define u where "u = rate_gen_head delivered w"
  have p1: "progresses w u"
    using l by (intro progresses_flow) (simp_all add: u_def rate_gen_head_def flow_def mtu_inv_def answers_def live_def ready_def sending_def path_ok_def)
  have "\<exists>a b c. snd (udx__rate_gen delivered lost rs w) = u\<lparr>s_rate_delivered := a, s_rate_interval_ms := b, s_rate_sample_is_app_limited := c\<rparr>"
  proof -
    have same: "u = u\<lparr>s_rate_delivered := s_rate_delivered u, s_rate_interval_ms := s_rate_interval_ms u,
      s_rate_sample_is_app_limited := s_rate_sample_is_app_limited u\<rparr>" by simp
    show ?thesis unfolding udx__rate_gen_def Let_def u_def [symmetric]
      using same by (simp only: split: if_split) (intro conjI impI; (simp only: snd_conv)?; blast)
  qed
  then obtain a b c where "snd (udx__rate_gen delivered lost rs w) = u\<lparr>s_rate_delivered := a, s_rate_interval_ms := b, s_rate_sample_is_app_limited := c\<rparr>" (is "_ = ?v")
    by blast
  moreover have "progresses u ?v"
    using progresses_live [OF p1] by (intro progresses_flow) (simp_all add: flow_def mtu_inv_def answers_def live_def ready_def sending_def path_ok_def)
  ultimately show ?thesis using progresses_trans [OF p1] by simp
qed

text \<open>Sending without a pacing rate: nothing can have been sent.\<close>

lemma send_packets_unpaced:
  assumes "\<not> pace_ready w" "send_packets env w = Some w'"
  shows "w' = w"
proof -
  have may: "stream_may_send r w = None" for r
    using assms(1) by (auto simp: stream_may_send_def update_pacing_time_def pace_ready_def c_assert_def word_gt_0)
  obtain v where v: "send_retransmits env w = Some v" "send_new_packets env v = Some w'"
    using assms(2) by (auto simp: send_packets_def bind_eq_Some_conv c_assert_def split: if_splits)
  have "v = w" using v(1) may by (subst (asm) send_retransmits.simps) (auto split: if_splits)
  then show ?thesis using v(2) may by (subst (asm) send_new_packets.simps) (auto simp: send_new_packet_def split: if_splits)
qed

text \<open>The tail of the handler: when it returns with a pacing rate, it was a step of the sender.\<close>

lemma process_tail_law:
  assumes l: "live w" and room: "room 0 w" and w': "process_tail env flying d lost rs w = Some w'" "s_pacing_bytes_per_ms w' > 0"
  shows "progresses w w'"
proof -
  obtain v where v: "(if flying then (let (rs, w) = udx__rate_gen d (s_lost w - lost) rs w in bbr_main rs w) else Some w) = Some v"
    "send_packets env v = Some w'"
    using w'(1) by (auto simp: process_tail_def Let_def bind_eq_Some_conv)
  have "progresses w v"
  proof (cases flying)
    case True
    obtain rs' u where u: "udx__rate_gen d (s_lost w - lost) rs w = (rs', u)" by fastforce
    have p: "progresses w u" using progresses_rate [OF l, of d "s_lost w - lost" rs] by (simp add: u)
    have m: "bbr_main rs' u = Some v" using v(1) True u by simp
    have "pace_ready v" using send_packets_unpaced [OF _ v(2)] w'(2) by (cases "pace_ready v") (auto simp: pace_ready_def)
    then show ?thesis using progresses_trans [OF p progresses_bbr [OF progresses_live [OF p] bbr_main_frame [OF m]]] by simp
  qed (use v(1) progresses_refl [OF l] in simp)
  note p = this
  show ?thesis
    using send_packets_progresses [where env = env, OF progresses_live [OF p] progresses_room [OF p room]] v(2) progresses_trans [OF p] by auto
qed

section \<open>What becomes of a packet\<close>

text \<open>A stage of the handler made progress or closed the stream; or it has only its tail left; or it failed, after progress, in a state
  that counts as ended too early.\<close>

definition outcome :: "env \<Rightarrow> world \<Rightarrow> world option \<Rightarrow> bool" where
  "outcome env w r \<longleftrightarrow> (\<exists>w'. r = Some w' \<and> (progresses w w' \<or> closes w w'))
     \<or> (\<exists>v d lost rs. progresses w v \<and> r = process_tail env True d lost rs v)
     \<or> (r = None \<and> (\<exists>v. progresses w v \<and> early_end v))"

lemma outcome_after: "live w \<Longrightarrow> progresses w v \<Longrightarrow> outcome env v r \<Longrightarrow> outcome env w r"
  unfolding outcome_def using progresses_trans progresses_closes by blast

lemma outcome_progress: "progresses w w' \<Longrightarrow> outcome env w (Some w')"
  by (auto simp: outcome_def)

lemma outcome_closes: "closes w w' \<Longrightarrow> outcome env w (Some w')"
  by (auto simp: outcome_def)

lemma outcome_same: "live w \<Longrightarrow> outcome env w (Some w)"
  using outcome_progress progresses_refl by blast

lemma outcome_close: "live w \<Longrightarrow> silent env \<Longrightarrow> outcome env w (close_stream env err w)"
  using close_law outcome_closes by metis

lemma outcome_tail:
  assumes "live w" "room 0 w"
  shows "outcome env w (process_tail env flying d lost rs w)"
proof (cases flying)
  case True
  have "outcome env w (process_tail env True d lost rs w)" using progresses_refl [OF assms(1)] unfolding outcome_def by blast
  then show ?thesis using True by simp
next
  case False
  then show ?thesis using send_packets_progresses [OF assms, of env] outcome_progress by (auto simp: process_tail_def Let_def)
qed

lemma closes_dead: "closes w w' \<Longrightarrow> stream_dead w'"
proof -
  assume "closes w w'"
  then have "(s_status w' AND UDX_STREAM_DEAD) AND UDX_STREAM_CLOSED \<noteq> 0"
    by (simp add: closes_def and.assoc) (simp add: stream_flag_defs)
  then show "stream_dead w'" by (auto simp: stream_dead_def)
qed

lemma outcome_ack: "live w \<Longrightarrow> silent env \<Longrightarrow> outcome env w (send_ack env w)"
  using send_ack_cases [of w env] unfolding outcome_def by blast

text \<open>The handler from the cumulative acknowledgement on, for any numbers and blocks.\<close>

lemma process_acks_outcome:
  assumes l: "live w" and env: "silent env" and room: "room 0 w" and ack: "\<not> seq_compare (s_seq w) (h_ack h) < 0"
  shows "outcome env w (process_acks env h sacks d0 l0 (s_remote_acked w) flying w)"
proof -
  let ?prior = "s_remote_acked w" and ?data = "has_flag (h_type h) UDX_HEADER_DATA_OR_END"
  have few: "seq_off ?prior (s_seq w) < 2 ^ 31" using room by (simp add: room_def)
  note win = ack_window [OF few ack]
  obtain e rs1 w1 where w1: "ack_cumulative env (acked_range ?prior (h_ack h)) initial_sample w = Some (e, rs1, w1)"
    "clears_range (acked_range ?prior (h_ack h)) w w1" "e \<longrightarrow> s_outgoing w1 = Map.empty \<and> s_write_queue w1 = []"
    using ack_cumulative_law [OF env, of w] l unfolding live_def by blast
  have a1: "acknowledges w w1" using w1(2) by (simp add: clears_range_def)
  have p1: "progresses w w1" using acknowledges_progresses [OF a1] .
  have same: "s_remote_acked w1 = ?prior" "s_seq w1 = s_seq w" using a1 by (simp_all add: acknowledges_def advances_def)
  define w2 where "w2 = (if seq_diff (h_ack h) ?prior > 0 then w1\<lparr>s_remote_acked := h_ack h, s_rto_count := 0\<rparr> else w1)"
  have p2: "progresses w1 w2"
  proof (cases "seq_diff (h_ack h) ?prior > 0")
    case True
    have "seq_off ?prior (h_ack h) \<le> seq_off ?prior k" if "s_outgoing w1 k \<noteq> None" for k
    proof -
      have "k \<notin> set (seq_range ?prior (h_ack h))" using w1(2) that win True by (auto simp: clears_range_def)
      then show ?thesis by (simp add: seq_range_set not_less)
    qed
    then show ?thesis using progresses_acked [OF progresses_live [OF p1], of "h_ack h"] win True by (simp add: w2_def same)
  qed (use progresses_refl [OF progresses_live [OF p1]] in \<open>simp add: w2_def\<close>)
  have p: "progresses w w2" using progresses_trans [OF p1 p2] .
  have l2: "live w2" using progresses_live [OF p] .
  show ?thesis
  proof (cases e)
    case True
    have o2: "s_outgoing w2 = Map.empty" "s_write_queue w2 = []" using w1(3) True by (simp_all add: w2_def)
    have fl2: "flight_but (seq_off (s_remote_acked w2) (s_seq w2)) {} w2" using ready_flight l2 by (simp add: live_def)
    have rq: "s_retransmit_queue w2 = []" using flightD(2) [OF fl2] o2(1) by auto
    have "process_acks env h sacks d0 l0 ?prior flying w = process_ended env w2"
      using w1(1) True by (simp add: process_acks_def Let_def w2_def)
    then show ?thesis
      using process_ended_law [OF l2 env rq o2(2)] progresses_trans [OF p] progresses_closes [OF l p] by (auto simp: outcome_def)
  next
    case False
    obtain rs3 w3 where w3: "process_sacks env sacks rs1 w2 = Some (rs3, w3)" "acknowledges w2 w3"
      using process_sacks_law [OF env, of w2] l2 unfolding live_def by blast
    have p3: "progresses w w3" using progresses_trans [OF p acknowledges_progresses [OF w3(2)]] .
    define d where "d = s_delivered w3 - d0"
    define arm where "arm = (seq_diff (h_ack h) ?prior > 0 \<and> flying)"
    obtain arm4 w4 where w4: "(if d > 0 then process_delivered env arm w3 else Some (arm, w3)) = Some (arm4, w4)" "progresses w3 w4"
      using process_delivered_law [OF progresses_live [OF p3] progresses_room [OF p3 room], of env arm] progresses_refl [OF progresses_live [OF p3]]
      by (cases "d > 0") auto
    obtain w5 where w5: "(if arm4 then (case schedule_loss_probe True w4 of (True, w) \<Rightarrow> Some w | (False, w) \<Rightarrow> rearm_rto True w) else Some w4) = Some w5"
      "progresses w4 w5"
      using arm_law [OF progresses_live [OF w4(2)]] by blast
    have p5: "progresses w w5" using progresses_trans [OF p3 progresses_trans [OF w4(2) w5(2)]] .
    note l5 = progresses_live [OF p5]
    have eq: "process_acks env h sacks d0 l0 ?prior flying w = do {
        w \<leftarrow> (if ?data then send_ack env w5 else Some w5);
        if ?data \<and> stream_dead w then Some w else process_tail env flying d l0 rs3 w }"
      using w1(1) False w3(1) w4(1) w5(1) live_alive(1) [OF progresses_live [OF p3]]
      by (simp add: process_acks_def Let_def w2_def [symmetric] d_def [symmetric] arm_def [symmetric])
    have tail: "outcome env w (process_tail env flying d l0 rs3 v)" if "progresses w v" for v
      using outcome_after [OF l that outcome_tail [OF progresses_live [OF that] progresses_room [OF that room]]] .
    show ?thesis
    proof (cases ?data)
      case True
      consider v where "send_ack env w5 = Some v" "progresses w5 v" | v where "send_ack env w5 = Some v" "closes w5 v"
        | v where "send_ack env w5 = None" "progresses w5 v" "early_end v"
        using send_ack_cases [OF l5 env] by blast
      then show ?thesis
      proof cases
        case 1
        then show ?thesis using True tail progresses_trans [OF p5 1(2)] live_alive(1) [OF progresses_live [OF 1(2)]] by (simp add: eq)
      next
        case 2
        then show ?thesis using True closes_dead [OF 2(2)] outcome_closes [OF progresses_closes [OF l p5 2(2)]] by (simp add: eq)
      next
        case 3
        then show ?thesis using True progresses_trans [OF p5 3(2)] by (auto simp: eq outcome_def)
      qed
    qed (use tail [OF p5] in \<open>simp add: eq\<close>)
  qed
qed

section \<open>The front of the handler\<close>

lemma progresses_fields:
  assumes "live w" "core w' = core w" "s_seq w' = s_seq w" "s_pkt_capacity w' = s_pkt_capacity w"
    "s_pkt_header_flag w' = s_pkt_header_flag w" "s_cwnd w' = s_cwnd w" "mtu_inv w' = mtu_inv w" "w_prepare w' = w_prepare w"
    "s_pacing_bytes_per_ms w' = s_pacing_bytes_per_ms w"
  shows "progresses w w'"
proof -
  have "s_cwnd w \<noteq> 0" using assms(1) by (simp add: live_def ready_def sending_def path_ok_def)
  then show ?thesis using assms by (intro progresses_flow) (simp_all add: core_def answers_def)
qed

lemmas receive_defs = core_def flow_def mtu_inv_def

lemma progresses_said: "live w \<Longrightarrow> silent env \<Longrightarrow> \<not> stream_dead (notify env ev w)"
  using live_alive(1) by (simp add: notify_silent stream_dead_def)

text \<open>Data for the user.\<close>

lemma process_data_progresses:
  assumes l: "live w" and env: "silent env"
  shows "\<exists>w'. process_data env type seq data w = (False, w') \<and> progresses w w' \<and> s_remote_acked w' = s_remote_acked w"
proof -
  have p: "progresses w (process_data_packet env type seq data w)"
  proof (cases "seq = s_ack w \<and> has_flag type UDX_HEADER_DATA")
    case True
    let ?w = "w\<lparr>s_ack := s_ack w + 1\<rparr>"
    have p: "progresses w ?w" by (rule progresses_fields [OF l]) (simp_all add: receive_defs)
    show ?thesis using True p progresses_trans [OF p progresses_notify [OF progresses_live [OF p] env, of "Ev_Read data"]]
      by (simp add: process_data_packet_def Let_def)
  next
    case False
    have "progresses w (w\<lparr>s_sack_tree := t\<rparr>)" for t by (rule progresses_fields [OF l]) (simp_all add: receive_defs)
    then show ?thesis using False by (auto simp: process_data_packet_def)
  qed
  moreover have "s_remote_acked (process_data_packet env type seq data w) = s_remote_acked w"
    by (simp add: process_data_packet_def Let_def notify_silent [OF env])
  ultimately show ?thesis using live_alive(1) [OF progresses_live [OF p]] progresses_refl [OF l] by (simp add: process_data_def Let_def)
qed

lemma deliver_progresses:
  assumes "live w" and env: "silent env"
  shows "\<exists>w'. deliver_packets env ps w = (False, w') \<and> progresses w w' \<and> s_remote_acked w' = s_remote_acked w"
  using assms(1)
proof (induction ps arbitrary: w)
  case (Cons p ps)
  let ?w = "w\<lparr>s_ack := s_ack w + 1\<rparr>"
  define v where "v = (if has_flag (ub_type p) UDX_HEADER_DATA \<and> s_on_read ?w then notify env (Ev_Read (ub_data p)) ?w else ?w)"
  have p1: "progresses w ?w" by (rule progresses_fields [OF Cons.prems]) (simp_all add: receive_defs)
  have pv: "progresses w v"
    using p1 progresses_trans [OF p1 progresses_notify [OF progresses_live [OF p1] env, of "Ev_Read (ub_data p)"]] by (simp add: v_def)
  have eq: "deliver_packets env (p # ps) w = deliver_packets env ps v"
    using live_alive(1) [OF progresses_live [OF pv]]
    by (cases "has_flag (ub_type p) UDX_HEADER_DATA"; cases "s_on_read w") (simp_all add: v_def Let_def)
  obtain w' where w': "deliver_packets env ps v = (False, w')" "progresses v w'" "s_remote_acked w' = s_remote_acked v"
    using Cons.IH [OF progresses_live [OF pv]] by blast
  moreover have "s_remote_acked v = s_remote_acked w" by (simp add: v_def notify_silent [OF env])
  ultimately show ?case unfolding eq using progresses_trans [OF pv w'(2)] by simp
qed (use progresses_refl in simp)

lemma read_queue_progresses:
  assumes l: "live w" and env: "silent env"
  shows "\<exists>w'. process_read_queue env w = (False, w') \<and> progresses w w' \<and> s_remote_acked w' = s_remote_acked w"
proof (cases "\<exists>b rest. s_sack_tree w = b # rest \<and> stream_reads w \<and> sb_start b = s_ack w")
  case True
  then obtain b rest where b: "s_sack_tree w = b # rest" "stream_reads w" "sb_start b = s_ack w" by blast
  have p: "progresses w (w\<lparr>s_sack_tree := rest\<rparr>)" by (rule progresses_fields [OF l]) (simp_all add: receive_defs)
  obtain w' where w': "deliver_packets env (sb_packets b) (w\<lparr>s_sack_tree := rest\<rparr>) = (False, w')" "progresses (w\<lparr>s_sack_tree := rest\<rparr>) w'"
    "s_remote_acked w' = s_remote_acked (w\<lparr>s_sack_tree := rest\<rparr>)"
    using deliver_progresses [OF progresses_live [OF p] env] by blast
  show ?thesis using b w'(1,3) progresses_trans [OF p w'(2)] by (simp add: process_read_queue_def)
next
  case False
  then have "process_read_queue env w = (False, w)" by (auto simp: process_read_queue_def split: list.split)
  then show ?thesis using progresses_refl [OF l] by blast
qed

text \<open>Data, end and destroy.\<close>

lemma process_ordered_cases:
  assumes l: "live w" and env: "silent env"
  shows "\<exists>ret w'. process_ordered env h payload w = Some (ret, w') \<and> (if ret then closes w w' else progresses w w' \<and> s_remote_acked w' = s_remote_acked w)"
proof (cases "seq_compare (s_ack w) (h_seq h) \<le> 0")
  case True
  obtain v where v: "process_data env (h_type h) (h_seq h) payload w = (False, v)" "progresses w v" "s_remote_acked v = s_remote_acked w"
    using process_data_progresses [OF l env] by blast
  define u where "u = (if has_flag (h_type h) UDX_HEADER_END
             then v\<lparr>s_status := s_status v OR UDX_STREAM_ENDING_REMOTE, s_remote_ended := h_seq h\<rparr> else v)"
  have pu: "progresses v u"
  proof -
    let ?v = "v\<lparr>s_status := s_status v OR UDX_STREAM_ENDING_REMOTE\<rparr>"
    have lv: "live v" using progresses_live [OF v(2)] .
    then have "s_status v AND UDX_STREAM_DEAD = 0" by (simp add: live_def ready_def sending_def path_ok_def)
    then have "(s_status v OR UDX_STREAM_ENDING_REMOTE) AND UDX_STREAM_DEAD = 0" by (simp add: bit.conj_disj_distrib2) (simp add: stream_flag_defs)
    from progresses_status [OF lv this] have p1: "progresses v ?v" .
    have "progresses ?v (?v\<lparr>s_remote_ended := h_seq h\<rparr>)" by (rule progresses_fields [OF progresses_live [OF p1]]) (simp_all add: receive_defs)
    then show ?thesis using progresses_trans [OF p1] progresses_refl [OF lv] by (simp add: u_def)
  qed
  have p: "progresses w u" using progresses_trans [OF v(2) pu] .
  have eq: "process_ordered env h payload w = (if has_flag (h_type h) UDX_HEADER_DESTROY then do { w \<leftarrow> close_stream env UV_ECONNRESET u; Some (True, w) }
           else Some (False, u))"
    using True v(1) by (simp add: process_ordered_def Let_def u_def)
  obtain w' where w': "close_stream env UV_ECONNRESET u = Some w'" "closes u w'" using close_law [OF progresses_live [OF p] env] by blast
  have "s_remote_acked u = s_remote_acked w" using v(3) by (simp add: u_def)
  then show ?thesis unfolding eq using w' p progresses_closes [OF l p w'(2)] by (cases "has_flag (h_type h) UDX_HEADER_DESTROY") (simp_all add: ex_bool_eq)
next
  case False
  then show ?thesis using progresses_refl [OF l] by (simp add: process_ordered_def ex_bool_eq)
qed

lemma process_message_progresses:
  assumes l: "live w" and env: "silent env"
  shows "\<exists>w'. process_message env h payload w = (False, w') \<and> progresses w w' \<and> s_remote_acked w' = s_remote_acked w"
  using progresses_notify [OF l env, of "Ev_Recv payload"] progresses_said [OF l env] progresses_refl [OF l]
  by (simp add: process_message_def Let_def) (simp add: notify_silent [OF env])

lemma update_window_progresses:
  assumes l: "live w"
  shows "progresses w (update_send_window seq ack rwnd w)" "s_remote_acked (update_send_window seq ack rwnd w) = s_remote_acked w"
    "s_seq (update_send_window seq ack rwnd w) = s_seq w"
proof -
  define v where "v = (if rwnd > 0 \<and> s_pending_timer w = UDX_TIMER_ZWP then stream_timer_stop w else w)"
  have p: "progresses w v" using progresses_timer(2) [OF l] progresses_refl [OF l] by (simp add: v_def)
  have "progresses v (v\<lparr>s_send_rwnd := rwnd, s_send_wl1 := seq, s_send_wl2 := ack\<rparr>)"
    by (rule progresses_fields [OF progresses_live [OF p]]) (simp_all add: receive_defs)
  then show "progresses w (update_send_window seq ack rwnd w)"
    using progresses_trans [OF p] progresses_refl [OF l] by (simp add: update_send_window_def v_def [symmetric])
  show "s_remote_acked (update_send_window seq ack rwnd w) = s_remote_acked w" "s_seq (update_send_window seq ack rwnd w) = s_seq w"
    by (simp_all add: update_send_window_def stream_timer_stop_def)
qed

lemma loss_probe_progresses:
  assumes l: "live w"
  shows "progresses w (detect_loss_repaired_by_loss_probe ack w)" "s_remote_acked (detect_loss_repaired_by_loss_probe ack w) = s_remote_acked w"
    "s_seq (detect_loss_repaired_by_loss_probe ack w) = s_seq w"
proof -
  have "progresses w (w\<lparr>s_tlp_in_flight := False\<rparr>)" by (rule progresses_fields [OF l]) (simp_all add: receive_defs)
  then show "progresses w (detect_loss_repaired_by_loss_probe ack w)" "s_remote_acked (detect_loss_repaired_by_loss_probe ack w) = s_remote_acked w"
    "s_seq (detect_loss_repaired_by_loss_probe ack w) = s_seq w"
    using progresses_refl [OF l] by (simp_all add: detect_loss_repaired_by_loss_probe_def)
qed

text \<open>An acknowledgement that is ahead of what was sent is ignored.\<close>

lemma ack_head_cases:
  assumes l: "live w" and env: "silent env"
  shows "\<exists>ret w'. process_ack_head env h w = (ret, w') \<and> progresses w w' \<and> s_remote_acked w' = s_remote_acked w \<and> s_seq w' = s_seq w
    \<and> ret = (seq_compare (s_seq w) (h_ack h) < 0)"
proof (cases "seq_compare (s_seq w) (h_ack h) < 0")
  case False
  define w1 where "w1 = update_send_window (h_seq h) (h_ack h) (h_rwnd h) w"
  have p1: "progresses w w1" and f1: "s_remote_acked w1 = s_remote_acked w" "s_seq w1 = s_seq w"
    unfolding w1_def using update_window_progresses [OF l] by simp_all
  define change where "change = (s_remote_changing w1 \<and> seq_diff (h_ack h) (s_seq_on_remote_changed w1) \<ge> 0)"
  define w2 where "w2 = (if change then
                (let w = w1\<lparr>s_remote_changing := False\<rparr> in if s_on_remote_changed w then notify env Ev_Remote_Changed w else w) else w1)"
  have p2: "progresses w1 w2"
  proof -
    have p: "progresses w1 (w1\<lparr>s_remote_changing := False\<rparr>)" by (rule progresses_fields [OF progresses_live [OF p1]]) (simp_all add: receive_defs)
    show ?thesis using p progresses_trans [OF p progresses_notify [OF progresses_live [OF p] env, of Ev_Remote_Changed]] progresses_refl [OF progresses_live [OF p1]]
      by (simp add: w2_def Let_def)
  qed
  have f2: "s_remote_acked w2 = s_remote_acked w1" "s_seq w2 = s_seq w1" by (simp_all add: w2_def Let_def notify_silent [OF env])
  define w3 where "w3 = (if s_tlp_in_flight w2 then detect_loss_repaired_by_loss_probe (h_ack h) w2 else w2)"
  have p3: "progresses w2 w3" and f3: "s_remote_acked w3 = s_remote_acked w2" "s_seq w3 = s_seq w2"
    unfolding w3_def using loss_probe_progresses [OF progresses_live [OF p2]] progresses_refl [OF progresses_live [OF p2]] by simp_all
  define w4 where "w4 = (if seq_compare (h_ack h) (s_high_seq w3) > 0 \<and> (s_ca_state w3 = UDX_CA_RECOVERY \<or> s_ca_state w3 = UDX_CA_LOSS)
                     then w3\<lparr>s_ca_state := UDX_CA_OPEN\<rparr> else w3)"
  have "progresses w3 (w3\<lparr>s_ca_state := UDX_CA_OPEN\<rparr>)"
    by (rule progresses_fields [OF progresses_live [OF p3]]) (simp_all add: receive_defs)
  then have p4: "progresses w3 w4" using progresses_refl [OF progresses_live [OF p3]] by (simp add: w4_def)
  have f: "s_remote_acked w4 = s_remote_acked w" "s_seq w4 = s_seq w"
    by (simp_all add: w4_def f1 f2 f3)
  have alive: "\<not> stream_dead w2" using live_alive(1) [OF progresses_live [OF p2]] .
  have ret: "(if change then
                (let w = w1\<lparr>s_remote_changing := False\<rparr>
                 in if s_on_remote_changed w then (let w = notify env Ev_Remote_Changed w in (stream_dead w, w)) else (False, w))
              else (False, w1)) = (False, w2)"
    using alive by (cases change; cases "s_on_remote_changed w1") (simp_all add: w2_def Let_def)
  have "process_ack_head env h w = (False, w4)"
    unfolding process_ack_head_def Let_def w1_def [symmetric] change_def [symmetric] ret [unfolded Let_def]
    by (simp only: False if_False prod.case w3_def [symmetric] w4_def [symmetric])
  then show ?thesis using False f progresses_trans [OF p1 progresses_trans [OF p2 progresses_trans [OF p3 p4]]] by (simp add: ex_bool_eq)
qed (use progresses_refl [OF l] in \<open>simp add: process_ack_head_def ex_bool_eq\<close>)

text \<open>The whole handler, on the stream's own socket or without a firewall, and not relayed.\<close>

lemma stream_packet_outcome:
  assumes l: "live w" and env: "silent env" and room: "room 0 w"
    and own: "s_relay_to w = NULL" "same_socket \<or> \<not> s_on_firewall w"
  shows "outcome env w (map_option snd (process_stream_packet env same_socket from relay h buf w))"
proof -
  let ?w = "w\<lparr>s_bytes_rx := s_bytes_rx w + of_nat (length buf), s_packets_rx := s_packets_rx w + 1\<rparr>"
  have p0: "progresses w ?w" by (rule progresses_fields [OF l]) (simp_all add: receive_defs)
  have l0: "live ?w" and r0: "room 0 ?w" using progresses_live [OF p0] progresses_room [OF p0 room] by simp_all
  have eq: "map_option snd (process_stream_packet env same_socket from relay h buf w) =
     (if has_flag (h_type h) UDX_HEADER_HEARTBEAT then send_ack env ?w
      else case read_payload buf h of
             None \<Rightarrow> Some ?w
           | Some payload \<Rightarrow> do {
               (ret, v) \<leftarrow> process_ordered env h payload ?w;
               if ret then Some v
               else case process_message env h payload v of
                 (True, v) \<Rightarrow> Some v
               | (False, v) \<Rightarrow>
                   (case process_read_queue env v of
                      (True, v) \<Rightarrow> Some v
                    | (False, v) \<Rightarrow>
                        (case process_ack_head env h v of
                           (True, v) \<Rightarrow> Some v
                         | (False, v) \<Rightarrow>
                             process_acks env h (read_sacks (env_host env) buf h) (s_delivered ?w) (s_lost ?w) (s_remote_acked ?w)
                               (s_remote_acked ?w \<noteq> s_seq ?w) v))
             })" (is "_ = ?r")
  proof -
    have some: "map_option snd (do { v \<leftarrow> x; Some (1 :: int, v) }) = x" for x :: "world option" by (cases x) simp_all
    have "(if \<not> same_socket \<and> s_on_firewall ?w then f else (False, ?w)) = (False, ?w)" for f using own(2) by auto
    then show ?thesis
      using live_alive(1) [OF l] own(1) unfolding process_stream_packet_def Let_def by (simp add: some)
  qed
  have "outcome env ?w ?r"
  proof (cases "has_flag (h_type h) UDX_HEADER_HEARTBEAT")
    case True
    then show ?thesis using outcome_ack [OF l0 env] by simp
  next
    case beat: False
    show ?thesis
    proof (cases "read_payload buf h")
      case None
      then show ?thesis using beat outcome_same [OF l0] by simp
    next
      case (Some payload)
      obtain ret v where v: "process_ordered env h payload ?w = Some (ret, v)" "if ret then closes ?w v else progresses ?w v \<and> s_remote_acked v = s_remote_acked ?w"
        using process_ordered_cases [OF l0 env] by blast
      show ?thesis
      proof (cases ret)
        case True
        then show ?thesis using beat Some v outcome_closes by simp
      next
        case False
        then have p1: "progresses ?w v" "s_remote_acked v = s_remote_acked w" using v(2) by simp_all
        obtain v2 where v2: "process_message env h payload v = (False, v2)" "progresses v v2" "s_remote_acked v2 = s_remote_acked v"
          using process_message_progresses [OF progresses_live [OF p1(1)] env] by blast
        obtain v3 where v3: "process_read_queue env v2 = (False, v3)" "progresses v2 v3" "s_remote_acked v3 = s_remote_acked v2"
          using read_queue_progresses [OF progresses_live [OF v2(2)] env] by blast
        obtain b v4 where v4: "process_ack_head env h v3 = (b, v4)" "progresses v3 v4" "s_remote_acked v4 = s_remote_acked v3" "s_seq v4 = s_seq v3"
          "b = (seq_compare (s_seq v3) (h_ack h) < 0)"
          using ack_head_cases [OF progresses_live [OF v3(2)] env] by blast
        have p: "progresses ?w v4" using progresses_trans [OF p1(1) progresses_trans [OF v2(2) progresses_trans [OF v3(2) v4(2)]]] .
        show ?thesis
        proof (cases b)
          case True
          then show ?thesis using beat Some False v(1) v2(1) v3(1) v4(1) outcome_progress [OF p] by simp
        next
          case ok: False
          have acked: "s_remote_acked v4 = s_remote_acked w" using v4(3) v3(3) v2(3) p1(2) by simp
          have ack: "\<not> seq_compare (s_seq v4) (h_ack h) < 0" using ok v4(4,5) by simp
          note acks = process_acks_outcome [where h = h, OF progresses_live [OF p] env progresses_room [OF p r0] ack]
          show ?thesis
            using beat Some False ok v(1) v2(1) v3(1) v4(1) outcome_after [OF l0 p acks] acked by simp
        qed
      qed
    qed
  qed
  then show ?thesis using outcome_after [OF l p0] by (simp only: eq)
qed

text \<open>A stage that returns with a pacing rate made progress or closed the stream.\<close>

lemma outcome_returns:
  assumes "outcome env w (Some w')" "room 0 w" "s_pacing_bytes_per_ms w' > 0"
  shows "progresses w w' \<or> closes w w'"
  using assms(1) unfolding outcome_def
proof (elim disjE exE conjE)
  fix v d lost rs assume v: "progresses w v" "Some w' = process_tail env True d lost rs v"
  show ?thesis using process_tail_law [OF progresses_live [OF v(1)] progresses_room [OF v(1) assms(2)] v(2) [symmetric] assms(3)] progresses_trans [OF v(1)] by blast
qed auto

end
