(* ===== verification/Udx_Life.thy ===== *)
theory Udx_Life
  imports Udx_Handler
begin

text \<open>
  The life of a stream: every operation and event of \<open>Udx_Api\<close>, \<open>Udx_Send\<close>, \<open>Udx_Process\<close> and \<open>Udx_Close\<close> as a step, in any order, and what it
  means for the user: each write is answered exactly once.
\<close>

section \<open>Steps of a stream\<close>

lemma progresses_keeps: "progresses w w' \<Longrightarrow> live w' \<and> settles w w'"
  by (simp add: progresses_def live_def)

lemma emits_settles: "emits ps w w' \<Longrightarrow> accounted w \<Longrightarrow> accounted w' \<and> settles w w'"
  using keeps_account_settles by (auto simp: emits_def keeps_account_def)

text \<open>A write joins the unanswered ones; nothing else becomes unanswered, and nothing is answered.\<close>

definition opened :: "addr \<Rightarrow> bool \<Rightarrow> world \<Rightarrow> world \<Rightarrow> bool" where
  "opened wr cb w w' \<longleftrightarrow> unanswered w' = insert wr (unanswered w) \<and> (\<forall>x. answers x w' = answers x w)
     \<and> (\<forall>x. wr_on_ack (w_writes w' x) = (if x = wr then cb else wr_on_ack (w_writes w x)))"

lemma write_opens:
  assumes l: "live w" and u: "unused_bufs bufs w" "bufs \<noteq> []" and room: "room (length (concat (map snd bufs)) + length bufs) w"
    and new: "new_write wr bufs w" and w': "udx_stream_write env wr bufs cb w = Some (res, w')" "res \<ge> 0"
  shows "live w' \<and> (\<exists>w1. opened wr cb w w1 \<and> accounted w1 \<and> settles w1 w')"
proof -
  have r: "ready w" using l by (simp add: live_def)
  have rdy: "ready w'" using step_write_law [OF r u room w'] by simp
  have st: "has_flag (s_status w) UDX_STREAM_CONNECTED" "\<not> has_flag (s_status w) UDX_STREAM_ENDING"
    using w' u(2) by (auto simp: udx_stream_write_def UV_ENOTCONN_def UV_EPIPE_def split: if_splits)
  have few: "seq_off (s_remote_acked w) (s_seq w) + send_work w + length (concat (map snd bufs)) + length bufs + 1 < 2 ^ 32"
    using room by (simp add: room_def)
  obtain w1 v ps where v: "udx_stream_write_internal env wr bufs cb False w = Some v" "sending v" "emits ps w1 v"
    "accounted w1" "opens_write wr cb w w1"
    using write_internal_law [where wr = wr and env = env and cb = cb and is_end = False, OF _ _ _ _ u(2) few] l u(1) new unfolding live_def ready_def unused_bufs_def by blast
  obtain x b where x: "watermark_result v = Some (x, v\<lparr>s_hit_high_watermark := b\<rparr>)" (is "_ = Some (x, ?v)") using watermark_law [OF v(2)] by blast
  have e: "w' = ?v" using w'(1) st u(2) v(1) x by (simp add: udx_stream_write_def)
  have a: "accounted v" "settles w1 v" using emits_settles [OF v(3,4)] by simp_all
  have same: "same_account v ?v" "callbacks ?v = callbacks v" by (simp_all add: same_account_def callbacks_def)
  have "accounted w'" "settles v w'" using a(1) accounted_same [OF same(1)] same_account_settles [OF same] by (simp_all add: e)
  moreover have "opened wr cb w w1" using v(5) by (simp add: opens_write_def opened_def answers_callbacks)
  ultimately show ?thesis using rdy v(4) settles_trans [OF a(2)] by (auto simp: live_def)
qed

lemma pacing_settles:
  assumes l: "live w" and room: "room 0 w" and w': "pacing_timer_timeout env w = Some w'"
  shows "live w' \<and> settles w w'"
proof -
  have rdy: "ready w'" using sender_step_law [OF step_pacing [OF room w']] l by (simp add: live_def)
  obtain v where v: "update_pacing_time w = Some v" "send_packets env v = Some w'" using w' by (auto simp: pacing_timer_timeout_def bind_eq_Some_conv)
  obtain t n where tn: "v = w\<lparr>s_tb_available := t, s_tb_last_refill_ms := n\<rparr>" "w_now w \<le> n"
  proof (cases "w_now w > s_tb_last_refill_ms w")
    case True
    then show ?thesis using v(1) by (intro that) (auto simp: update_pacing_time_def c_assert_def split: if_splits)
  next
    case False
    then show ?thesis using v(1) by (intro that [where t = "s_tb_available w" and n = "s_tb_last_refill_ms w"]) (auto simp: update_pacing_time_def)
  qed
  have same: "same_account w v" "callbacks v = callbacks w" by (simp_all add: tn(1) same_account_def callbacks_def)
  have acc: "accounted v" using l accounted_same [OF same(1)] by (simp add: live_def)
  have st: "v = w\<lparr>w_now := w_now w, s_tb_available := t, s_tb_last_refill_ms := n\<rparr>" unfolding tn(1) by simp
  have sw: "sending w" "resting w" using l by (simp_all add: live_def ready_def)
  note em = time_law [OF sw(1) st]
  have "\<not> w_now v > s_tb_last_refill_ms v" using tn(2) by (simp add: tn(1) not_less)
  then have "pace_ready v" by (simp add: pace_ready_def)
  then have lv: "live v" using acc em(1,2) sw(2) by (simp add: live_def ready_def)
  have "room 0 v" using room tn(1) by (simp add: room_def send_work_def unsent_def)
  then have "progresses v w'" using send_packets_progresses [OF lv, of env] v(2) by auto
  then show ?thesis using progresses_keeps settles_trans [OF same_account_settles [OF same]] by blast
qed

lemma prepare_settles:
  assumes l: "live w" and room: "room 0 w" and w': "w_prepare w" "on_pending_packet_prepare env w = Some w'" "s_pacing_bytes_per_ms w' > 0"
  shows "live w' \<and> settles w w'"
proof -
  have rdy: "ready w'" using sender_step_law [OF step_prepare [OF room w']] l by (simp add: live_def)
  have s: "sending w" "has_flag (s_pkt_header_flag w) UDX_HEADER_DATA" using l w'(1) by (simp_all add: live_def ready_def resting_def)
  have "seq_off (s_remote_acked w) (s_seq w) + 1 < 2 ^ 32" using room by (simp add: room_def)
  then obtain v where v: "send_current_packet env False w = Some v" "emits [s_pkt w] w v"
    using send_current_emits [OF s(1)] s(2) by blast
  have "v = w'" using v(1) w'(1,2) by (simp add: on_pending_packet_prepare_def)
  then show ?thesis using rdy emits_settles [OF v(2)] l by (simp add: live_def)
qed

lemma clock_settles:
  assumes l: "live w" and t: "w_now w \<le> t" "s_pacing_bytes_per_ms w > 0"
  shows "live (w\<lparr>w_now := t\<rparr>) \<and> settles w (w\<lparr>w_now := t\<rparr>)"
proof -
  have "ready (w\<lparr>w_now := t\<rparr>)" using sender_step_law [OF step_clock [OF t]] l by (simp add: live_def)
  moreover have same: "same_account w (w\<lparr>w_now := t\<rparr>)" "callbacks (w\<lparr>w_now := t\<rparr>) = callbacks w" by (simp_all add: same_account_def callbacks_def)
  ultimately show ?thesis using l accounted_same [OF same(1)] same_account_settles [OF same] by (simp add: live_def)
qed

lemma destroy_closes:
  assumes l: "live w" and env: "silent env" and room: "room 0 w"
    and sent: "env_try_send env (w_ios w) = UV_EAGAIN \<Longrightarrow> env_udp_send env (w_ios w + 1) < 0"
    and w': "udx_stream_destroy env w = Some (r, w')"
  shows "closes w w'"
proof -
  have acc: "accounted w" and dead: "s_status w AND UDX_STREAM_DEAD = 0" using l by (simp_all add: live_def ready_def sending_def path_ok_def)
  have part: "s_status w AND f = (s_status w AND UDX_STREAM_DEAD) AND f" if "UDX_STREAM_DEAD AND f = f" for f by (simp add: and.assoc that)
  have "UDX_STREAM_DEAD AND UDX_STREAM_CLOSED = UDX_STREAM_CLOSED" "UDX_STREAM_DEAD AND UDX_STREAM_DESTROYING = UDX_STREAM_DESTROYING"
    by (simp_all add: stream_flag_defs)
  from part [OF this(1)] part [OF this(2)]
  have st: "\<not> has_flag (s_status w) UDX_STREAM_CLOSED" "\<not> has_flag (s_status w) UDX_STREAM_DESTROYING" by (simp_all add: dead)
  have fl: "flight_but (seq_off (s_remote_acked w) (s_seq w)) {} w" using ready_flight l by (simp add: live_def)
  have free: "s_outgoing w (s_seq w) = None" using packet_okD(2) [OF flightD(4) [OF fl]] by (cases "s_outgoing w (s_seq w)") auto
  have few: "seq_off (s_remote_acked w) (s_seq w) + 1 < 2 ^ 32" using room by (simp add: room_def)
  obtain v out where v: "udx_stream_destroy env w = Some (r, v)" "has_flag (s_status v) UDX_STREAM_CLOSED" "s_writes_queued_bytes v = 0"
    "w_output v = w_output w @ out @ cancel_events w (open_chunks w)" "\<forall>wr err sack. Callback (Ev_Ack wr err sack) \<notin> set out"
    using destroy_law [OF acc env st free few sent] w' by auto
  have "filter (answers_write wr) out = []" for wr
  proof -
    have "\<not> answers_write wr e" if "e \<in> set out" for e
      using v(5) that by (cases "(wr, e)" rule: answers_write.cases) (auto split: event.splits)
    then show ?thesis by (simp add: filter_empty_conv)
  qed
  then have "answers wr v = answers wr w + (if wr \<in> unanswered w \<and> wr_on_ack (w_writes w wr) then 1 else 0)" for wr
    using cancel_events_account [OF acc, of wr] by (simp add: answers_def v(4) cancel_answers)
  then show ?thesis using v(1-3) w' by (simp add: closes_def)
qed

section \<open>The life of a stream\<close>

text \<open>What happens to a stream that has not ended: the user writes, the pacing timer fires, the loop prepares to block, time passes, any
  packet arrives, the retransmission timers, the window probe and the keep-alive fire, the user destroys the stream.  The label is the write.
  A write takes a request that is not in use.  The pacing rate is a premise where it is computed (it is truncated to 32 bits), as are the
  conditions under which a timer is armed.  The destroy packet leaves at once or not at all (when it waits, the stream closes in
  its callback).\<close>

inductive life_step :: "env \<Rightarrow> (addr \<times> bool) list \<Rightarrow> world \<Rightarrow> world \<Rightarrow> bool" for env where
  life_write: "\<lbrakk>unused_bufs bufs w; bufs \<noteq> []; new_write wr bufs w; room (length (concat (map snd bufs)) + length bufs) w;
      udx_stream_write env wr bufs cb w = Some (r, w'); r \<ge> 0\<rbrakk> \<Longrightarrow> life_step env [(wr, cb)] w w'"
| life_pacing: "\<lbrakk>room 0 w; pacing_timer_timeout env w = Some w'\<rbrakk> \<Longrightarrow> life_step env [] w w'"
| life_prepare: "\<lbrakk>room 0 w; w_prepare w; on_pending_packet_prepare env w = Some w'; s_pacing_bytes_per_ms w' > 0\<rbrakk> \<Longrightarrow> life_step env [] w w'"
| life_clock: "\<lbrakk>w_now w \<le> t; s_pacing_bytes_per_ms w > 0\<rbrakk> \<Longrightarrow> life_step env [] w (w\<lparr>w_now := t\<rparr>)"
| life_packet: "\<lbrakk>room 0 w; s_relay_to w = NULL; same_socket \<or> \<not> s_on_firewall w;
      process_stream_packet env same_socket from relay h buf w = Some (r, w'); s_pacing_bytes_per_ms w' > 0\<rbrakk> \<Longrightarrow> life_step env [] w w'"
| life_rack: "\<lbrakk>room 0 w; udx_rack_reo_timeout env w = Some w'\<rbrakk> \<Longrightarrow> life_step env [] w w'"
| life_rto: "\<lbrakk>room 0 w; has_flag (s_status w) UDX_STREAM_CONNECTED; s_remote_acked w \<noteq> s_seq w; udx_rto_timeout env w = Some w'\<rbrakk>
      \<Longrightarrow> life_step env [] w w'"
| life_zwp: "\<lbrakk>has_flag (s_status w) UDX_STREAM_CONNECTED; s_send_rwnd w = 0; s_pending_timer w = UDX_TIMER_ZWP;
      s_writes_queued_bytes w > 0; udx_zwp_timeout env w = Some w'\<rbrakk> \<Longrightarrow> life_step env [] w w'"
| life_keepalive: "\<lbrakk>s_seq w = s_remote_acked w; udx_keepalive_timeout env w = Some w'\<rbrakk> \<Longrightarrow> life_step env [] w w'"
| life_destroy: "\<lbrakk>room 0 w; env_try_send env (w_ios w) = UV_EAGAIN \<longrightarrow> env_udp_send env (w_ios w + 1) < 0;
      udx_stream_destroy env w = Some (r, w')\<rbrakk> \<Longrightarrow> life_step env [] w w'"

inductive_cases life_stepE: "life_step env ws w w'"

text \<open>A step without a write goes on or closes the stream.\<close>

lemma life_step_law:
  assumes step: "life_step env ws w w'" and l: "live w" and env: "silent env"
  shows "if ws = [] then (live w' \<and> settles w w') \<or> closes w w'
    else \<exists>wr cb w1. ws = [(wr, cb)] \<and> wr \<notin> unanswered w \<and> live w' \<and> opened wr cb w w1 \<and> accounted w1 \<and> settles w1 w'"
  using step
proof cases
  case (life_write bufs wr cb r)
  then show ?thesis using write_opens [OF l life_write(2,3,5,4,6,7)] by (auto simp: new_write_def)
next
  case life_pacing
  then show ?thesis using pacing_settles [OF l] by simp
next
  case life_prepare
  then show ?thesis using prepare_settles [OF l] by simp
next
  case (life_clock t)
  then show ?thesis using clock_settles [OF l] by simp
next
  case (life_packet same_socket "from" relay h buf r)
  then have "outcome env w (Some w')" using stream_packet_outcome [OF l env, of same_socket "from" relay h buf] by simp
  then have "progresses w w' \<or> closes w w'" by (rule outcome_returns [OF _ life_packet(2,6)])
  then show ?thesis using life_packet(1) progresses_keeps by auto
next
  case life_rack
  then show ?thesis using rack_timeout_law [OF l, of env] progresses_keeps by auto
next
  case life_rto
  then show ?thesis
    using rto_timeout_law [OF l, of env] rto_last_law [OF l env] progresses_keeps by (cases "s_rto_count w + 1 \<le> UDX_MAX_RTO_TIMEOUTS") auto
next
  case life_zwp
  then show ?thesis using zwp_timeout_law [OF l, of env] progresses_keeps by auto
next
  case life_keepalive
  then show ?thesis using keepalive_timeout_law [OF l, of env] progresses_keeps by auto
next
  case (life_destroy r)
  then show ?thesis using destroy_closes [OF l env] by auto
qed

text \<open>A life from \<open>w0\<close>: the writes so far and the state; it ends when the stream is closed.\<close>

inductive life :: "env \<Rightarrow> world \<Rightarrow> (addr \<times> bool) list \<Rightarrow> world \<Rightarrow> bool" for env w0 where
  life_start: "life env w0 [] w0"
| life_next: "\<lbrakk>life env w0 ws w; \<not> has_flag (s_status w) UDX_STREAM_CLOSED; life_step env ws' w w'; fst ` set ws \<inter> fst ` set ws' = {}\<rbrakk>
    \<Longrightarrow> life env w0 (ws @ ws') w'"

text \<open>How many times a write must have been answered.\<close>

definition due :: "bool \<Rightarrow> addr \<Rightarrow> world \<Rightarrow> nat" where
  "due cb wr w = (if cb \<and> (has_flag (s_status w) UDX_STREAM_CLOSED \<or> wr \<notin> unanswered w) then 1 else 0)"

definition life_inv :: "(addr \<times> bool) list \<Rightarrow> world \<Rightarrow> bool" where
  "life_inv ws w \<longleftrightarrow> (\<forall>(wr, cb) \<in> set ws. answers wr w = due cb wr w) \<and> (\<forall>wr. wr \<notin> fst ` set ws \<longrightarrow> answers wr w = 0)
     \<and> (has_flag (s_status w) UDX_STREAM_CLOSED
        \<or> live w \<and> unanswered w \<subseteq> fst ` set ws \<and> (\<forall>(wr, cb) \<in> set ws. wr_on_ack (w_writes w wr) = cb))"

lemma life_invD:
  assumes "life_inv ws w"
  shows "(wr, cb) \<in> set ws \<Longrightarrow> answers wr w = due cb wr w" and "wr \<notin> fst ` set ws \<Longrightarrow> answers wr w = 0"
    and "\<not> has_flag (s_status w) UDX_STREAM_CLOSED \<Longrightarrow> live w \<and> unanswered w \<subseteq> fst ` set ws"
    and "\<not> has_flag (s_status w) UDX_STREAM_CLOSED \<Longrightarrow> (wr, cb) \<in> set ws \<Longrightarrow> wr_on_ack (w_writes w wr) = cb"
proof -
  note i = assms [unfolded life_inv_def]
  show "(wr, cb) \<in> set ws \<Longrightarrow> answers wr w = due cb wr w" using bspec [OF i [THEN conjunct1], of "(wr, cb)"] by simp
  show "wr \<notin> fst ` set ws \<Longrightarrow> answers wr w = 0" using spec [OF i [THEN conjunct2, THEN conjunct1], of wr] by simp
  have d: "has_flag (s_status w) UDX_STREAM_CLOSED \<or> live w \<and> unanswered w \<subseteq> fst ` set ws \<and> (\<forall>(wr, cb) \<in> set ws. wr_on_ack (w_writes w wr) = cb)"
    using i [THEN conjunct2, THEN conjunct2] .
  show "\<not> has_flag (s_status w) UDX_STREAM_CLOSED \<Longrightarrow> live w \<and> unanswered w \<subseteq> fst ` set ws"
    using d by (elim disjE) simp_all
  show "\<not> has_flag (s_status w) UDX_STREAM_CLOSED \<Longrightarrow> (wr, cb) \<in> set ws \<Longrightarrow> wr_on_ack (w_writes w wr) = cb"
  proof -
    assume o: "\<not> has_flag (s_status w) UDX_STREAM_CLOSED" "(wr, cb) \<in> set ws"
    then have "\<forall>(wr, cb) \<in> set ws. wr_on_ack (w_writes w wr) = cb" using d by (elim disjE) simp_all
    from bspec [OF this o(2)] show "wr_on_ack (w_writes w wr) = cb" by simp
  qed
qed

lemma live_open: "live w \<Longrightarrow> \<not> has_flag (s_status w) UDX_STREAM_CLOSED"
  using live_alive(2) by simp

lemma life_inv_settles:
  assumes i: "life_inv ws w" and l: "live w" "live w'" and s: "settles w w'"
  shows "life_inv ws w'"
proof -
  have acc: "accounted w" using l(1) by (simp add: live_def)
  have u: "unanswered w' \<subseteq> unanswered w" "\<And>wr. wr_on_ack (w_writes w' wr) = wr_on_ack (w_writes w wr)"
    "\<And>wr. answers wr w' = answers wr w + (if wr \<in> unanswered w - unanswered w' \<and> wr_on_ack (w_writes w wr) then 1 else 0)"
    using s acc by (simp_all add: settles_def)
  have open': "\<not> has_flag (s_status w) UDX_STREAM_CLOSED" "\<not> has_flag (s_status w') UDX_STREAM_CLOSED" using l live_open by blast+
  have sub: "unanswered w \<subseteq> fst ` set ws" and cb: "\<And>wr cb. (wr, cb) \<in> set ws \<Longrightarrow> wr_on_ack (w_writes w wr) = cb"
    and ans: "\<And>wr cb. (wr, cb) \<in> set ws \<Longrightarrow> answers wr w = due cb wr w" "\<And>wr. wr \<notin> fst ` set ws \<Longrightarrow> answers wr w = 0"
    using life_invD [OF i] open'(1) by simp_all
  have "answers wr w' = due cb wr w'" if "(wr, cb) \<in> set ws" for wr cb
    using ans(1) [OF that] cb [OF that] u(1) open' by (auto simp: u(3) due_def)
  moreover have "answers wr w' = 0" if "wr \<notin> fst ` set ws" for wr
    using ans(2) [OF that] sub that by (auto simp: u(3))
  ultimately show ?thesis using l(2) u(1) sub cb unfolding life_inv_def by (auto simp: u(2))
qed

lemma life_inv_closes:
  assumes i: "life_inv ws w" and l: "live w" and c: "closes w w'"
  shows "life_inv ws w'"
proof -
  have open': "\<not> has_flag (s_status w) UDX_STREAM_CLOSED" using live_open [OF l] .
  have a: "answers wr w' = answers wr w + (if wr \<in> unanswered w \<and> wr_on_ack (w_writes w wr) then 1 else 0)" for wr
    using c by (simp add: closes_def)
  have cl: "has_flag (s_status w') UDX_STREAM_CLOSED" using c by (simp add: closes_def)
  have sub: "unanswered w \<subseteq> fst ` set ws" and cb: "\<And>wr cb. (wr, cb) \<in> set ws \<Longrightarrow> wr_on_ack (w_writes w wr) = cb"
    and ans: "\<And>wr cb. (wr, cb) \<in> set ws \<Longrightarrow> answers wr w = due cb wr w" "\<And>wr. wr \<notin> fst ` set ws \<Longrightarrow> answers wr w = 0"
    using life_invD [OF i] open' by simp_all
  have "answers wr w' = due cb wr w'" if "(wr, cb) \<in> set ws" for wr cb
    using ans(1) [OF that] cb [OF that] open' cl by (auto simp: a due_def)
  moreover have "answers wr w' = 0" if "wr \<notin> fst ` set ws" for wr using ans(2) [OF that] sub that by (auto simp: a)
  ultimately show ?thesis using cl unfolding life_inv_def by auto
qed

lemma life_inv_opened:
  assumes i: "life_inv ws w" and l: "live w" and o: "opened wr cb w w1" and new: "wr \<notin> fst ` set ws"
    and w': "accounted w1" "settles w1 w'" "live w'"
  shows "life_inv (ws @ [(wr, cb)]) w'"
proof -
  have open': "\<not> has_flag (s_status w) UDX_STREAM_CLOSED" "\<not> has_flag (s_status w') UDX_STREAM_CLOSED" using l w'(3) live_open by blast+
  have u: "unanswered w' \<subseteq> insert wr (unanswered w)" "\<And>x. wr_on_ack (w_writes w' x) = (if x = wr then cb else wr_on_ack (w_writes w x))"
    "\<And>x. answers x w' = answers x w + (if x \<in> insert wr (unanswered w) - unanswered w' \<and> (if x = wr then cb else wr_on_ack (w_writes w x)) then 1 else 0)"
    using o w'(1,2) by (simp_all add: settles_def opened_def)
  have sub: "unanswered w \<subseteq> fst ` set ws" and cb: "\<And>x c. (x, c) \<in> set ws \<Longrightarrow> wr_on_ack (w_writes w x) = c"
    and ans: "\<And>x c. (x, c) \<in> set ws \<Longrightarrow> answers x w = due c x w" "\<And>x. x \<notin> fst ` set ws \<Longrightarrow> answers x w = 0"
    using life_invD [OF i] open'(1) by simp_all
  have old: "x \<noteq> wr" if "(x, c) \<in> set ws" for x c using that new by force
  have "answers x w' = due c x w'" if "(x, c) \<in> set ws" for x c
    using ans(1) [OF that] cb [OF that] old [OF that] u(1) open' by (auto simp: u(3) due_def)
  moreover have "answers wr w' = due cb wr w'" using ans(2) [OF new] u(1) open' by (auto simp: u(3) due_def)
  moreover have "answers x w' = 0" if "x \<notin> fst ` set (ws @ [(wr, cb)])" for x
    using ans(2) [of x] sub that by (auto simp: u(3))
  ultimately show ?thesis using w'(3) u(1) sub cb old unfolding life_inv_def by (auto simp: u(2))
qed

lemma life_law:
  assumes "life env w0 ws w" and "silent env" "live w0" "unanswered w0 = {}" "\<And>wr. answers wr w0 = 0"
  shows "life_inv ws w"
  using assms
proof (induction rule: life.induct)
  case life_start
  then show ?case by (simp add: life_inv_def)
next
  case (life_next ws w ws' w')
  have i: "life_inv ws w" using life_next by blast
  then have l: "live w" using life_next(2) by (auto simp: life_inv_def)
  note law = life_step_law [OF life_next(3) l life_next.prems(1)]
  show ?case
  proof (cases "ws' = []")
    case True
    then show ?thesis using law life_inv_settles [OF i l] life_inv_closes [OF i l] by auto
  next
    case False
    then obtain wr cb w1 where x: "ws' = [(wr, cb)]" "live w'" "opened wr cb w w1" "accounted w1" "settles w1 w'" using law by auto
    have "wr \<notin> fst ` set ws" using life_next(4) x(1) by auto
    from life_inv_opened [OF i l x(3) this x(4,5,2)] show ?thesis by (simp add: x(1))
  qed
qed


definition demo_life :: "(world \<times> world \<times> world) option" where
  "demo_life = do {
     w0 \<leftarrow> demo_start;
     (r, w1) \<leftarrow> udx_stream_write idle_env 7 [(5, [1, 2, 3])] True w0;
     c_assert (r \<ge> 0);
     (r, w) \<leftarrow> udx_stream_destroy idle_env w1;
     Some (w0, w1, w)
   }"

text \<open>A stream is connected, three bytes are written and the stream is destroyed: the write is answered, once.\<close>

lemma demo_start_live:
  assumes "demo_start = Some w0"
  shows "live w0" "unanswered w0 = {}" "answers wr w0 = 0"
proof -
  obtain v where v: "demo_start = Some v" "sending v" "resting v" "pace_ready v" "pending v = []" "s_write_queue v = []"
    "s_seq v = 0" "p_slices (w_packets v (s_pkt v)) = []" "s_outgoing v = Map.empty" "s_remote_acked v = 0"
    using ready_stream by blast
  have w: "v = w0" using trans [OF v(1) [symmetric] assms] by simp
  have "map_option (\<lambda>w. (s_writes_queued_bytes w, s_pkt w, p_ref_count (w_packets w (s_pkt w)), w_output w)) demo_start = Some (0, 1, 1, [])" by code_simp
  note st = this [unfolded assms]
  have f: "s_writes_queued_bytes w0 = 0" "s_pkt w0 = 1" "p_ref_count (w_packets w0 (s_pkt w0)) = 1" "w_output w0 = []" using st by auto
  have ch: "sent_chunks w0 = []" "open_chunks w0 = []"
    using v(6-10) by (simp_all add: w open_chunks_def sent_chunks_def queue_chunks_def packet_chunks_def flight_chunks_def)
  then have "accounted w0" using v(6) f(1-3) by (simp add: w accounted_def covers_def lively_def)
  then show "live w0" using v(2-4) by (simp add: w live_def ready_def)
  show "unanswered w0 = {}" by (simp add: unanswered_def ch)
  show "answers wr w0 = 0" by (simp add: answers_def f(4))
qed

text \<open>The write of the runs below.\<close>

lemma demo_write_step:
  assumes w0: "demo_start = Some w0" and w1: "udx_stream_write idle_env 7 [(5, [1, 2, 3])] True w0 = Some (r, w1)" "r \<ge> 0"
  shows "life_step idle_env [(7, True)] w0 w1" and "live w1"
proof -
  note l = demo_start_live [OF w0]
  obtain v where v: "demo_start = Some v" "s_write_queue v = []" "s_seq v = 0" "p_slices (w_packets v (s_pkt v)) = []"
    "s_outgoing v = Map.empty" "s_remote_acked v = 0"
    using ready_stream by blast
  have e: "v = w0" using trans [OF v(1) [symmetric] w0] by simp
  note f = v(2-6) [unfolded e]
  have ch: "open_chunks w0 = []" "s_writes_queued_bytes w0 = 0"
    using f l(1) by (simp_all add: open_chunks_def sent_chunks_def queue_chunks_def packet_chunks_def flight_chunks_def live_def accounted_def covers_def unat_eq_zero)
  let ?bufs = "[(5, [1, 2, 3])] :: (addr \<times> u8 list) list"
  have b: "unused_bufs ?bufs w0" "new_write 7 ?bufs w0"
    using f l(2) by (simp_all add: unused_bufs_def fresh_bufs_def new_write_def ch)
  have r: "room (length (concat (map snd ?bufs)) + length ?bufs) w0" using f by (simp add: room_def send_work_def unsent_def)
  show "life_step idle_env [(7, True)] w0 w1" by (rule life_write [OF b(1) _ b(2) r w1]) simp
  show "live w1" using write_opens [OF l(1) b(1) _ r b(2) w1] by simp
qed


text \<open>Writes with an empty buffer behind a full one are outside this law: the last slice of the write is counted when the full buffer is
  settled, and the empty one settles it again.  Its callback is called twice.\<close>

lemma empty_buffer_answered_twice:
  "map_option (answers 7) (do {
     w0 \<leftarrow> demo_start;
     (r, w1) \<leftarrow> udx_stream_write idle_env 7 [(5, [1, 2, 3]), (6, [])] True w0;
     (r, w) \<leftarrow> udx_stream_destroy idle_env w1;
     Some w
   }) = Some 2"
  by code_simp

text \<open>C4. Acknowledging a packet, cumulatively or selectively, for any number: no assertion fails, the packet is no longer outstanding, the
  stream stays ready to send and accounted for, and exactly the writes whose last outstanding bytes it carried are answered, once each.\<close>

theorem acknowledgement_settles:
  assumes "live w" "silent env"
  shows "\<exists>a rs' w'. ack_packet env seq sack rs w = Some (a, rs', w') \<and> live w' \<and> s_outgoing w' = (s_outgoing w)(seq := None)
    \<and> (a = 0 \<longleftrightarrow> s_outgoing w seq = None) \<and> unanswered w' \<subseteq> unanswered w
    \<and> (\<forall>wr. answers wr w' = answers wr w + (if wr \<in> unanswered w - unanswered w' \<and> wr_on_ack (w_writes w wr) then 1 else 0))"
proof -
  have l: "ready w" "accounted w" using assms(1) by (simp_all add: live_def)
  obtain a rs' w' where w': "ack_packet env seq sack rs w = Some (a, rs', w')" "acknowledges w w'" "s_outgoing w' = (s_outgoing w)(seq := None)"
    "a = 0 \<longleftrightarrow> s_outgoing w seq = None"
    using ack_packet_law [OF l assms(2)] by blast
  have "live w'" "settles w w'" using w'(2) by (simp_all add: acknowledges_def live_def)
  then have "unanswered w' \<subseteq> unanswered w" "\<And>wr. answers wr w' = answers wr w + (if wr \<in> unanswered w - unanswered w' \<and> wr_on_ack (w_writes w wr) then 1 else 0)"
    using l(2) by (simp_all add: settles_def)
  then show ?thesis using \<open>live w'\<close> w' by (intro exI [of _ a] exI [of _ rs'] exI [of _ w']) simp
qed

definition demo_sent :: "(world \<times> world \<times> world) option" where
  "demo_sent = do {
     w0 \<leftarrow> demo_start;
     (r, w1) \<leftarrow> udx_stream_write idle_env 7 [(5, [1, 2, 3])] True w0;
     c_assert (r \<ge> 0 \<and> w_prepare w1);
     w2 \<leftarrow> on_pending_packet_prepare idle_env w1;
     c_assert (s_pacing_bytes_per_ms w2 > 0);
     Some (w0, w1, w2)
   }"

theorem acknowledgement_settles_witness:
  "\<exists>w2 a rs w. live w2 \<and> s_outgoing w2 0 \<noteq> None \<and> ack_packet idle_env 0 False initial_sample w2 = Some (a, rs, w) \<and> live w
     \<and> a \<noteq> 0 \<and> s_outgoing w 0 = None"
proof -
  have run: "map_option (\<lambda>(w0, w1, w2). (s_seq w1, s_remote_acked w1, s_write_queue w1, s_outgoing w2 0 = None)) demo_sent = Some (0, 0, [], False)"
    by code_simp
  then obtain w0 r w1 w2 where st: "demo_start = Some w0" "udx_stream_write idle_env 7 [(5, [1, 2, 3])] True w0 = Some (r, w1)" "r \<ge> 0"
    "w_prepare w1" "on_pending_packet_prepare idle_env w1 = Some w2" "s_pacing_bytes_per_ms w2 > 0"
    "s_seq w1 = 0" "s_remote_acked w1 = 0" "s_write_queue w1 = []" "s_outgoing w2 0 \<noteq> None"
    unfolding demo_sent_def by (auto simp: bind_eq_Some_conv)
  have "live w1" by (rule demo_write_step [OF st(1-3)])
  moreover have "room 0 w1" using st(7-9) by (simp add: room_def send_work_def unsent_def)
  ultimately have l2: "live w2" using prepare_settles st(4-6) by blast
  obtain a rs w where "ack_packet idle_env 0 False initial_sample w2 = Some (a, rs, w)" "live w" "s_outgoing w = (s_outgoing w2)(0 := None)"
    "a = 0 \<longleftrightarrow> s_outgoing w2 0 = None"
    using acknowledgement_settles [OF l2 idle_silent, of 0 False initial_sample] by (elim exE conjE) (rule that; assumption)
  then show ?thesis using l2 st(10) by (intro exI [of _ w2] exI [of _ a] exI [of _ rs] exI [of _ w]) simp
qed

definition demo_packet :: "(world \<times> world) option" where
  "demo_packet = do {
     w0 \<leftarrow> demo_start;
     (r, w) \<leftarrow> process_stream_packet idle_env True zero_sockaddr \<lparr>rt_connected = False, rt_remote_id = 0, rt_remote_addr = zero_sockaddr\<rparr>
       \<lparr>h_type = UDX_HEADER_DATA, h_data_offset = 0, h_id = 1, h_rwnd = 1000, h_seq = 0, h_ack = 0\<rparr> (replicate 20 0 @ [9]) w0;
     Some (w0, w)
   }"



end
