(* ===== verification/Udx_Interface.thy ===== *)
theory Udx_Interface
  imports Udx_Prelude "HOL-Library.List_Lexorder" "HOL-Library.Product_Lexorder" "HOL-Library.Multiset"
begin

text \<open>
  Interface events: the end of \<open>src/udx.c\<close>.  A timer polls the network interfaces of the machine, and the user is told when the
  list changed.  The system may list the interfaces in any order, so that at the first difference both lists are
  sorted and compared again.  The system's list, the results of the timer calls of libuv and the sorting function
  of the standard library are parameters; of the last, only that it sorts is assumed, where it is needed.

  Shown: when exactly a poll reports a change, that a list in another order is not reported, and that the flag \<open>sorted\<close>
  of a handle is right.  The first interface of the sorted lists is never compared: the loop restarts by setting its counter
  to zero and then increments it.
\<close>

section \<open>Comparing interfaces\<close>

record if_address =
  ia_phys_addr :: "u8 list"
  ia_address :: "u8 list"

text \<open>\<open>memcmp\<close> on memory of the same size; \<open>strcmp\<close> stops at a zero byte (a physical address without one is taken to end after its
  six bytes).  Of the result only the sign is specified.\<close>

fun bytes_cmp :: "u8 list \<Rightarrow> u8 list \<Rightarrow> int" where
  "bytes_cmp [] [] = 0"
| "bytes_cmp [] (y # ys) = -1"
| "bytes_cmp (x # xs) [] = 1"
| "bytes_cmp (x # xs) (y # ys) = (if x < y then -1 else if y < x then 1 else bytes_cmp xs ys)"

definition c_string :: "u8 list \<Rightarrow> u8 list" where
  "c_string bs = takeWhile (\<lambda>b. b \<noteq> 0) bs"

definition cmp_interface :: "if_address \<Rightarrow> if_address \<Rightarrow> int" where
  "cmp_interface a b =
    (let result = bytes_cmp (c_string (ia_phys_addr a)) (c_string (ia_phys_addr b)) in
     if result \<noteq> 0 then result
     else let result = bytes_cmp (ia_address a) (ia_address b) in
       if result \<noteq> 0 then result else 0)"

section \<open>The handles and the poll\<close>

record if_event =
  ie_addrs :: "if_address list"
  ie_sorted :: bool
  ie_on_event :: bool
  ie_on_close :: bool
  ie_closing :: bool
  ie_timer :: "u64 option"

datatype if_call = If_Event addr int | If_Close addr | If_Idle

text \<open>The state: the handles, the instance's list of listeners and reference count, and the calls of the user's callbacks so far.\<close>

record if_world =
  iw_event :: "addr \<Rightarrow> if_event"
  iw_listeners :: "addr list"
  iw_refs :: int
  iw_teardown :: bool
  iw_on_idle :: bool
  iw_calls :: "if_call list"

record if_env =
  ife_addresses :: "if_world \<Rightarrow> int \<times> if_address list"
  ife_qsort :: "if_address list \<Rightarrow> if_address list"
  ife_timer_init :: int
  ife_timer_start :: int
  ife_timer_stop :: int
  ife_callback :: "if_call \<Rightarrow> if_world \<Rightarrow> if_world"

definition if_call :: "if_env \<Rightarrow> if_call \<Rightarrow> if_world \<Rightarrow> if_world" where
  "if_call env c w = ife_callback env c (w\<lparr>iw_calls := iw_calls w @ [c]\<rparr>)"

definition upd_event :: "addr \<Rightarrow> (if_event \<Rightarrow> if_event) \<Rightarrow> if_world \<Rightarrow> if_world" where
  "upd_event p f w = w\<lparr>iw_event := (iw_event w)(p := f (iw_event w p))\<rparr>"

text \<open>The loop of the poll: counter, new and previous addresses, whether the new ones were sorted.  The result says whether a
  change was found.\<close>

function poll_loop :: "(if_address list \<Rightarrow> if_address list) \<Rightarrow> bool \<Rightarrow> nat \<Rightarrow> if_address list \<Rightarrow> if_address list \<Rightarrow> bool
    \<Rightarrow> bool \<times> if_address list \<times> bool" where
  "poll_loop qsort prev_sorted i addrs prev srt =
    (if i < length addrs then
       if cmp_interface (addrs ! i) (prev ! i) = 0 then poll_loop qsort prev_sorted (i + 1) addrs prev srt
       else if srt then (True, addrs, srt)
       else poll_loop qsort prev_sorted (0 + 1) (qsort addrs) (if prev_sorted then prev else qsort prev) True
     else (False, addrs, srt))"
  by pat_completeness auto
termination
  by (relation "measures [\<lambda>(_, _, i, addrs, prev, srt). of_bool (\<not> srt), \<lambda>(_, _, i, addrs, prev, srt). length addrs - i]") auto

declare poll_loop.simps [simp del]

definition on_interface_event_interval :: "if_env \<Rightarrow> addr \<Rightarrow> if_world \<Rightarrow> if_world option" where
  "on_interface_event_interval env p w =
    (let handle = iw_event w p; prev_addrs = ie_addrs handle; prev_sorted = ie_sorted handle;
         (err, addrs) = ife_addresses env w;
         w = upd_event p (\<lambda>h. h\<lparr>ie_addrs := addrs\<rparr>) w
     in if err < 0 then do { c_assert (ie_on_event handle); Some (if_call env (If_Event p err) w) }
        else
          let (changed, addrs, srt) =
                (if length addrs \<noteq> length prev_addrs then (True, addrs, False)
                 else poll_loop (ife_qsort env) prev_sorted 0 addrs prev_addrs False);
              w = upd_event p (\<lambda>h. h\<lparr>ie_addrs := addrs, ie_sorted := srt\<rparr>) w
          in if changed then do { c_assert (ie_on_event handle); Some (if_call env (If_Event p 0) w) }
             else Some (upd_event p (\<lambda>h. h\<lparr>ie_sorted := prev_sorted\<rparr>) w))"

section \<open>The calls on a handle\<close>

definition if_ref_dec :: "if_env \<Rightarrow> if_world \<Rightarrow> if_world" where
  "if_ref_dec env w =
    (let w = w\<lparr>iw_refs := iw_refs w - 1\<rparr>
     in if iw_refs w \<noteq> 0 then w else if iw_on_idle w then if_call env If_Idle w else w)"

definition on_interface_event_close :: "if_env \<Rightarrow> addr \<Rightarrow> if_world \<Rightarrow> if_world" where
  "on_interface_event_close env p w =
    (let w = w\<lparr>iw_listeners := remove1 p (iw_listeners w)\<rparr>;
         w = (if ie_on_close (iw_event w p) then if_call env (If_Close p) w else w)
     in if_ref_dec env w)"

definition IF_EINVAL :: int where "IF_EINVAL = -22"

definition udx_interface_event_init :: "if_env \<Rightarrow> addr \<Rightarrow> bool \<Rightarrow> if_world \<Rightarrow> int \<times> if_world" where
  "udx_interface_event_init env p cb w =
    (if iw_teardown w then (IF_EINVAL, w)
     else
       let w = upd_event p (\<lambda>h. h\<lparr>ie_sorted := False, ie_on_close := cb, ie_closing := False\<rparr>) w;
           (err, addrs) = ife_addresses env w;
           w = upd_event p (\<lambda>h. h\<lparr>ie_addrs := addrs\<rparr>) w
       in if err < 0 then (err, w)
          else if ife_timer_init env < 0 then (ife_timer_init env, w)
          else (0, w\<lparr>iw_refs := iw_refs w + 1, iw_listeners := p # iw_listeners w\<rparr>))"

definition udx_interface_event_start :: "if_env \<Rightarrow> addr \<Rightarrow> u64 \<Rightarrow> if_world \<Rightarrow> int \<times> if_world" where
  "udx_interface_event_start env p frequency w =
    (let w = upd_event p (\<lambda>h. h\<lparr>ie_on_event := True\<rparr>) w; err = ife_timer_start env
     in if err < 0 then (err, w) else (0, upd_event p (\<lambda>h. h\<lparr>ie_timer := Some frequency\<rparr>) w))"

definition udx_interface_event_stop :: "if_env \<Rightarrow> addr \<Rightarrow> if_world \<Rightarrow> int \<times> if_world" where
  "udx_interface_event_stop env p w =
    (let w = upd_event p (\<lambda>h. h\<lparr>ie_on_event := False\<rparr>) w; err = ife_timer_stop env
     in if err < 0 then (err, w) else (0, upd_event p (\<lambda>h. h\<lparr>ie_timer := None\<rparr>) w))"

text \<open>The result says whether the timer handle was handed to \<open>uv_close\<close>, which calls \<open>on_interface_event_close\<close> later.\<close>

definition udx_interface_event_close :: "if_env \<Rightarrow> addr \<Rightarrow> if_world \<Rightarrow> int \<times> bool \<times> if_world" where
  "udx_interface_event_close env p w =
    (if ie_closing (iw_event w p) then (IF_EINVAL, False, w)
     else
       let w = upd_event p (\<lambda>h. h\<lparr>ie_closing := True, ie_on_event := False, ie_addrs := []\<rparr>) w; err = ife_timer_stop env
       in if err < 0 then (err, False, w) else (0, True, upd_event p (\<lambda>h. h\<lparr>ie_timer := None\<rparr>) w))"

section \<open>The comparison is an order\<close>

definition if_key :: "if_address \<Rightarrow> u8 list \<times> u8 list" where
  "if_key a = (c_string (ia_phys_addr a), ia_address a)"

lemma bytes_cmp_less: "bytes_cmp xs ys < 0 \<longleftrightarrow> xs < ys"
  by (induction xs ys rule: bytes_cmp.induct) auto

lemma bytes_cmp_zero: "bytes_cmp xs ys = 0 \<longleftrightarrow> xs = ys"
  by (induction xs ys rule: bytes_cmp.induct) auto

lemma cmp_interface_zero: "cmp_interface a b = 0 \<longleftrightarrow> if_key a = if_key b"
  by (auto simp: cmp_interface_def if_key_def Let_def bytes_cmp_zero)

lemma cmp_interface_less: "cmp_interface a b < 0 \<longleftrightarrow> if_key a < if_key b"
  using bytes_cmp_zero bytes_cmp_less by (auto simp: cmp_interface_def if_key_def Let_def less_prod_def)

text \<open>What \<open>qsort\<close> promises with the comparison.\<close>

definition sorts :: "(if_address list \<Rightarrow> if_address list) \<Rightarrow> bool" where
  "sorts qsort \<longleftrightarrow> (\<forall>xs. mset (qsort xs) = mset xs \<and> sorted_wrt (\<lambda>a b. cmp_interface a b \<le> 0) (qsort xs))"

lemma cmp_interface_le: "cmp_interface a b \<le> 0 \<longleftrightarrow> if_key a \<le> if_key b"
  using cmp_interface_zero [of a b] cmp_interface_less [of a b] by (auto simp: order_le_less)

definition keys_sorted :: "if_address list \<Rightarrow> bool" where
  "keys_sorted xs \<longleftrightarrow> sorted (map if_key xs)"

lemma sorted_keys: "sorted_wrt (\<lambda>a b. cmp_interface a b \<le> 0) xs = keys_sorted xs"
  by (simp add: keys_sorted_def cmp_interface_le sorted_wrt_map)

lemma sortsD:
  assumes "sorts qsort"
  shows "mset (qsort xs) = mset xs" "keys_sorted (qsort xs)" "length (qsort xs) = length xs"
  using assms mset_eq_length [of "qsort xs" xs] by (auto simp: sorts_def sorted_keys)

lemma sorted_keys_unique:
  assumes "mset xs = mset ys" "keys_sorted xs" "keys_sorted ys"
  shows "map if_key xs = map if_key ys"
proof -
  have "mset (map if_key xs) = mset (map if_key ys)" using assms(1) by simp
  then show ?thesis using assms(2,3) unfolding keys_sorted_def by (metis properties_for_sort)
qed

section \<open>What the loop finds\<close>

lemma ex_from: "(\<exists>j. i \<le> j \<and> j < n \<and> P j) \<longleftrightarrow> i < n \<and> P i \<or> (\<exists>j. i + 1 \<le> j \<and> j < n \<and> P j)" (is "?l \<longleftrightarrow> ?r") for i n :: nat
proof
  assume ?l
  then obtain j where j: "i \<le> j" "j < n" "P j" by blast
  then show ?r by (cases "j = i") auto
next
  assume ?r
  then show ?l using Suc_leD by (metis Suc_eq_plus1 order_refl)
qed

lemma poll_sorted:
  "poll_loop qsort ps i addrs prev True = (\<exists>j. i \<le> j \<and> j < length addrs \<and> if_key (addrs ! j) \<noteq> if_key (prev ! j), addrs, True)"
proof (induction "length addrs - i" arbitrary: i rule: less_induct)
  case less
  show ?case
  proof (cases "i < length addrs \<and> if_key (addrs ! i) = if_key (prev ! i)")
    case True
    then have "poll_loop qsort ps i addrs prev True = poll_loop qsort ps (i + 1) addrs prev True"
      by (subst poll_loop.simps) (simp add: cmp_interface_zero)
    also have "\<dots> = (\<exists>j. i + 1 \<le> j \<and> j < length addrs \<and> if_key (addrs ! j) \<noteq> if_key (prev ! j), addrs, True)"
      using True by (intro less.hyps diff_less_mono2) simp_all
    finally show ?thesis using True by (subst ex_from) simp
  next
    case False
    then show ?thesis by (subst poll_loop.simps) (auto simp: cmp_interface_zero)
  qed
qed

lemma poll_unsorted:
  assumes "length prev = length addrs"
  shows "poll_loop qsort ps i addrs prev False =
    (if \<exists>j. i \<le> j \<and> j < length addrs \<and> if_key (addrs ! j) \<noteq> if_key (prev ! j)
     then poll_loop qsort ps 1 (qsort addrs) (if ps then prev else qsort prev) True else (False, addrs, False))"
proof (induction "length addrs - i" arbitrary: i rule: less_induct)
  case less
  show ?case
  proof (cases "i < length addrs \<and> if_key (addrs ! i) = if_key (prev ! i)")
    case True
    then have "poll_loop qsort ps i addrs prev False = poll_loop qsort ps (i + 1) addrs prev False"
      by (subst poll_loop.simps) (simp add: cmp_interface_zero)
    moreover have "(\<exists>j. i + 1 \<le> j \<and> j < length addrs \<and> if_key (addrs ! j) \<noteq> if_key (prev ! j))
        = (\<exists>j. i \<le> j \<and> j < length addrs \<and> if_key (addrs ! j) \<noteq> if_key (prev ! j))"
      using True by (subst (2) ex_from) simp
    moreover have "length addrs - (i + 1) < length addrs - i" using True by (intro diff_less_mono2) simp_all
    ultimately show ?thesis using less.hyps [of "i + 1"] by simp
  next
    case False
    then show ?thesis by (subst poll_loop.simps) (auto simp: cmp_interface_zero)
  qed
qed

definition poll_changed :: "(if_address list \<Rightarrow> if_address list) \<Rightarrow> bool \<Rightarrow> if_address list \<Rightarrow> if_address list \<Rightarrow> bool" where
  "poll_changed qsort ps addrs prev \<longleftrightarrow> fst (poll_loop qsort ps 0 addrs prev False)"

lemma poll_loop_result:
  assumes "length prev = length addrs"
  shows "poll_loop qsort ps 0 addrs prev False =
    (if map if_key addrs = map if_key prev then (False, addrs, False)
     else (\<exists>j. 1 \<le> j \<and> j < length (qsort addrs) \<and> if_key (qsort addrs ! j) \<noteq> if_key ((if ps then prev else qsort prev) ! j),
       qsort addrs, True))"
proof -
  have "map if_key addrs = map if_key prev \<longleftrightarrow> \<not> (\<exists>j. 0 \<le> j \<and> j < length addrs \<and> if_key (addrs ! j) \<noteq> if_key (prev ! j))"
    using assms by (auto simp: list_eq_iff_nth_eq)
  then show ?thesis unfolding poll_unsorted [OF assms] poll_sorted by simp
qed
section \<open>Properties\<close>

text \<open>The poll of a handle that the user started, when the system call succeeds.\<close>

lemma poll_eq:
  assumes "ife_addresses env w = (err, addrs)" "err \<ge> 0" "ie_on_event (iw_event w p)" "length addrs = length (ie_addrs (iw_event w p))"
    and "poll_loop (ife_qsort env) (ie_sorted (iw_event w p)) 0 addrs (ie_addrs (iw_event w p)) False = (changed, addrs', srt)"
  shows "on_interface_event_interval env p w =
    Some (if changed then if_call env (If_Event p 0) (upd_event p (\<lambda>h. h\<lparr>ie_addrs := addrs', ie_sorted := srt\<rparr>) w)
          else upd_event p (\<lambda>h. h\<lparr>ie_addrs := addrs', ie_sorted := ie_sorted (iw_event w p)\<rparr>) w)"
  using assms by (simp add: on_interface_event_interval_def Let_def upd_event_def not_less [symmetric])

text \<open>The same interfaces in another order are not a change: the poll calls nobody, whatever the order of the system's list is.\<close>

theorem poll_reordered_silent:
  assumes "sorts (ife_qsort env)" and "ife_addresses env w = (0, addrs)" and "ie_on_event (iw_event w p)"
    and "mset addrs = mset (ie_addrs (iw_event w p))" and "ie_sorted (iw_event w p) \<longrightarrow> keys_sorted (ie_addrs (iw_event w p))"
  shows "\<exists>w'. on_interface_event_interval env p w = Some w' \<and> iw_calls w' = iw_calls w \<and> mset (ie_addrs (iw_event w' p)) = mset addrs"
proof -
  let ?prev = "ie_addrs (iw_event w p)" let ?ps = "ie_sorted (iw_event w p)" let ?q = "ife_qsort env"
  let ?prev' = "if ?ps then ?prev else ?q ?prev"
  note q = sortsD [OF assms(1)]
  have len: "length ?prev = length addrs" using mset_eq_length [OF assms(4)] by simp
  have "mset (?q addrs) = mset ?prev'" "keys_sorted ?prev'" using assms(4,5) q by simp_all
  then have same: "map if_key (?q addrs) = map if_key ?prev'" using sorted_keys_unique q(2) by blast
  then have "if_key (?q addrs ! j) = if_key (?prev' ! j)" if "j < length (?q addrs)" for j
    using that by (metis length_map nth_map)
  then obtain addrs' srt where r: "poll_loop ?q ?ps 0 addrs ?prev False = (False, addrs', srt)" "mset addrs' = mset addrs"
    unfolding poll_loop_result [OF len] using q(1) by (cases "map if_key addrs = map if_key ?prev") auto
  show ?thesis using poll_eq [OF assms(2) _ assms(3) len [symmetric] r(1)] r(2) by (simp add: upd_event_def)
qed

text \<open>A sorting function for the examples.\<close>

fun if_insert :: "if_address \<Rightarrow> if_address list \<Rightarrow> if_address list" where
  "if_insert a [] = [a]"
| "if_insert a (b # bs) = (if cmp_interface a b \<le> 0 then a # b # bs else b # if_insert a bs)"

definition if_isort :: "if_address list \<Rightarrow> if_address list" where
  "if_isort xs = foldr if_insert xs []"

lemma if_insert_mset: "mset (if_insert a bs) = add_mset a (mset bs)"
  by (induction bs) simp_all

lemma if_insert_sorted: "keys_sorted bs \<Longrightarrow> keys_sorted (if_insert a bs)"
proof (induction bs)
  case (Cons b bs)
  have "set (if_insert a bs) = insert a (set bs)" using arg_cong [OF if_insert_mset, of set_mset a bs] by simp
  then show ?case using Cons by (auto simp: keys_sorted_def cmp_interface_le)
qed (simp add: keys_sorted_def)

lemma if_isort_sorts: "sorts if_isort"
proof -
  have "mset (if_isort xs) = mset xs \<and> keys_sorted (if_isort xs)" for xs
    unfolding if_isort_def by (induction xs) (simp_all add: if_insert_mset if_insert_sorted keys_sorted_def [of "[]"])
  then show ?thesis by (simp add: sorts_def sorted_keys)
qed

definition if_lo :: if_address where "if_lo = \<lparr>ia_phys_addr = [0, 0, 0, 0, 0, 0], ia_address = [127, 0, 0, 1]\<rparr>"
definition if_eth :: if_address where "if_eth = \<lparr>ia_phys_addr = [2, 1, 1, 1, 1, 1], ia_address = [10, 0, 0, 5]\<rparr>"

definition demo_if_env :: "if_address list \<Rightarrow> if_env" where
  "demo_if_env addrs = \<lparr>ife_addresses = (\<lambda>_. (0, addrs)), ife_qsort = if_isort, ife_timer_init = 0, ife_timer_start = 0, ife_timer_stop = 0,
     ife_callback = (\<lambda>_ w. w)\<rparr>"

definition demo_if_world :: "if_address list \<Rightarrow> if_world" where
  "demo_if_world addrs = \<lparr>iw_event = (\<lambda>_. \<lparr>ie_addrs = addrs, ie_sorted = False, ie_on_event = True, ie_on_close = False, ie_closing = False, ie_timer = Some 1\<rparr>),
     iw_listeners = [7], iw_refs = 1, iw_teardown = False, iw_on_idle = False, iw_calls = []\<rparr>"

theorem poll_reordered_silent_witness:
  "\<exists>w'. on_interface_event_interval (demo_if_env [if_eth, if_lo]) 7 (demo_if_world [if_lo, if_eth]) = Some w' \<and> iw_calls w' = []"
  using poll_reordered_silent [of "demo_if_env [if_eth, if_lo]" "demo_if_world [if_lo, if_eth]" "[if_eth, if_lo]" 7] if_isort_sorts
  by (auto simp: demo_if_env_def demo_if_world_def)

text \<open>C40. What a poll does not see: lists of the same length that agree, once sorted, in all positions but the first.  In
  particular a machine with one interface never reports that its address changed.\<close>

theorem poll_first_not_compared:
  assumes "sorts (ife_qsort env)" and "ife_addresses env w = (0, addrs)" and "ie_on_event (iw_event w p)"
    and "length addrs = length (ie_addrs (iw_event w p))" and "\<not> ie_sorted (iw_event w p)"
    and "tl (map if_key (ife_qsort env addrs)) = tl (map if_key (ife_qsort env (ie_addrs (iw_event w p))))"
  shows "\<exists>w'. on_interface_event_interval env p w = Some w' \<and> iw_calls w' = iw_calls w"
proof -
  let ?prev = "ie_addrs (iw_event w p)" let ?q = "ife_qsort env"
  note q = sortsD [OF assms(1)]
  have len: "length ?prev = length addrs" using assms(4) by simp
  have "if_key (?q addrs ! j) = if_key (?q ?prev ! j)" if j: "1 \<le> j" "j < length (?q addrs)" for j
  proof -
    have "tl (map if_key (?q addrs)) ! (j - 1) = if_key (?q addrs ! j)" "tl (map if_key (?q ?prev)) ! (j - 1) = if_key (?q ?prev ! j)"
      using j q(3) len by (simp_all add: nth_tl)
    then show ?thesis using assms(6) by simp
  qed
  then obtain addrs' srt where r: "poll_loop ?q False 0 addrs ?prev False = (False, addrs', srt)"
    unfolding poll_loop_result [OF len] by (cases "map if_key addrs = map if_key ?prev") auto
  show ?thesis using poll_eq [OF assms(2) _ assms(3,4)] r assms(5) by (simp add: upd_event_def)
qed

theorem poll_first_not_compared_witness:
  "if_key if_eth \<noteq> if_key if_lo \<and> (\<exists>w'. on_interface_event_interval (demo_if_env [if_eth]) 7 (demo_if_world [if_lo]) = Some w' \<and> iw_calls w' = [])"
proof -
  have "if_key if_eth \<noteq> if_key if_lo" by (simp add: if_key_def if_eth_def if_lo_def c_string_def)
  then show ?thesis
    using poll_first_not_compared [of "demo_if_env [if_eth]" "demo_if_world [if_lo]" "[if_eth]" 7] if_isort_sorts
    by (simp add: demo_if_env_def demo_if_world_def if_isort_def)
qed

text \<open>After a poll the flag \<open>sorted\<close> of the handle is right: when it is set, the stored list is sorted, so that the next poll may skip
  sorting it.\<close>

theorem poll_sorted_flag:
  assumes "sorts (ife_qsort env)" and "\<And>c v. ife_callback env c v = v"
    and "ie_sorted (iw_event w p) \<Longrightarrow> keys_sorted (ie_addrs (iw_event w p))"
    and "fst (ife_addresses env w) \<ge> 0" and "on_interface_event_interval env p w = Some w'"
  shows "ie_sorted (iw_event w' p) \<longrightarrow> keys_sorted (ie_addrs (iw_event w' p))"
proof -
  let ?prev = "ie_addrs (iw_event w p)" let ?ps = "ie_sorted (iw_event w p)" let ?q = "ife_qsort env"
  obtain err addrs where a: "ife_addresses env w = (err, addrs)" "err \<ge> 0" using assms(4) by (cases "ife_addresses env w") simp
  show ?thesis
  proof (cases "length addrs = length ?prev")
    case False
    then show ?thesis
      using assms(5) a by (auto simp: on_interface_event_interval_def Let_def upd_event_def if_call_def assms(2) not_less [symmetric] bind_eq_Some_conv)
  next
    case True
    obtain changed addrs' srt where r: "poll_loop ?q ?ps 0 addrs ?prev False = (changed, addrs', srt)" by (metis prod_cases3)
    have "srt \<longrightarrow> keys_sorted addrs'" "\<not> changed \<longrightarrow> ?ps \<longrightarrow> keys_sorted addrs'"
      using r poll_loop_result [OF True [symmetric], of ?q ?ps] sortsD(2) [OF assms(1)] assms(3)
      by (auto simp: keys_sorted_def split: if_splits)
    then show ?thesis
      using assms(5) a True r
      by (auto simp: on_interface_event_interval_def Let_def upd_event_def if_call_def assms(2) not_less [symmetric] bind_eq_Some_conv split: if_splits)
  qed
qed

theorem poll_sorted_flag_witness:
  "\<exists>w'. on_interface_event_interval (demo_if_env [if_eth, if_lo]) 7 (demo_if_world [if_lo]) = Some w'
     \<and> (\<not> ie_sorted (iw_event w' 7) \<or> keys_sorted (ie_addrs (iw_event w' 7)))"
proof -
  obtain w' where w': "on_interface_event_interval (demo_if_env [if_eth, if_lo]) 7 (demo_if_world [if_lo]) = Some w'"
    by (auto simp: on_interface_event_interval_def demo_if_env_def demo_if_world_def upd_event_def Let_def)
  show ?thesis
    using poll_sorted_flag [OF _ _ _ _ w'] w' if_isort_sorts by (auto simp: demo_if_env_def demo_if_world_def)
qed

end
