(* ===== verification/Udx_Socket.thy ===== *)
theory Udx_Socket
  imports Udx_Api Udx_Cirbuf
begin

text \<open>
  The instance and its sockets: \<open>udx_t\<close>, \<open>udx_socket_t\<close>, the requests of \<open>udx_socket_send_ttl\<close> and time-wait records
  (\<open>include/udx.h\<close>, \<open>src/udx.c\<close>), and the calls on a socket.  Objects live in stores indexed by address, the lists of
  sockets and streams are the ones \<open>Udx_Link\<close> implements, the table of ids the map that \<open>Udx_Stream_Table\<close>
  implements.  The results of the calls into libuv are parameters, and so is what the user's callbacks do.

  Shown: a request with a time-to-live of its own that cannot be sent at once is queued, and the retry, which sets
  the socket's time-to-live back, answers and removes requests in order from the front only; closing answers each that is left.
\<close>

section \<open>State\<close>

record udx_send_request =
  sr_ttl :: u32
  sr_buf :: "u8 list"
  sr_remote_addr :: sockaddr
  sr_on_send :: bool

record udx_timewait =
  tw_local_id :: u32
  tw_remote_addr :: sockaddr
  tw_socket :: addr
  tw_header :: "u8 list"
  tw_timer :: "u64 option"

record udx_socket =
  so_nrefs :: int
  so_specific_ttl_send_queue :: "addr list"
  so_streams :: "addr list"
  so_timewait_queue :: "addr list"
  so_family :: int
  so_status :: u32
  so_ttl :: int
  so_uv_ttl :: int
  so_ttl_check :: bool
  so_ttl_check_timer :: bool
  so_on_recv :: bool
  so_on_close :: bool
  so_bytes_rx :: u64
  so_bytes_tx :: u64
  so_packets_rx :: u64
  so_packets_tx :: u64
  so_packets_dropped_by_kernel :: int

datatype udx_entry = Stream_Entry addr | Timewait_Entry addr

text \<open>What the user is told and what leaves the program: \<open>Sent\<close> is a datagram of a socket with the time-to-live it has.\<close>

datatype udx_event =
    On_Send addr int
  | On_Socket_Recv addr "u8 list" sockaddr
  | On_Socket_Close addr
  | On_Finalize addr
  | On_Idle
  | Sent addr int sockaddr "u8 list"
  | Stream_Output addr udx_output

record udx =
  u_now :: u64
  u_debug_flags :: u32
  u_refs :: int
  u_teardown :: bool
  u_on_idle :: bool
  u_sockets :: "addr list"
  u_streams :: "addr list"
  u_table :: "u32 \<rightharpoonup> udx_entry"
  u_bytes_rx :: u64
  u_bytes_tx :: u64
  u_packets_rx :: u64
  u_packets_tx :: u64
  u_packets_dropped_by_kernel :: int
  u_socket :: "addr \<Rightarrow> udx_socket"
  u_stream :: "addr \<Rightarrow> world"
  u_stream_nrefs :: "addr \<Rightarrow> int"
  u_stream_on_finalize :: "addr \<Rightarrow> bool"
  u_relaying :: "addr \<Rightarrow> addr cirbuf"
  u_timewait :: "addr \<Rightarrow> udx_timewait"
  u_next_timewait :: addr
  u_request :: "addr \<Rightarrow> udx_send_request"
  u_drop_count :: u32
  u_ios :: nat
  u_log :: "udx_event list"

text \<open>The environment of an instance: that of its streams (\<open>env_try_send\<close> and \<open>env_udp_send\<close> decide the result of the n-th send of any
  socket), what a callback of a socket does to the instance, and the results of the calls of \<open>udx_socket_bind\<close> and \<open>udx_socket_set_ttl\<close>.\<close>

record udx_env =
  ue_env :: env
  ue_callback :: "udx_event \<Rightarrow> udx \<Rightarrow> udx"
  ue_bind :: int
  ue_set_ttl :: int
  ue_sndbuf :: int
  ue_rcvbuf :: "int \<Rightarrow> int"
  ue_recv_start :: int

definition UDX_SOCKET_RECEIVING :: u32 where "UDX_SOCKET_RECEIVING = 1"
definition UDX_SOCKET_CLOSED :: u32 where "UDX_SOCKET_CLOSED = 4"
definition UDX_DEFAULT_TTL :: int where "UDX_DEFAULT_TTL = 64"
definition UDX_DEBUG_FORCE_SEND_SLOW_PATH :: u32 where "UDX_DEBUG_FORCE_SEND_SLOW_PATH = 8"
definition UV_EALREADY :: int where "UV_EALREADY = -114"
definition UV_EBUSY :: int where "UV_EBUSY = -16"

abbreviation upd_socket :: "addr \<Rightarrow> (udx_socket \<Rightarrow> udx_socket) \<Rightarrow> udx \<Rightarrow> udx" where
  "upd_socket p f u \<equiv> u\<lparr>u_socket := (u_socket u)(p := f (u_socket u p))\<rparr>"

definition tell :: "udx_env \<Rightarrow> udx_event \<Rightarrow> udx \<Rightarrow> udx" where
  "tell e ev u = ue_callback e ev (u\<lparr>u_log := u_log u @ [ev]\<rparr>)"

section \<open>The instance\<close>

definition udx_init :: "u64 \<Rightarrow> u32 \<Rightarrow> bool \<Rightarrow> udx" where
  "udx_init now debug_flags on_idle =
    \<lparr>u_now = now, u_debug_flags = debug_flags, u_refs = 0, u_teardown = False, u_on_idle = on_idle, u_sockets = [], u_streams = [],
     u_table = Map.empty, u_bytes_rx = 0, u_bytes_tx = 0, u_packets_rx = 0, u_packets_tx = 0, u_packets_dropped_by_kernel = - 1,
     u_socket = (\<lambda>_. \<lparr>so_nrefs = 0, so_specific_ttl_send_queue = [], so_streams = [], so_timewait_queue = [], so_family = 0,
       so_status = 0, so_ttl = 0, so_uv_ttl = 0, so_ttl_check = False, so_ttl_check_timer = False, so_on_recv = False, so_on_close = False,
       so_bytes_rx = 0, so_bytes_tx = 0, so_packets_rx = 0, so_packets_tx = 0, so_packets_dropped_by_kernel = 0\<rparr>),
     u_stream = (\<lambda>_. zero_stream 0 0), u_stream_nrefs = (\<lambda>_. 0), u_stream_on_finalize = (\<lambda>_. False),
     u_relaying = (\<lambda>_. \<lparr>cb_size = 0, cb_mask = 0, cb_values = []\<rparr>),
     u_timewait = (\<lambda>_. \<lparr>tw_local_id = 0, tw_remote_addr = zero_sockaddr, tw_socket = NULL, tw_header = [], tw_timer = None\<rparr>),
     u_next_timewait = 1,
     u_request = (\<lambda>_. \<lparr>sr_ttl = 0, sr_buf = [], sr_remote_addr = zero_sockaddr, sr_on_send = False\<rparr>), u_drop_count = 0, u_ios = 0, u_log = []\<rparr>"

definition udx_is_idle :: "udx \<Rightarrow> bool" where
  "udx_is_idle u \<longleftrightarrow> u_refs u = 0"

definition ref_dec :: "udx_env \<Rightarrow> udx \<Rightarrow> udx" where
  "ref_dec e u =
    (let u = u\<lparr>u_refs := u_refs u - 1\<rparr>
     in if u_refs u \<noteq> 0 then u else if u_on_idle u then tell e On_Idle u else u)"

text \<open>One of the three handles of a socket, or of a stream, has been closed.\<close>

definition on_udx_socket_handle_close :: "udx_env \<Rightarrow> addr \<Rightarrow> udx \<Rightarrow> udx" where
  "on_udx_socket_handle_close e p u =
    (let u = upd_socket p (\<lambda>s. s\<lparr>so_nrefs := so_nrefs s - 1\<rparr>) u
     in if so_nrefs (u_socket u p) = 0
        then (let u = (if so_on_close (u_socket u p) then tell e (On_Socket_Close p) u else u) in ref_dec e u)
        else u)"

definition finalize_maybe :: "udx_env \<Rightarrow> addr \<Rightarrow> udx \<Rightarrow> udx" where
  "finalize_maybe e a u =
    (let u = u\<lparr>u_stream_nrefs := (u_stream_nrefs u)(a := u_stream_nrefs u a - 1)\<rparr>
     in if u_stream_nrefs u a > 0 then u
        else ref_dec e (if u_stream_on_finalize u a then tell e (On_Finalize a) u else u))"

section \<open>Sockets\<close>

definition udx_socket_init :: "addr \<Rightarrow> bool \<Rightarrow> udx \<Rightarrow> int \<times> udx" where
  "udx_socket_init p cb u =
    (if u_teardown u then (UV_EINVAL, u)
     else (0, u\<lparr>u_refs := u_refs u + 1, u_sockets := p # u_sockets u,
       u_socket := (u_socket u)(p := \<lparr>so_nrefs = 3, so_specific_ttl_send_queue = [], so_streams = [], so_timewait_queue = [],
         so_family = 0, so_status = 0, so_ttl = UDX_DEFAULT_TTL, so_uv_ttl = UDX_DEFAULT_TTL, so_ttl_check = False, so_ttl_check_timer = False, so_on_recv = False,
         so_on_close = cb, so_bytes_rx = 0, so_bytes_tx = 0, so_packets_rx = 0, so_packets_tx = 0, so_packets_dropped_by_kernel = - 1\<rparr>)\<rparr>))"

text \<open>A buffer size below one is refused; \<open>uv\<close> is the result of the system otherwise.\<close>

definition udx_socket_set_buffer_size :: "int \<Rightarrow> int \<Rightarrow> int" where
  "udx_socket_set_buffer_size uv value = (if value < 1 then UV_EINVAL else uv)"

definition udx_socket_get_ttl :: "addr \<Rightarrow> udx \<Rightarrow> int" where
  "udx_socket_get_ttl p u = so_ttl (u_socket u p)"

definition udx_socket_set_ttl :: "udx_env \<Rightarrow> addr \<Rightarrow> int \<Rightarrow> udx \<Rightarrow> int \<times> udx" where
  "udx_socket_set_ttl e p ttl u =
    (if ttl < 1 \<or> ttl > 255 then (UV_EINVAL, u)
     else let u = upd_socket p (\<lambda>s. s\<lparr>so_ttl := ttl\<rparr>) u
          in (ue_set_ttl e, if ue_set_ttl e = 0 then upd_socket p (\<lambda>s. s\<lparr>so_uv_ttl := ttl\<rparr>) u else u))"

text \<open>The receive buffer is asked for in smaller and smaller sizes until one is granted: the sizes tried and the last result.\<close>

fun try_rcvbuf :: "(int \<Rightarrow> int) \<Rightarrow> int \<Rightarrow> int list \<Rightarrow> int list \<times> int" where
  "try_rcvbuf grant err [] = ([], err)"
| "try_rcvbuf grant err (n # sizes) =
    (if grant n = 0 then ([n], 0)
     else (let (tried, err) = try_rcvbuf grant (grant n) sizes in (n # tried, err)))"

definition rcvbuf_sizes :: "int list" where
  "rcvbuf_sizes = [1024 * 1024, 512 * 1024, 256 * 1024, 208 * 1024]"

definition udx_socket_bind :: "udx_env \<Rightarrow> addr \<Rightarrow> sockaddr \<Rightarrow> udx \<Rightarrow> (int \<times> udx) option" where
  "udx_socket_bind e p a u =
    (case sa_family a of
       AF_OTHER \<Rightarrow> Some (UV_EINVAL, u)
     | family \<Rightarrow>
         let u = upd_socket p (\<lambda>s. s\<lparr>so_family := (if family = AF_INET then 4 else 6)\<rparr>) u in
         if ue_bind e \<noteq> 0 then Some (ue_bind e, u)
         else do {
           c_assert (ue_set_ttl e = 0);
           let u = upd_socket p (\<lambda>s. s\<lparr>so_uv_ttl := so_ttl s\<rparr>) u;
           c_assert (ue_sndbuf e = 0);
           c_assert (snd (try_rcvbuf (ue_rcvbuf e) 0 rcvbuf_sizes) = 0);
           Some (ue_recv_start e, u)
         })"

definition udx_socket_recv_start :: "addr \<Rightarrow> udx \<Rightarrow> int \<times> udx" where
  "udx_socket_recv_start p u =
    (if has_flag (so_status (u_socket u p)) UDX_SOCKET_RECEIVING then (UV_EALREADY, u)
     else (0, upd_socket p (\<lambda>s. s\<lparr>so_on_recv := True, so_status := so_status s OR UDX_SOCKET_RECEIVING\<rparr>) u))"

definition udx_socket_recv_stop :: "addr \<Rightarrow> udx \<Rightarrow> int \<times> udx" where
  "udx_socket_recv_stop p u =
    (if so_status (u_socket u p) AND UDX_SOCKET_RECEIVING = 0 then (0, u)
     else (0, upd_socket p (\<lambda>s. s\<lparr>so_on_recv := False, so_status := so_status s AND NOT UDX_SOCKET_RECEIVING\<rparr>) u))"

section \<open>Sending\<close>

definition set_uv_ttl :: "addr \<Rightarrow> int \<Rightarrow> udx \<Rightarrow> udx" where
  "set_uv_ttl p ttl u = upd_socket p (\<lambda>s. s\<lparr>so_uv_ttl := ttl\<rparr>) u"

text \<open>\<open>uv_udp_try_send\<close> on a socket.\<close>

definition socket_try_send :: "udx_env \<Rightarrow> addr \<Rightarrow> sockaddr \<Rightarrow> u8 list \<Rightarrow> udx \<Rightarrow> int \<times> udx" where
  "socket_try_send e p dest bytes u =
    (let err = env_try_send (ue_env e) (u_ios u); u = u\<lparr>u_ios := u_ios u + 1\<rparr>
     in (err, if err < 0 then u else u\<lparr>u_log := u_log u @ [Sent p (so_uv_ttl (u_socket u p)) dest bytes]\<rparr>))"

definition socket_udp_send :: "udx_env \<Rightarrow> addr \<Rightarrow> sockaddr \<Rightarrow> u8 list \<Rightarrow> udx \<Rightarrow> int \<times> udx" where
  "socket_udp_send e p dest bytes u =
    (let err = env_udp_send (ue_env e) (u_ios u); u = u\<lparr>u_ios := u_ios u + 1\<rparr>
     in (err, if err \<noteq> 0 then u else u\<lparr>u_log := u_log u @ [Sent p (so_uv_ttl (u_socket u p)) dest bytes]\<rparr>))"

definition answer_send :: "udx_env \<Rightarrow> addr \<Rightarrow> int \<Rightarrow> udx \<Rightarrow> udx" where
  "answer_send e r status u = (if sr_on_send (u_request u r) then tell e (On_Send r status) u else u)"

definition udx_socket_send_ttl :: "udx_env \<Rightarrow> addr \<Rightarrow> addr \<Rightarrow> u8 list \<Rightarrow> sockaddr \<Rightarrow> int \<Rightarrow> bool \<Rightarrow> udx \<Rightarrow> int \<times> udx" where
  "udx_socket_send_ttl e r p buf dest ttl cb u =
    (if ttl < 0 \<or> ttl > 255 then (UV_EINVAL, u)
     else if sa_family dest \<noteq> AF_INET \<and> sa_family dest \<noteq> AF_INET6 then (UV_EINVAL, u)
     else
       let u = u\<lparr>u_request := (u_request u)(r := \<lparr>sr_ttl = word_of_int ttl, sr_buf = buf, sr_remote_addr = dest, sr_on_send = cb\<rparr>)\<rparr>;
           dest = (if so_family (u_socket u p) = 6 \<and> sa_family dest = AF_INET then addr_to_v6 dest else dest);
           (err, u) =
             (if has_flag (u_debug_flags u) UDX_DEBUG_FORCE_SEND_SLOW_PATH then (UV_EAGAIN, u)
              else let u = (if ttl \<noteq> 0 then set_uv_ttl p ttl u else u);
                       (err, u) = socket_try_send e p dest buf u
                   in (err, if ttl \<noteq> 0 then set_uv_ttl p (so_ttl (u_socket u p)) u else u));
           u = (if err = UV_EAGAIN then
                  if ttl \<noteq> 0 then upd_socket p (\<lambda>s. s\<lparr>so_specific_ttl_send_queue := lq_tail r (so_specific_ttl_send_queue s),
                                                so_ttl_check := True, so_ttl_check_timer := True\<rparr>) u
                  else snd (socket_udp_send e p dest buf u)
                else answer_send e r 0 u)
       in (0, u))"

definition udx_socket_send :: "udx_env \<Rightarrow> addr \<Rightarrow> addr \<Rightarrow> u8 list \<Rightarrow> sockaddr \<Rightarrow> bool \<Rightarrow> udx \<Rightarrow> int \<times> udx" where
  "udx_socket_send e r p buf dest cb u = udx_socket_send_ttl e r p buf dest 0 cb u"

text \<open>The callback of the slow path of a plain send.\<close>

definition on_socket_send_slow :: "udx_env \<Rightarrow> addr \<Rightarrow> int \<Rightarrow> udx \<Rightarrow> udx" where
  "on_socket_send_slow e r status u = answer_send e r status u"

partial_function (option) retry_loop :: "udx_env \<Rightarrow> addr \<Rightarrow> udx \<Rightarrow> udx option" where
  "retry_loop e p u =
    (case so_specific_ttl_send_queue (u_socket u p) of
       [] \<Rightarrow> Some u
     | r # rest \<Rightarrow>
         let u = set_uv_ttl p (uint (sr_ttl (u_request u r))) u;
             (err, u) = socket_try_send e p (sr_remote_addr (u_request u r)) (sr_buf (u_request u r)) u
         in if err = UV_EAGAIN then Some u
            else retry_loop e p (answer_send e r 0
              (upd_socket p (\<lambda>s. s\<lparr>so_specific_ttl_send_queue := rest\<rparr>) u)))"

declare retry_loop.simps [code]

definition retry_send_specific_ttl :: "udx_env \<Rightarrow> addr \<Rightarrow> udx \<Rightarrow> udx option" where
  "retry_send_specific_ttl e p u = do {
     u \<leftarrow> retry_loop e p u;
     let u = set_uv_ttl p (so_ttl (u_socket u p)) u;
     Some (if so_specific_ttl_send_queue (u_socket u p) = []
       then upd_socket p (\<lambda>s. s\<lparr>so_ttl_check := False, so_ttl_check_timer := False\<rparr>) u else u)
   }"

section \<open>Time-wait\<close>

text \<open>After \<open>UDX_STREAM_TIMEWAIT_TIMEOUT_MS\<close> a time-wait record is taken out of the table and of its socket's queue.\<close>

definition UDX_STREAM_TIMEWAIT_TIMEOUT_MS :: u64 where "UDX_STREAM_TIMEWAIT_TIMEOUT_MS = 5000"

definition table_take :: "u32 \<Rightarrow> udx \<Rightarrow> udx_entry option \<times> udx" where
  "table_take i u = (u_table u i, u\<lparr>u_table := (u_table u)(i := None)\<rparr>)"

definition timewait_timeout :: "addr \<Rightarrow> udx \<Rightarrow> udx option" where
  "timewait_timeout t u = do {
     let p = tw_socket (u_timewait u t);
     let (entry, u) = table_take (tw_local_id (u_timewait u t)) u;
     c_assert (entry = Some (Timewait_Entry t));
     rest \<leftarrow> lq_unlink t (so_timewait_queue (u_socket u p));
     let u = upd_socket p (\<lambda>s. s\<lparr>so_timewait_queue := rest\<rparr>) u;
     Some (u\<lparr>u_timewait := (u_timewait u)(t := (u_timewait u t)\<lparr>tw_timer := None\<rparr>)\<rparr>)
   }"

definition process_timewait :: "udx_env \<Rightarrow> addr \<Rightarrow> u8 \<Rightarrow> udx \<Rightarrow> udx" where
  "process_timewait e t type u =
    (if type AND UDX_HEADER_DATA_OR_END = 0 then u
     else let tw = u_timewait u t;
              (err, u) = socket_try_send e (tw_socket tw) (tw_remote_addr tw) (tw_header tw) u
          in if err = UV_EAGAIN then snd (socket_udp_send e (tw_socket tw) (tw_remote_addr tw) (tw_header tw) u) else u)"

section \<open>Closing a socket\<close>

text \<open>\<open>uv_close\<close> aborts on a handle that is closing already: closing a socket twice is \<open>None\<close>.\<close>

partial_function (option) close_timewaits :: "addr \<Rightarrow> udx \<Rightarrow> udx option" where
  "close_timewaits p u =
    (case so_timewait_queue (u_socket u p) of
       [] \<Rightarrow> Some u
     | t # _ \<Rightarrow> do { u \<leftarrow> timewait_timeout t u; close_timewaits p u })"

partial_function (option) cancel_sends :: "udx_env \<Rightarrow> addr \<Rightarrow> udx \<Rightarrow> udx option" where
  "cancel_sends e p u =
    (case so_specific_ttl_send_queue (u_socket u p) of
       [] \<Rightarrow> Some u
     | r # rest \<Rightarrow> cancel_sends e p (answer_send e r UV_ECANCELED
         (upd_socket p (\<lambda>s. s\<lparr>so_specific_ttl_send_queue := rest\<rparr>) u)))"

declare close_timewaits.simps [code] cancel_sends.simps [code]

definition udx_socket_close :: "udx_env \<Rightarrow> addr \<Rightarrow> udx \<Rightarrow> (int \<times> udx) option" where
  "udx_socket_close e p u =
    (if so_streams (u_socket u p) \<noteq> [] then Some (UV_EBUSY, u)
     else do {
       c_assert (so_status (u_socket u p) AND UDX_SOCKET_CLOSED = 0);
       let u = upd_socket p (\<lambda>s. s\<lparr>so_status := so_status s OR UDX_SOCKET_CLOSED, so_ttl_check := False, so_ttl_check_timer := False\<rparr>) u;
       u \<leftarrow> close_timewaits p u;
       u \<leftarrow> cancel_sends e p u;
       Some (0, u\<lparr>u_sockets := remove1 p (u_sockets u)\<rparr>)
     })"

section \<open>Requests with their own time-to-live\<close>

text \<open>A user that does nothing in the callbacks.\<close>

definition quiet :: "udx_env \<Rightarrow> bool" where
  "quiet e \<longleftrightarrow> (\<forall>ev u. ue_callback e ev u = u)"

definition answers :: "udx_event list \<Rightarrow> udx_event list" where
  "answers evs = filter (\<lambda>ev. case ev of On_Send r status \<Rightarrow> True | _ \<Rightarrow> False) evs"

definition answer_for :: "udx \<Rightarrow> int \<Rightarrow> addr list \<Rightarrow> udx_event list" where
  "answer_for u status rs = map (\<lambda>r. On_Send r status) (filter (\<lambda>r. sr_on_send (u_request u r)) rs)"

lemma answers_append [simp]: "answers (xs @ ys) = answers xs @ answers ys"
  by (simp add: answers_def)

lemma answer_for_append [simp]: "answer_for u status (xs @ ys) = answer_for u status xs @ answer_for u status ys"
  by (simp add: answer_for_def)

text \<open>What sending and answering leave alone: all but the log, the counter of the system calls and parts of one socket.\<close>

definition socket_rest :: "addr \<Rightarrow> udx \<Rightarrow> udx" where
  "socket_rest p u = u\<lparr>u_socket := (u_socket u)(p := (u_socket u p)\<lparr>so_specific_ttl_send_queue := [], so_uv_ttl := 0\<rparr>), u_ios := 0, u_log := []\<rparr>"

lemma socket_rest_same:
  assumes "socket_rest p u' = socket_rest p u"
  shows "u_request u' = u_request u" "u_table u' = u_table u" "u_timewait u' = u_timewait u" "u_stream u' = u_stream u" "u_sockets u' = u_sockets u"
    "so_ttl (u_socket u' p) = so_ttl (u_socket u p)" "so_timewait_queue (u_socket u' p) = so_timewait_queue (u_socket u p)"
    "so_streams (u_socket u' p) = so_streams (u_socket u p)" "so_status (u_socket u' p) = so_status (u_socket u p)"
    "so_ttl_check (u_socket u' p) = so_ttl_check (u_socket u p)" "q \<noteq> p \<Longrightarrow> u_socket u' q = u_socket u q" "u_next_timewait u' = u_next_timewait u"
    "u_streams u' = u_streams u" "u_relaying u' = u_relaying u"
proof -
  note e = arg_cong [OF assms]
  show "u_request u' = u_request u" "u_table u' = u_table u" "u_timewait u' = u_timewait u" "u_stream u' = u_stream u" "u_sockets u' = u_sockets u"
    "u_next_timewait u' = u_next_timewait u" "u_streams u' = u_streams u" "u_relaying u' = u_relaying u"
    using e [of u_streams] e [of u_relaying] e [of u_request] e [of u_table] e [of u_timewait] e [of u_stream] e [of u_sockets] e [of u_next_timewait] by (simp_all add: socket_rest_def)
  have s: "u_socket (socket_rest p u') q = u_socket (socket_rest p u) q" for q using e [of "\<lambda>v. u_socket v q"] .
  show "so_ttl (u_socket u' p) = so_ttl (u_socket u p)" "so_timewait_queue (u_socket u' p) = so_timewait_queue (u_socket u p)"
    "so_streams (u_socket u' p) = so_streams (u_socket u p)" "so_status (u_socket u' p) = so_status (u_socket u p)"
    "so_ttl_check (u_socket u' p) = so_ttl_check (u_socket u p)"
    using arg_cong [OF s [of p], of so_ttl_check] arg_cong [OF s [of p], of so_ttl] arg_cong [OF s [of p], of so_timewait_queue] arg_cong [OF s [of p], of so_streams]
      arg_cong [OF s [of p], of so_status]
    by (simp_all add: socket_rest_def)
  show "u_socket u' q = u_socket u q" if "q \<noteq> p" using s [of q] that by (simp add: socket_rest_def)
qed

lemma retry_loop_law:
  assumes e: "quiet e" and q: "so_specific_ttl_send_queue (u_socket u p) = rs"
  shows "\<exists>u' k. retry_loop e p u = Some u' \<and> so_specific_ttl_send_queue (u_socket u' p) = drop k rs
    \<and> answers (u_log u') = answers (u_log u) @ answer_for u 0 (take k rs) \<and> socket_rest p u' = socket_rest p u"
  using q
proof (induction rs arbitrary: u)
  case Nil
  then show ?case by (subst retry_loop.simps) (auto simp: answer_for_def)
next
  case (Cons r rs)
  define err where "err = env_try_send (ue_env e) (u_ios u)"
  define u1 where "u1 = (let v = set_uv_ttl p (uint (sr_ttl (u_request u r))) u in snd (socket_try_send e p (sr_remote_addr (u_request v r)) (sr_buf (u_request v r)) v))"
  have u1: "so_specific_ttl_send_queue (u_socket u1 p) = r # rs" "answers (u_log u1) = answers (u_log u)" "socket_rest p u1 = socket_rest p u"
    "u_request u1 = u_request u"
    using Cons.prems by (simp_all add: u1_def set_uv_ttl_def socket_try_send_def Let_def answers_def socket_rest_def)
  have step: "retry_loop e p u = (if err = UV_EAGAIN then Some u1
      else retry_loop e p (answer_send e r 0 (upd_socket p (\<lambda>s. s\<lparr>so_specific_ttl_send_queue := rs\<rparr>) u1)))"
    using Cons.prems by (subst retry_loop.simps) (simp add: Let_def u1_def err_def set_uv_ttl_def socket_try_send_def)
  show ?case
  proof (cases "err = UV_EAGAIN")
    case True
    then show ?thesis using step u1 by (intro exI [of _ u1] exI [of _ 0]) (simp add: answer_for_def)
  next
    case False
    let ?u2 = "answer_send e r 0 (upd_socket p (\<lambda>s. s\<lparr>so_specific_ttl_send_queue := rs\<rparr>) u1)"
    have u2: "so_specific_ttl_send_queue (u_socket ?u2 p) = rs" "answers (u_log ?u2) = answers (u_log u) @ answer_for u 0 [r]"
      "socket_rest p ?u2 = socket_rest p u" "u_request ?u2 = u_request u"
      using u1 e by (auto simp: answer_send_def tell_def quiet_def answers_def answer_for_def) (simp_all add: socket_rest_def)
    obtain u' k where u': "retry_loop e p ?u2 = Some u'" "so_specific_ttl_send_queue (u_socket u' p) = drop k rs"
      "answers (u_log u') = answers (u_log ?u2) @ answer_for ?u2 0 (take k rs)" "socket_rest p u' = socket_rest p ?u2"
      using Cons.IH [OF u2(1)] by blast
    have same: "answer_for ?u2 0 (take k rs) = answer_for u 0 (take k rs)" by (simp add: answer_for_def u2(4))
    have "answers (u_log u') = answers (u_log u) @ answer_for u 0 (take (Suc k) (r # rs))"
      using u'(3) unfolding u2(2) same append_assoc by (simp flip: answer_for_append)
    then show ?thesis
      using step False u'(1,2,4) u2(3) by (intro exI [of _ u'] exI [of _ "Suc k"]) simp
  qed
qed


definition quiet_env :: udx_env where
  "quiet_env = \<lparr>ue_env = idle_env, ue_callback = (\<lambda>_ u. u), ue_bind = 0, ue_set_ttl = 0, ue_sndbuf = 0, ue_rcvbuf = (\<lambda>_. 0), ue_recv_start = 0\<rparr>"


text \<open>The retry sends to the address the caller gave, not to the mapped one the fast path used: on an IPv6 socket a request for an IPv4
  address goes out with an address of the wrong family.\<close>

lemma retry_address_not_mapped:
  assumes "so_family (u_socket u p) = 6" "sa_family dest = AF_INET" "0 < ttl" "ttl \<le> 255"
    and "env_try_send (ue_env e) (u_ios u) = UV_EAGAIN" "\<not> has_flag (u_debug_flags u) UDX_DEBUG_FORCE_SEND_SLOW_PATH"
  shows "sa_family (sr_remote_addr (u_request (snd (udx_socket_send_ttl e r p buf dest ttl cb u)) r)) = AF_INET"
    and "r \<in> set (so_specific_ttl_send_queue (u_socket (snd (udx_socket_send_ttl e r p buf dest ttl cb u)) p))"
  using assms by (simp_all add: udx_socket_send_ttl_def Let_def socket_try_send_def set_uv_ttl_def lq_tail_def)

text \<open>On the other slow path an error of \<open>uv_udp_send\<close> is lost: the call reports success and the request is never answered.\<close>

lemma send_error_unanswered:
  assumes "quiet e" "env_try_send (ue_env e) (u_ios u) = UV_EAGAIN" "env_udp_send (ue_env e) (u_ios u + 1) < 0"
    and "sa_family dest = AF_INET" "\<not> has_flag (u_debug_flags u) UDX_DEBUG_FORCE_SEND_SLOW_PATH"
  shows "\<exists>u'. udx_socket_send e r p buf dest True u = (0, u') \<and> u_log u' = u_log u \<and> u_socket u' = u_socket u"
  using assms by (simp add: udx_socket_send_def udx_socket_send_ttl_def Let_def socket_try_send_def socket_udp_send_def UV_EAGAIN_def)

section \<open>Time-wait records and the table\<close>

text \<open>Table and queues agree: the time-wait entries of the table are the members of the queues of their sockets.\<close>

definition timewait_inv :: "udx \<Rightarrow> bool" where
  "timewait_inv u \<longleftrightarrow>
     (\<forall>p. distinct (so_timewait_queue (u_socket u p)) \<and> (\<forall>t \<in> set (so_timewait_queue (u_socket u p)).
        tw_socket (u_timewait u t) = p \<and> u_table u (tw_local_id (u_timewait u t)) = Some (Timewait_Entry t) \<and> t < u_next_timewait u))
     \<and> (\<forall>i t. u_table u i = Some (Timewait_Entry t) \<longrightarrow> tw_local_id (u_timewait u t) = i
        \<and> t \<in> set (so_timewait_queue (u_socket u (tw_socket (u_timewait u t)))))"

lemma timewait_invD:
  assumes "timewait_inv u"
  shows "distinct (so_timewait_queue (u_socket u p))"
    and "t \<in> set (so_timewait_queue (u_socket u p)) \<Longrightarrow> tw_socket (u_timewait u t) = p \<and> t < u_next_timewait u"
    and "t \<in> set (so_timewait_queue (u_socket u p)) \<Longrightarrow> u_table u (tw_local_id (u_timewait u t)) = Some (Timewait_Entry t)"
    and "u_table u i = Some (Timewait_Entry t) \<Longrightarrow> tw_local_id (u_timewait u t) = i"
    and "u_table u i = Some (Timewait_Entry t) \<Longrightarrow> t \<in> set (so_timewait_queue (u_socket u (tw_socket (u_timewait u t))))"
  using assms unfolding timewait_inv_def by blast+

text \<open>The invariant reads the table, the records and the queues.\<close>

lemma timewait_inv_cong:
  assumes "u_table u' = u_table u" "\<And>t. tw_local_id (u_timewait u' t) = tw_local_id (u_timewait u t)"
    "\<And>t. tw_socket (u_timewait u' t) = tw_socket (u_timewait u t)"
    "\<And>p. so_timewait_queue (u_socket u' p) = so_timewait_queue (u_socket u p)" "u_next_timewait u' = u_next_timewait u"
  shows "timewait_inv u' = timewait_inv u"
  using assms by (simp add: timewait_inv_def)

definition timewait_dropped :: "addr \<Rightarrow> udx \<Rightarrow> udx" where
  "timewait_dropped t u =
    (let p = tw_socket (u_timewait u t) in
     u\<lparr>u_table := (u_table u)(tw_local_id (u_timewait u t) := None),
       u_socket := (u_socket u)(p := (u_socket u p)\<lparr>so_timewait_queue := remove1 t (so_timewait_queue (u_socket u p))\<rparr>),
       u_timewait := (u_timewait u)(t := (u_timewait u t)\<lparr>tw_timer := None\<rparr>)\<rparr>)"

lemma timewait_timeout_law:
  assumes inv: "timewait_inv u" and t: "t \<in> set (so_timewait_queue (u_socket u p))"
  shows "timewait_timeout t u = Some (timewait_dropped t u)" and "timewait_inv (timewait_dropped t u)"
proof -
  let ?u = "timewait_dropped t u"
  have p: "tw_socket (u_timewait u t) = p" "u_table u (tw_local_id (u_timewait u t)) = Some (Timewait_Entry t)"
    using timewait_invD(2,3) [OF inv t] by simp_all
  show "timewait_timeout t u = Some ?u"
    using t p by (simp add: timewait_timeout_def table_take_def lq_unlink_def timewait_dropped_def Let_def)
  have q: "so_timewait_queue (u_socket ?u q) = (if q = p then remove1 t (so_timewait_queue (u_socket u q)) else so_timewait_queue (u_socket u q))" for q
    by (simp add: timewait_dropped_def p Let_def)
  have tw: "tw_local_id (u_timewait ?u s) = tw_local_id (u_timewait u s)" "tw_socket (u_timewait ?u s) = tw_socket (u_timewait u s)" for s
    by (simp_all add: timewait_dropped_def Let_def)
  have tab: "u_table ?u i = (if i = tw_local_id (u_timewait u t) then None else u_table u i)" for i
    by (simp add: timewait_dropped_def Let_def)
  have nx: "u_next_timewait ?u = u_next_timewait u" by (simp add: timewait_dropped_def Let_def)
  show "timewait_inv ?u"
    unfolding timewait_inv_def
  proof (intro conjI allI ballI impI)
    show "distinct (so_timewait_queue (u_socket ?u q))" for q using timewait_invD(1) [OF inv] by (simp add: q)
  next
    fix q s assume s: "s \<in> set (so_timewait_queue (u_socket ?u q))"
    then have s': "s \<in> set (so_timewait_queue (u_socket u q))" using set_remove1_subset [of t] by (auto simp: q split: if_splits)
    then show "tw_socket (u_timewait ?u s) = q" "s < u_next_timewait ?u" using timewait_invD(2) [OF inv] by (simp_all add: tw nx)
    have "s \<noteq> t"
    proof
      assume "s = t"
      moreover then have "q = p" using timewait_invD(2) [OF inv s'] p(1) by simp
      ultimately show False using s timewait_invD(1) [OF inv] by (simp add: q)
    qed
    then have "tw_local_id (u_timewait u s) \<noteq> tw_local_id (u_timewait u t)" using timewait_invD(3) [OF inv s'] p(2) by auto
    then show "u_table ?u (tw_local_id (u_timewait ?u s)) = Some (Timewait_Entry s)" using timewait_invD(3) [OF inv s'] by (simp add: tw tab)
  next
    fix i s assume "u_table ?u i = Some (Timewait_Entry s)"
    then have i: "u_table u i = Some (Timewait_Entry s)" "i \<noteq> tw_local_id (u_timewait u t)" by (simp_all add: tab split: if_splits)
    then show "tw_local_id (u_timewait ?u s) = i" using timewait_invD(4) [OF inv] by (simp add: tw)
    then have "s \<noteq> t" using i(2) by (auto simp: tw)
    then show "s \<in> set (so_timewait_queue (u_socket ?u (tw_socket (u_timewait ?u s))))"
      using timewait_invD(5) [OF inv i(1)] by (auto simp: tw q)
  qed
qed

lemma close_timewaits_law:
  assumes "timewait_inv u" "so_timewait_queue (u_socket u p) = ts"
  shows "\<exists>u'. close_timewaits p u = Some u' \<and> timewait_inv u' \<and> so_timewait_queue (u_socket u' p) = []
    \<and> u_table u' = (\<lambda>i. if i \<in> (\<lambda>t. tw_local_id (u_timewait u t)) ` set ts then None else u_table u i)
    \<and> so_specific_ttl_send_queue (u_socket u' p) = so_specific_ttl_send_queue (u_socket u p)
    \<and> u_request u' = u_request u \<and> u_log u' = u_log u \<and> u_sockets u' = u_sockets u
    \<and> u_stream u' = u_stream u \<and> u_streams u' = u_streams u \<and> u_relaying u' = u_relaying u
    \<and> (\<forall>q. so_streams (u_socket u' q) = so_streams (u_socket u q))"
  using assms
proof (induction ts arbitrary: u)
  case Nil
  then show ?case by (subst close_timewaits.simps) simp
next
  case (Cons t ts)
  let ?v = "timewait_dropped t u"
  have t: "t \<in> set (so_timewait_queue (u_socket u p))" using Cons.prems(2) by simp
  have p: "tw_socket (u_timewait u t) = p" using timewait_invD(2) [OF Cons.prems(1) t] by simp
  note law = timewait_timeout_law [OF Cons.prems(1) t]
  have v: "so_timewait_queue (u_socket ?v p) = ts" "u_table ?v = (u_table u)(tw_local_id (u_timewait u t) := None)"
    "so_specific_ttl_send_queue (u_socket ?v p) = so_specific_ttl_send_queue (u_socket u p)" "u_request ?v = u_request u" "u_log ?v = u_log u"
    "u_sockets ?v = u_sockets u" "u_stream ?v = u_stream u" "u_streams ?v = u_streams u" "u_relaying ?v = u_relaying u"
    "\<And>q. so_streams (u_socket ?v q) = so_streams (u_socket u q)" "\<And>s. tw_local_id (u_timewait ?v s) = tw_local_id (u_timewait u s)"
    using Cons.prems(2) by (simp_all add: timewait_dropped_def p Let_def)
  obtain u' where u': "close_timewaits p ?v = Some u'" "timewait_inv u'" "so_timewait_queue (u_socket u' p) = []"
    "u_table u' = (\<lambda>i. if i \<in> (\<lambda>t. tw_local_id (u_timewait ?v t)) ` set ts then None else u_table ?v i)"
    "so_specific_ttl_send_queue (u_socket u' p) = so_specific_ttl_send_queue (u_socket ?v p)"
    "u_request u' = u_request ?v" "u_log u' = u_log ?v" "u_sockets u' = u_sockets ?v"
    "u_stream u' = u_stream ?v" "u_streams u' = u_streams ?v" "u_relaying u' = u_relaying ?v"
    "\<forall>q. so_streams (u_socket u' q) = so_streams (u_socket ?v q)"
    using Cons.IH [OF law(2) v(1)] by blast
  have "close_timewaits p u = Some u'" using Cons.prems(2) law(1) u'(1) by (subst close_timewaits.simps) simp
  moreover have "u_table u' = (\<lambda>i. if i \<in> (\<lambda>t. tw_local_id (u_timewait u t)) ` set (t # ts) then None else u_table u i)"
    unfolding u'(4) v(2,11) by (auto simp: fun_eq_iff)
  ultimately show ?case using u' v(3-10) by auto
qed

lemma cancel_sends_law:
  assumes "quiet e" "so_specific_ttl_send_queue (u_socket u p) = rs"
  shows "\<exists>u'. cancel_sends e p u = Some u' \<and> so_specific_ttl_send_queue (u_socket u' p) = []
    \<and> answers (u_log u') = answers (u_log u) @ answer_for u UV_ECANCELED rs \<and> socket_rest p u' = socket_rest p u"
  using assms(2)
proof (induction rs arbitrary: u)
  case Nil
  then show ?case by (subst cancel_sends.simps) (simp add: answer_for_def)
next
  case (Cons r rs)
  let ?v = "answer_send e r UV_ECANCELED (upd_socket p (\<lambda>s. s\<lparr>so_specific_ttl_send_queue := rs\<rparr>) u)"
  have v: "so_specific_ttl_send_queue (u_socket ?v p) = rs" "answers (u_log ?v) = answers (u_log u) @ answer_for u UV_ECANCELED [r]"
    "socket_rest p ?v = socket_rest p u" "u_request ?v = u_request u"
    using assms(1) by (auto simp: answer_send_def tell_def quiet_def answers_def answer_for_def) (simp_all add: socket_rest_def)
  obtain u' where u': "cancel_sends e p ?v = Some u'" "so_specific_ttl_send_queue (u_socket u' p) = []"
    "answers (u_log u') = answers (u_log ?v) @ answer_for ?v UV_ECANCELED rs" "socket_rest p u' = socket_rest p ?v"
    using Cons.IH [OF v(1)] by blast
  have "cancel_sends e p u = Some u'" using Cons.prems u'(1) by (subst cancel_sends.simps) simp
  moreover have "answers (u_log u') = answers (u_log u) @ answer_for u UV_ECANCELED (r # rs)"
    using u'(3) unfolding v(2) by (simp add: answer_for_def v(4))
  ultimately show ?case using u'(2,4) v(3) by auto
qed

lemma socket_close_law:
  assumes "quiet e" and inv: "timewait_inv u" and "so_streams (u_socket u p) = []" "so_status (u_socket u p) AND UDX_SOCKET_CLOSED = 0"
  shows "\<exists>u'. udx_socket_close e p u = Some (0, u') \<and> timewait_inv u' \<and> so_timewait_queue (u_socket u' p) = []
    \<and> so_specific_ttl_send_queue (u_socket u' p) = []
    \<and> answers (u_log u') = answers (u_log u) @ answer_for u UV_ECANCELED (so_specific_ttl_send_queue (u_socket u p))
    \<and> u_table u' = (\<lambda>i. case u_table u i of Some (Timewait_Entry t) \<Rightarrow> if tw_socket (u_timewait u t) = p then None else u_table u i | _ \<Rightarrow> u_table u i)
    \<and> u_stream u' = u_stream u \<and> u_streams u' = u_streams u \<and> u_relaying u' = u_relaying u
    \<and> (\<forall>q. so_streams (u_socket u' q) = so_streams (u_socket u q))"
proof -
  let ?ts = "so_timewait_queue (u_socket u p)"
  define u1 where "u1 = upd_socket p (\<lambda>s. s\<lparr>so_status := so_status s OR UDX_SOCKET_CLOSED, so_ttl_check := False, so_ttl_check_timer := False\<rparr>) u"
  have i1: "timewait_inv u1" using timewait_inv_cong [of u1 u] inv by (simp add: u1_def)
  have q1: "so_timewait_queue (u_socket u1 p) = ?ts" "so_specific_ttl_send_queue (u_socket u1 p) = so_specific_ttl_send_queue (u_socket u p)"
    "u_request u1 = u_request u" "u_log u1 = u_log u" "u_table u1 = u_table u" "u_timewait u1 = u_timewait u"
    "u_stream u1 = u_stream u" "u_streams u1 = u_streams u" "u_relaying u1 = u_relaying u"
    "\<And>q. so_streams (u_socket u1 q) = so_streams (u_socket u q)" by (simp_all add: u1_def)
  obtain u2 where u2: "close_timewaits p u1 = Some u2" "timewait_inv u2" "so_timewait_queue (u_socket u2 p) = []"
    "u_table u2 = (\<lambda>i. if i \<in> (\<lambda>t. tw_local_id (u_timewait u1 t)) ` set ?ts then None else u_table u1 i)"
    "so_specific_ttl_send_queue (u_socket u2 p) = so_specific_ttl_send_queue (u_socket u1 p)" "u_request u2 = u_request u1" "u_log u2 = u_log u1"
    "u_stream u2 = u_stream u1" "u_streams u2 = u_streams u1" "u_relaying u2 = u_relaying u1"
    "\<forall>q. so_streams (u_socket u2 q) = so_streams (u_socket u1 q)"
    using close_timewaits_law [OF i1 q1(1)] by blast
  obtain u3 where u3: "cancel_sends e p u2 = Some u3" "so_specific_ttl_send_queue (u_socket u3 p) = []"
    "answers (u_log u3) = answers (u_log u2) @ answer_for u2 UV_ECANCELED (so_specific_ttl_send_queue (u_socket u2 p))" "socket_rest p u3 = socket_rest p u2"
    using cancel_sends_law [OF assms(1) refl] by blast
  note g = socket_rest_same [OF u3(4)]
  let ?u' = "u3\<lparr>u_sockets := remove1 p (u_sockets u3)\<rparr>"
  have "so_timewait_queue (u_socket u3 q) = so_timewait_queue (u_socket u2 q)" for q using g(7) g(11) by (cases "q = p") simp_all
  then have "timewait_inv ?u'" using timewait_inv_cong [of ?u' u2] u2(2) g(2,3,12) by simp
  moreover have "udx_socket_close e p u = Some (0, ?u')"
    using assms(3,4) u2(1) u3(1) by (simp add: udx_socket_close_def u1_def)
  moreover have "u_table ?u' i = (case u_table u i of Some (Timewait_Entry t) \<Rightarrow> if tw_socket (u_timewait u t) = p then None else u_table u i | _ \<Rightarrow> u_table u i)" for i
  proof -
    have "i \<in> (\<lambda>t. tw_local_id (u_timewait u t)) ` set ?ts \<longleftrightarrow> (\<exists>t. u_table u i = Some (Timewait_Entry t) \<and> tw_socket (u_timewait u t) = p)"
      (is "?l \<longleftrightarrow> ?r")
    proof
      assume ?l
      then obtain t where "t \<in> set ?ts" "i = tw_local_id (u_timewait u t)" by blast
      then show ?r using timewait_invD(2,3) [OF inv] by blast
    next
      assume ?r
      then obtain t where t: "u_table u i = Some (Timewait_Entry t)" "tw_socket (u_timewait u t) = p" by blast
      then have "t \<in> set ?ts" "tw_local_id (u_timewait u t) = i" using timewait_invD(4,5) [OF inv t(1)] by simp_all
      then show ?l by blast
    qed
    then show ?thesis by (auto simp: g(2) u2(4) q1 split: option.splits udx_entry.splits)
  qed
  then have "u_table ?u' = (\<lambda>i. case u_table u i of Some (Timewait_Entry t) \<Rightarrow> if tw_socket (u_timewait u t) = p then None else u_table u i | _ \<Rightarrow> u_table u i)"
    by blast
  moreover have "answers (u_log ?u') = answers (u_log u) @ answer_for u UV_ECANCELED (so_specific_ttl_send_queue (u_socket u p))"
    using u3(3) by (simp add: u2(5,7) q1 answer_for_def u2(6))
  moreover have "so_streams (u_socket ?u' q) = so_streams (u_socket u q)" for q
    using g(8,11) u2(11) q1(10) by (cases "q = p") simp_all
  ultimately show ?thesis using u3(2) g(4,7,13,14) u2(3,8-10) q1(7-9) by simp
qed



end
