(* ===== verification/Udx_Instance.thy ===== *)
theory Udx_Instance
  imports Udx_Socket
begin

text \<open>
  The instance as a whole: dispatching an incoming datagram to a stream or a time-wait record, closing a stream with its
  removal from the lists and the table, its time-wait record and the streams relayed to it, and tearing down (\<open>src/udx.c\<close>).

  A handler of one stream runs on a \<open>world\<close>: \<open>load\<close> takes the stream and the state it shares with others out of the instance,
  \<open>save\<close> puts them back.  The handlers close a stream in the middle of their work; its effects on the instance follow
  when the handler has returned.  The callbacks of a stream cannot see the instance, so that the order is not observable.

  Shown: the table and the queues of time-wait records agree in every state these operations lead to, so that the assertion in
  \<open>timewait_timeout\<close> holds; a datagram for an id in time-wait is answered with the stored final acknowledgement
  and changes nothing else; and that tearing down with two streams relayed to each other on one socket closes that
  socket twice.
\<close>

section \<open>Running a handler of a stream\<close>

definition load :: "udx \<Rightarrow> addr \<Rightarrow> world" where
  "load u a =
    (let w = u_stream u a; s = u_socket u (s_socket w)
     in w\<lparr>w_now := u_now u, w_socket_family := so_family s, w_socket_packets_tx := so_packets_tx s, w_socket_bytes_tx := so_bytes_tx s,
          w_udx_packets_tx := u_packets_tx u, w_udx_bytes_tx := u_bytes_tx u, w_debug_flags := u_debug_flags u,
          w_drop_count := u_drop_count u, w_ios := u_ios u, w_output := []\<rparr>)"

definition save :: "addr \<Rightarrow> world \<Rightarrow> udx \<Rightarrow> udx" where
  "save a w u =
    (let u = u\<lparr>u_packets_tx := w_udx_packets_tx w, u_bytes_tx := w_udx_bytes_tx w, u_stream := (u_stream u)(a := w),
               u_drop_count := w_drop_count w, u_ios := w_ios w, u_log := u_log u @ map (Stream_Output a) (w_output w)\<rparr>
     in if s_socket w = NULL then u
        else upd_socket (s_socket w) (\<lambda>s. s\<lparr>so_bytes_tx := w_socket_bytes_tx w, so_packets_tx := w_socket_packets_tx w\<rparr>) u)"

definition closed :: "world \<Rightarrow> bool" where
  "closed w \<longleftrightarrow> has_flag (s_status w) UDX_STREAM_CLOSED"

text \<open>The number a relaying stream has in the circular buffer of its destination.\<close>

definition relay_key :: "udx \<Rightarrow> addr \<Rightarrow> u32" where
  "relay_key u a = s_local_id (u_stream u a)"

section \<open>Closing\<close>

definition stream_timewait :: "addr \<Rightarrow> u8 list \<Rightarrow> udx \<Rightarrow> udx" where
  "stream_timewait a header u =
    (let w = u_stream u a; t = u_next_timewait u; p = s_socket w;
         tw = \<lparr>tw_local_id = s_local_id w, tw_remote_addr = s_remote_addr w, tw_socket = p, tw_header = header,
               tw_timer = Some (u_now u + UDX_STREAM_TIMEWAIT_TIMEOUT_MS)\<rparr>;
         u = u\<lparr>u_table := (u_table u)(s_local_id w \<mapsto> Timewait_Entry t), u_timewait := (u_timewait u)(t := tw), u_next_timewait := t + 1\<rparr>
     in upd_socket p (\<lambda>s. s\<lparr>so_timewait_queue := lq_tail t (so_timewait_queue s)\<rparr>) u)"

text \<open>The stream leaves the list of its socket, or of the instance, and the table.\<close>

definition unlink_stream :: "addr \<Rightarrow> udx \<Rightarrow> udx" where
  "unlink_stream a u =
    (let p = s_socket (u_stream u a)
     in if p \<noteq> NULL then upd_socket p (\<lambda>s. s\<lparr>so_streams := remove1 a (so_streams s)\<rparr>) u
        else u\<lparr>u_streams := remove1 a (u_streams u)\<rparr>)"

definition leave_table :: "addr \<Rightarrow> udx \<Rightarrow> udx" where
  "leave_table a u =
    (case w_timewait (u_stream u a) of
       Some header \<Rightarrow> stream_timewait a header u
     | None \<Rightarrow> snd (table_take (s_local_id (u_stream u a)) u))"

definition leave_relay :: "addr \<Rightarrow> udx \<Rightarrow> udx" where
  "leave_relay a u =
    (let r = s_relay_to (u_stream u a)
     in if r \<noteq> NULL then u\<lparr>u_relaying := (u_relaying u)(r := snd (udx__cirbuf_remove (relay_key u) (s_local_id (u_stream u a)) (u_relaying u r)))\<rparr>
        else u)"

text \<open>What is left to do when streams close: a stream has closed, a stream relayed to a closed one must be destroyed, the end of
  closing a stream.\<close>

datatype close_task = Detach addr | Destroy_Relaying addr | Close_End addr

partial_function (option) close_work :: "udx_env \<Rightarrow> close_task list \<Rightarrow> udx \<Rightarrow> udx option" where
  "close_work e tasks u =
    (case tasks of
       [] \<Rightarrow> Some u
     | Detach a # rest \<Rightarrow>
         let u = leave_relay a (leave_table a (unlink_stream a u))
         in close_work e (map Destroy_Relaying (List.map_filter (\<lambda>v. v) (cb_values (u_relaying u a))) @ Close_End a # rest) u
     | Destroy_Relaying b # rest \<Rightarrow> do {
         let u = u\<lparr>u_stream := (u_stream u)(b := (u_stream u b)\<lparr>s_relay_to := NULL\<rparr>)\<rparr>;
         let w = load u b;
         (r, w') \<leftarrow> udx_stream_destroy (ue_env e) w;
         close_work e (if \<not> closed w \<and> closed w' then Detach b # rest else rest) (save b w' u)
       }
     | Close_End a # rest \<Rightarrow> do {
         let u = u\<lparr>u_relaying := (u_relaying u)(a := udx__cirbuf_destroy (u_relaying u a))\<rparr>;
         let p = s_socket (u_stream u a);
         u \<leftarrow> (if u_teardown u \<and> p \<noteq> NULL \<and> so_streams (u_socket u p) = [] then do { (r, u) \<leftarrow> udx_socket_close e p u; Some u } else Some u);
         close_work e rest u
       })"

declare close_work.simps [code]

definition run_stream :: "udx_env \<Rightarrow> addr \<Rightarrow> (world \<Rightarrow> ('r \<times> world) option) \<Rightarrow> udx \<Rightarrow> ('r \<times> udx) option" where
  "run_stream e a handler u = do {
     let w = load u a;
     (r, w') \<leftarrow> handler w;
     let u = save a w' u;
     u \<leftarrow> (if \<not> closed w \<and> closed w' then close_work e [Detach a] u else Some u);
     Some (r, u)
   }"

definition stream_destroy :: "udx_env \<Rightarrow> addr \<Rightarrow> udx \<Rightarrow> (int \<times> udx) option" where
  "stream_destroy e a u = run_stream e a (udx_stream_destroy (ue_env e)) u"

text \<open>The callback of the slow path of a destroy packet.\<close>

definition on_destroy_sent :: "udx_env \<Rightarrow> addr \<Rightarrow> udx \<Rightarrow> udx option" where
  "on_destroy_sent e a u = do {
     (r, u) \<leftarrow> run_stream e a (\<lambda>w. do { w \<leftarrow> stream_on_destroy_send (ue_env e) w; Some ((), w) }) u;
     Some u
   }"

section \<open>Incoming datagrams\<close>

definition relay_target_of :: "udx \<Rightarrow> addr \<Rightarrow> relay_target" where
  "relay_target_of u r = \<lparr>rt_connected = (s_socket (u_stream u r) \<noteq> NULL), rt_remote_id = s_remote_id (u_stream u r), rt_remote_addr = s_remote_addr (u_stream u r)\<rparr>"

definition process_packet :: "udx_env \<Rightarrow> addr \<Rightarrow> u8 list \<Rightarrow> sockaddr \<Rightarrow> udx \<Rightarrow> (int \<times> udx) option" where
  "process_packet e p buf from u = do {
     let n = of_nat (length buf);
     let u = upd_socket p (\<lambda>s. s\<lparr>so_bytes_rx := so_bytes_rx s + n, so_packets_rx := so_packets_rx s + 1\<rparr>) u;
     let u = u\<lparr>u_bytes_rx := u_bytes_rx u + n, u_packets_rx := u_packets_rx u + 1\<rparr>;
     case read_header (env_host (ue_env e)) buf of
       None \<Rightarrow> Some (0, u)
     | Some h \<Rightarrow>
         (case u_table u (h_id h) of
            None \<Rightarrow> Some (0, u)
          | Some (Timewait_Entry t) \<Rightarrow> Some (1, process_timewait e t (h_type h) u)
          | Some (Stream_Entry a) \<Rightarrow>
              run_stream e a (process_stream_packet (ue_env e) (s_socket (u_stream u a) = p) from
                (relay_target_of u (s_relay_to (u_stream u a))) h buf) u)
   }"

definition UV_EBADF :: int where "UV_EBADF = -9"
definition UV_ENOTSOCK :: int where "UV_ENOTSOCK = -88"
definition UV_EFAULT :: int where "UV_EFAULT = -14"

text \<open>The callback of libuv: \<open>nread\<close> is an error or the number of bytes of the datagram, \<open>from\<close> may be null.\<close>

definition on_uv_udp_recv :: "udx_env \<Rightarrow> addr \<Rightarrow> int \<Rightarrow> u8 list \<Rightarrow> sockaddr option \<Rightarrow> udx \<Rightarrow> udx option" where
  "on_uv_udp_recv e p nread buf from u =
    (if nread = 0 \<and> from = None then Some u
     else if nread < 0 then do {
       c_assert (nread \<noteq> UV_EBADF); c_assert (nread \<noteq> UV_ENOTSOCK); c_assert (nread \<noteq> UV_EINVAL); c_assert (nread \<noteq> UV_EFAULT);
       Some u
     }
     else do {
       c_assert (so_status (u_socket u p) AND UDX_SOCKET_CLOSED = 0);
       c_assert (nat nread \<le> length buf);
       from \<leftarrow> from;
       let bytes = take (nat nread) buf;
       (handled, u) \<leftarrow> process_packet e p bytes from u;
       Some (if handled = 0 \<and> so_on_recv (u_socket u p)
         then tell e (On_Socket_Recv p bytes (if is_addr_v4_mapped from then addr_to_v4 from else from)) u else u)
     })"

section \<open>The calls on a stream that change the instance\<close>

definition set_stream_socket :: "addr \<Rightarrow> addr \<Rightarrow> udx \<Rightarrow> udx" where
  "set_stream_socket a p u =
    (if s_socket (u_stream u a) = p then u
     else let u = unlink_stream a u;
              u = u\<lparr>u_stream := (u_stream u)(a := (u_stream u a)\<lparr>s_socket := p\<rparr>)\<rparr>
          in upd_socket p (\<lambda>s. s\<lparr>so_streams := a # so_streams s\<rparr>) u)"

definition stream_init :: "addr \<Rightarrow> u32 \<Rightarrow> bool \<Rightarrow> bool \<Rightarrow> udx \<Rightarrow> (int \<times> udx) option" where
  "stream_init a local_id close_cb finalize_cb u =
    (if u_teardown u then Some (UV_EINVAL, u)
     else do {
       w \<leftarrow> udx_stream_init (u_now u) (u_debug_flags u) local_id close_cb;
       let u = u\<lparr>u_refs := u_refs u + 1, u_streams := a # u_streams u, u_stream := (u_stream u)(a := w),
         u_stream_nrefs := (u_stream_nrefs u)(a := 3), u_stream_on_finalize := (u_stream_on_finalize u)(a := finalize_cb),
         u_relaying := (u_relaying u)(a := udx__cirbuf_init 2)\<rparr>;
       let entry = u_table u local_id;
       let u = u\<lparr>u_table := (u_table u)(local_id \<mapsto> Stream_Entry a)\<rparr>;
       u \<leftarrow> (case entry of
           Some (Timewait_Entry t) \<Rightarrow> do {
             let u = u\<lparr>u_timewait := (u_timewait u)(t := (u_timewait u t)\<lparr>tw_timer := None\<rparr>)\<rparr>;
             let p = tw_socket (u_timewait u t);
             rest \<leftarrow> lq_unlink t (so_timewait_queue (u_socket u p));
             Some (upd_socket p (\<lambda>s. s\<lparr>so_timewait_queue := rest\<rparr>) u)
           }
         | _ \<Rightarrow> Some u);
       Some (0, u)
     })"

definition stream_connect :: "udx_env \<Rightarrow> addr \<Rightarrow> addr \<Rightarrow> u32 \<Rightarrow> sockaddr \<Rightarrow> int \<Rightarrow> udx \<Rightarrow> (int \<times> udx) option" where
  "stream_connect e a p remote_id remote_addr link_mtu u =
    (let w = u_stream u a;
         u = (if stream_dead w \<or> u_teardown u \<or> has_flag (s_status w) UDX_STREAM_CONNECTED then u else set_stream_socket a p u)
     in run_stream e a (udx_stream_connect (ue_env e) (u_teardown u) p (so_family (u_socket u p)) remote_id remote_addr link_mtu) u)"

text \<open>The assertion reads the socket of the stream before it is known that it has one.\<close>

definition stream_change_remote :: "udx_env \<Rightarrow> addr \<Rightarrow> addr \<Rightarrow> u32 \<Rightarrow> sockaddr \<Rightarrow> bool \<Rightarrow> udx \<Rightarrow> (int \<times> udx) option" where
  "stream_change_remote e a p remote_id remote_addr cb u = do {
     c_assert (s_socket (u_stream u a) \<noteq> NULL);
     (r, u) \<leftarrow> run_stream e a (\<lambda>w. udx_stream_change_remote (u_teardown u) (s_socket w) (so_family (u_socket u p)) remote_id remote_addr cb w) u;
     Some (r, if r = UV_EINVAL then u else set_stream_socket a p u)
   }"

definition stream_relay_to :: "addr \<Rightarrow> addr \<Rightarrow> udx \<Rightarrow> (int \<times> udx) option" where
  "stream_relay_to a d u =
    (if s_relayed (u_stream u a) \<or> closed (u_stream u d) then Some (UV_EINVAL, u)
     else do {
       let u = u\<lparr>u_stream := (u_stream u)(a := (u_stream u a)\<lparr>s_relayed := True, s_relay_to := d\<rparr>)\<rparr>;
       c \<leftarrow> udx__cirbuf_set (relay_key u) a (u_relaying u d);
       Some (0, u\<lparr>u_relaying := (u_relaying u)(d := c)\<rparr>)
     })"

section \<open>Tearing down\<close>

fun destroy_streams :: "udx_env \<Rightarrow> addr list \<Rightarrow> udx \<Rightarrow> udx option" where
  "destroy_streams e [] u = Some u"
| "destroy_streams e (a # as) u = do { (r, u) \<leftarrow> stream_destroy e a u; destroy_streams e as u }"

fun teardown_sockets :: "udx_env \<Rightarrow> addr list \<Rightarrow> udx \<Rightarrow> udx option" where
  "teardown_sockets e [] u = Some u"
| "teardown_sockets e (p # ps) u = do {
     u \<leftarrow> (if p \<notin> set (u_sockets u) then Some u
          else if so_streams (u_socket u p) = [] then do { (r, u) \<leftarrow> udx_socket_close e p u; Some u }
          else destroy_streams e (so_streams (u_socket u p)) u);
     teardown_sockets e ps u
   }"

text \<open>A socket that closed on the way is no longer in the list when the iteration gets there; a stream that did is destroyed again, which does
  nothing.  The listeners of interface events are those of \<open>Udx_Interface\<close>.\<close>

definition udx_teardown :: "udx_env \<Rightarrow> udx \<Rightarrow> udx option" where
  "udx_teardown e u = do {
     let u = u\<lparr>u_teardown := True\<rparr>;
     u \<leftarrow> teardown_sockets e (u_sockets u) u;
     destroy_streams e (u_streams u) u
   }"

end
