(* ===== verification/Udx_Lookup.thy ===== *)
theory Udx_Lookup
  imports Udx_Socket
begin

text \<open>
  Looking up a host name (\<open>udx_lookup\<close>, \<open>on_uv_getaddrinfo\<close> of \<open>src/udx.c\<close>), and the calls that only read or set one field of a stream.
  The resolver is a parameter: \<open>started\<close> is the result of \<open>uv_getaddrinfo\<close>, and the callback runs at most once, and only after it was 0.
  Shown: a lookup that was started takes one reference of the instance and its callback gives it back; one that could not be started
  keeps the reference for ever.
\<close>

section \<open>Fields of a stream\<close>

definition udx_stream_get_mtu :: "world \<Rightarrow> u16" where "udx_stream_get_mtu w = s_mtu w"
definition udx_stream_get_seq :: "world \<Rightarrow> u32" where "udx_stream_get_seq w = s_seq w"
definition udx_stream_get_ack :: "world \<Rightarrow> u32" where "udx_stream_get_ack w = s_ack w"
definition udx_stream_get_rwnd_max :: "world \<Rightarrow> u32" where "udx_stream_get_rwnd_max w = s_recv_rwnd_max w"

definition udx_stream_firewall :: "bool \<Rightarrow> world \<Rightarrow> world" where
  "udx_stream_firewall cb w = w\<lparr>s_on_firewall := cb\<rparr>"

definition udx_stream_write_resume :: "bool \<Rightarrow> world \<Rightarrow> world" where
  "udx_stream_write_resume drain_cb w = w\<lparr>s_on_drain := drain_cb\<rparr>"

section \<open>Lookup\<close>

definition UDX_LOOKUP_FAMILY_IPV4 :: u32 where "UDX_LOOKUP_FAMILY_IPV4 = 1"
definition UDX_LOOKUP_FAMILY_IPV6 :: u32 where "UDX_LOOKUP_FAMILY_IPV6 = 2"

text \<open>A request with its instance: the family the \<open>hints\<close> ask for (\<open>None\<close> for \<open>AF_UNSPEC\<close>), whether the resolver has the request, and what the user was told.\<close>

record lookup_state =
  lk_udx :: udx
  lk_family :: "sa_family option"
  lk_waiting :: bool
  lk_told :: "(int \<times> sockaddr option) list"

definition udx_lookup :: "int \<Rightarrow> u32 \<Rightarrow> lookup_state \<Rightarrow> int \<times> lookup_state" where
  "udx_lookup started flags w =
    (if u_teardown (lk_udx w) then (UV_EINVAL, w)
     else
       let w = w\<lparr>lk_udx := (lk_udx w)\<lparr>u_refs := u_refs (lk_udx w) + 1\<rparr>\<rparr>;
           family = None;
           family = (if has_flag flags UDX_LOOKUP_FAMILY_IPV4 then Some AF_INET else family);
           family = (if has_flag flags UDX_LOOKUP_FAMILY_IPV6 then Some AF_INET6 else family)
       in (started, w\<lparr>lk_family := family, lk_waiting := (started = 0)\<rparr>))"

definition on_uv_getaddrinfo :: "udx_env \<Rightarrow> int \<Rightarrow> sockaddr \<Rightarrow> lookup_state \<Rightarrow> lookup_state" where
  "on_uv_getaddrinfo e status res w =
    (let w = w\<lparr>lk_waiting := False, lk_told := lk_told w @ [(status, if status < 0 then None else Some res)]\<rparr>
     in w\<lparr>lk_udx := ref_dec e (lk_udx w)\<rparr>)"

text \<open>A lookup that was started is balanced: after the callback, which tells the user once, the instance has the references it had.\<close>

lemma lookup_balanced:
  assumes "\<not> u_teardown (lk_udx w)" "u_refs (lk_udx w) \<noteq> 0"
  shows "\<exists>w1. udx_lookup 0 flags w = (0, w1) \<and> lk_waiting w1 \<and> u_refs (lk_udx w1) = u_refs (lk_udx w) + 1
    \<and> u_refs (lk_udx (on_uv_getaddrinfo e status res w1)) = u_refs (lk_udx w)
    \<and> lk_told (on_uv_getaddrinfo e status res w1) = lk_told w @ [(status, if status < 0 then None else Some res)]"
  using assms by (simp add: udx_lookup_def on_uv_getaddrinfo_def ref_dec_def Let_def)

text \<open>An instance with nothing but a lookup that could not be started is never idle again: the resolver has no request whose callback
  would give the reference back.\<close>

lemma lookup_failure_keeps_reference:
  assumes "\<not> u_teardown (lk_udx w)" "udx_is_idle (lk_udx w)" "started < 0"
  shows "fst (udx_lookup started flags w) = started \<and> \<not> lk_waiting (snd (udx_lookup started flags w))
    \<and> lk_told (snd (udx_lookup started flags w)) = lk_told w \<and> \<not> udx_is_idle (lk_udx (snd (udx_lookup started flags w)))"
  using assms by (simp add: udx_lookup_def udx_is_idle_def Let_def)

end
