(* ===== verification/Udx_Sack_Tree.thy ===== *)
theory Udx_Sack_Tree
  imports Udx_Sack_List "HOL-Library.Tree"
begin

text \<open>
  The red-black tree of out-of-order blocks (\<open>src/udx_sack_tree.c\<close>), on a heap of nodes with the code's pointers, colours and sentinel:
  all its operations, and the view of the heap the proofs use.  \<open>is_tree\<close> relates the pointers to a tree of node addresses and
  \<open>is_ctx\<close> to what surrounds a node, so that the loops that walk up by \<open>parent\<close> are inductions over the surroundings; a rotation is one
  operation \<open>turn\<close> for both sides, and \<open>turn_law\<close> says what it does to tree and surroundings.
\<close>

section \<open>The heap\<close>

text \<open>Nodes are \<open>udx_sack_block_t\<close>: the block, the three pointers and the colour (1 is red).\<close>

record udx_sack_tree =
  st_block :: "addr \<Rightarrow> udx_sack_block"
  st_left :: "addr \<Rightarrow> addr"
  st_right :: "addr \<Rightarrow> addr"
  st_parent :: "addr \<Rightarrow> addr"
  st_red :: "addr \<Rightarrow> bool"
  st_root :: addr
  st_sentinel :: addr

definition set_left :: "addr \<Rightarrow> addr \<Rightarrow> udx_sack_tree \<Rightarrow> udx_sack_tree" where
  "set_left a v T = T\<lparr>st_left := (st_left T)(a := v)\<rparr>"

definition set_right :: "addr \<Rightarrow> addr \<Rightarrow> udx_sack_tree \<Rightarrow> udx_sack_tree" where
  "set_right a v T = T\<lparr>st_right := (st_right T)(a := v)\<rparr>"

definition set_parent :: "addr \<Rightarrow> addr \<Rightarrow> udx_sack_tree \<Rightarrow> udx_sack_tree" where
  "set_parent a v T = T\<lparr>st_parent := (st_parent T)(a := v)\<rparr>"

definition set_red :: "addr \<Rightarrow> bool \<Rightarrow> udx_sack_tree \<Rightarrow> udx_sack_tree" where
  "set_red a c T = T\<lparr>st_red := (st_red T)(a := c)\<rparr>"

section \<open>The operations\<close>

partial_function (option) find_from :: "u32 \<Rightarrow> addr \<Rightarrow> udx_sack_tree \<Rightarrow> addr option" where
  "find_from seq block T =
    (if block = st_sentinel T then Some NULL
     else if seq_diff seq (sb_start (st_block T block)) < 0 then find_from seq (st_left T block) T
     else if seq_diff seq (sb_end (st_block T block)) > 0 then find_from seq (st_right T block) T
     else Some block)"

definition udx_sack_tree_find :: "udx_sack_tree \<Rightarrow> u32 \<Rightarrow> addr option" where
  "udx_sack_tree_find T seq = find_from seq (st_root T) T"

definition rbtree_left_rotate :: "addr \<Rightarrow> udx_sack_tree \<Rightarrow> udx_sack_tree" where
  "rbtree_left_rotate node T =
    (let temp = st_right T node;
         T = set_right node (st_left T temp) T;
         T = (if st_left T temp \<noteq> st_sentinel T then set_parent (st_left T temp) node T else T);
         T = set_parent temp (st_parent T node) T;
         T = (if node = st_root T then set_parent temp NULL (T\<lparr>st_root := temp\<rparr>)
              else if node = st_left T (st_parent T node) then set_left (st_parent T node) temp T
              else set_right (st_parent T node) temp T);
         T = set_left temp node T
     in set_parent node temp T)"

definition rbtree_right_rotate :: "addr \<Rightarrow> udx_sack_tree \<Rightarrow> udx_sack_tree" where
  "rbtree_right_rotate node T =
    (let temp = st_left T node;
         T = set_left node (st_right T temp) T;
         T = (if st_right T temp \<noteq> st_sentinel T then set_parent (st_right T temp) node T else T);
         T = set_parent temp (st_parent T node) T;
         T = (if node = st_root T then set_parent temp NULL (T\<lparr>st_root := temp\<rparr>)
              else if node = st_right T (st_parent T node) then set_right (st_parent T node) temp T
              else set_left (st_parent T node) temp T);
         T = set_right temp node T
     in set_parent node temp T)"

text \<open>\<open>udx_sack_tree_init\<close>, given the address of \<open>_sentinel\<close>: its fields are zeroed.\<close>

definition udx_sack_tree_init :: "addr \<Rightarrow> udx_sack_tree \<Rightarrow> udx_sack_tree" where
  "udx_sack_tree_init sentinel T =
    (let T = set_parent sentinel NULL (set_left sentinel NULL (set_right sentinel NULL T));
         T = set_red sentinel False (T\<lparr>st_sentinel := sentinel\<rparr>);
         T = T\<lparr>st_root := sentinel\<rparr>
     in set_parent (st_root T) NULL T)"

partial_function (option) actual_sack_insert_fn :: "addr \<Rightarrow> addr \<Rightarrow> udx_sack_tree \<Rightarrow> udx_sack_tree option" where
  "actual_sack_insert_fn temp block T =
    (let left = (seq_diff (sb_start (st_block T block)) (sb_start (st_block T temp)) < 0);
         p = (if left then st_left T temp else st_right T temp)
     in if p = st_sentinel T then
          let T = (if left then set_left temp block T else set_right temp block T);
              T = set_parent block temp T;
              T = set_left block (st_sentinel T) T;
              T = set_right block (st_sentinel T) T
          in Some (set_red block True T)
        else actual_sack_insert_fn p block T)"

text \<open>One round of re-balancing after an insertion; the result is the block to go on with.\<close>

definition insert_fixup_step :: "addr \<Rightarrow> udx_sack_tree \<Rightarrow> addr \<times> udx_sack_tree" where
  "insert_fixup_step block T =
    (if st_parent T block = st_left T (st_parent T (st_parent T block)) then
       let temp = st_right T (st_parent T (st_parent T block)) in
       if st_red T temp then
         let T = set_red (st_parent T block) False T;
             T = set_red temp False T;
             T = set_red (st_parent T (st_parent T block)) True T
         in (st_parent T (st_parent T block), T)
       else
         let (block, T) = (if block = st_right T (st_parent T block)
               then (let block = st_parent T block in (block, rbtree_left_rotate block T)) else (block, T));
             T = set_red (st_parent T block) False T;
             T = set_red (st_parent T (st_parent T block)) True T
         in (block, rbtree_right_rotate (st_parent T (st_parent T block)) T)
     else
       let temp = st_left T (st_parent T (st_parent T block)) in
       if st_red T temp then
         let T = set_red (st_parent T block) False T;
             T = set_red temp False T;
             T = set_red (st_parent T (st_parent T block)) True T
         in (st_parent T (st_parent T block), T)
       else
         let (block, T) = (if block = st_left T (st_parent T block)
               then (let block = st_parent T block in (block, rbtree_right_rotate block T)) else (block, T));
             T = set_red (st_parent T block) False T;
             T = set_red (st_parent T (st_parent T block)) True T
         in (block, rbtree_left_rotate (st_parent T (st_parent T block)) T))"

partial_function (option) insert_fixup :: "addr \<Rightarrow> udx_sack_tree \<Rightarrow> udx_sack_tree option" where
  "insert_fixup block T =
    (if block \<noteq> st_root T \<and> st_red T (st_parent T block)
     then (case insert_fixup_step block T of (block, T) \<Rightarrow> insert_fixup block T) else Some T)"

definition udx_sack_tree_insert :: "udx_sack_tree \<Rightarrow> addr \<Rightarrow> udx_sack_tree option" where
  "udx_sack_tree_insert T block =
    (if st_root T = st_sentinel T then
       let T = set_parent block NULL T;
           T = set_left block (st_sentinel T) T;
           T = set_right block (st_sentinel T) T;
           T = set_red block False T
       in Some (T\<lparr>st_root := block\<rparr>)
     else do {
       T \<leftarrow> actual_sack_insert_fn (st_root T) block T;
       T \<leftarrow> insert_fixup block T;
       Some (set_red (st_root T) False T)
     })"

partial_function (option) rbtree_min :: "addr \<Rightarrow> udx_sack_tree \<Rightarrow> addr option" where
  "rbtree_min node T = (if st_left T node \<noteq> st_sentinel T then rbtree_min (st_left T node) T else Some node)"

definition udx_sack_tree_min :: "udx_sack_tree \<Rightarrow> addr option" where
  "udx_sack_tree_min T = (if st_root T = st_sentinel T then Some NULL else rbtree_min (st_root T) T)"

text \<open>One round of re-balancing after a removal; the result is the node to go on with.\<close>

definition remove_fixup_step :: "addr \<Rightarrow> udx_sack_tree \<Rightarrow> addr \<times> udx_sack_tree" where
  "remove_fixup_step temp T =
    (if temp = st_left T (st_parent T temp) then
       let w = st_right T (st_parent T temp);
           (w, T) = (if st_red T w then
               let T = set_red w False T;
                   T = set_red (st_parent T temp) True T;
                   T = rbtree_left_rotate (st_parent T temp) T
               in (st_right T (st_parent T temp), T)
             else (w, T))
       in if \<not> st_red T (st_left T w) \<and> \<not> st_red T (st_right T w) then (let T = set_red w True T in (st_parent T temp, T))
          else
            let (w, T) = (if \<not> st_red T (st_right T w) then
                  let T = set_red (st_left T w) False T;
                      T = set_red w True T;
                      T = rbtree_right_rotate w T
                  in (st_right T (st_parent T temp), T)
                else (w, T));
                T = set_red w (st_red T (st_parent T temp)) T;
                T = set_red (st_parent T temp) False T;
                T = set_red (st_right T w) False T;
                T = rbtree_left_rotate (st_parent T temp) T
            in (st_root T, T)
     else
       let w = st_left T (st_parent T temp);
           (w, T) = (if st_red T w then
               let T = set_red w False T;
                   T = set_red (st_parent T temp) True T;
                   T = rbtree_right_rotate (st_parent T temp) T
               in (st_left T (st_parent T temp), T)
             else (w, T))
       in if \<not> st_red T (st_left T w) \<and> \<not> st_red T (st_right T w) then (let T = set_red w True T in (st_parent T temp, T))
          else
            let (w, T) = (if \<not> st_red T (st_left T w) then
                  let T = set_red (st_right T w) False T;
                      T = set_red w True T;
                      T = rbtree_left_rotate w T
                  in (st_left T (st_parent T temp), T)
                else (w, T));
                T = set_red w (st_red T (st_parent T temp)) T;
                T = set_red (st_parent T temp) False T;
                T = set_red (st_left T w) False T;
                T = rbtree_right_rotate (st_parent T temp) T
            in (st_root T, T))"

partial_function (option) remove_fixup :: "addr \<Rightarrow> udx_sack_tree \<Rightarrow> udx_sack_tree option" where
  "remove_fixup temp T =
    (if temp \<noteq> st_root T \<and> \<not> st_red T temp
     then (case remove_fixup_step temp T of (temp, T) \<Rightarrow> remove_fixup temp T) else Some (set_red temp False T))"

text \<open>The node that leaves its place (\<open>subst\<close>) and the one that takes it (\<open>temp\<close>).\<close>

definition remove_choice :: "udx_sack_tree \<Rightarrow> addr \<Rightarrow> (addr \<times> addr) option" where
  "remove_choice T block =
    (if st_left T block = st_sentinel T then Some (block, st_right T block)
     else if st_right T block = st_sentinel T then Some (block, st_left T block)
     else do { subst \<leftarrow> rbtree_min (st_right T block) T; Some (subst, st_right T subst) })"

definition clear_block :: "addr \<Rightarrow> udx_sack_tree \<Rightarrow> udx_sack_tree" where
  "clear_block block T = set_parent block NULL (set_right block NULL (set_left block NULL T))"

text \<open>\<open>subst\<close> takes the place of \<open>block\<close>, once its own place is taken by \<open>temp\<close>.\<close>

definition take_place :: "addr \<Rightarrow> addr \<Rightarrow> udx_sack_tree \<Rightarrow> udx_sack_tree" where
  "take_place block subst T =
    (let T = set_left subst (st_left T block) T;
         T = set_right subst (st_right T block) T;
         T = set_parent subst (st_parent T block) T;
         T = set_red subst (st_red T block) T;
         T = (if block = st_root T then T\<lparr>st_root := subst\<rparr>
              else if block = st_left T (st_parent T block) then set_left (st_parent T block) subst T
              else set_right (st_parent T block) subst T);
         T = (if st_left T subst \<noteq> st_sentinel T then set_parent (st_left T subst) subst T else T)
     in if st_right T subst \<noteq> st_sentinel T then set_parent (st_right T subst) subst T else T)"

definition remove_link :: "addr \<Rightarrow> addr \<Rightarrow> addr \<Rightarrow> udx_sack_tree \<Rightarrow> udx_sack_tree" where
  "remove_link block subst temp T =
    (let T = (if subst = st_left T (st_parent T subst) then set_left (st_parent T subst) temp T
              else set_right (st_parent T subst) temp T)
     in if subst = block then set_parent temp (st_parent T subst) T
        else take_place block subst
          (if st_parent T subst = block then set_parent temp subst T else set_parent temp (st_parent T subst) T))"

definition udx_sack_tree_remove :: "udx_sack_tree \<Rightarrow> addr \<Rightarrow> udx_sack_tree option" where
  "udx_sack_tree_remove T block = do {
     (subst, temp) \<leftarrow> remove_choice T block;
     if subst = st_root T then
       let T = T\<lparr>st_root := temp\<rparr>;
           T = set_red temp False T;
           T = set_parent temp NULL T
       in Some (clear_block block T)
     else do {
       let red = st_red T subst;
       let T = clear_block block (remove_link block subst temp T);
       if red then Some T else remove_fixup temp T
     }
   }"

text \<open>The next block in order: the first of the right subtree, or the first ancestor entered from its left.\<close>

partial_function (option) next_up :: "addr \<Rightarrow> udx_sack_tree \<Rightarrow> addr option" where
  "next_up block T =
    (if block = st_root T then Some NULL
     else if block = st_left T (st_parent T block) then Some (st_parent T block)
     else next_up (st_parent T block) T)"

definition udx_sack_tree_next :: "udx_sack_tree \<Rightarrow> addr \<Rightarrow> addr option" where
  "udx_sack_tree_next T block = (if st_right T block \<noteq> st_sentinel T then rbtree_min (st_right T block) T else next_up block T)"

declare find_from.simps [code] actual_sack_insert_fn.simps [code] insert_fixup.simps [code] rbtree_min.simps [code]
  remove_fixup.simps [code] next_up.simps [code]

section \<open>Trees and what surrounds them\<close>

text \<open>Left and right by a flag, so that each mirrored pair of cases is one.\<close>

definition child :: "bool \<Rightarrow> udx_sack_tree \<Rightarrow> addr \<Rightarrow> addr" where
  "child d T a = (if d then st_left T a else st_right T a)"

definition set_child :: "bool \<Rightarrow> addr \<Rightarrow> addr \<Rightarrow> udx_sack_tree \<Rightarrow> udx_sack_tree" where
  "set_child d a v T = (if d then set_left a v T else set_right a v T)"

definition nd :: "bool \<Rightarrow> 'a tree \<Rightarrow> 'a \<Rightarrow> 'a tree \<Rightarrow> 'a tree" where
  "nd d s a t = (if d then Node s a t else Node t a s)"

fun is_tree :: "udx_sack_tree \<Rightarrow> addr \<Rightarrow> addr \<Rightarrow> addr tree \<Rightarrow> bool" where
  "is_tree T par p Leaf \<longleftrightarrow> p = st_sentinel T"
| "is_tree T par p (Node l a r) \<longleftrightarrow> p = a \<and> a \<noteq> st_sentinel T \<and> a \<noteq> NULL \<and> st_parent T a = par
     \<and> is_tree T a (st_left T a) l \<and> is_tree T a (st_right T a) r"

text \<open>The way up from a node: for each ancestor, on which side it was entered and its other subtree.\<close>

type_synonym ctx = "(bool \<times> addr \<times> addr tree) list"

fun up :: "ctx \<Rightarrow> addr" where
  "up [] = NULL"
| "up ((d, a, t) # c) = a"

fun is_ctx :: "udx_sack_tree \<Rightarrow> addr \<Rightarrow> ctx \<Rightarrow> bool" where
  "is_ctx T p [] \<longleftrightarrow> st_root T = p"
| "is_ctx T p ((d, a, t) # c) \<longleftrightarrow> a \<noteq> st_sentinel T \<and> a \<noteq> NULL \<and> child d T a = p \<and> is_tree T a (child (\<not> d) T a) t
     \<and> st_parent T a = up c \<and> is_ctx T a c"

fun plug :: "addr tree \<Rightarrow> ctx \<Rightarrow> addr tree" where
  "plug t [] = t"
| "plug t ((d, a, s) # c) = plug (nd d t a s) c"

text \<open>The nodes before and behind, in order.\<close>

fun before :: "ctx \<Rightarrow> addr list" where
  "before [] = []"
| "before ((d, a, s) # c) = before c @ (if d then [] else inorder s @ [a])"

fun behind :: "ctx \<Rightarrow> addr list" where
  "behind [] = []"
| "behind ((d, a, s) # c) = (if d then a # inorder s else []) @ behind c"

lemma inorder_plug: "inorder (plug t c) = before c @ inorder t @ behind c"
  by (induction c arbitrary: t rule: plug.induct) (auto simp: nd_def)

fun ctx_set :: "ctx \<Rightarrow> addr set" where
  "ctx_set [] = {}"
| "ctx_set ((d, a, t) # c) = insert a (set_tree t \<union> ctx_set c)"

fun ctx_ok :: "ctx \<Rightarrow> bool" where
  "ctx_ok [] \<longleftrightarrow> True"
| "ctx_ok ((d, a, t) # c) \<longleftrightarrow> distinct (inorder t) \<and> a \<notin> set_tree t \<and> a \<notin> ctx_set c \<and> set_tree t \<inter> ctx_set c = {} \<and> ctx_ok c"

lemma nd_simps [simp]:
  "set_tree (nd d s a t) = insert a (set_tree s \<union> set_tree t)"
  "nd d s a t \<noteq> Leaf" "distinct (inorder (nd d s a t)) \<longleftrightarrow> distinct (inorder s) \<and> distinct (inorder t) \<and> a \<notin> set_tree s \<and> a \<notin> set_tree t \<and> set_tree s \<inter> set_tree t = {}"
  "inorder (nd d (nd d s a t) b u) = inorder (nd d s a (nd d t b u))"
  by (auto simp: nd_def)

lemma is_tree_nd: "is_tree T par p (nd d s a t) \<longleftrightarrow> p = a \<and> a \<noteq> st_sentinel T \<and> a \<noteq> NULL \<and> st_parent T a = par
     \<and> is_tree T a (child d T a) s \<and> is_tree T a (child (\<not> d) T a) t"
  by (auto simp: nd_def child_def)

lemma distinct_plug:
  "distinct (inorder (plug t c)) \<longleftrightarrow> distinct (inorder t) \<and> set_tree t \<inter> ctx_set c = {} \<and> ctx_ok c"
  by (induction c arbitrary: t rule: plug.induct) auto

lemma plug_set: "set_tree (plug t c) = set_tree t \<union> ctx_set c"
  by (induction c arbitrary: t rule: plug.induct) auto

text \<open>What a change must leave alone.\<close>

lemma is_tree_cong:
  assumes "st_sentinel T' = st_sentinel T"
    and "\<And>a. a \<in> set_tree t \<Longrightarrow> st_left T' a = st_left T a \<and> st_right T' a = st_right T a \<and> st_parent T' a = st_parent T a"
  shows "is_tree T' par p t = is_tree T par p t"
  using assms(2) by (induction t arbitrary: par p) (auto simp: assms(1))

lemma is_ctx_cong:
  assumes "st_sentinel T' = st_sentinel T" "st_root T' = st_root T"
    and "\<And>a. a \<in> ctx_set c \<Longrightarrow> st_left T' a = st_left T a \<and> st_right T' a = st_right T a \<and> st_parent T' a = st_parent T a"
  shows "is_ctx T' p c = is_ctx T p c"
  using assms(3)
proof (induction c arbitrary: p rule: ctx_set.induct)
  case (2 d a t c)
  have "is_tree T' a q t = is_tree T a q t" for q by (rule is_tree_cong [OF assms(1)]) (use 2(2) in simp)
  moreover have "is_ctx T' a c = is_ctx T a c" by (rule 2(1)) (use 2(2) in simp)
  ultimately show ?case using 2(2) [of a] by (simp add: assms(1) child_def)
qed (simp add: assms(2))

text \<open>A whole tree is a tree in an empty surrounding, and can be taken apart at any node.\<close>

lemma plug_tree: "is_tree T (up c) p t \<Longrightarrow> is_ctx T p c \<Longrightarrow> is_tree T NULL (st_root T) (plug t c)"
  by (induction c arbitrary: p t rule: plug.induct) (auto simp: is_tree_nd)

lemma unplug_tree: "is_tree T NULL (st_root T) (plug t c) \<Longrightarrow> \<exists>p. is_tree T (up c) p t \<and> is_ctx T p c"
proof (induction c arbitrary: t rule: plug.induct)
  case (2 t d a s c)
  then obtain p where "is_tree T (up c) p (nd d t a s)" "is_ctx T p c" by auto
  then show ?case by (auto simp: is_tree_nd)
qed simp

lemma tree_split:
  assumes "a \<in> set_tree t"
  shows "\<exists>l r c. t = plug (Node l a r) c"
proof -
  have "\<exists>l r c'. plug t c = plug (Node l a r) c'" for c
    using assms
  proof (induction t arbitrary: c)
    case (Node l b r)
    consider "b = a" | "a \<in> set_tree l" | "a \<in> set_tree r" using Node.prems by auto
    then show ?case
    proof cases
      case 2
      have "plug (Node l b r) c = plug l ((True, b, r) # c)" by (simp add: nd_def)
      then show ?thesis using Node.IH(1) [OF 2] by metis
    next
      case 3
      have "plug (Node l b r) c = plug r ((False, b, l) # c)" by (simp add: nd_def)
      then show ?thesis using Node.IH(2) [OF 3] by metis
    qed blast
  qed simp
  from this [of "[]"] show ?thesis by simp
qed

lemma tree_root: "is_tree T par p t \<Longrightarrow> (p = st_sentinel T \<longleftrightarrow> t = Leaf) \<and> (t \<noteq> Leaf \<longrightarrow> p \<in> set_tree t)"
  by (cases t) auto

lemma tree_nodes: "is_tree T par p t \<Longrightarrow> a \<in> set_tree t \<Longrightarrow> a \<noteq> st_sentinel T \<and> a \<noteq> NULL"
  by (induction t arbitrary: par p) auto

lemma ctx_nodes: "is_ctx T p c \<Longrightarrow> a \<in> ctx_set c \<Longrightarrow> a \<noteq> st_sentinel T \<and> a \<noteq> NULL"
  by (induction c arbitrary: p rule: ctx_set.induct) (auto dest: tree_nodes)

lemma ctx_root: "is_ctx T p c \<Longrightarrow> c \<noteq> [] \<Longrightarrow> st_root T \<in> ctx_set c"
proof (induction c arbitrary: p rule: ctx_set.induct)
  case (2 d a t c)
  then show ?case by (cases c) auto
qed simp

lemma up_in: "c \<noteq> [] \<Longrightarrow> up c \<in> ctx_set c"
  by (cases c rule: ctx_set.cases) auto

section \<open>Rotations\<close>

definition turn :: "bool \<Rightarrow> addr \<Rightarrow> udx_sack_tree \<Rightarrow> udx_sack_tree" where
  "turn d node T =
    (let temp = child (\<not> d) T node;
         T = set_child (\<not> d) node (child d T temp) T;
         T = (if child d T temp \<noteq> st_sentinel T then set_parent (child d T temp) node T else T);
         T = set_parent temp (st_parent T node) T;
         T = (if node = st_root T then set_parent temp NULL (T\<lparr>st_root := temp\<rparr>)
              else if node = child d T (st_parent T node) then set_child d (st_parent T node) temp T
              else set_child (\<not> d) (st_parent T node) temp T);
         T = set_child d temp node T
     in set_parent node temp T)"

lemma turn_eqs: "rbtree_left_rotate = turn True" "rbtree_right_rotate = turn False"
  by (simp_all add: fun_eq_iff rbtree_left_rotate_def rbtree_right_rotate_def turn_def child_def set_child_def Let_def)

lemma set_fields [simp]:
  "st_block (set_child d a v T) = st_block T" "st_red (set_child d a v T) = st_red T" "st_parent (set_child d a v T) = st_parent T"
  "st_root (set_child d a v T) = st_root T" "st_sentinel (set_child d a v T) = st_sentinel T"
  "child e (set_child d a v T) b = (if e = d \<and> b = a then v else child e T b)"
  "st_block (set_parent a v T) = st_block T" "st_red (set_parent a v T) = st_red T" "st_parent (set_parent a v T) = (st_parent T)(a := v)"
  "st_root (set_parent a v T) = st_root T" "st_sentinel (set_parent a v T) = st_sentinel T" "child e (set_parent a v T) b = child e T b"
  "child e (T\<lparr>st_root := r\<rparr>) b = child e T b"
  by (auto simp: set_child_def set_parent_def set_left_def set_right_def child_def)

text \<open>The fields after a rotation.\<close>

lemma turn_fields:
  assumes y: "child (\<not> d) T x = y" and b: "child d T y = b" and ne: "y \<noteq> x" "b \<noteq> x" "b \<noteq> y" "st_parent T x \<noteq> x" "st_parent T x \<noteq> y" "b \<noteq> st_parent T x"
  shows "st_block (turn d x T) = st_block T" "st_red (turn d x T) = st_red T" "st_sentinel (turn d x T) = st_sentinel T"
    "st_root (turn d x T) = (if x = st_root T then y else st_root T)"
    "st_parent (turn d x T) a = (if a = x then y else if a = y then (if x = st_root T then NULL else st_parent T x)
       else if a = b \<and> b \<noteq> st_sentinel T then x else st_parent T a)"
    "child e (turn d x T) a = (if a = x \<and> e = (\<not> d) then b else if a = y \<and> e = d then x
       else if x \<noteq> st_root T \<and> a = st_parent T x \<and> e = (if x = child d T (st_parent T x) then d else \<not> d) then y else child e T a)"
proof -
  let ?T1 = "set_child (\<not> d) x b T" and ?pr = "st_parent T x"
  let ?T2 = "if b \<noteq> st_sentinel T then set_parent b x ?T1 else ?T1"
  let ?T3 = "set_parent y ?pr ?T2"
  let ?T4 = "if x = st_root T then set_parent y NULL (?T3\<lparr>st_root := y\<rparr>) else if x = child d T ?pr then set_child d ?pr y ?T3
    else set_child (\<not> d) ?pr y ?T3"
  have d: "d \<noteq> (\<not> d)" "(\<not> d) \<noteq> d" by simp_all
  have p2: "st_parent ?T2 x = ?pr" "child e ?T2 a = child e ?T1 a" "st_root ?T2 = st_root T" "st_sentinel ?T2 = st_sentinel T" for e a using ne(2) by simp_all
  have eq: "turn d x T = set_parent x y (set_child d y x ?T4)"
    using ne d unfolding turn_def Let_def y b by (simp add: p2 y b cong: if_cong)
  have f4: "st_parent ?T4 a = (if a = y then (if x = st_root T then NULL else ?pr) else if a = b \<and> b \<noteq> st_sentinel T then x else st_parent T a)"
    "st_block ?T4 = st_block T" "st_red ?T4 = st_red T" "st_sentinel ?T4 = st_sentinel T" "st_root ?T4 = (if x = st_root T then y else st_root T)" for a
    by simp_all
  have c4: "child e ?T4 a = (if x \<noteq> st_root T \<and> a = ?pr \<and> e = (if x = child d T ?pr then d else \<not> d) then y
      else if a = x \<and> e = (\<not> d) then b else child e T a)" for e a
    by (cases "x = st_root T"; cases "x = child d T ?pr") simp_all
  show "st_block (turn d x T) = st_block T" "st_red (turn d x T) = st_red T" "st_sentinel (turn d x T) = st_sentinel T"
    "st_root (turn d x T) = (if x = st_root T then y else st_root T)"
    unfolding eq by (simp_all only: set_fields f4)
  show "st_parent (turn d x T) a = (if a = x then y else if a = y then (if x = st_root T then NULL else st_parent T x)
       else if a = b \<and> b \<noteq> st_sentinel T then x else st_parent T a)"
    unfolding eq by (simp only: set_fields f4 fun_upd_apply)
  show "child e (turn d x T) a = (if a = x \<and> e = (\<not> d) then b else if a = y \<and> e = d then x
       else if x \<noteq> st_root T \<and> a = st_parent T x \<and> e = (if x = child d T (st_parent T x) then d else \<not> d) then y else child e T a)"
    unfolding eq set_fields c4 using ne by auto
qed

lemma tree_frame:
  assumes "st_sentinel T' = st_sentinel T"
    and "\<And>a e. a \<in> set_tree t \<Longrightarrow> child e T' a = child e T a" "\<And>a. a \<in> set_tree t \<Longrightarrow> st_parent T' a = st_parent T a"
  shows "is_tree T' par p t = is_tree T par p t"
proof (rule is_tree_cong [OF assms(1)])
  fix a assume a: "a \<in> set_tree t"
  show "st_left T' a = st_left T a \<and> st_right T' a = st_right T a \<and> st_parent T' a = st_parent T a"
    using assms(2) [OF a, of True] assms(2) [OF a, of False] assms(3) [OF a] by (simp add: child_def)
qed

lemma ctx_frame:
  assumes "st_sentinel T' = st_sentinel T" "st_root T' = st_root T"
    and "\<And>a e. a \<in> ctx_set c \<Longrightarrow> child e T' a = child e T a" "\<And>a. a \<in> ctx_set c \<Longrightarrow> st_parent T' a = st_parent T a"
  shows "is_ctx T' p c = is_ctx T p c"
proof (rule is_ctx_cong [OF assms(1,2)])
  fix a assume a: "a \<in> ctx_set c"
  show "st_left T' a = st_left T a \<and> st_right T' a = st_right T a \<and> st_parent T' a = st_parent T a"
    using assms(3) [OF a, of True] assms(3) [OF a, of False] assms(4) [OF a] by (simp add: child_def)
qed

text \<open>A subtree is hung below another node.\<close>

lemma tree_reparent:
  assumes t: "is_tree T par p t" "distinct (inorder t)" "st_sentinel T' = st_sentinel T"
    and f: "\<And>a e. a \<in> set_tree t \<Longrightarrow> child e T' a = child e T a" "\<And>a. a \<in> set_tree t \<Longrightarrow> a \<noteq> p \<Longrightarrow> st_parent T' a = st_parent T a"
    and p: "p \<noteq> st_sentinel T \<Longrightarrow> st_parent T' p = par'"
  shows "is_tree T' par' p t"
proof (cases t)
  case (Node l a r)
  have "is_tree T' a q s = is_tree T a q s" if "s = l \<or> s = r" for q s
    by (rule tree_frame [OF t(3)]) (use f that t(1,2) Node in auto)
  moreover have "child True T' a = child True T a" "child False T' a = child False T a" using f(1) [of a] Node by simp_all
  ultimately show ?thesis using t p Node by (auto simp: child_def)
qed (use t in simp)

lemma ctx_hang:
  assumes c: "is_ctx T x c" "ctx_ok c" "x \<notin> ctx_set c" "x \<noteq> st_sentinel T" and same: "st_sentinel T' = st_sentinel T"
    and root: "st_root T' = (if x = st_root T then y else st_root T)"
    and kid: "\<And>e a. a \<in> ctx_set c \<Longrightarrow> child e T' a = (if a = up c \<and> child e T a = x then y else child e T a)"
    and par: "\<And>a. a \<in> ctx_set c \<Longrightarrow> st_parent T' a = st_parent T a"
  shows "is_ctx T' y c"
proof (cases c rule: ctx_set.cases)
  case 1
  then show ?thesis using c root by simp
next
  case (2 d a s c')
  have xr: "x \<noteq> st_root T" using ctx_root [OF c(1)] c(3) 2 by auto
  have other: "child e T b = child e T' b" if "b \<in> set_tree s \<union> ctx_set c'" for e b using kid [of b e] that c(2) 2 by auto
  have sx: "child (\<not> d) T a \<noteq> x"
  proof -
    have "is_tree T a (child (\<not> d) T a) s" using c(1) 2 by simp
    from tree_root [OF this] show ?thesis using c(3,4) 2 by (cases "s = Leaf") auto
  qed
  have "is_tree T' a q s = is_tree T a q s" for q by (rule tree_frame [OF same]) (use other par 2 in auto)
  moreover have "is_ctx T' a c' = is_ctx T a c'" by (rule ctx_frame [OF same]) (use root xr other par 2 in auto)
  moreover have "child d T' a = y" "child (\<not> d) T' a = child (\<not> d) T a" using kid [of a] c(1) 2 sx by auto
  ultimately show ?thesis using c(1) 2 par [of a] by (simp add: same)
qed

lemma turn_law:
  assumes c: "is_ctx T x c" and t: "is_tree T (up c) x (nd d A x (nd d B y C))" and dist: "distinct (inorder (plug (nd d A x (nd d B y C)) c))"
    and sn: "st_sentinel T \<noteq> NULL"
  shows "is_ctx (turn d x T) y c" and "is_tree (turn d x T) (up c) y (nd d (nd d A x B) y C)"
    and "st_block (turn d x T) = st_block T" and "st_red (turn d x T) = st_red T" and "st_sentinel (turn d x T) = st_sentinel T"
proof -
  let ?T = "turn d x T"
  define b where "b = child d T y"
  have k: "x \<noteq> st_sentinel T" "x \<noteq> NULL" "y \<noteq> st_sentinel T" "y \<noteq> NULL" "st_parent T x = up c" "st_parent T y = x" "child (\<not> d) T x = y"
    "is_tree T x (child d T x) A" "is_tree T y b B" "is_tree T y (child (\<not> d) T y) C"
    using t by (auto simp: is_tree_nd b_def)
  have ds: "x \<noteq> y" "x \<notin> set_tree A" "x \<notin> set_tree B" "x \<notin> set_tree C" "y \<notin> set_tree A" "y \<notin> set_tree B" "y \<notin> set_tree C"
    "set_tree A \<inter> set_tree B = {}" "set_tree A \<inter> set_tree C = {}" "set_tree B \<inter> set_tree C = {}" "x \<notin> ctx_set c" "y \<notin> ctx_set c"
    "set_tree A \<inter> ctx_set c = {}" "set_tree B \<inter> ctx_set c = {}" "set_tree C \<inter> ctx_set c = {}" "ctx_ok c" "distinct (inorder B)"
    using dist by (auto simp: distinct_plug)
  have bB: "b = st_sentinel T \<or> b \<in> set_tree B" using tree_root [OF k(9)] by (cases "B = Leaf") auto
  have upc: "up c = NULL \<or> up c \<in> ctx_set c" using up_in [of c] by (cases c) auto
  have rootc: "x = st_root T \<longleftrightarrow> c = []" using c ctx_root [OF c] ds(11) by (cases c) auto
  have "b \<noteq> up c"
    using bB upc sn ctx_nodes [OF c, of "up c"] tree_nodes [OF k(9), of b] ds(14) by (elim disjE) auto
  then have ne: "y \<noteq> x" "b \<noteq> x" "b \<noteq> y" "st_parent T x \<noteq> x" "st_parent T x \<noteq> y" "b \<noteq> st_parent T x"
    using ds(1,3,6,11,12) k(1-5) bB upc by auto
  note f = turn_fields [OF k(7) b_def [symmetric] ne]
  show same: "st_block ?T = st_block T" "st_red ?T = st_red T" "st_sentinel ?T = st_sentinel T" by (simp_all add: f)
  have kid: "child e ?T a = child e T a" if "a \<noteq> x" "a \<noteq> y" "a \<notin> ctx_set c" for e a
    unfolding f(6) using that up_in [of c] rootc k(5) by (cases c) auto
  have par: "st_parent ?T a = st_parent T a" if "a \<noteq> x" "a \<noteq> y" "a \<noteq> b \<or> b = st_sentinel T" for a unfolding f(5) using that by auto
  have A: "is_tree ?T x (child d T x) A"
    using k(8) tree_frame [OF same(3), of A] kid par ds bB by (metis disjoint_iff)
  have C: "is_tree ?T y (child (\<not> d) T y) C"
    using k(10) tree_frame [OF same(3), of C] kid par ds bB by (metis disjoint_iff)
  have B: "is_tree ?T x b B"
  proof (rule tree_reparent [OF k(9) ds(17) same(3)])
    fix a e assume a: "a \<in> set_tree B"
    then show "child e ?T a = child e T a" using kid ds by (metis disjoint_iff)
    show "st_parent ?T a = st_parent T a" if "a \<noteq> b" using par a ds(3,6) that by metis
  next
    show "st_parent ?T b = x" if "b \<noteq> st_sentinel T" using that ne by (simp add: f(5))
  qed
  have px: "st_parent ?T x = y" "child (\<not> d) ?T x = b" "child d ?T x = child d T x"
    using ne k(5) rootc upc ds(11) by (auto simp: f)
  have py: "st_parent ?T y = up c" "child d ?T y = x" "child (\<not> d) ?T y = child (\<not> d) T y"
    using ne k(5) rootc upc ds(12) k(4) by (auto simp: f)
  show "is_tree ?T (up c) y (nd d (nd d A x B) y C)"
    using A B C px py k(1-4) by (simp add: is_tree_nd same(3))
  show "is_ctx ?T y c"
  proof (rule ctx_hang [OF c ds(16,11) k(1) same(3) f(4)])
    fix e a assume a: "a \<in> ctx_set c"
    then have ac: "c \<noteq> []" "a \<noteq> x" "a \<noteq> y" using ds by auto
    have "child d T (up c) = x \<longleftrightarrow> (\<exists>s a' c'. c = (d, a', s) # c')"
    proof (cases c rule: ctx_set.cases)
      case (2 d' a' s c')
      have "is_tree T a' (child (\<not> d') T a') s" using c 2 by simp
      from tree_root [OF this] have "child (\<not> d') T a' \<noteq> x" using ds(11) k(1) 2 by (cases "s = Leaf") auto
      then show ?thesis using c 2 by (cases "d' = d") auto
    qed (use ac in simp)
    moreover have "child e T (up c) = x \<longleftrightarrow> (\<exists>s a' c'. c = (e, a', s) # c')"
    proof (cases c rule: ctx_set.cases)
      case (2 d' a' s c')
      have "is_tree T a' (child (\<not> d') T a') s" using c 2 by simp
      from tree_root [OF this] have "child (\<not> d') T a' \<noteq> x" using ds(11) k(1) 2 by (cases "s = Leaf") auto
      then show ?thesis using c 2 by (cases "d' = e") auto
    qed (use ac in simp)
    ultimately show "child e ?T a = (if a = up c \<and> child e T a = x then y else child e T a)"
      unfolding f(6) k(5) using ac rootc by (cases c rule: ctx_set.cases) auto
  next
    fix a assume "a \<in> ctx_set c"
    then show "st_parent ?T a = st_parent T a" using ds bB ne par by (metis disjoint_iff)
  qed
qed

end
