(* ===== verification/Udx_Sack_Insert.thy ===== *)
theory Udx_Sack_Insert
  imports Udx_Sack_Tree
begin

text \<open>
  The tree of blocks (\<open>src/udx_sack_tree.c\<close>) keeps the colours' invariants under insertion, and searching, walking and inserting give what the
  list of blocks of \<open>Udx_Sack_List\<close> gives.  \<open>sack_tree\<close> is the invariant: the pointers form a tree without sharing, the same number of black
  nodes on every way down, no red node below a red one, a black root and a black sentinel.
\<close>

section \<open>Colours\<close>

text \<open>The black height, balance, and the absence of two red nodes in a row; the same for surroundings, given the height of what fills them.\<close>

fun bh :: "(addr \<Rightarrow> bool) \<Rightarrow> addr tree \<Rightarrow> nat" where
  "bh c Leaf = 0"
| "bh c (Node l a r) = bh c l + (if c a then 0 else 1)"

fun rooted :: "(addr \<Rightarrow> bool) \<Rightarrow> addr tree \<Rightarrow> bool" where
  "rooted c Leaf = False"
| "rooted c (Node l a r) = c a"

fun bal :: "(addr \<Rightarrow> bool) \<Rightarrow> addr tree \<Rightarrow> bool" where
  "bal c Leaf \<longleftrightarrow> True"
| "bal c (Node l a r) \<longleftrightarrow> bal c l \<and> bal c r \<and> bh c l = bh c r"

fun nored :: "(addr \<Rightarrow> bool) \<Rightarrow> addr tree \<Rightarrow> bool" where
  "nored c Leaf \<longleftrightarrow> True"
| "nored c (Node l a r) \<longleftrightarrow> nored c l \<and> nored c r \<and> (c a \<longrightarrow> \<not> rooted c l \<and> \<not> rooted c r)"

fun cbal :: "(addr \<Rightarrow> bool) \<Rightarrow> nat \<Rightarrow> ctx \<Rightarrow> bool" where
  "cbal c n [] \<longleftrightarrow> True"
| "cbal c n ((d, a, t) # k) \<longleftrightarrow> bal c t \<and> bh c t = n \<and> cbal c (n + (if c a then 0 else 1)) k"

fun cnored :: "(addr \<Rightarrow> bool) \<Rightarrow> ctx \<Rightarrow> bool" where
  "cnored c [] \<longleftrightarrow> True"
| "cnored c ((d, a, t) # k) \<longleftrightarrow> nored c t \<and> cnored c k \<and> (c a \<longrightarrow> \<not> rooted c t \<and> k \<noteq> [] \<and> \<not> c (up k))"

lemma colour_nd [simp]:
  "bal c (nd d s a t) \<longleftrightarrow> bal c s \<and> bal c t \<and> bh c s = bh c t"
  "nored c (nd d s a t) \<longleftrightarrow> nored c s \<and> nored c t \<and> (c a \<longrightarrow> \<not> rooted c s \<and> \<not> rooted c t)"
  "rooted c (nd d s a t) = c a"
  by (auto simp: nd_def)

lemma bh_nd: "bh c s = bh c t \<Longrightarrow> bh c (nd d s a t) = bh c s + (if c a then 0 else 1)"
  by (simp add: nd_def)

lemma colour_cong:
  assumes "\<And>a. a \<in> set_tree t \<Longrightarrow> c' a = c a"
  shows "bh c' t = bh c t" "rooted c' t = rooted c t" "bal c' t = bal c t" "nored c' t = nored c t"
proof -
  show b: "bh c' t = bh c t" using assms by (induction t) auto
  show r: "rooted c' t = rooted c t" using assms by (cases t) auto
  have "(bh c' s = bh c s) \<and> (rooted c' s = rooted c s)" if "\<And>a. a \<in> set_tree s \<Longrightarrow> c' a = c a" for s
    using that by (induction s) auto
  then have "bal c' t = bal c t \<and> nored c' t = nored c t" using assms by (induction t) auto
  then show "bal c' t = bal c t" "nored c' t = nored c t" by simp_all
qed

lemma ctx_colour_cong:
  assumes "\<And>a. a \<in> ctx_set k \<Longrightarrow> c' a = c a"
  shows "cbal c' n k = cbal c n k" "cnored c' k = cnored c k"
proof -
  have "cbal c' n k = cbal c n k \<and> cnored c' k = cnored c k"
    using assms
  proof (induction k arbitrary: n rule: ctx_set.induct)
    case (2 d a t k)
    have "bh c' t = bh c t" "rooted c' t = rooted c t" "bal c' t = bal c t" "nored c' t = nored c t"
      using colour_cong [of t c' c] 2(2) by simp_all
    moreover have "k \<noteq> [] \<Longrightarrow> c' (up k) = c (up k)" using up_in [of k] 2(2) by simp
    ultimately show ?case using 2 by auto
  qed simp
  then show "cbal c' n k = cbal c n k" "cnored c' k = cnored c k" by simp_all
qed

lemma bal_plug: "bal c (plug t k) \<longleftrightarrow> bal c t \<and> cbal c (bh c t) k"
proof (induction k arbitrary: t rule: plug.induct)
  case (2 t d a s k)
  have ih: "bal c (plug (nd d t a s) k) \<longleftrightarrow> bal c (nd d t a s) \<and> cbal c (bh c (nd d t a s)) k" by (rule "2.IH")
  show ?case
  proof (cases "bh c t = bh c s")
    case True
    show ?thesis unfolding plug.simps ih bh_nd [OF True] using True by auto
  next
    case False
    then show ?thesis unfolding plug.simps ih by auto
  qed
qed simp

lemma nored_plug: "nored c t \<Longrightarrow> cnored c k \<Longrightarrow> (rooted c t \<Longrightarrow> k \<noteq> [] \<Longrightarrow> \<not> c (up k)) \<Longrightarrow> nored c (plug t k)"
proof (induction k arbitrary: t rule: plug.induct)
  case (2 t d a s k)
  have "nored c (plug (nd d t a s) k)" by (rule "2.IH") (use "2.prems" in auto)
  then show ?case by simp
qed simp

section \<open>Re-balancing after an insertion\<close>

lemma red_fields [simp]:
  "st_block (set_red a v T) = st_block T" "st_red (set_red a v T) = (st_red T)(a := v)" "st_parent (set_red a v T) = st_parent T"
  "st_root (set_red a v T) = st_root T" "st_sentinel (set_red a v T) = st_sentinel T" "child e (set_red a v T) b = child e T b"
  by (simp_all add: set_red_def child_def)

lemma red_frame [simp]: "is_tree (set_red a v T) par p t = is_tree T par p t" "is_ctx (set_red a v T) p k = is_ctx T p k"
  by (rule tree_frame, simp_all) (rule ctx_frame, simp_all)

definition fix_part :: "bool \<Rightarrow> addr \<Rightarrow> udx_sack_tree \<Rightarrow> addr \<times> udx_sack_tree" where
  "fix_part d block T =
    (let temp = child (\<not> d) T (st_parent T (st_parent T block)) in
     if st_red T temp then
       let T = set_red (st_parent T block) False T;
           T = set_red temp False T;
           T = set_red (st_parent T (st_parent T block)) True T
       in (st_parent T (st_parent T block), T)
     else
       let (block, T) = (if block = child (\<not> d) T (st_parent T block)
             then (let block = st_parent T block in (block, turn d block T)) else (block, T));
           T = set_red (st_parent T block) False T;
           T = set_red (st_parent T (st_parent T block)) True T
       in (block, turn (\<not> d) (st_parent T (st_parent T block)) T))"

lemma fix_part_eq: "insert_fixup_step block T = fix_part (st_parent T block = st_left T (st_parent T (st_parent T block))) block T"
  unfolding insert_fixup_step_def fix_part_def turn_eqs child_def Let_def
  by (cases "st_parent T block = st_left T (st_parent T (st_parent T block))") simp_all

text \<open>The heap, seen from a node \<open>p\<close> with subtree \<open>t\<close>.\<close>

definition seen :: "udx_sack_tree \<Rightarrow> addr \<Rightarrow> addr tree \<Rightarrow> ctx \<Rightarrow> bool" where
  "seen T p t k \<longleftrightarrow> is_ctx T p k \<and> is_tree T (up k) p t \<and> distinct (inorder (plug t k)) \<and> st_sentinel T \<noteq> NULL
     \<and> \<not> st_red T (st_sentinel T)"

definition same_blocks :: "udx_sack_tree \<Rightarrow> udx_sack_tree \<Rightarrow> bool" where
  "same_blocks T T' \<longleftrightarrow> st_block T' = st_block T \<and> st_sentinel T' = st_sentinel T"

lemma seen_turn:
  assumes "seen T x (nd d A x (nd d B y C)) k"
  shows "seen (turn d x T) y (nd d (nd d A x B) y C) k" and "same_blocks T (turn d x T)" and "st_red (turn d x T) = st_red T"
proof -
  have "distinct (inorder (plug (nd d (nd d A x B) y C) k))" using assms by (simp add: seen_def inorder_plug)
  then show "seen (turn d x T) y (nd d (nd d A x B) y C) k" "same_blocks T (turn d x T)" "st_red (turn d x T) = st_red T"
    using turn_law [of T x k d A B y C] assms by (simp_all add: seen_def same_blocks_def)
qed

lemma seen_up: "seen T p t ((d, a, s) # k) \<longleftrightarrow> seen T a (nd d t a s) k \<and> child d T a = p"
  by (auto simp: seen_def is_tree_nd)

lemma seen_red: "a \<noteq> st_sentinel T \<Longrightarrow> seen (set_red a v T) p t k = seen T p t k"
  by (auto simp: seen_def)

lemma seen_root: "seen T p t k \<Longrightarrow> t \<noteq> Leaf \<Longrightarrow> p = st_root T \<longleftrightarrow> k = []"
  using ctx_root [of T p k] tree_root [of T "up k" p t] by (cases k) (auto simp: seen_def distinct_plug)

lemma nd_flip: "nd d s a t = nd (\<not> d) t a s"
  by (simp add: nd_def)

lemma tree_nd: "t \<noteq> Leaf \<Longrightarrow> \<exists>s a u. t = nd d s a u"
  by (cases t; cases d) (auto simp: nd_def)

text \<open>The outer case: the parent \<open>Q\<close> of the red node turns black, the grandparent \<open>G\<close> red and below \<open>Q\<close>.\<close>

lemma outer_case:
  assumes s: "seen T q X ((d, Q, R) # (d, G, U) # k)" and X: "X \<noteq> Leaf" "rooted (st_red T) X" "nored (st_red T) X"
    and col: "st_red T Q" "\<not> st_red T G" "nored (st_red T) R" "\<not> rooted (st_red T) R" "nored (st_red T) U" "\<not> rooted (st_red T) U" "cnored (st_red T) k"
    and bal: "bal (st_red T) X" "cbal (st_red T) (bh (st_red T) X) ((d, Q, R) # (d, G, U) # k)"
  defines "T' \<equiv> turn (\<not> d) G (set_red G True (set_red Q False T))"
  shows "seen T' q X ((d, Q, nd d R G U) # k)" and "same_blocks T T'" and "\<not> st_red T' Q"
    and "bal (st_red T') (plug X ((d, Q, nd d R G U) # k))" and "nored (st_red T') (plug X ((d, Q, nd d R G U) # k))"
proof -
  let ?T = "set_red G True (set_red Q False T)"
  have at: "seen T G (nd d (nd d X Q R) G U) k" "child d T G = Q" "child d T Q = q" using s by (simp_all add: seen_up)
  have ne: "G \<noteq> st_sentinel T" "Q \<noteq> st_sentinel T" using at(1) by (auto simp: seen_def is_tree_nd)
  have dist: "distinct (inorder (plug (nd d (nd d X Q R) G U) k))" using at(1) by (simp add: seen_def)
  have "seen ?T G (nd (\<not> d) U G (nd (\<not> d) R Q X)) k" using at(1) ne by (simp add: seen_red nd_flip [of "\<not> d"])
  note r = seen_turn [OF this, folded T'_def]
  have "nd (\<not> d) (nd (\<not> d) U G R) Q X = nd d X Q (nd d R G U)" by (simp add: nd_flip [of "\<not> d"])
  then have r1: "seen T' Q (nd d X Q (nd d R G U)) k" using r(1) by simp
  have "child d T' Q = q"
  proof -
    have "is_tree T' Q (child d T' Q) X" using r1 by (simp add: seen_def is_tree_nd)
    moreover have "is_tree T Q q X" using at(1,3) by (simp add: seen_def is_tree_nd)
    ultimately show ?thesis using X(1) by (cases X) auto
  qed
  then show "seen T' q X ((d, Q, nd d R G U) # k)" using r1 by (simp add: seen_up)
  show "same_blocks T T'" using r(2) by (simp add: same_blocks_def)
  define c where "c = st_red T'"
  have c: "c = (st_red T)(Q := False, G := True)" using r(3) by (simp add: c_def)
  have GQ: "G \<noteq> Q" and nG: "G \<notin> set_tree X" "G \<notin> set_tree R" "G \<notin> set_tree U" "G \<notin> ctx_set k"
    and nQ: "Q \<notin> set_tree X" "Q \<notin> set_tree R" "Q \<notin> set_tree U" "Q \<notin> ctx_set k"
    using dist by (auto simp: distinct_plug)
  show "\<not> st_red T' Q" using GQ by (simp add: c_def [symmetric] c)
  have same: "a \<noteq> G \<Longrightarrow> a \<noteq> Q \<Longrightarrow> c a = st_red T a" for a by (simp add: c)
  have ball: "bh (st_red T) R = bh (st_red T) X" "bal (st_red T) R" "bh (st_red T) U = bh (st_red T) X" "bal (st_red T) U"
    using bal(2) col(1,2) by simp_all
  have cX: "bh c X = bh (st_red T) X" "rooted c X" "bal c X" "nored c X" using colour_cong [of X c "st_red T"] same nG nQ X bal(1) by metis+
  have cR: "bh c R = bh (st_red T) X" "\<not> rooted c R" "bal c R" "nored c R" using colour_cong [of R c "st_red T"] same nG nQ col ball by metis+
  have cU: "bh c U = bh (st_red T) X" "\<not> rooted c U" "bal c U" "nored c U" using colour_cong [of U c "st_red T"] same nG nQ col ball by metis+
  have ck: "cbal c n k = cbal (st_red T) n k" "cnored c k" for n using ctx_colour_cong [of k c "st_red T"] same nG nQ col(7) by metis+
  have cc: "c G" "\<not> c Q" using GQ by (simp_all add: c)
  have b1: "bh c (nd d R G U) = bh (st_red T) X" using bh_nd [of c R U d G] cR cU cc by simp
  have b2: "bh c (nd d X Q (nd d R G U)) = Suc (bh (st_red T) X)" using bh_nd [of c X "nd d R G U" d Q] cX b1 cc by simp
  have "bal c (nd d X Q (nd d R G U))" using cX cR cU b1 by simp
  moreover have "cbal c (Suc (bh (st_red T) X)) k" using bal(2) col(1,2) by (simp add: ck)
  ultimately have "bal c (plug (nd d X Q (nd d R G U)) k)" by (simp add: bal_plug b2)
  then show "bal (st_red T') (plug X ((d, Q, nd d R G U) # k))" by (simp add: c_def)
  have "nored c (nd d X Q (nd d R G U))" using cX cR cU cc by simp
  then have "nored c (plug (nd d X Q (nd d R G U)) k)" by (rule nored_plug [OF _ ck(2)]) (use cc in simp)
  then show "nored (st_red T') (plug X ((d, Q, nd d R G U) # k))" by (simp add: c_def)
qed

text \<open>The colours of a subtree and of surroundings without the recoloured nodes.\<close>

lemma colours_off:
  assumes "\<forall>x. x \<notin> A \<longrightarrow> c' x = c x" "set_tree t \<inter> A = {}"
  shows "bh c' t = bh c t" "rooted c' t = rooted c t" "bal c' t = bal c t" "nored c' t = nored c t"
  using colour_cong [of t c' c] assms by (metis disjoint_iff)+

lemma ctx_colours_off:
  assumes "\<forall>x. x \<notin> A \<longrightarrow> c' x = c x" "ctx_set k \<inter> A = {}"
  shows "cbal c' n k = cbal c n k" "cnored c' k = cnored c k" "k \<noteq> [] \<Longrightarrow> c' (up k) = c (up k)"
  using ctx_colour_cong [of k c' c] assms up_in [of k] by (metis disjoint_iff)+

lemma root_black:
  assumes t: "is_tree T q y Y" "distinct (inorder Y)" and c: "rooted c Y" "bal c Y" "nored c Y"
    and c': "\<not> c' y" "\<forall>x \<in> set_tree Y. x \<noteq> y \<longrightarrow> c' x = c x"
  shows "bh c' Y = Suc (bh c Y)" "bal c' Y" "nored c' Y" "\<not> rooted c' Y"
proof -
  obtain l r where Y: "Y = Node l y r" using t(1) c(1) by (cases Y) simp_all
  have o: "c' x = c x" if "x \<in> set_tree l \<or> x \<in> set_tree r" for x using c'(2) that t(2) by (auto simp: Y)
  have "bh c' l = bh c l" "bal c' l = bal c l" "nored c' l = nored c l" using colour_cong [of l c' c] o by blast+
  moreover have "bh c' r = bh c r" "bal c' r = bal c r" "nored c' r = nored c r" using colour_cong [of r c' c] o by blast+
  ultimately show "bh c' Y = Suc (bh c Y)" "bal c' Y" "nored c' Y" "\<not> rooted c' Y" using c c'(1) by (simp_all add: Y)
qed

lemma seen_child:
  assumes "seen T p t ((d, a, s) # k)" "t \<noteq> Leaf"
  shows "child f T a = p \<longleftrightarrow> f = d"
proof -
  have at: "child d T a = p" "is_tree T a (child (\<not> d) T a) s" "p \<in> set_tree t" "p \<noteq> st_sentinel T" "set_tree t \<inter> set_tree s = {}"
    using assms tree_root [of T a p t] by (auto simp: seen_def distinct_plug)
  have "child (\<not> d) T a \<noteq> p" using tree_root [OF at(2)] at(3-5) by (cases "s = Leaf") auto
  then show ?thesis using at(1) by (cases "f = d") auto
qed

lemma seen_side: "seen T p t ((d, a, s) # k) \<Longrightarrow> t \<noteq> Leaf \<Longrightarrow> (p = st_left T a) = d"
  using seen_child [of T p t d a s k True] by (auto simp: child_def)

text \<open>The loop: it ends, keeps the order of the nodes, and leaves a tree with the colours right up to its root.\<close>

definition coloured :: "udx_sack_tree \<Rightarrow> addr tree \<Rightarrow> bool" where
  "coloured T t \<longleftrightarrow> bal (st_red T) t \<and> nored (st_red T) t"

definition rebalanced :: "udx_sack_tree \<Rightarrow> addr list \<Rightarrow> udx_sack_tree option \<Rightarrow> bool" where
  "rebalanced T xs r \<longleftrightarrow> (\<exists>T' t'. r = Some T' \<and> seen T' (st_root T') t' [] \<and> inorder t' = xs \<and> same_blocks T T' \<and> coloured T' t')"

lemma same_blocks_trans: "same_blocks T U \<Longrightarrow> same_blocks U V \<Longrightarrow> same_blocks T V"
  by (simp add: same_blocks_def)

lemma rebalanced_trans: "same_blocks T U \<Longrightarrow> rebalanced U xs r \<Longrightarrow> rebalanced T xs r"
  unfolding rebalanced_def by (blast intro: same_blocks_trans)

lemma seen_plug: "seen T p t k \<Longrightarrow> seen T (st_root T) (plug t k) []"
  using plug_tree [of T k p t] by (simp add: seen_def)

lemma insert_fixup_stop:
  assumes s: "seen T p t k" and stop: "p = st_root T \<or> \<not> st_red T (st_parent T p)" and c: "coloured T (plug t k)"
  shows "rebalanced T (inorder (plug t k)) (insert_fixup p T)"
proof -
  have "insert_fixup p T = Some T" using stop by (subst insert_fixup.simps) auto
  then show ?thesis using seen_plug [OF s] c by (auto simp: rebalanced_def same_blocks_def)
qed

lemma seen_parent: "seen T p t k \<Longrightarrow> t \<noteq> Leaf \<Longrightarrow> st_parent T p = up k"
  by (cases t) (auto simp: seen_def)

lemma tree_red: "is_tree T q p t \<Longrightarrow> \<not> st_red T (st_sentinel T) \<Longrightarrow> st_red T p = rooted (st_red T) t"
  by (cases t) auto

text \<open>What a red node below a red parent \<open>P\<close> and its parent \<open>G\<close> gives.\<close>

lemma insert_facts:
  assumes s: "seen T p t ((e, P, S) # (d, G, U) # k)" and t: "t \<noteq> Leaf"
  shows "seen T G (nd d (nd e t P S) G U) k" "child d T G = P" "child e T P = p" "st_parent T p = P" "st_parent T P = G"
    "is_tree T G (child (\<not> d) T G) U" "\<not> st_red T (st_sentinel T)" "P \<noteq> st_sentinel T" "G \<noteq> st_sentinel T"
    "(P = st_left T G) = d" "p \<noteq> child (\<not> e) T P"
    "G \<noteq> P" "P \<notin> set_tree t" "P \<notin> set_tree S" "P \<notin> set_tree U" "P \<notin> ctx_set k" "G \<notin> set_tree t" "G \<notin> set_tree S" "G \<notin> set_tree U"
    "G \<notin> ctx_set k" "set_tree t \<inter> set_tree U = {}" "set_tree S \<inter> set_tree U = {}" "set_tree U \<inter> ctx_set k = {}" "distinct (inorder U)"
proof -
  have sP: "seen T P (nd e t P S) ((d, G, U) # k)" "child e T P = p" using s by (simp_all add: seen_up)
  then show sG: "seen T G (nd d (nd e t P S) G U) k" "child d T G = P" "child e T P = p" by (simp_all add: seen_up)
  show "st_parent T p = P" using seen_parent [OF s t] by simp
  show "st_parent T P = G" using seen_parent [OF sP(1)] by simp
  show "is_tree T G (child (\<not> d) T G) U" "\<not> st_red T (st_sentinel T)" "P \<noteq> st_sentinel T" "G \<noteq> st_sentinel T"
    using sG(1) by (auto simp: seen_def is_tree_nd)
  show "(P = st_left T G) = d" using seen_side [OF sP(1)] by simp
  show "p \<noteq> child (\<not> e) T P" using seen_child [OF s t, of "\<not> e"] by simp
  have "distinct (inorder (plug (nd d (nd e t P S) G U) k))" using sG(1) by (simp add: seen_def)
  then show "G \<noteq> P" "P \<notin> set_tree t" "P \<notin> set_tree S" "P \<notin> set_tree U" "P \<notin> ctx_set k" "G \<notin> set_tree t" "G \<notin> set_tree S" "G \<notin> set_tree U"
    "G \<notin> ctx_set k" "set_tree t \<inter> set_tree U = {}" "set_tree S \<inter> set_tree U = {}" "set_tree U \<inter> ctx_set k = {}" "distinct (inorder U)"
    by (auto simp: distinct_plug)
qed

text \<open>The parent's sibling is red: it and the parent turn black, the grandparent red.\<close>

lemma insert_recolour:
  assumes s: "seen T p t ((e, P, S) # (d, G, U) # k)" and t: "t \<noteq> Leaf" "bal (st_red T) t" "nored (st_red T) t"
    and c: "st_red T P" "\<not> st_red T G" "rooted (st_red T) U"
    and k: "cbal (st_red T) (bh (st_red T) t) ((e, P, S) # (d, G, U) # k)" "cnored (st_red T) ((e, P, S) # (d, G, U) # k)"
  defines "T' \<equiv> set_red G True (set_red (child (\<not> d) T G) False (set_red P False T))" and "t' \<equiv> nd d (nd e t P S) G U"
  shows "seen T' G t' k" "rooted (st_red T') t'" "bal (st_red T') t'" "nored (st_red T') t'"
    "cbal (st_red T') (bh (st_red T') t') k" "cnored (st_red T') k"
proof -
  note f = insert_facts [OF s t(1)]
  let ?c = "st_red T"
  define u where "u = child (\<not> d) T G"
  have u: "u \<in> set_tree U" "u \<noteq> st_sentinel T" using c(3) tree_root [OF f(6)] by (cases U; simp add: u_def)+
  show "seen T' G t' k" using f(1,8,9) u(2) by (simp add: T'_def t'_def u_def seen_red)
  define c' where "c' = st_red T'"
  have c': "c' = ?c(P := False, u := False, G := True)" by (simp add: c'_def T'_def u_def)
  have o: "\<forall>x. x \<notin> {P, u, G} \<longrightarrow> c' x = ?c x" by (simp add: c')
  have cc: "c' G" "\<not> c' P" "\<not> c' u" using f(12,19) u(1) by (auto simp: c')
  have h: "bal ?c S" "bh ?c S = bh ?c t" "bal ?c U" "bh ?c U = bh ?c t" "nored ?c S" "nored ?c U" using c k by simp_all
  have t1: "bh c' t = bh ?c t" "bal c' t" "nored c' t" using colours_off [OF o, of t] t f(13,17,21) u(1) by auto
  have S1: "bh c' S = bh ?c t" "bal c' S" "nored c' S" using colours_off [OF o, of S] h f(14,18,22) u(1) by auto
  have k1: "cbal c' n k = cbal ?c n k" "cnored c' k" for n using ctx_colours_off [OF o, of k] k f(16,20,23) u(1) by auto
  have oU: "\<forall>x \<in> set_tree U. x \<noteq> u \<longrightarrow> c' x = ?c x" using o f(15,19) by auto
  have U1: "bh c' U = Suc (bh ?c t)" "bal c' U" "nored c' U" "\<not> rooted c' U"
    using root_black [OF f(6,24) c(3) h(3,6) _ oU [unfolded u_def]] cc(3) h(4) by (simp_all add: u_def)
  have b1: "bh c' (nd e t P S) = Suc (bh ?c t)" using bh_nd [of c' t S e P] t1 S1 cc by simp
  have b2: "bh c' t' = Suc (bh ?c t)" using bh_nd [of c' "nd e t P S" U d G] b1 U1 cc by (simp add: t'_def)
  show "rooted (st_red T') t'" "bal (st_red T') t'" "nored (st_red T') t'" "cnored (st_red T') k"
    using t1 S1 U1 b1 k1 cc by (simp_all add: c'_def [symmetric] t'_def)
  show "cbal (st_red T') (bh (st_red T') t') k" using k(1) c by (simp add: c'_def [symmetric] b2 k1)
qed

text \<open>The parent's sibling is black: after the rotations the loop ends.\<close>

lemma insert_outer:
  assumes s: "seen T p t ((d, P, S) # (d, G, U) # k)" and t: "t \<noteq> Leaf" "rooted (st_red T) t" "bal (st_red T) t" "nored (st_red T) t"
    and c: "st_red T P" "\<not> st_red T G" "\<not> rooted (st_red T) S" "\<not> rooted (st_red T) U" "nored (st_red T) S" "nored (st_red T) U"
    and k: "cbal (st_red T) (bh (st_red T) t) ((d, P, S) # (d, G, U) # k)" "cnored (st_red T) k"
  shows "rebalanced T (inorder (plug t ((d, P, S) # (d, G, U) # k))) (insert_fixup p (turn (\<not> d) G (set_red G True (set_red P False T))))"
proof -
  note oc = outer_case [OF s t(1,2,4) c(1,2,5,3,6,4) k(2) t(3) k(1)]
  let ?T = "turn (\<not> d) G (set_red G True (set_red P False T))"
  have "st_parent ?T p = P" using seen_parent [OF oc(1) t(1)] by simp
  moreover have "coloured ?T (plug t ((d, P, nd d S G U) # k))" using oc(4,5) by (simp add: coloured_def)
  ultimately have "rebalanced ?T (inorder (plug t ((d, P, nd d S G U) # k))) (insert_fixup p ?T)"
    using insert_fixup_stop [OF oc(1)] oc(3) by simp
  moreover have "inorder (plug t ((d, P, nd d S G U) # k)) = inorder (plug t ((d, P, S) # (d, G, U) # k))"
    by (cases d) (simp_all add: inorder_plug nd_def)
  ultimately show ?thesis using rebalanced_trans [OF oc(2)] by simp
qed

lemma insert_inner:
  assumes s: "seen T p t ((\<not> d, P, S) # (d, G, U) # k)" and t: "t \<noteq> Leaf" "rooted (st_red T) t" "bal (st_red T) t" "nored (st_red T) t"
    and c: "st_red T P" "\<not> st_red T G" "\<not> rooted (st_red T) S" "\<not> rooted (st_red T) U" "nored (st_red T) S" "nored (st_red T) U"
    and k: "cbal (st_red T) (bh (st_red T) t) ((\<not> d, P, S) # (d, G, U) # k)" "cnored (st_red T) k"
  defines "T0 \<equiv> turn d P T"
  shows "st_parent T0 P = p" "st_parent T0 p = G"
    and "rebalanced T (inorder (plug t ((\<not> d, P, S) # (d, G, U) # k))) (insert_fixup P (turn (\<not> d) G (set_red G True (set_red p False T0))))"
proof -
  let ?c = "st_red T"
  obtain tl q tr where t': "t = nd d tl q tr" using tree_nd [OF t(1)] by blast
  have q: "q = p" using s by (simp add: seen_def t' is_tree_nd)
  have "seen T P (nd (\<not> d) t P S) ((d, G, U) # k)" using s by (simp add: seen_up)
  then have "seen T P (nd d S P (nd d tl p tr)) ((d, G, U) # k)" by (simp add: t' q nd_flip [of "\<not> d"])
  note tn = seen_turn [OF this, folded T0_def]
  have s0: "seen T0 P (nd d S P tl) ((d, p, tr) # (d, G, U) # k)"
    using tn(1) by (auto simp: seen_up seen_def is_tree_nd)
  show "st_parent T0 P = p" "st_parent T0 p = G" using seen_parent [OF s0] seen_parent [OF tn(1)] by simp_all
  have ct: "?c p" "bal ?c tl" "bal ?c tr" "bh ?c tl = bh ?c tr" "nored ?c tl" "nored ?c tr" "\<not> rooted ?c tl" "\<not> rooted ?c tr"
    using t(2-4) by (auto simp: t' q)
  have ht: "bh ?c t = bh ?c tl" using bh_nd [OF ct(4), of d p] ct(1) by (simp add: t' q)
  have h: "bal ?c S" "bh ?c S = bh ?c t" using k(1) c(1) by simp_all
  have hX: "bh ?c (nd d S P tl) = bh ?c t" using bh_nd [of ?c S tl d P] h ht c(1) by simp
  have "cbal ?c (bh ?c (nd d S P tl)) ((d, p, tr) # (d, G, U) # k)" unfolding hX using k(1) ct ht c by simp
  then have "rebalanced T0 (inorder (plug (nd d S P tl) ((d, p, tr) # (d, G, U) # k)))
      (insert_fixup P (turn (\<not> d) G (set_red G True (set_red p False T0))))"
    using ct c h ht k(2) by (intro insert_outer [OF s0]) (simp_all add: tn(3))
  moreover have "inorder (plug (nd d S P tl) ((d, p, tr) # (d, G, U) # k)) = inorder (plug t ((\<not> d, P, S) # (d, G, U) # k))"
    by (cases d) (simp_all add: t' q nd_def inorder_plug)
  ultimately show "rebalanced T (inorder (plug t ((\<not> d, P, S) # (d, G, U) # k))) (insert_fixup P (turn (\<not> d) G (set_red G True (set_red p False T0))))"
    using rebalanced_trans [OF tn(2)] by simp
qed

lemma insert_fixup_law:
  assumes "seen T p t k" "t \<noteq> Leaf" "rooted (st_red T) t" "bal (st_red T) t" "nored (st_red T) t"
    and "cbal (st_red T) (bh (st_red T) t) k" "cnored (st_red T) k"
  shows "rebalanced T (inorder (plug t k)) (insert_fixup p T)"
  using assms
proof (induction "length k" arbitrary: T p t k rule: less_induct)
  case less
  let ?c = "st_red T"
  note s = less.prems(1) and t = less.prems(2-5)
  show ?case
  proof (cases "k = [] \<or> \<not> ?c (up k)")
    case True
    have "nored ?c (plug t k)" by (rule nored_plug [OF t(4) less.prems(7)]) (use True in auto)
    moreover have "bal ?c (plug t k)" using less.prems(4,6) by (simp add: bal_plug)
    ultimately have "coloured T (plug t k)" by (simp add: coloured_def)
    then show ?thesis using insert_fixup_stop [OF s] True seen_parent [OF s t(1)] seen_root [OF s t(1)] by auto
  next
    case False
    then obtain e P S d G U k2 where k: "k = (e, P, S) # (d, G, U) # k2" and c: "?c P" "\<not> ?c G"
    proof (cases k rule: ctx_set.cases)
      case (2 e P S k1)
      then show ?thesis using False less.prems(7) that by (cases k1 rule: ctx_set.cases) auto
    qed (use False in simp)
    note s = s [unfolded k] and kc = less.prems(6,7) [unfolded k]
    note f = insert_facts [OF s t(1)]
    have go: "insert_fixup p T = (case fix_part d p T of (q, T') \<Rightarrow> insert_fixup q T')"
      using False seen_root [OF less.prems(1) t(1)] f(4,5,10) by (subst insert_fixup.simps) (simp add: fix_part_eq k)
    have cu: "?c (child (\<not> d) T G) = rooted ?c U" by (rule tree_red [OF f(6,7)])
    have cS: "nored ?c S" "\<not> rooted ?c S" "nored ?c U" "cnored ?c k2" using kc c by simp_all
    consider "rooted ?c U" | "\<not> rooted ?c U" "e = d" | "\<not> rooted ?c U" "e = (\<not> d)" by blast
    then show ?thesis
    proof cases
      case 1
      define T1 where "T1 = set_red G True (set_red (child (\<not> d) T G) False (set_red P False T))"
      have "fix_part d p T = (G, T1)" using 1 cu by (simp add: fix_part_def Let_def f(4,5) T1_def)
      moreover note rc = insert_recolour [OF s t(1,3,4) c 1 kc, folded T1_def]
      have "rebalanced T1 (inorder (plug (nd d (nd e t P S) G U) k2)) (insert_fixup G T1)"
        by (rule less.hyps [OF _ rc(1) nd_simps(2) rc(2-6)]) (simp add: k)
      moreover have "same_blocks T T1" by (simp add: T1_def same_blocks_def)
      ultimately show ?thesis using rebalanced_trans by (simp add: go k)
    next
      case 2
      have "fix_part d p T = (p, turn (\<not> d) G (set_red G True (set_red P False T)))"
        using 2 cu f(11) by (simp add: fix_part_def Let_def f(4,5))
      moreover have "rebalanced T (inorder (plug t k)) (insert_fixup p (turn (\<not> d) G (set_red G True (set_red P False T))))"
        using insert_outer [OF s [unfolded 2(2)] t c cS(2) 2(1) cS(1,3) kc(1) [unfolded 2(2)] cS(4)] by (simp add: k 2(2))
      ultimately show ?thesis by (simp add: go)
    next
      case 3
      note ii = insert_inner [OF s [unfolded 3(2)] t c cS(2) 3(1) cS(1,3) kc(1) [unfolded 3(2)] cS(4)]
      have "fix_part d p T = (P, turn (\<not> d) G (set_red G True (set_red p False (turn d P T))))"
        using 3 cu f(3) ii(1,2) by (simp add: fix_part_def Let_def f(4,5))
      then show ?thesis using ii(3) by (simp add: go k 3(2))
    qed
  qed
qed

section \<open>Searching and walking\<close>

text \<open>A tree of blocks, and the blocks in order.\<close>

definition sack_tree :: "udx_sack_tree \<Rightarrow> addr tree \<Rightarrow> bool" where
  "sack_tree T t \<longleftrightarrow> seen T (st_root T) t [] \<and> coloured T t \<and> \<not> rooted (st_red T) t"

definition tree_blocks :: "udx_sack_tree \<Rightarrow> addr tree \<Rightarrow> udx_sack_block list" where
  "tree_blocks T t = map (st_block T) (inorder t)"

lemma rbtree_min_law: "is_tree T par p t \<Longrightarrow> t \<noteq> Leaf \<Longrightarrow> rbtree_min p T = Some (hd (inorder t))"
proof (induction t arbitrary: par p)
  case (Node l a r)
  have l: "is_tree T a (st_left T a) l" "p = a" using Node.prems by simp_all
  show ?case
  proof (cases "l = Leaf")
    case True
    then show ?thesis using l by (subst rbtree_min.simps) simp
  next
    case False
    have "st_left T a \<noteq> st_sentinel T" using tree_root [OF l(1)] False by simp
    moreover have "rbtree_min (st_left T a) T = Some (hd (inorder l))" using Node.IH(1) [OF l(1) False] .
    moreover have "inorder l \<noteq> []" using False by (cases l) simp_all
    ultimately show ?thesis using l by (subst rbtree_min.simps) simp
  qed
qed simp

lemma next_up_law: "is_ctx T p k \<Longrightarrow> t \<noteq> Leaf \<Longrightarrow> is_tree T (up k) p t \<Longrightarrow> distinct (inorder (plug t k))
   \<Longrightarrow> next_up p T = Some (case behind k of [] \<Rightarrow> NULL | b # _ \<Rightarrow> b)"
proof (induction k arbitrary: p t rule: ctx_set.induct)
  case 1
  then show ?case by (subst next_up.simps) simp
next
  case (2 d a s k)
  have p: "st_parent T p = a" "p \<in> set_tree t" "p \<noteq> st_sentinel T" 
  proof -
    obtain l x u where t: "t = Node l x u" using "2.prems"(2) by (cases t) auto
    note q = "2.prems"(3) [unfolded t is_tree.simps up.simps]
    have px: "p = x" using q by blast
    show "p \<in> set_tree t" unfolding t px by simp
    show "st_parent T p = a" "p \<noteq> st_sentinel T" using q px by blast+
  qed
  have ds: "a \<notin> set_tree t" "set_tree t \<inter> set_tree s = {}" "set_tree t \<inter> ctx_set k = {}" using "2.prems"(4) by (auto simp: distinct_plug)
  have rt: "st_root T \<noteq> p"
  proof -
    have "st_root T \<in> ctx_set ((d, a, s) # k)" by (rule ctx_root [OF "2.prems"(1)]) simp
    then show ?thesis using p(2) ds by auto
  qed
  have c: "child d T a = p" "is_tree T a (child (\<not> d) T a) s" using "2.prems"(1) by simp_all
  show ?case
  proof (cases d)
    case True
    then show ?thesis using c(1) rt p(1) by (subst next_up.simps) (simp add: child_def)
  next
    case False
    then have "st_left T a \<noteq> p" using tree_root [OF c(2)] p(2,3) ds(2) by (cases "s = Leaf") (auto simp: child_def)
    then have "next_up p T = next_up a T" using rt p(1) by (subst next_up.simps) auto
    moreover have "next_up a T = Some (case behind k of [] \<Rightarrow> NULL | b # _ \<Rightarrow> b)"
    proof (rule "2.IH" [of a "nd d t a s"])
      show "is_ctx T a k" using "2.prems"(1) by simp
      show "is_tree T (up k) a (nd d t a s)" using "2.prems"(1,3) c by (simp add: is_tree_nd)
      show "distinct (inorder (plug (nd d t a s) k))" using "2.prems"(4) by simp
    qed simp
    ultimately show ?thesis using False by simp
  qed
qed

lemma nth_behind:
  "xs = w @ v \<Longrightarrow> length w = n \<Longrightarrow> (if n < length xs then xs ! n else z) = (case v of [] \<Rightarrow> z | b # _ \<Rightarrow> b)"
  by (cases v) (auto simp: nth_append)

lemma next_law:
  assumes s: "seen T (st_root T) t []" and i: "i < length (inorder t)"
  shows "udx_sack_tree_next T (inorder t ! i) = Some (if Suc i < length (inorder t) then inorder t ! Suc i else NULL)"
proof -
  let ?a = "inorder t ! i"
  have "?a \<in> set_tree t" using i by (metis nth_mem set_inorder)
  then obtain l r k where t: "t = plug (Node l ?a r) k" using tree_split by metis
  have "is_tree T NULL (st_root T) (plug (Node l ?a r) k)" using s t by (simp add: seen_def)
  from unplug_tree [OF this] obtain p where p: "is_tree T (up k) p (Node l ?a r)" "is_ctx T p k" by blast
  have dist: "distinct (inorder (plug (Node l ?a r) k))" using s t by (simp add: seen_def)
  have io: "inorder t = (before k @ inorder l) @ ?a # (inorder r @ behind k)" using arg_cong [OF t, of inorder] by (simp add: inorder_plug)
  have len: "length (before k @ inorder l) = i"
  proof -
    have n: "length (before k @ inorder l) < length (inorder t)" by (subst io) simp
    have "inorder t ! length (before k @ inorder l) = ?a" by (subst io) (simp only: nth_append_length)
    moreover have "distinct (inorder t)" using s by (simp add: seen_def)
    ultimately show ?thesis using n i by (simp add: nth_eq_iff_index_eq)
  qed
  have nx: "(if Suc i < length (inorder t) then inorder t ! Suc i else NULL) = (case inorder r @ behind k of [] \<Rightarrow> NULL | b # _ \<Rightarrow> b)"
  proof -
    have "inorder t = (before k @ inorder l @ [?a]) @ (inorder r @ behind k)" using io by simp
    moreover have "length (before k @ inorder l @ [?a]) = Suc i" using len by simp
    ultimately show ?thesis by (rule nth_behind)
  qed
  have r: "is_tree T ?a (st_right T ?a) r" "p = ?a" using p(1) by simp_all
  show ?thesis
  proof (cases "r = Leaf")
    case True
    have "st_right T ?a = st_sentinel T" using r True by simp
    moreover have "next_up ?a T = Some (case behind k of [] \<Rightarrow> NULL | b # _ \<Rightarrow> b)"
      using next_up_law [OF p(2) _ p(1) dist] r(2) by simp
    ultimately show ?thesis unfolding nx udx_sack_tree_next_def using True by simp
  next
    case False
    have "st_right T ?a \<noteq> st_sentinel T" using tree_root [OF r(1)] False by simp
    moreover have "inorder r \<noteq> []" using False by (cases r) simp_all
    ultimately show ?thesis
      unfolding nx udx_sack_tree_next_def using rbtree_min_law [OF r(1) False] by (cases "inorder r") simp_all
  qed
qed

lemma find_append: "sack_find seq (xs @ ys) = (case sack_find seq xs of Some i \<Rightarrow> Some i | None \<Rightarrow> map_option ((+) (length xs)) (sack_find seq ys))"
  by (cases "sack_find seq ys"; induction xs) (auto split: option.split)

lemma find_length: "sack_find seq xs = Some i \<Longrightarrow> i < length xs"
  by (induction xs arbitrary: i) (auto split: if_splits)

lemma sacks_consD:
  assumes "sacks_at base lo (b # bs)"
  shows "lo \<le> seq_off base (sb_start b)" "seq_off base (sb_start b) \<le> seq_off base (sb_end b)" "seq_off base (sb_end b) < 2 ^ 31"
    "sacks_at base (Suc (seq_off base (sb_end b))) bs"
  using assms by auto

lemma find_late:
  assumes "sacks_at base lo bs" "seq_off base seq < 2 ^ 31" "seq_off base seq < lo"
  shows "sack_find seq bs = None"
  using assms
proof (induction bs arbitrary: lo)
  case (Cons b bs)
  have "seq_off base (sb_start b) < 2 ^ 31" using Cons.prems(1) by simp
  then have "seq_diff seq (sb_start b) < 0" using Cons.prems by (simp add: seq_diff_window [of base])
  moreover note c = sacks_consD [OF Cons.prems(1)]
  have "seq_off base seq < Suc (seq_off base (sb_end b))" using c(1,2) Cons.prems(3) by linarith
  from Cons.IH [OF c(4) Cons.prems(2) this] have "sack_find seq bs = None" .
  ultimately show ?case by simp
qed simp

lemma sacks_split:
  "sacks_at base lo (xs @ b # ys) \<Longrightarrow> sacks_at base lo xs \<and> (\<forall>x \<in> set xs. seq_off base (sb_end x) < seq_off base (sb_start b))
     \<and> lo \<le> seq_off base (sb_start b) \<and> sacks_at base (seq_off base (sb_start b)) (b # ys)"
proof (induction xs arbitrary: lo)
  case (Cons x xs)
  have ih: "sacks_at base (Suc (seq_off base (sb_end x))) xs \<and> (\<forall>x \<in> set xs. seq_off base (sb_end x) < seq_off base (sb_start b))
     \<and> Suc (seq_off base (sb_end x)) \<le> seq_off base (sb_start b) \<and> sacks_at base (seq_off base (sb_start b)) (b # ys)"
  proof (rule Cons.IH)
    show "sacks_at base (Suc (seq_off base (sb_end x))) (xs @ b # ys)" using sacks_consD(4) Cons.prems by simp
  qed
  then show ?case using Cons.prems by auto
qed auto

lemma find_early:
  assumes "\<forall>x \<in> set xs. seq_off base (sb_end x) < seq_off base seq" "sacks_at base lo xs" "seq_off base seq < 2 ^ 31"
  shows "sack_find seq xs = None"
  using assms
proof (induction xs arbitrary: lo)
  case (Cons b bs)
  have "seq_off base (sb_end b) < 2 ^ 31" using Cons.prems(2) by simp
  then have "seq_diff seq (sb_end b) > 0" using Cons.prems by (simp add: seq_diff_window [of base])
  moreover have "sack_find seq bs = None" using Cons.IH [OF _ sacks_consD(4) [OF Cons.prems(2)]] Cons.prems(1,3) by simp
  ultimately show ?case by simp
qed simp

lemma find_from_law:
  assumes "is_tree T par p t" "sacks_at base lo (map (st_block T) (inorder t))" "seq_off base seq < 2 ^ 31"
  shows "find_from seq p T = Some (case sack_find seq (map (st_block T) (inorder t)) of None \<Rightarrow> NULL | Some i \<Rightarrow> inorder t ! i)"
  using assms(1,2)
proof (induction t arbitrary: par p lo)
  case (Node l a r)
  let ?b = "st_block T a" and ?L = "map (st_block T) (inorder l)" and ?R = "map (st_block T) (inorder r)"
  have p: "p = a" "a \<noteq> st_sentinel T" "is_tree T a (st_left T a) l" "is_tree T a (st_right T a) r" using Node.prems(1) by simp_all
  have sp: "sacks_at base lo ?L" "\<forall>x \<in> set ?L. seq_off base (sb_end x) < seq_off base (sb_start ?b)"
    "sacks_at base (seq_off base (sb_start ?b)) (?b # ?R)"
  proof -
    have "sacks_at base lo (?L @ ?b # ?R)" using Node.prems(2) by (simp del: sacks_at.simps)
    from sacks_split [OF this] show "sacks_at base lo ?L" "\<forall>x \<in> set ?L. seq_off base (sb_end x) < seq_off base (sb_start ?b)"
      "sacks_at base (seq_off base (sb_start ?b)) (?b # ?R)" by blast+
  qed
  have b: "seq_off base (sb_start ?b) \<le> seq_off base (sb_end ?b)" "seq_off base (sb_end ?b) < 2 ^ 31"
    "sacks_at base (Suc (seq_off base (sb_end ?b))) ?R" using sacks_consD [OF sp(3)] by simp_all
  have dif: "seq_diff seq (sb_start ?b) = int (seq_off base seq) - int (seq_off base (sb_start ?b))"
    "seq_diff seq (sb_end ?b) = int (seq_off base seq) - int (seq_off base (sb_end ?b))"
    using b assms(3) by (simp_all add: seq_diff_window [of base])
  consider "seq_off base seq < seq_off base (sb_start ?b)" | "seq_off base (sb_end ?b) < seq_off base seq"
    | "seq_off base (sb_start ?b) \<le> seq_off base seq" "seq_off base seq \<le> seq_off base (sb_end ?b)" by linarith
  then show ?case
  proof cases
    case 1
    have "sack_find seq (?b # ?R) = None" by (rule find_late [OF sp(3) assms(3) 1])
    moreover have "find_from seq p T = find_from seq (st_left T a) T" using p 1 dif by (subst find_from.simps) simp
    ultimately show ?thesis
      using Node.IH(1) [OF p(3) sp(1)] by (auto simp: find_append nth_append dest: find_length split: option.split)
  next
    case 2
    have "sack_find seq ?L = None" by (rule find_early [OF _ sp(1) assms(3)]) (use sp(2) 2 b(1) in fastforce)
    moreover have "find_from seq p T = find_from seq (st_right T a) T" using p 2 b(1) dif by (subst find_from.simps) simp
    ultimately show ?thesis
      using Node.IH(2) [OF p(4) b(3)] 2 dif by (auto simp: find_append nth_append split: option.split)
  next
    case 3
    have "sack_find seq ?L = None"
      using 3 sp(2) by (intro find_early [OF _ sp(1) assms(3)]) fastforce
    moreover have "find_from seq p T = Some a" using p 3 dif by (subst find_from.simps) simp
    ultimately show ?thesis using 3 dif by (simp add: find_append nth_append)
  qed
qed (simp add: find_from.simps)

section \<open>Insertion\<close>

text \<open>The way down: left exactly below the nodes that start behind the new block.\<close>

definition goes_left :: "udx_sack_tree \<Rightarrow> addr \<Rightarrow> addr \<Rightarrow> bool" where
  "goes_left T block a \<longleftrightarrow> seq_diff (sb_start (st_block T block)) (sb_start (st_block T a)) < 0"

lemma attach_law:
  assumes s: "seen T a (nd d Leaf a s) k" and b: "block \<notin> set_tree (plug (nd d Leaf a s) k)" "block \<noteq> st_sentinel T" "block \<noteq> NULL"
  defines "T' \<equiv> set_red block True (set_right block (st_sentinel T) (set_left block (st_sentinel T) (set_parent block a (set_child d a block T))))"
  shows "seen T' block (Node Leaf block Leaf) ((d, a, s) # k)" and "same_blocks T T'" and "st_red T' = (st_red T)(block := True)"
proof -
  have lr: "set_left x v U = set_child True x v U" "set_right x v U = set_child False x v U" for x v U by (simp_all add: set_child_def)
  have T': "T' = set_red block True (set_child False block (st_sentinel T) (set_child True block (st_sentinel T) (set_parent block a (set_child d a block T))))"
    unfolding T'_def lr ..
  show same: "same_blocks T T'" "st_red T' = (st_red T)(block := True)" by (simp_all add: T' same_blocks_def)
  have nb: "block \<noteq> a" "block \<notin> set_tree s" "block \<notin> ctx_set k" using b(1) by (simp_all add: plug_set)
  have at: "is_ctx T a k" "a \<noteq> st_sentinel T" "a \<noteq> NULL" "st_parent T a = up k" "is_tree T a (child (\<not> d) T a) s"
    "distinct (inorder (plug (nd d Leaf a s) k))" "st_sentinel T \<noteq> NULL" "\<not> st_red T (st_sentinel T)"
    using s by (simp_all add: seen_def is_tree_nd)
  have ds: "a \<notin> set_tree s" "a \<notin> ctx_set k" using at(6) by (simp_all add: distinct_plug)
  have sn: "st_sentinel T' = st_sentinel T" "st_root T' = st_root T" by (simp_all add: T')
  have kid: "child e T' x = child e T x" if "x \<noteq> block" "x \<noteq> a" for e x using that by (simp add: T')
  have par: "st_parent T' x = st_parent T x" if "x \<noteq> block" for x using that by (simp add: T')
  have fs: "x \<noteq> block \<and> x \<noteq> a" if "x \<in> set_tree s \<or> x \<in> ctx_set k" for x using that nb ds by metis
  have "is_tree T' a q s = is_tree T a q s" for q
    by (rule tree_frame [OF sn(1)]) (simp_all add: kid par fs)
  moreover have "is_ctx T' a k = is_ctx T a k" by (rule ctx_frame [OF sn]) (simp_all add: kid par fs)
  moreover have "child d T' a = block" "child (\<not> d) T' a = child (\<not> d) T a" "st_parent T' a = up k" using nb(1) at(4) by (simp_all add: T')
  ultimately have "is_ctx T' block ((d, a, s) # k)" using at by (simp add: sn)
  moreover have "st_left T' block = st_sentinel T" "st_right T' block = st_sentinel T" "st_parent T' block = a"
    using nb(1) by (simp_all add: T' set_child_def set_left_def set_right_def set_red_def set_parent_def)
  then have "is_tree T' (up ((d, a, s) # k)) block (Node Leaf block Leaf)" using b by (simp add: sn)
  moreover have "distinct (inorder (plug (Node Leaf block Leaf) ((d, a, s) # k)))"
    using at(6) nb by (auto simp: distinct_plug)
  ultimately show "seen T' block (Node Leaf block Leaf) ((d, a, s) # k)" using at(7,8) b(2) same(2) by (simp add: seen_def sn)
qed

lemma insert_descent:
  assumes "seen T p t k" "t \<noteq> Leaf" and b: "block \<notin> set_tree (plug t k)" "block \<noteq> st_sentinel T" "block \<noteq> NULL"
    and "\<forall>(d, a, s) \<in> set k. d = goes_left T block a"
  shows "\<exists>T' k'. actual_sack_insert_fn p block T = Some T' \<and> seen T' block (Node Leaf block Leaf) k' \<and> plug Leaf k' = plug t k
     \<and> same_blocks T T' \<and> st_red T' = (st_red T)(block := True) \<and> (\<forall>(d, a, s) \<in> set k'. d = goes_left T block a)"
  using assms
proof (induction t arbitrary: p k)
  case (Node l a r)
  have pa: "p = a" using Node.prems(1) by (simp add: seen_def)
  define d where "d = goes_left T block a"
  define s u where su: "s = (if d then l else r)" "u = (if d then r else l)"
  have t: "Node l a r = nd d s a u" by (simp add: nd_def su)
  have at: "seen T a (nd d s a u) k" using Node.prems(1) by (simp add: pa t)
  have sb: "seen T (child d T a) s ((d, a, u) # k)" using at by (simp add: seen_up)
  have ch: "is_tree T a (child d T a) s" using at by (simp add: seen_def is_tree_nd)
  have step: "actual_sack_insert_fn p block T = (if child d T a = st_sentinel T then
      Some (set_red block True (set_right block (st_sentinel T) (set_left block (st_sentinel T) (set_parent block a (set_child d a block T)))))
      else actual_sack_insert_fn (child d T a) block T)"
  proof -
    have sn: "st_sentinel (set_left a block T) = st_sentinel T" "st_sentinel (set_right a block T) = st_sentinel T"
      "st_sentinel (set_parent block a (set_left a block T)) = st_sentinel T" "st_sentinel (set_parent block a (set_right a block T)) = st_sentinel T"
      "st_sentinel (set_left block x (set_parent block a (set_left a block T))) = st_sentinel T"
      "st_sentinel (set_left block x (set_parent block a (set_right a block T))) = st_sentinel T" for x
      by (simp_all add: set_parent_def set_left_def set_right_def)
    show ?thesis
      by (subst actual_sack_insert_fn.simps) (simp add: d_def goes_left_def pa child_def set_child_def Let_def sn)
  qed
  have path: "\<forall>(d, a, s) \<in> set ((d, a, u) # k). d = goes_left T block a" using Node.prems(6) by (simp add: d_def)
  show ?case
  proof (cases "s = Leaf")
    case True
    note al = attach_law [of T a d u k block]
    have "child d T a = st_sentinel T" using ch True by simp
    then show ?thesis
      using al at b Node.prems(3-5) path step by (intro exI conjI) (auto simp: True t)
  next
    case False
    have "child d T a \<noteq> st_sentinel T" using tree_root [OF ch] False by simp
    moreover have pl: "plug s ((d, a, u) # k) = plug (Node l a r) k" by (simp add: t)
    moreover have "\<exists>T' k'. actual_sack_insert_fn (child d T a) block T = Some T' \<and> seen T' block (Node Leaf block Leaf) k' \<and> plug Leaf k' = plug s ((d, a, u) # k)
     \<and> same_blocks T T' \<and> st_red T' = (st_red T)(block := True) \<and> (\<forall>(d, a, s) \<in> set k'. d = goes_left T block a)"
    proof -
      have bk: "block \<notin> set_tree (plug s ((d, a, u) # k))" unfolding pl by (rule Node.prems(3))
      show ?thesis
      proof (cases d)
        case True
        then have "s = l" by (simp add: su)
        then show ?thesis by (metis Node.IH(1) [OF _ _ _ Node.prems(4,5) path] sb False bk)
      next
        case right: False
        then have "s = r" by (simp add: su)
        then show ?thesis by (metis Node.IH(2) [OF _ _ _ Node.prems(4,5) path] sb False bk)
      qed
    qed
    ultimately show ?thesis unfolding step by (simp only: if_False)
  qed
qed simp

lemma nored_unplug:
  "nored c (plug t k) \<Longrightarrow> \<not> rooted c (plug t k) \<Longrightarrow> nored c t \<and> cnored c k \<and> (rooted c t \<longrightarrow> k \<noteq> [] \<and> \<not> c (up k))"
proof (induction k arbitrary: t rule: ctx_set.induct)
  case (2 d a s k)
  have "nored c (nd d t a s) \<and> cnored c k \<and> (rooted c (nd d t a s) \<longrightarrow> k \<noteq> [] \<and> \<not> c (up k))" by (rule "2.IH") (use "2.prems" in simp_all)
  then show ?case by auto
qed simp

lemma path_order:
  assumes "\<forall>(d, a, s) \<in> set k. d = P a" "sorted_wrt (\<lambda>x y. P x \<longrightarrow> P y) (before k @ xs @ behind k)"
  shows "(\<forall>x \<in> set (before k). \<not> P x) \<and> (\<forall>x \<in> set (behind k). P x)"
  using assms
proof (induction k arbitrary: xs rule: ctx_set.induct)
  case (2 d a s k)
  let ?l = "if d then [] else inorder s @ [a]" and ?r = "if d then a # inorder s else []"
  have eq: "before ((d, a, s) # k) @ xs @ behind ((d, a, s) # k) = before k @ (?l @ xs @ ?r) @ behind k" by simp
  have "(\<forall>x \<in> set (before k). \<not> P x) \<and> (\<forall>x \<in> set (behind k). P x)"
    by (rule "2.IH" [of "?l @ xs @ ?r"]) (use "2.prems" in \<open>simp_all add: eq\<close>)
  moreover have "sorted_wrt (\<lambda>x y. P x \<longrightarrow> P y) ?l" "sorted_wrt (\<lambda>x y. P x \<longrightarrow> P y) ?r"
    using "2.prems"(2) unfolding eq by (simp_all only: sorted_wrt_append)
  moreover have "d = P a" using "2.prems"(1) by simp
  ultimately show ?case by (cases d) (auto simp: sorted_wrt_append)
qed simp

lemma sack_insert_at:
  assumes "\<forall>x \<in> set xs. \<not> seq_diff (sb_start b) (sb_start x) < 0" "\<forall>x \<in> set ys. seq_diff (sb_start b) (sb_start x) < 0"
  shows "sack_insert b (xs @ ys) = (length xs, xs @ b # ys)"
  using assms(1)
proof (induction xs)
  case Nil
  then show ?case using assms(2) by (cases ys) simp_all
qed simp

lemma sacks_sorted:
  "sacks_at base lo bs \<Longrightarrow> sorted_wrt (\<lambda>x y. seq_off base (sb_start x) < seq_off base (sb_start y)) bs
     \<and> (\<forall>b \<in> set bs. lo \<le> seq_off base (sb_start b) \<and> seq_off base (sb_start b) < 2 ^ 31)"
proof (induction bs arbitrary: lo)
  case (Cons b bs)
  note c = sacks_consD [OF Cons.prems]
  have "sorted_wrt (\<lambda>x y. seq_off base (sb_start x) < seq_off base (sb_start y)) bs
     \<and> (\<forall>x \<in> set bs. Suc (seq_off base (sb_end b)) \<le> seq_off base (sb_start x) \<and> seq_off base (sb_start x) < 2 ^ 31)" by (rule Cons.IH [OF c(4)])
  then show ?case using c(1-3) by fastforce
qed simp

text \<open>The last step of an insertion: the root turns black.\<close>

lemma blacken_root:
  assumes s: "seen T (st_root T) t []" and c: "coloured T t" and ne: "t \<noteq> Leaf"
  shows "sack_tree (set_red (st_root T) False T) t"
proof -
  obtain l a r where t: "t = Node l a r" using ne by (cases t) auto
  have a: "st_root T = a" "a \<notin> set_tree l" "a \<notin> set_tree r" "a \<noteq> st_sentinel T" using s by (auto simp: seen_def t)
  have f: "((st_red T)(a := False)) x = st_red T x" if "x \<in> set_tree l \<or> x \<in> set_tree r" for x using that a(2,3) by auto
  have "bh ((st_red T)(a := False)) l = bh (st_red T) l" "bal ((st_red T)(a := False)) l = bal (st_red T) l"
    "nored ((st_red T)(a := False)) l = nored (st_red T) l" using colour_cong [of l "(st_red T)(a := False)" "st_red T"] f by blast+
  moreover have "bh ((st_red T)(a := False)) r = bh (st_red T) r" "bal ((st_red T)(a := False)) r = bal (st_red T) r"
    "nored ((st_red T)(a := False)) r = nored (st_red T) r" using colour_cong [of r "(st_red T)(a := False)" "st_red T"] f by blast+
  ultimately have "coloured (set_red a False T) t" using c by (auto simp: coloured_def t)
  moreover have "st_left (set_red a False T) = st_left T" "st_right (set_red a False T) = st_right T" by (simp_all add: set_red_def)
  ultimately show ?thesis using s a(4) unfolding a(1) by (simp add: sack_tree_def seen_def t)
qed

text \<open>The first block becomes a black root.\<close>

lemma insert_first:
  assumes tr: "sack_tree T Leaf" and b: "block \<noteq> NULL" "block \<noteq> st_sentinel T"
  shows "\<exists>T'. udx_sack_tree_insert T block = Some T' \<and> sack_tree T' (Node Leaf block Leaf) \<and> same_blocks T T'"
proof -
  have e: "st_root T = st_sentinel T" "st_sentinel T \<noteq> NULL" "\<not> st_red T (st_sentinel T)" using tr by (simp_all add: sack_tree_def seen_def)
  define T' where "T' = (set_red block False (set_right block (st_sentinel T) (set_left block (st_sentinel T) (set_parent block NULL T))))\<lparr>st_root := block\<rparr>"
  have f: "st_root T' = block" "st_sentinel T' = st_sentinel T" "st_left T' block = st_sentinel T" "st_right T' block = st_sentinel T"
    "st_parent T' block = NULL" "st_red T' = (st_red T)(block := False)" "st_block T' = st_block T"
    by (simp_all add: T'_def set_red_def set_right_def set_left_def set_parent_def)
  have "udx_sack_tree_insert T block = Some T'"
    using e(1) by (simp add: udx_sack_tree_insert_def T'_def Let_def set_red_def set_right_def set_left_def set_parent_def)
  moreover have "sack_tree T' (Node Leaf block Leaf)"
    using b e by (simp add: sack_tree_def seen_def coloured_def f)
  ultimately show ?thesis
    by (intro exI [of _ T']) (simp add: f same_blocks_def)
qed

lemma sack_tree_insert_law:
  assumes tr: "sack_tree T t" and bs: "sacks_at base lo (tree_blocks T t)"
    and b: "block \<notin> set_tree t" "block \<noteq> NULL" "block \<noteq> st_sentinel T" "seq_off base (sb_start (st_block T block)) < 2 ^ 31"
  shows "\<exists>T' t'. udx_sack_tree_insert T block = Some T' \<and> sack_tree T' t' \<and> same_blocks T T'
     \<and> (fst (sack_insert (st_block T block) (tree_blocks T t)), tree_blocks T' t') = sack_insert (st_block T block) (tree_blocks T t)
     \<and> inorder t' ! fst (sack_insert (st_block T block) (tree_blocks T t)) = block"
proof (cases "t = Leaf")
  case True
  then obtain T' where "udx_sack_tree_insert T block = Some T'" "sack_tree T' (Node Leaf block Leaf)" "same_blocks T T'"
    using insert_first tr b(2,3) by blast
  then show ?thesis by (intro exI [of _ T'] exI [of _ "Node Leaf block Leaf"]) (simp add: True tree_blocks_def same_blocks_def)
next
  case False
  let ?b = "st_block T block"
  have s: "seen T (st_root T) t []" and col: "bal (st_red T) t" "nored (st_red T) t" "\<not> rooted (st_red T) t"
    using tr by (simp_all add: sack_tree_def coloured_def)
  have rt: "st_root T \<noteq> st_sentinel T" using s False tree_root [of T NULL "st_root T" t] by (simp add: seen_def)
  obtain T1 k where T1: "actual_sack_insert_fn (st_root T) block T = Some T1" "seen T1 block (Node Leaf block Leaf) k" "plug Leaf k = t"
    "same_blocks T T1" "st_red T1 = (st_red T)(block := True)" "\<forall>(d, a, s) \<in> set k. d = goes_left T block a"
    using insert_descent [OF s False, of block] b by auto
  have nk: "block \<notin> ctx_set k" using b(1) plug_set [of Leaf k] by (simp add: T1(3))
  have cc: "st_red T1 x = st_red T x" if "x \<in> ctx_set k" for x using nk that by (auto simp: T1(5))
  have "cbal (st_red T) 0 k" using col(1) bal_plug [of "st_red T" Leaf k] by (simp add: T1(3))
  then have cb: "cbal (st_red T1) 0 k" by (simp add: ctx_colour_cong(1) [OF cc])
  have "cnored (st_red T) k" using nored_unplug [of "st_red T" Leaf k] col(2,3) by (simp add: T1(3))
  then have cn: "cnored (st_red T1) k" by (simp add: ctx_colour_cong(2) [OF cc])
  obtain T2 t2 where T2: "insert_fixup block T1 = Some T2" "seen T2 (st_root T2) t2 []" "inorder t2 = before k @ block # behind k"
    "same_blocks T1 T2" "coloured T2 t2"
    using insert_fixup_law [OF T1(2)] cb cn by (auto simp: T1(5) inorder_plug rebalanced_def)
  have ne: "t2 \<noteq> Leaf" using T2(3) by auto
  define T' where "T' = set_red (st_root T2) False T2"
  have res: "udx_sack_tree_insert T block = Some T'" using rt T1(1) T2(1) by (simp add: udx_sack_tree_insert_def T'_def)
  have st: "sack_tree T' t2" unfolding T'_def by (rule blacken_root [OF T2(2,5) ne])
  have sb: "same_blocks T T'" using same_blocks_trans [OF T1(4) T2(4)] by (simp add: T'_def same_blocks_def)
  have io: "inorder t = before k @ behind k" using inorder_plug [of Leaf k] by (simp add: T1(3))
  have so: "sorted_wrt (\<lambda>x y. seq_off base (sb_start x) < seq_off base (sb_start y)) (tree_blocks T t)"
    "\<forall>x \<in> set (tree_blocks T t). seq_off base (sb_start x) < 2 ^ 31"
    using sacks_sorted [OF bs] by auto
  have gl: "goes_left T block a \<longleftrightarrow> seq_off base (sb_start ?b) < seq_off base (sb_start (st_block T a))" if "a \<in> set (inorder t)" for a
    using so(2) that b(4) by (simp add: goes_left_def tree_blocks_def seq_diff_window [of base])
  have "sorted_wrt (\<lambda>x y. goes_left T block x \<longrightarrow> goes_left T block y) (before k @ [] @ behind k)"
  proof -
    have "sorted_wrt (\<lambda>x y. seq_off base (sb_start (st_block T x)) < seq_off base (sb_start (st_block T y))) (inorder t)"
      using so(1) by (simp add: tree_blocks_def sorted_wrt_map)
    then have "sorted_wrt (\<lambda>x y. goes_left T block x \<longrightarrow> goes_left T block y) (inorder t)"
      by (rule sorted_wrt_mono_rel [rotated]) (auto simp: gl)
    then show ?thesis by (simp add: io)
  qed
  note po = path_order [OF T1(6) this]
  have "sack_insert ?b (map (st_block T) (before k) @ map (st_block T) (behind k))
      = (length (map (st_block T) (before k)), map (st_block T) (before k) @ ?b # map (st_block T) (behind k))"
    by (rule sack_insert_at) (use po in \<open>auto simp: goes_left_def\<close>)
  then have si: "sack_insert ?b (tree_blocks T t) = (length (before k), map (st_block T) (before k) @ ?b # map (st_block T) (behind k))"
    by (simp add: tree_blocks_def io)
  have "tree_blocks T' t2 = map (st_block T) (before k) @ ?b # map (st_block T) (behind k)"
    using sb by (simp add: tree_blocks_def T2(3) same_blocks_def)
  then show ?thesis using res st sb by (intro exI [of _ T'] exI [of _ t2]) (simp add: si T2(3))
qed

end
