(* ===== verification/Udx_Sack_Remove.thy ===== *)
theory Udx_Sack_Remove
  imports Udx_Sack_Insert
begin

text \<open>
  Removal from the tree of blocks (\<open>udx_sack_tree_remove\<close>): the loop that re-balances ends, and the node is gone while every other one keeps its
  place in the order.  The loop's cases are one lemma each (\<open>remove_outer\<close>, \<open>remove_inner\<close>, \<open>remove_red_sibling\<close>, \<open>remove_sink\<close>), for both sides at once.
\<close>

section \<open>Re-balancing after a removal\<close>

definition remove_rest :: "bool \<Rightarrow> addr \<Rightarrow> addr \<Rightarrow> udx_sack_tree \<Rightarrow> addr \<times> udx_sack_tree" where
  "remove_rest d temp w T =
    (if \<not> st_red T (child d T w) \<and> \<not> st_red T (child (\<not> d) T w) then (let T = set_red w True T in (st_parent T temp, T))
     else
       let (w, T) = (if \<not> st_red T (child (\<not> d) T w) then
             let T = set_red (child d T w) False T;
                 T = set_red w True T;
                 T = turn (\<not> d) w T
             in (child (\<not> d) T (st_parent T temp), T)
           else (w, T));
           T = set_red w (st_red T (st_parent T temp)) T;
           T = set_red (st_parent T temp) False T;
           T = set_red (child (\<not> d) T w) False T;
           T = turn d (st_parent T temp) T
       in (st_root T, T))"

definition remove_part :: "bool \<Rightarrow> addr \<Rightarrow> udx_sack_tree \<Rightarrow> addr \<times> udx_sack_tree" where
  "remove_part d temp T =
    (let w = child (\<not> d) T (st_parent T temp);
         (w, T) = (if st_red T w then
             let T = set_red w False T;
                 T = set_red (st_parent T temp) True T;
                 T = turn d (st_parent T temp) T
             in (child (\<not> d) T (st_parent T temp), T)
           else (w, T))
     in remove_rest d temp w T)"

lemma remove_part_eq: "remove_fixup_step temp T = remove_part (temp = st_left T (st_parent T temp)) temp T"
proof (cases "temp = st_left T (st_parent T temp)")
  case True
  then show ?thesis unfolding remove_fixup_step_def remove_part_def remove_rest_def turn_eqs child_def Let_def by simp
next
  case False
  then show ?thesis unfolding remove_fixup_step_def remove_part_def remove_rest_def turn_eqs child_def Let_def
    by (simp add: conj_commute)
qed

text \<open>A subtree whose root may be red below a red node.\<close>

fun kids_nored :: "(addr \<Rightarrow> bool) \<Rightarrow> addr tree \<Rightarrow> bool" where
  "kids_nored c Leaf \<longleftrightarrow> True"
| "kids_nored c (Node l a r) \<longleftrightarrow> nored c l \<and> nored c r"

lemma kids_nored_nd [simp]: "kids_nored c (nd d s a t) \<longleftrightarrow> nored c s \<and> nored c t"
  by (auto simp: nd_def)

lemma nored_kids: "nored c t \<Longrightarrow> kids_nored c t"
  by (cases t) simp_all

lemma cnored_root: "cnored c k \<Longrightarrow> k \<noteq> [] \<Longrightarrow> \<not> rooted c (plug t k)"
proof (induction k arbitrary: t rule: ctx_set.induct)
  case (2 d a s k)
  then show ?case by (cases k) auto
qed simp

text \<open>The node that ends the loop turns black.\<close>

lemma remove_fixup_stop:
  assumes s: "seen T p t k" and st: "rooted (st_red T) t \<or> k = []"
    and c: "bal (st_red T) t" "kids_nored (st_red T) t" "cbal (st_red T) (Suc (bh (st_red T) t)) k" "cnored (st_red T) k"
  shows "remove_fixup p T = Some (set_red p False T)" and "sack_tree (set_red p False T) (plug t k)"
proof -
  have stop: "p = st_root T \<or> st_red T p"
  proof (cases t)
    case Leaf
    then show ?thesis using s st by (simp add: seen_def)
  next
    case (Node l a r)
    then show ?thesis using s st by (auto simp: seen_def)
  qed
  show "remove_fixup p T = Some (set_red p False T)" by (subst remove_fixup.simps) (use stop in auto)
  show "sack_tree (set_red p False T) (plug t k)"
  proof (cases t)
    case Leaf
    then have "k = []" "p = st_sentinel T" using st s by (simp_all add: seen_def)
    then show ?thesis using s Leaf by (simp add: sack_tree_def seen_def coloured_def)
  next
    case (Node l a r)
    have p: "p = a" "a \<noteq> st_sentinel T" using s Node by (simp_all add: seen_def)
    have nd: "a \<notin> set_tree l" "a \<notin> set_tree r" "a \<notin> ctx_set k" using s by (simp_all add: seen_def Node distinct_plug)
    define c' where "c' = (st_red T)(a := False)"
    have o: "\<forall>x. x \<notin> {a} \<longrightarrow> c' x = st_red T x" by (simp add: c'_def)
    have cl: "bh c' l = bh (st_red T) l" "bal c' l" "nored c' l" using colours_off [OF o, of l] nd c Node by auto
    have cr: "bh c' r = bh (st_red T) r" "bal c' r" "nored c' r" using colours_off [OF o, of r] nd c Node by auto
    have ck: "cbal c' n k = cbal (st_red T) n k" "cnored c' k" for n using ctx_colours_off [OF o, of k] nd c by auto
    have t': "bal c' t" "nored c' t" "\<not> rooted c' t" "bh c' t = Suc (bh (st_red T) l)" using cl cr c(1) by (simp_all add: Node c'_def)
    have "cbal c' (bh c' t) k" using st c(3) unfolding t'(4) ck by (auto simp: Node)
    then have "bal c' (plug t k)" using t' by (simp add: bal_plug)
    moreover have "nored c' (plug t k)" by (rule nored_plug [OF t'(2) ck(2)]) (use t' in simp)
    moreover have "\<not> rooted c' (plug t k)" using t'(3) cnored_root [OF ck(2)] by (cases "k = []") auto
    ultimately show ?thesis
      using seen_plug [of "set_red p False T" p t k] s p by (simp add: sack_tree_def coloured_def seen_red c'_def)
  qed
qed

text \<open>A rotation leaves the sentinel's parent alone; the loop relies on it when the gap is an empty subtree.\<close>

lemma turn_sentinel:
  assumes "x \<noteq> st_sentinel T" "child (\<not> d) T x \<noteq> st_sentinel T"
  shows "st_parent (turn d x T) (st_sentinel T) = st_parent T (st_sentinel T)"
  using assms by (simp add: turn_def Let_def)

definition mended :: "udx_sack_tree \<Rightarrow> addr list \<Rightarrow> udx_sack_tree option \<Rightarrow> bool" where
  "mended T xs r \<longleftrightarrow> (\<exists>T' t'. r = Some T' \<and> sack_tree T' t' \<and> inorder t' = xs \<and> same_blocks T T')"

lemma mended_trans: "same_blocks T U \<Longrightarrow> mended U xs r \<Longrightarrow> mended T xs r"
  by (auto simp: mended_def same_blocks_def)

text \<open>The heap seen from a place that may hold an empty subtree: its parent pointer is right even then.\<close>

definition gap :: "udx_sack_tree \<Rightarrow> addr \<Rightarrow> addr tree \<Rightarrow> ctx \<Rightarrow> bool" where
  "gap T p t k \<longleftrightarrow> seen T p t k \<and> (k \<noteq> [] \<longrightarrow> st_parent T p = up k)"

lemma gap_node: "seen T p t k \<Longrightarrow> t \<noteq> Leaf \<Longrightarrow> gap T p t k"
  by (simp add: gap_def seen_parent)

lemma gap_red: "a \<noteq> st_sentinel T \<Longrightarrow> gap (set_red a v T) p t k = gap T p t k"
  by (simp add: gap_def seen_red)

lemma tree_addr: "is_tree T q p t \<Longrightarrow> is_tree T' q' p' t \<Longrightarrow> st_sentinel T' = st_sentinel T \<Longrightarrow> p' = p"
  by (cases t) simp_all

lemma gap_keep:
  assumes g: "gap T p t ((d, a, S) # k)" and s: "seen T' a (nd d t a S') k'"
    and sn: "st_sentinel T' = st_sentinel T" "st_parent T' (st_sentinel T) = st_parent T (st_sentinel T)"
  shows "gap T' p t ((d, a, S') # k')"
proof -
  have "is_tree T a p t" using g by (simp add: gap_def seen_def)
  moreover have "is_tree T' a (child d T' a) t" using s by (simp add: seen_def is_tree_nd)
  ultimately have "child d T' a = p" using sn(1) by (rule tree_addr)
  then have s': "seen T' p t ((d, a, S') # k')" using s by (simp add: seen_up)
  have "st_parent T' p = a"
  proof (cases "t = Leaf")
    case True
    then have "p = st_sentinel T" using g by (simp add: gap_def seen_def)
    moreover have "st_parent T p = a" using g by (simp add: gap_def)
    ultimately show ?thesis using sn by simp
  next
    case False
    then show ?thesis using seen_parent [OF s'] by simp
  qed
  then show ?thesis using s' by (simp add: gap_def)
qed

text \<open>The facts a place with a sibling gives.\<close>

lemma gap_facts:
  assumes "gap T p t ((d, a, nd d X w Y) # k)"
  shows "seen T a (nd d t a (nd d X w Y)) k" "child d T a = p" "child (\<not> d) T a = w" "st_parent T p = a"
    "is_tree T w (child d T w) X" "is_tree T w (child (\<not> d) T w) Y" "\<not> st_red T (st_sentinel T)"
    "a \<noteq> st_sentinel T" "w \<noteq> st_sentinel T" "a \<noteq> w" "a \<notin> set_tree t" "a \<notin> set_tree X" "a \<notin> set_tree Y" "a \<notin> ctx_set k"
    "w \<notin> set_tree t" "w \<notin> set_tree X" "w \<notin> set_tree Y" "w \<notin> ctx_set k"
    "set_tree t \<inter> set_tree X = {}" "set_tree t \<inter> set_tree Y = {}" "set_tree X \<inter> set_tree Y = {}"
    "set_tree t \<inter> ctx_set k = {}" "set_tree X \<inter> ctx_set k = {}" "set_tree Y \<inter> ctx_set k = {}" "distinct (inorder X)" "distinct (inorder Y)"
proof -
  have s: "seen T p t ((d, a, nd d X w Y) # k)" "st_parent T p = a" using assms by (simp_all add: gap_def)
  show "seen T a (nd d t a (nd d X w Y)) k" "child d T a = p" "st_parent T p = a" using s by (simp_all add: seen_up)
  then show "child (\<not> d) T a = w" "is_tree T w (child d T w) X" "is_tree T w (child (\<not> d) T w) Y" "\<not> st_red T (st_sentinel T)"
    "a \<noteq> st_sentinel T" "w \<noteq> st_sentinel T" by (simp_all add: seen_def is_tree_nd)
  have "distinct (inorder (plug (nd d t a (nd d X w Y)) k))" using s(1) by (simp add: seen_def)
  then show "a \<noteq> w" "a \<notin> set_tree t" "a \<notin> set_tree X" "a \<notin> set_tree Y" "a \<notin> ctx_set k"
    "w \<notin> set_tree t" "w \<notin> set_tree X" "w \<notin> set_tree Y" "w \<notin> ctx_set k"
    "set_tree t \<inter> set_tree X = {}" "set_tree t \<inter> set_tree Y = {}" "set_tree X \<inter> set_tree Y = {}"
    "set_tree t \<inter> ctx_set k = {}" "set_tree X \<inter> ctx_set k = {}" "set_tree Y \<inter> ctx_set k = {}" "distinct (inorder X)" "distinct (inorder Y)"
    by (auto simp: distinct_plug)
qed

text \<open>The outer child of the sibling is red: the rotation ends the loop.\<close>

lemma remove_outer:
  assumes g: "gap T p t ((d, a, nd d X w Y) # k)" and Y: "rooted (st_red T) Y" and w: "\<not> st_red T w"
    and t: "bal (st_red T) t" "nored (st_red T) t"
    and k: "cbal (st_red T) (Suc (bh (st_red T) t)) ((d, a, nd d X w Y) # k)" "cnored (st_red T) ((d, a, nd d X w Y) # k)"
  defines "T' \<equiv> turn d a (set_red (child (\<not> d) T w) False (set_red a False (set_red w (st_red T a) T)))"
  shows "mended T (inorder (plug t ((d, a, nd d X w Y) # k))) (remove_fixup (st_root T') T')"
proof -
  note f = gap_facts [OF g]
  let ?c = "st_red T"
  define y where "y = child (\<not> d) T w"
  have y: "y \<in> set_tree Y" "y \<noteq> st_sentinel T" using tree_root [OF f(6)] Y by (cases Y; simp add: y_def)+
  let ?T = "set_red y False (set_red a False (set_red w (?c a) T))"
  have "seen ?T a (nd d t a (nd d X w Y)) k" using f(1,8,9) y(2) by (simp add: seen_red)
  note tn = seen_turn [OF this]
  have T': "seen T' w (nd d (nd d t a X) w Y) k" "same_blocks T T'" using tn(1,2) by (simp_all add: T'_def y_def same_blocks_def)
  define c where "c = st_red T'"
  have c: "c = ?c(w := ?c a, a := False, y := False)" using tn(3) by (simp add: c_def T'_def y_def)
  have o: "\<forall>x. x \<notin> {w, a, y} \<longrightarrow> c x = ?c x" by (simp add: c)
  have cc: "\<not> c a" "\<not> c y" "c w = ?c a" using f(10) f(17) y(1) by (auto simp: c)
  have ct: "bh c t = bh ?c t" "bal c t" "nored c t" using colours_off [OF o, of t] t f(11,15,20) y(1) by auto
  have cX: "bh c X = bh ?c t" "bal c X" "nored c X"
    using colours_off [OF o, of X] k w f(12,16,21) y(1) bh_nd [of ?c X Y d w] by auto
  have yY: "bal ?c Y" "nored ?c Y" "bh ?c Y = bh ?c t" using k w bh_nd [of ?c X Y d w] by auto
  have oY: "\<forall>x \<in> set_tree Y. x \<noteq> y \<longrightarrow> c x = ?c x" using o f(13,17) by auto
  have cY: "bh c Y = Suc (bh ?c t)" "bal c Y" "nored c Y" "\<not> rooted c Y"
    using root_black [OF f(6) f(26) Y yY(1,2) _ oY [unfolded y_def]] cc(2) yY(3) by (simp_all add: y_def)
  have ck: "cbal c n k = cbal ?c n k" "cnored c k" "k \<noteq> [] \<Longrightarrow> c (up k) = ?c (up k)" for n
    using ctx_colours_off [OF o, of k] k f(14,18,24) y(1) by auto
  have b1: "bh c (nd d t a X) = Suc (bh ?c t)" using bh_nd [of c t X d a] ct cX cc by simp
  have b2: "bh c (nd d (nd d t a X) w Y) = Suc (bh ?c t) + (if ?c a then 0 else 1)" using bh_nd [of c "nd d t a X" Y d w] b1 cY cc by simp
  have bl: "bal c (nd d (nd d t a X) w Y)" using ct cX cY b1 by simp
  have bk: "cbal c (bh c (nd d (nd d t a X) w Y)) k" using k(1) by (simp only: b2 ck cbal.simps)
  have "nored c (nd d (nd d t a X) w Y)" using ct cX cY cc by simp
  moreover have "rooted c (nd d (nd d t a X) w Y) \<Longrightarrow> k \<noteq> [] \<Longrightarrow> \<not> c (up k)" using k(2) cc ck(3) by auto
  ultimately have nr: "nored c (plug (nd d (nd d t a X) w Y) k)" using nored_plug [OF _ ck(2)] by blast
  define r where "r = plug (nd d (nd d t a X) w Y) k"
  have sr: "seen T' (st_root T') r []" unfolding r_def by (rule seen_plug [OF T'(1)])
  have br: "bal c r" unfolding r_def bal_plug using bl bk by simp
  have "remove_fixup (st_root T') T' = Some (set_red (st_root T') False T')" "sack_tree (set_red (st_root T') False T') (plug r [])"
    by (rule remove_fixup_stop [OF sr]; use br nored_kids [OF nr] in \<open>simp add: c_def [symmetric] r_def\<close>)+
  moreover have "inorder r = inorder (plug t ((d, a, nd d X w Y) # k))" by (simp add: r_def inorder_plug)
  ultimately show ?thesis using T'(2) by (auto simp: mended_def same_blocks_def)
qed

text \<open>The inner child is red and the outer one black: the rotation of the sibling makes the outer child red.\<close>

lemma remove_inner:
  assumes g: "gap T p t ((d, a, nd d (nd d X1 x X2) w Y) # k)" and x: "st_red T x" and w: "\<not> st_red T w" and Y: "\<not> rooted (st_red T) Y"
    and t: "bal (st_red T) t" "nored (st_red T) t"
    and k: "cbal (st_red T) (Suc (bh (st_red T) t)) ((d, a, nd d (nd d X1 x X2) w Y) # k)"
      "cnored (st_red T) ((d, a, nd d (nd d X1 x X2) w Y) # k)"
  defines "T' \<equiv> turn (\<not> d) w (set_red w True (set_red (child d T w) False T))"
  shows "gap T' p t ((d, a, nd d X1 x (nd d X2 w Y)) # k)" and "same_blocks T T'"
    and "bal (st_red T') t" "nored (st_red T') t" "rooted (st_red T') (nd d X2 w Y)" "\<not> st_red T' x"
    and "cbal (st_red T') (Suc (bh (st_red T') t)) ((d, a, nd d X1 x (nd d X2 w Y)) # k)"
    and "cnored (st_red T') ((d, a, nd d X1 x (nd d X2 w Y)) # k)"
proof -
  note f = gap_facts [OF g]
  let ?c = "st_red T"
  have cx: "child d T w = x" "x \<noteq> st_sentinel T" using f(5) by (simp_all add: is_tree_nd)
  have ds: "x \<notin> set_tree X1" "x \<notin> set_tree X2" "x \<notin> set_tree t" "x \<notin> set_tree Y" "x \<noteq> w" "x \<noteq> a" "x \<notin> ctx_set k"
    using f(12,16,19,21,23,25) by auto
  let ?T = "set_red w True (set_red x False T)"
  have sw: "nd d (nd d X1 x X2) w Y = nd (\<not> d) Y w (nd (\<not> d) X2 x X1)" "nd d X1 x (nd d X2 w Y) = nd (\<not> d) (nd (\<not> d) Y w X2) x X1"
    by (simp_all add: nd_flip [of "\<not> d"])
  have "seen T w (nd (\<not> d) Y w (nd (\<not> d) X2 x X1)) ((\<not> d, a, t) # k)"
    unfolding seen_up sw(1) [symmetric] using f(1,3) by (simp add: nd_flip [of "\<not> d"])
  then have "seen ?T w (nd (\<not> d) Y w (nd (\<not> d) X2 x X1)) ((\<not> d, a, t) # k)" using f(9) cx(2) by (simp add: seen_red)
  note tn = seen_turn [OF this]
  have T': "T' = turn (\<not> d) w ?T" by (simp add: T'_def cx(1))
  have s': "seen T' a (nd d t a (nd d X1 x (nd d X2 w Y))) k"
    using tn(1) unfolding T' sw(2) [symmetric] seen_up by (simp add: nd_flip [of "\<not> d"])
  show same: "same_blocks T T'" using tn(2) by (simp add: T' same_blocks_def)
  have "st_parent T' (st_sentinel T) = st_parent T (st_sentinel T)"
    using turn_sentinel [of w ?T "\<not> d"] f(9) cx by (simp add: T')
  from gap_keep [OF g s' _ this] show "gap T' p t ((d, a, nd d X1 x (nd d X2 w Y)) # k)" using same by (simp add: same_blocks_def)
  define c where "c = st_red T'"
  have c: "c = ?c(x := False, w := True)" using tn(3) by (simp add: c_def T')
  have o: "\<forall>z. z \<notin> {x, w} \<longrightarrow> c z = ?c z" by (simp add: c)
  have cc: "\<not> c x" "c w" "c a = ?c a" using ds(5,6) f(10) by (auto simp: c)
  have h: "bal ?c X1" "bal ?c X2" "bal ?c Y" "bh ?c X1 = bh ?c t" "bh ?c X2 = bh ?c t" "bh ?c Y = bh ?c t"
    "nored ?c X1" "nored ?c X2" "nored ?c Y" "\<not> rooted ?c X2"
    using k x w bh_nd [of ?c X1 X2 d x] bh_nd [of ?c "nd d X1 x X2" Y d w] by auto
  have ct: "bh c t = bh ?c t" "bal c t" "nored c t" using colours_off [OF o, of t] t ds(3) f(15) by auto
  have c1: "bh c X1 = bh ?c t" "bal c X1" "nored c X1" using colours_off [OF o, of X1] h ds(1) f(16) by auto
  have c2: "bh c X2 = bh ?c t" "bal c X2" "nored c X2" "\<not> rooted c X2" using colours_off [OF o, of X2] h ds(2) f(16) by auto
  have cY: "bh c Y = bh ?c t" "bal c Y" "nored c Y" "\<not> rooted c Y" using colours_off [OF o, of Y] h Y ds(4) f(17) by auto
  have ck: "cbal c n k = cbal ?c n k" "cnored c k" "k \<noteq> [] \<Longrightarrow> c (up k) = ?c (up k)" for n
    using ctx_colours_off [OF o, of k] k ds(7) f(18) by auto
  have b: "bh c (nd d X2 w Y) = bh ?c t" "bh c (nd d X1 x (nd d X2 w Y)) = Suc (bh ?c t)"
    using bh_nd [of c X2 Y d w] bh_nd [of c X1 "nd d X2 w Y" d x] c1 c2 cY cc by simp_all
  show "bal (st_red T') t" "nored (st_red T') t" "rooted (st_red T') (nd d X2 w Y)" "\<not> st_red T' x"
    using ct cc by (simp_all add: c_def [symmetric])
  show "cbal (st_red T') (Suc (bh (st_red T') t)) ((d, a, nd d X1 x (nd d X2 w Y)) # k)"
    using k(1) c1 c2 cY b cc ct(1) by (simp add: c_def [symmetric] ck(1))
  show "cnored (st_red T') ((d, a, nd d X1 x (nd d X2 w Y)) # k)"
    using k(2) c1 c2 cY cc ck(2,3) by (simp add: c_def [symmetric])
qed

text \<open>The sibling is red: after the rotation it is black.\<close>

lemma remove_red_sibling:
  assumes g: "gap T p t ((d, a, nd d X w Y) # k)" and w: "st_red T w" and t: "bal (st_red T) t" "nored (st_red T) t" "\<not> rooted (st_red T) t"
    and k: "cbal (st_red T) (Suc (bh (st_red T) t)) ((d, a, nd d X w Y) # k)" "cnored (st_red T) ((d, a, nd d X w Y) # k)"
  defines "T' \<equiv> turn d a (set_red a True (set_red w False T))"
  shows "gap T' p t ((d, a, X) # (d, w, Y) # k)" and "same_blocks T T'" and "st_red T' a"
    and "bal (st_red T') t" "nored (st_red T') t" "\<not> rooted (st_red T') t"
    and "cbal (st_red T') (Suc (bh (st_red T') t)) ((d, a, X) # (d, w, Y) # k)" and "cnored (st_red T') ((d, a, X) # (d, w, Y) # k)"
proof -
  note f = gap_facts [OF g]
  let ?c = "st_red T"
  let ?T = "set_red a True (set_red w False T)"
  have "seen ?T a (nd d t a (nd d X w Y)) k" using f(1,8,9) by (simp add: seen_red)
  note tn = seen_turn [OF this, folded T'_def]
  have "child d T' w = a" using tn(1) by (simp add: seen_def is_tree_nd)
  then have s': "seen T' a (nd d t a X) ((d, w, Y) # k)" using tn(1) by (simp add: seen_up)
  show same: "same_blocks T T'" using tn(2) by (simp add: same_blocks_def)
  have "st_parent T' (st_sentinel T) = st_parent T (st_sentinel T)"
    using turn_sentinel [of a ?T d] f(3,8,9) by (simp add: T'_def)
  from gap_keep [OF g s' _ this] show "gap T' p t ((d, a, X) # (d, w, Y) # k)" using same by (simp add: same_blocks_def)
  define c where "c = st_red T'"
  have c: "c = ?c(w := False, a := True)" using tn(3) by (simp add: c_def)
  have o: "\<forall>z. z \<notin> {w, a} \<longrightarrow> c z = ?c z" by (simp add: c)
  have cc: "c a" "\<not> c w" using f(10) by (auto simp: c)
  have h: "\<not> ?c a" "bal ?c X" "bal ?c Y" "bh ?c X = Suc (bh ?c t)" "bh ?c Y = Suc (bh ?c t)" "nored ?c X" "nored ?c Y" "\<not> rooted ?c X" "\<not> rooted ?c Y"
    using k w bh_nd [of ?c X Y d w] by auto
  have ct: "bh c t = bh ?c t" "bal c t" "nored c t" "\<not> rooted c t" using colours_off [OF o, of t] t f(11,15) by auto
  have cX: "bh c X = Suc (bh ?c t)" "bal c X" "nored c X" "\<not> rooted c X" using colours_off [OF o, of X] h f(12,16) by auto
  have cY: "bh c Y = Suc (bh ?c t)" "bal c Y" "nored c Y" "\<not> rooted c Y" using colours_off [OF o, of Y] h f(13,17) by auto
  have ck: "cbal c n k = cbal ?c n k" "cnored c k" for n using ctx_colours_off [OF o, of k] k f(14,18) by auto
  show "st_red T' a" "bal (st_red T') t" "nored (st_red T') t" "\<not> rooted (st_red T') t" using ct cc by (simp_all add: c_def [symmetric])
  show "cbal (st_red T') (Suc (bh (st_red T') t)) ((d, a, X) # (d, w, Y) # k)"
    using k(1) cX cY cc h(1) ct(1) by (simp add: c_def [symmetric] ck(1))
  show "cnored (st_red T') ((d, a, X) # (d, w, Y) # k)" using cX cY cc ck(2) by (simp add: c_def [symmetric])
qed

text \<open>Both children are black: the sibling turns red and the parent's subtree is one too low instead.\<close>

lemma remove_sink:
  assumes g: "gap T p t ((d, a, nd d X w Y) # k)" and w: "\<not> st_red T w" "\<not> rooted (st_red T) X" "\<not> rooted (st_red T) Y"
    and t: "bal (st_red T) t" "nored (st_red T) t"
    and k: "cbal (st_red T) (Suc (bh (st_red T) t)) ((d, a, nd d X w Y) # k)" "cnored (st_red T) ((d, a, nd d X w Y) # k)"
  defines "T' \<equiv> set_red w True T"
  shows "gap T' a (nd d t a (nd d X w Y)) k" and "bal (st_red T') (nd d t a (nd d X w Y))" and "kids_nored (st_red T') (nd d t a (nd d X w Y))"
    and "cbal (st_red T') (Suc (bh (st_red T') (nd d t a (nd d X w Y)))) k" and "cnored (st_red T') k" and "st_red T' a = st_red T a"
proof -
  note f = gap_facts [OF g]
  let ?c = "st_red T"
  show "gap T' a (nd d t a (nd d X w Y)) k" by (rule gap_node) (use f(1,9) in \<open>simp_all add: T'_def seen_red\<close>)
  define c where "c = st_red T'"
  have c: "c = ?c(w := True)" by (simp add: c_def T'_def)
  have o: "\<forall>z. z \<notin> {w} \<longrightarrow> c z = ?c z" by (simp add: c)
  have cc: "c w" "c a = ?c a" using f(10) by (auto simp: c)
  have h: "bal ?c X" "bal ?c Y" "bh ?c X = bh ?c t" "bh ?c Y = bh ?c t" "nored ?c X" "nored ?c Y"
    using k w bh_nd [of ?c X Y d w] by auto
  have ct: "bh c t = bh ?c t" "bal c t" "nored c t" using colours_off [OF o, of t] t f(15) by auto
  have cX: "bh c X = bh ?c t" "bal c X" "nored c X" "\<not> rooted c X" using colours_off [OF o, of X] w(2) h f(16) by auto
  have cY: "bh c Y = bh ?c t" "bal c Y" "nored c Y" "\<not> rooted c Y" using colours_off [OF o, of Y] w(3) h f(17) by auto
  have ck: "cbal c n k = cbal ?c n k" "cnored c k" for n using ctx_colours_off [OF o, of k] k f(18) by auto
  have b: "bh c (nd d X w Y) = bh ?c t" using bh_nd [of c X Y d w] cX cY cc by simp
  have b2: "bh c (nd d t a (nd d X w Y)) = bh ?c t + (if ?c a then 0 else 1)" using bh_nd [of c t "nd d X w Y" d a] ct b cc by simp
  show "bal (st_red T') (nd d t a (nd d X w Y))" "kids_nored (st_red T') (nd d t a (nd d X w Y))" "cnored (st_red T') k" "st_red T' a = st_red T a"
    using ct cX cY b ck cc by (simp_all add: c_def [symmetric])
  show "cbal (st_red T') (Suc (bh (st_red T') (nd d t a (nd d X w Y)))) k"
    using k(1) unfolding c_def [symmetric] b2 ck by simp
qed

text \<open>With a black sibling the loop ends, or goes on at the parent.\<close>

lemma remove_rest_law:
  assumes g: "gap T p t ((d, a, nd d X w Y) # k)" and w: "\<not> st_red T w" and t: "bal (st_red T) t" "nored (st_red T) t"
    and k: "cbal (st_red T) (Suc (bh (st_red T) t)) ((d, a, nd d X w Y) # k)" "cnored (st_red T) ((d, a, nd d X w Y) # k)"
    and step: "remove_rest d p w T = (q, T1)"
  shows "mended T (inorder (plug t ((d, a, nd d X w Y) # k))) (remove_fixup q T1)
    \<or> (\<not> rooted (st_red T) X \<and> \<not> rooted (st_red T) Y \<and> q = a \<and> T1 = set_red w True T)"
proof -
  note f = gap_facts [OF g]
  have rX: "st_red T (child d T w) = rooted (st_red T) X" by (rule tree_red [OF f(5,7)])
  have rY: "st_red T (child (\<not> d) T w) = rooted (st_red T) Y" by (rule tree_red [OF f(6,7)])
  consider "\<not> rooted (st_red T) X" "\<not> rooted (st_red T) Y" | "rooted (st_red T) Y" | "rooted (st_red T) X" "\<not> rooted (st_red T) Y" by blast
  then show ?thesis
  proof cases
    case 1
    then show ?thesis using step by (simp add: remove_rest_def rX rY f(4))
  next
    case 2
    then have "q = st_root T1 \<and> T1 = turn d a (set_red (child (\<not> d) T w) False (set_red a False (set_red w (st_red T a) T)))"
      using step by (auto simp: remove_rest_def rX rY f(4) Let_def)
    then show ?thesis using remove_outer [OF g 2 w t k] by simp
  next
    case 3
    obtain X1 x X2 where X: "X = nd d X1 x X2" using tree_nd [of X d] 3(1) by (cases "X = Leaf") auto
    have x: "st_red T x" using 3(1) by (simp add: X)
    note ri = remove_inner [OF g [unfolded X] x w 3(2) t k [unfolded X]]
    define T0 where "T0 = turn (\<not> d) w (set_red w True (set_red (child d T w) False T))"
    note ri = ri [folded T0_def]
    note f0 = gap_facts [OF ri(1)]
    have "q = st_root T1 \<and> T1 = turn d a (set_red (child (\<not> d) T0 x) False (set_red a False (set_red x (st_red T0 a) T0)))"
      using step 3 by (auto simp: remove_rest_def rX rY f0(3,4) T0_def [symmetric] Let_def)
    then have "mended T0 (inorder (plug t ((d, a, nd d X1 x (nd d X2 w Y)) # k))) (remove_fixup q T1)"
      using remove_outer [OF ri(1,5,6,3,4,7,8)] by simp
    moreover have "inorder (plug t ((d, a, nd d X1 x (nd d X2 w Y)) # k)) = inorder (plug t ((d, a, nd d X w Y) # k))"
      by (cases d) (simp_all add: X inorder_plug nd_def)
    ultimately show ?thesis using mended_trans [OF ri(2)] by simp
  qed
qed

lemma remove_fixup_law:
  assumes "gap T p t k" and "bal (st_red T) t" "kids_nored (st_red T) t" "cbal (st_red T) (Suc (bh (st_red T) t)) k" "cnored (st_red T) k"
  shows "mended T (inorder (plug t k)) (remove_fixup p T)"
  using assms
proof (induction "length k" arbitrary: T p t k rule: less_induct)
  case less
  let ?c = "st_red T"
  show ?case
  proof (cases "rooted ?c t \<or> k = []")
    case True
    have "seen T p t k" using less.prems(1) by (simp add: gap_def)
    note st = remove_fixup_stop [OF this True less.prems(2-5)]
    then show ?thesis by (auto simp: mended_def same_blocks_def)
  next
    case False
    obtain d a S k2 where k: "k = (d, a, S) # k2" using False by (cases k rule: ctx_set.cases) auto
    have nt: "nored ?c t" using False less.prems(3) by (cases t) auto
    have "S \<noteq> Leaf" using less.prems(4) by (auto simp: k)
    then obtain X w Y where S: "S = nd d X w Y" using tree_nd by metis
    note g = less.prems(1) [unfolded k S] and kc = less.prems(4,5) [unfolded k S]
    note f = gap_facts [OF g]
    have pp: "p \<noteq> st_root T" "\<not> ?c p"
    proof -
      have "is_tree T a p t" using f(1,2) by (simp add: seen_def is_tree_nd)
      then show "\<not> ?c p" using tree_red f(7) False by blast
      have "st_root T = a \<or> st_root T \<in> ctx_set k2" using f(1) ctx_root [of T a k2] by (cases k2) (auto simp: seen_def)
      moreover have "p = st_sentinel T \<or> p \<in> set_tree t" using tree_root [OF \<open>is_tree T a p t\<close>] by blast
      moreover have "st_root T \<noteq> st_sentinel T"
        using f(1,8) calculation(1) ctx_nodes [of T a k2 "st_root T"] by (auto simp: seen_def)
      ultimately show "p \<noteq> st_root T" using f(11,22) by auto
    qed
    have side: "(p = st_left T (st_parent T p)) = d"
    proof (cases d)
      case True
      then show ?thesis using f(2,4) by (simp add: child_def)
    next
      case right: False
      have "is_tree T a p t" using f(1,2) by (simp add: seen_def is_tree_nd)
      then have "p \<noteq> w" using tree_root f(9,15) by metis
      then show ?thesis using f(3,4) right by (simp add: child_def)
    qed
    have go: "remove_fixup p T = (case remove_part d p T of (q, T') \<Rightarrow> remove_fixup q T')"
      by (subst remove_fixup.simps) (simp add: pp remove_part_eq side)
    show ?thesis
    proof (cases "?c w")
      case False
      obtain q T1 where q: "remove_rest d p w T = (q, T1)" by (cases "remove_rest d p w T")
      have st: "remove_part d p T = (q, T1)" using False q by (simp add: remove_part_def f(3,4))
      have "mended T (inorder (plug t k)) (remove_fixup q T1)"
      proof (rule disjE [OF remove_rest_law [OF g False less.prems(2) nt kc q]])
        assume e: "\<not> rooted ?c X \<and> \<not> rooted ?c Y \<and> q = a \<and> T1 = set_red w True T"
        note rs = remove_sink [OF g False conjunct1 [OF e] conjunct1 [OF conjunct2 [OF e]] less.prems(2) nt kc]
        have "mended (set_red w True T) (inorder (plug (nd d t a (nd d X w Y)) k2)) (remove_fixup a (set_red w True T))"
          by (rule less.hyps [OF _ rs(1-5)]) (simp add: k)
        then show ?thesis using e mended_trans [of T "set_red w True T"] by (simp add: k S same_blocks_def)
      qed (simp add: k S)
      then show ?thesis by (simp add: go st)
    next
      case True
      note rr = remove_red_sibling [OF g True less.prems(2) nt _ kc]
      define T0 where "T0 = turn d a (set_red a True (set_red w False T))"
      note rr = rr [folded T0_def, OF conjunct1 [OF False [unfolded de_Morgan_disj]]]
      have "X \<noteq> Leaf" using rr(7) by auto
      then obtain X1 x X2 where X: "X = nd d X1 x X2" using tree_nd by metis
      note r0 = rr [unfolded X]
      note f0 = gap_facts [OF r0(1)]
      have x: "\<not> st_red T0 x" using r0(8) rr(3) by simp
      obtain q T1 where q: "remove_rest d p x T0 = (q, T1)" by (cases "remove_rest d p x T0")
      have st: "remove_part d p T = (q, T1)" using True q by (simp add: remove_part_def f(3,4) f0(3,4) T0_def [symmetric] Let_def)
      have "mended T0 (inorder (plug t ((d, a, nd d X1 x X2) # (d, w, Y) # k2))) (remove_fixup q T1)"
      proof (rule disjE [OF remove_rest_law [OF r0(1) x r0(4,5,7,8) q]])
        assume e: "\<not> rooted (st_red T0) X1 \<and> \<not> rooted (st_red T0) X2 \<and> q = a \<and> T1 = set_red x True T0"
        note rs = remove_sink [OF r0(1) x conjunct1 [OF e] conjunct1 [OF conjunct2 [OF e]] r0(4,5,7,8)]
        have "seen (set_red x True T0) a (nd d t a (nd d X1 x X2)) ((d, w, Y) # k2)" using rs(1) by (simp add: gap_def)
        note fs = remove_fixup_stop [OF this _ rs(2-5)]
        have "rooted (st_red (set_red x True T0)) (nd d t a (nd d X1 x X2)) \<or> (d, w, Y) # k2 = []" using rs(6) rr(3) by simp
        note fs = fs [OF this]
        then show ?thesis using e by (auto simp: mended_def same_blocks_def)
      qed simp
      moreover have "inorder (plug t ((d, a, X) # (d, w, Y) # k2)) = inorder (plug t k)"
        by (cases d) (simp_all add: k S inorder_plug nd_def)
      ultimately show ?thesis using mended_trans [OF rr(2)] by (simp add: go st X)
    qed
  qed
qed

section \<open>Removal\<close>

text \<open>A node with at most one child gives its place to that child, in the surroundings \<open>(d, a, s) # k\<close>.\<close>

lemma unlink_law:
  assumes s: "seen T b (nd e Leaf b u) ((d, a, s) # k)" and tp: "child (\<not> e) T b = temp"
    and T': "st_sentinel T' = st_sentinel T" "st_root T' = st_root T" "st_red T' = st_red T"
    and kid: "\<And>f x. x \<noteq> b \<Longrightarrow> child f T' x = (if x = a \<and> f = d then temp else child f T x)"
    and par: "\<And>x. x \<noteq> b \<Longrightarrow> st_parent T' x = (if x = temp then a else st_parent T x)"
  shows "gap T' temp u ((d, a, s) # k)"
proof -
  have at: "seen T a (nd d (nd e Leaf b u) a s) k" "child d T a = b" using s by (simp_all add: seen_up)
  have dist: "distinct (inorder (plug (nd d (nd e Leaf b u) a s) k))" using at(1) by (simp add: seen_def)
  then have ds: "a \<noteq> b" "b \<notin> set_tree u" "b \<notin> set_tree s" "b \<notin> ctx_set k" "a \<notin> set_tree u" "a \<notin> set_tree s" "a \<notin> ctx_set k"
    "set_tree u \<inter> set_tree s = {}" "set_tree u \<inter> ctx_set k = {}" "set_tree s \<inter> ctx_set k = {}" "distinct (inorder u)"
    by (auto simp: distinct_plug)
  have u: "is_tree T b temp u" "b \<noteq> st_sentinel T" using s tp by (simp_all add: seen_def is_tree_nd)
  have ts: "is_tree T a (child (\<not> d) T a) s" "a \<noteq> st_sentinel T" "a \<noteq> NULL" "st_parent T a = up k" "is_ctx T a k" "is_tree T a (child d T a) (nd e Leaf b u)"
    using at(1) by (simp_all add: seen_def is_tree_nd)
  have tn: "temp = st_sentinel T \<or> temp \<in> set_tree u" using tree_root [OF u(1)] by (cases "u = Leaf") auto
  have te: "temp \<noteq> a" "temp \<noteq> b" "temp \<notin> set_tree s" "temp \<notin> ctx_set k"
    using tn ds(2,5,8,9) ts(2) u(2) tree_nodes [OF ts(1), of temp] ctx_nodes [OF ts(5), of temp] by auto
  have u': "is_tree T' a temp u"
  proof (rule tree_reparent [OF u(1) ds(11) T'(1)])
    fix x f assume "x \<in> set_tree u"
    then have "x \<noteq> b" "x \<noteq> a" using ds(2,5) by auto
    then show "child f T' x = child f T x" "x \<noteq> temp \<Longrightarrow> st_parent T' x = st_parent T x" by (simp_all add: kid par)
  qed (simp add: par te(2))
  have s': "is_tree T' a (child (\<not> d) T a) s"
  proof -
    have "x \<noteq> b \<and> x \<noteq> a \<and> x \<noteq> temp" if "x \<in> set_tree s" for x using that ds te by metis
    then have "is_tree T' a (child (\<not> d) T a) s = is_tree T a (child (\<not> d) T a) s" by (intro tree_frame [OF T'(1)]) (simp_all add: kid par)
    then show ?thesis using ts(1) by simp
  qed
  have k': "is_ctx T' a k"
  proof -
    have "x \<noteq> b \<and> x \<noteq> a \<and> x \<noteq> temp" if "x \<in> ctx_set k" for x using that ds te by metis
    then have "is_ctx T' a k = is_ctx T a k" by (intro ctx_frame [OF T'(1,2)]) (simp_all add: kid par)
    then show ?thesis using ts(5) by simp
  qed
  have "is_ctx T' temp ((d, a, s) # k)"
    using k' s' ts(2-4) ds(1) te(1) by (simp add: T'(1) kid par)
  moreover have "distinct (inorder (plug u ((d, a, s) # k)))" using dist by (simp add: distinct_plug)
  ultimately show ?thesis using u' s te(2) by (simp add: gap_def seen_def T' par)
qed

text \<open>A node takes the place of another one.\<close>

lemma replace_law:
  assumes s: "seen T b (Node l b r) k" and n: "n \<notin> set_tree (plug (Node l b r) k)" "n \<noteq> st_sentinel T" "n \<noteq> NULL"
    and T': "st_sentinel T' = st_sentinel T" "st_root T' = (if b = st_root T then n else st_root T)" "\<not> st_red T' (st_sentinel T)"
    and kid: "\<And>f x. x \<noteq> b \<Longrightarrow> child f T' x = (if x = n then child f T b else if k \<noteq> [] \<and> x = up k \<and> child f T x = b then n else child f T x)"
    and par: "\<And>x. x \<noteq> b \<Longrightarrow> x \<noteq> st_sentinel T \<Longrightarrow> st_parent T' x = (if x = n then st_parent T b else if x = st_left T b \<or> x = st_right T b then n else st_parent T x)"
  shows "seen T' n (Node l n r) k"
proof -
  have dist: "distinct (inorder (plug (Node l b r) k))" using s by (simp add: seen_def)
  then have ds: "b \<notin> set_tree l" "b \<notin> set_tree r" "b \<notin> ctx_set k" "set_tree l \<inter> set_tree r = {}" "set_tree l \<inter> ctx_set k = {}" "set_tree r \<inter> ctx_set k = {}"
    "distinct (inorder l)" "distinct (inorder r)" "ctx_ok k"
    by (auto simp: distinct_plug)
  have nn: "n \<notin> set_tree l" "n \<notin> set_tree r" "n \<notin> ctx_set k" "n \<noteq> b" using n(1) by (auto simp: plug_set)
  have at: "is_tree T b (st_left T b) l" "is_tree T b (st_right T b) r" "b \<noteq> st_sentinel T" "b \<noteq> NULL" "st_parent T b = up k" "is_ctx T b k" "st_sentinel T \<noteq> NULL"
    using s by (simp_all add: seen_def)
  have lr: "st_left T b = st_sentinel T \<or> st_left T b \<in> set_tree l" "st_right T b = st_sentinel T \<or> st_right T b \<in> set_tree r"
    using tree_root [OF at(1)] tree_root [OF at(2)] by (cases "l = Leaf"; cases "r = Leaf"; auto)+
  have upk: "k \<noteq> [] \<Longrightarrow> up k \<in> ctx_set k" by (rule up_in)
  have l': "is_tree T' n (st_left T b) l"
  proof (rule tree_reparent [OF at(1) ds(7) T'(1)])
    fix x f assume x: "x \<in> set_tree l"
    then have o: "x \<noteq> b" "x \<noteq> n" "x \<noteq> st_sentinel T" "k \<noteq> [] \<Longrightarrow> x \<noteq> up k" "x \<noteq> st_right T b"
      using ds nn tree_nodes [OF at(1)] upk lr(2) by auto
    then show "child f T' x = child f T x" "x \<noteq> st_left T b \<Longrightarrow> st_parent T' x = st_parent T x" by (auto simp: kid par)
  next
    assume "st_left T b \<noteq> st_sentinel T"
    then show "st_parent T' (st_left T b) = n" using lr(1) ds(1) nn(1) by (subst par) auto
  qed
  have r': "is_tree T' n (st_right T b) r"
  proof (rule tree_reparent [OF at(2) ds(8) T'(1)])
    fix x f assume x: "x \<in> set_tree r"
    then have o: "x \<noteq> b" "x \<noteq> n" "x \<noteq> st_sentinel T" "k \<noteq> [] \<Longrightarrow> x \<noteq> up k" "x \<noteq> st_left T b"
      using ds nn tree_nodes [OF at(2)] upk lr(1) by auto
    then show "child f T' x = child f T x" "x \<noteq> st_right T b \<Longrightarrow> st_parent T' x = st_parent T x" by (auto simp: kid par)
  next
    assume "st_right T b \<noteq> st_sentinel T"
    then show "st_parent T' (st_right T b) = n" using lr(2) ds(2) nn(2) by (subst par) auto
  qed
  have k': "is_ctx T' n k"
  proof (rule ctx_hang [OF at(6) ds(9,3) at(3) T'(1,2)])
    fix f x assume x: "x \<in> ctx_set k"
    then have "x \<noteq> b" "x \<noteq> n" "k \<noteq> []" using ds(3) nn(3) by auto
    then show "child f T' x = (if x = up k \<and> child f T x = b then n else child f T x)" by (simp add: kid)
    have "x \<noteq> st_sentinel T" "x \<noteq> st_left T b" "x \<noteq> st_right T b" using ctx_nodes [OF at(6) x] lr ds(5,6) x by auto
    then show "st_parent T' x = st_parent T x" using \<open>x \<noteq> b\<close> \<open>x \<noteq> n\<close> by (simp add: par)
  qed
  have nk: "st_left T' n = st_left T b" "st_right T' n = st_right T b" using kid [OF nn(4), of True] kid [OF nn(4), of False] by (simp_all add: child_def)
  have "is_tree T' (up k) n (Node l n r)" using l' r' n(2,3) at(5) nn(4) by (simp add: T'(1) nk par)
  moreover have "distinct (inorder (plug (Node l n r) k))" using dist nn by (auto simp: distinct_plug)
  ultimately show ?thesis using k' T' at(7) by (simp add: seen_def)
qed

lemma take_place_fields:
  assumes ne: "block \<noteq> subst" "subst \<noteq> st_parent T block" "st_left T block \<noteq> subst" "st_right T block \<noteq> subst" "subst \<noteq> st_sentinel T"
  defines "T' \<equiv> take_place block subst T"
  shows "st_block T' = st_block T" "st_red T' = (st_red T)(subst := st_red T block)" "st_sentinel T' = st_sentinel T"
    "st_root T' = (if block = st_root T then subst else st_root T)"
    "child f T' x = (if x = subst then child f T block
       else if block \<noteq> st_root T \<and> x = st_parent T block \<and> f = (block = st_left T (st_parent T block)) then subst else child f T x)"
    "st_parent T' x = (if x \<noteq> st_sentinel T \<and> (x = st_left T block \<or> x = st_right T block) then subst
       else if x = subst then st_parent T block else st_parent T x)"
proof -
  let ?T1 = "set_red subst (st_red T block) (set_parent subst (st_parent T block) (set_right subst (st_right T block) (set_left subst (st_left T block) T)))"
  define T2 where "T2 = (if block = st_root T then ?T1\<lparr>st_root := subst\<rparr>
    else if block = st_left T (st_parent T block) then set_left (st_parent T block) subst ?T1 else set_right (st_parent T block) subst ?T1)"
  have f2: "st_block T2 = st_block T" "st_red T2 = (st_red T)(subst := st_red T block)" "st_sentinel T2 = st_sentinel T"
    "st_root T2 = (if block = st_root T then subst else st_root T)" "st_parent T2 = (st_parent T)(subst := st_parent T block)"
    "st_left T2 subst = st_left T block" "st_right T2 subst = st_right T block"
    using ne by (simp_all add: T2_def set_left_def set_right_def set_parent_def set_red_def)
  have c2: "child f T2 x = (if x = subst then child f T block
       else if block \<noteq> st_root T \<and> x = st_parent T block \<and> f = (block = st_left T (st_parent T block)) then subst else child f T x)"
    using ne by (auto simp: T2_def child_def set_left_def set_right_def set_parent_def set_red_def)
  define T3 where "T3 = (if st_left T2 subst \<noteq> st_sentinel T2 then set_parent (st_left T2 subst) subst T2 else T2)"
  have T': "T' = (if st_right T3 subst \<noteq> st_sentinel T3 then set_parent (st_right T3 subst) subst T3 else T3)"
    unfolding T'_def T3_def T2_def take_place_def Let_def
    using ne by (simp add: set_left_def set_right_def set_parent_def set_red_def cong: if_cong)
  have f3: "st_block T3 = st_block T2" "st_red T3 = st_red T2" "st_sentinel T3 = st_sentinel T2" "st_root T3 = st_root T2" "child f T3 x = child f T2 x"
    "st_right T3 subst = st_right T block" for f x
    by (simp_all add: T3_def f2) (simp add: set_parent_def f2)
  show "st_block T' = st_block T" "st_red T' = (st_red T)(subst := st_red T block)" "st_sentinel T' = st_sentinel T"
    "st_root T' = (if block = st_root T then subst else st_root T)"
    by (simp_all add: T' f3 f2)
  show "child f T' x = (if x = subst then child f T block
       else if block \<noteq> st_root T \<and> x = st_parent T block \<and> f = (block = st_left T (st_parent T block)) then subst else child f T x)"
  proof -
    have "child f T' x = child f T2 x" by (simp add: T' f3)
    then show ?thesis by (simp only: c2)
  qed
  have p3: "st_parent T3 x = (if x \<noteq> st_sentinel T \<and> x = st_left T block then subst else if x = subst then st_parent T block else st_parent T x)"
    using ne by (cases "x = subst") (simp_all add: T3_def f2)
  show "st_parent T' x = (if x \<noteq> st_sentinel T \<and> (x = st_left T block \<or> x = st_right T block) then subst
       else if x = subst then st_parent T block else st_parent T x)"
  proof -
    have "st_parent T' x = (if st_right T block \<noteq> st_sentinel T \<and> x = st_right T block then subst else st_parent T3 x)"
      unfolding T' f3(6) by (simp add: f3 f2)
    then show ?thesis unfolding p3 using ne by auto
  qed
qed

lemma ctx_set_append: "ctx_set (k1 @ k2) = ctx_set k1 \<union> ctx_set k2"
  by (induction k1 rule: ctx_set.induct) auto

lemma plug_append: "plug t (k1 @ k2) = plug (plug t k1) k2"
  by (induction k1 arbitrary: t rule: ctx_set.induct) simp_all

text \<open>The gap after the unlinking is closed.\<close>

lemma remove_close:
  assumes g: "gap T p u k" "k \<noteq> []" and c: "bal (st_red T) u" "nored (st_red T) u" "cnored (st_red T) k"
    and k: "cbal (st_red T) (bh (st_red T) u + (if red then 0 else 1)) k" and red: "red \<Longrightarrow> \<not> rooted (st_red T) u"
  shows "mended T (inorder (plug u k)) (if red then Some T else remove_fixup p T)"
proof (cases red)
  case True
  have "nored (st_red T) (plug u k)" by (rule nored_plug [OF c(2,3)]) (use red True in simp)
  moreover have "bal (st_red T) (plug u k)" using c(1) k True by (simp add: bal_plug)
  moreover have "\<not> rooted (st_red T) (plug u k)" by (rule cnored_root [OF c(3) g(2)])
  moreover have "seen T (st_root T) (plug u k) []" using g(1) seen_plug by (auto simp: gap_def)
  ultimately have "sack_tree T (plug u k)" by (simp add: sack_tree_def coloured_def)
  then show ?thesis using True by (auto simp: mended_def same_blocks_def)
next
  case False
  then show ?thesis using remove_fixup_law [OF g(1) c(1) nored_kids [OF c(2)] _ c(3)] k by simp
qed

lemma seen_unplug: "seen T (st_root T) (plug t k) [] \<Longrightarrow> \<exists>p. seen T p t k"
  using unplug_tree [of T t k] by (auto simp: seen_def)

lemma clear_fields:
  "st_block (clear_block b T) = st_block T" "st_red (clear_block b T) = st_red T" "st_sentinel (clear_block b T) = st_sentinel T"
  "st_root (clear_block b T) = st_root T" "x \<noteq> b \<Longrightarrow> child f (clear_block b T) x = child f T x" "x \<noteq> b \<Longrightarrow> st_parent (clear_block b T) x = st_parent T x"
  by (auto simp: clear_block_def child_def set_left_def set_right_def set_parent_def)

lemma sack_tree_node:
  assumes "sack_tree T (plug t k)" "t \<noteq> Leaf"
  shows "\<exists>p. seen T p t k" and "bal (st_red T) t" "nored (st_red T) t" "cbal (st_red T) (bh (st_red T) t) k" "cnored (st_red T) k"
    and "rooted (st_red T) t \<Longrightarrow> k \<noteq> [] \<and> \<not> st_red T (up k)"
  using assms seen_unplug [of T t k] nored_unplug [of "st_red T" t k] by (auto simp: sack_tree_def coloured_def bal_plug)

text \<open>A node with at most one child.\<close>

lemma remove_single:
  assumes tr: "sack_tree T (plug (nd e Leaf b u) k)" and ch: "remove_choice T b = Some (b, child (\<not> e) T b)"
  shows "mended T (inorder (plug u k)) (udx_sack_tree_remove T b)"
proof -
  let ?temp = "child (\<not> e) T b" and ?c = "st_red T"
  note n = sack_tree_node [OF tr nd_simps(2)]
  obtain p where p: "seen T p (nd e Leaf b u) k" using n(1) by blast
  then have "p = b" by (simp add: seen_def is_tree_nd)
  then have s: "seen T b (nd e Leaf b u) k" using p by simp
  have h: "bal ?c u" "nored ?c u" "bh ?c u = 0" "?c b \<Longrightarrow> \<not> rooted ?c u" using n(2,3) by auto
  have hb: "bh ?c (nd e Leaf b u) = (if ?c b then 0 else 1)" using bh_nd [of ?c Leaf u e b] h(3) by simp
  have root: "b = st_root T \<longleftrightarrow> k = []" by (rule seen_root [OF s]) simp
  have bs: "b \<noteq> st_sentinel T" "is_tree T b ?temp u" "b \<notin> set_tree u" using s by (auto simp: seen_def is_tree_nd distinct_plug)
  have tn: "?temp = st_sentinel T \<or> ?temp \<in> set_tree u" using tree_root [OF bs(2)] by (cases "u = Leaf") auto
  have tb: "?temp \<noteq> b" using tn bs(1,3) by auto
  show ?thesis
  proof (cases k rule: ctx_set.cases)
    case 1
    define T1 where "T1 = clear_block b (set_parent ?temp NULL (set_red ?temp False (T\<lparr>st_root := ?temp\<rparr>)))"
    have r: "udx_sack_tree_remove T b = Some T1" using ch root 1 by (simp add: udx_sack_tree_remove_def T1_def Let_def)
    have f: "st_block T1 = st_block T" "st_sentinel T1 = st_sentinel T" "st_root T1 = ?temp" "st_red T1 = ?c(?temp := False)"
      "st_parent T1 ?temp = NULL" by (simp_all add: T1_def clear_fields tb)
    have du: "distinct (inorder u)" using s by (simp add: seen_def distinct_plug)
    have u1: "is_tree T1 NULL ?temp u"
    proof (rule tree_reparent [OF bs(2) du f(2)])
      fix x g assume "x \<in> set_tree u"
      then have "x \<noteq> b" using bs(3) by auto
      then show "child g T1 x = child g T x" "x \<noteq> ?temp \<Longrightarrow> st_parent T1 x = st_parent T x" by (simp_all add: T1_def clear_fields)
    qed (rule f(5))
    have s1: "seen T1 (st_root T1) u []" using u1 s du by (simp add: seen_def f)
    have "\<not> rooted (st_red T1) u \<and> coloured T1 u"
    proof (cases "rooted ?c u")
      case True
      then show ?thesis using root_black [OF bs(2) du True h(1,2), of "st_red T1"] by (simp add: f coloured_def)
    next
      case False
      have "\<not> ?c ?temp" using tree_red [OF bs(2)] s False by (simp add: seen_def)
      then have "st_red T1 = ?c" by (auto simp: f fun_eq_iff)
      then show ?thesis using h False by (simp add: coloured_def)
    qed
    then show ?thesis using s1 1 by (auto simp: mended_def r sack_tree_def same_blocks_def f)
  next
    case (2 d a w k2)
    have pb: "st_parent T b = a" using seen_parent [OF s] 2 by simp
    have a: "a \<noteq> b" "b \<notin> ctx_set k2" using s by (auto simp: seen_def 2 distinct_plug)
    have side: "(b = st_left T a) = d" using seen_side [of T b _ d a w k2] s 2 by simp
    define T1 where "T1 = clear_block b (remove_link b b ?temp T)"
    have r: "udx_sack_tree_remove T b = (if ?c b then Some T1 else remove_fixup ?temp T1)"
      using ch root 2 by (simp add: udx_sack_tree_remove_def T1_def Let_def)
    have lk: "remove_link b b ?temp T = set_parent ?temp a (set_child d a ?temp T)"
      using side a(1) by (simp add: remove_link_def pb set_child_def Let_def set_left_def set_right_def)
    have f: "st_block T1 = st_block T" "st_sentinel T1 = st_sentinel T" "st_root T1 = st_root T" "st_red T1 = ?c"
      by (simp_all add: T1_def lk clear_fields)
    have g: "gap T1 ?temp u ((d, a, w) # k2)"
      by (rule unlink_law [OF s [unfolded 2] refl f(2-4)]) (simp_all add: T1_def lk clear_fields)
    have "mended T1 (inorder (plug u ((d, a, w) # k2))) (if ?c b then Some T1 else remove_fixup ?temp T1)"
      by (rule remove_close [OF g]) (use h n(4,5) hb in \<open>simp_all add: f 2\<close>)
    then show ?thesis using mended_trans [of T T1] by (simp add: r 2 same_blocks_def f)
  qed
qed

text \<open>The colours around the place \<open>block\<close> had, once \<open>subst\<close> has it.\<close>

lemma renamed_ctx:
  assumes c: "\<And>x. x \<noteq> n \<Longrightarrow> c' x = c x" and cn: "c' n = c b" and n: "n \<notin> ctx_set (kr @ (d, b, l) # k)"
  shows "cbal c' m (kr @ (d, n, l) # k) = cbal c m (kr @ (d, b, l) # k)"
    and "cnored c' (kr @ (d, n, l) # k) = cnored c (kr @ (d, b, l) # k)"
    and "c' (up (kr @ (d, n, l) # k)) = c (up (kr @ (d, b, l) # k))"
proof -
  have o: "\<forall>x. x \<notin> {n} \<longrightarrow> c' x = c x" using c by simp
  have "cbal c' m (kr @ (d, n, l) # k) = cbal c m (kr @ (d, b, l) # k) \<and> cnored c' (kr @ (d, n, l) # k) = cnored c (kr @ (d, b, l) # k)
    \<and> c' (up (kr @ (d, n, l) # k)) = c (up (kr @ (d, b, l) # k))"
    using n
  proof (induction kr arbitrary: m rule: ctx_set.induct)
    case 1
    have "n \<notin> set_tree l" "n \<notin> ctx_set k" using 1 by simp_all
    then show ?case using colours_off [OF o, of l] ctx_colours_off [OF o, of k] cn by (auto simp: conj_ac)
  next
    case (2 e a s kr)
    have "n \<notin> set_tree s" "n \<noteq> a" using 2(2) by auto
    then show ?case using colours_off [OF o, of s] c [of a] 2 by auto
  qed
  then show "cbal c' m (kr @ (d, n, l) # k) = cbal c m (kr @ (d, b, l) # k)"
    "cnored c' (kr @ (d, n, l) # k) = cnored c (kr @ (d, b, l) # k)"
    "c' (up (kr @ (d, n, l) # k)) = c (up (kr @ (d, b, l) # k))" by simp_all
qed


text \<open>\<open>n\<close> takes the place of \<open>b\<close>; the parent pointers of \<open>b\<close>'s children may be anything before.\<close>

lemma take_place_law:
  assumes sb: "seen T1 b (Node l b r) k" and n1: "n \<notin> set_tree (plug (Node l b r) k)" and bn: "n \<noteq> st_sentinel T1" "n \<noteq> NULL"
    and f0: "st_sentinel T0 = st_sentinel T1" "st_root T0 = st_root T1" "st_red T0 = st_red T1" "\<And>f x. child f T0 x = child f T1 x"
      "\<And>x. x \<noteq> st_left T1 b \<Longrightarrow> x \<noteq> st_right T1 b \<Longrightarrow> st_parent T0 x = st_parent T1 x"
  defines "T3 \<equiv> clear_block b (take_place b n T0)"
  shows "seen T3 n (Node l n r) k" and "st_block T3 = st_block T0" "st_sentinel T3 = st_sentinel T1" "st_red T3 = (st_red T1)(n := st_red T1 b)"
    and "st_parent T3 (st_sentinel T1) = st_parent T0 (st_sentinel T1)"
proof -
  have n2: "n \<notin> set_tree l" "n \<notin> set_tree r" "n \<notin> ctx_set k" "n \<noteq> b" using n1 by (auto simp: plug_set)
  have at: "st_parent T1 b = up k" "is_tree T1 b (st_left T1 b) l" "is_tree T1 b (st_right T1 b) r" "b \<noteq> st_sentinel T1" "\<not> st_red T1 (st_sentinel T1)"
    "distinct (inorder (plug (Node l b r) k))"
    using sb by (simp_all add: seen_def)
  have lr: "st_left T1 b \<noteq> n" "st_right T1 b \<noteq> n"
    using tree_root [OF at(2)] tree_root [OF at(3)] n2 bn(1) by auto
  have bb: "b \<noteq> st_left T1 b" "b \<noteq> st_right T1 b"
    using tree_root [OF at(2)] tree_root [OF at(3)] at(4,6) by (auto simp: distinct_plug)
  have upk: "n \<noteq> up k" using n2(3) up_in [of k] bn(2) by (cases "k = []") auto
  have kid: "st_left T0 x = st_left T1 x" "st_right T0 x = st_right T1 x" for x using f0(4) [of True x] f0(4) [of False x] by (simp_all add: child_def)
  have pb: "st_parent T0 b = up k" using f0(5) [OF bb] at(1) by simp
  have ne: "b \<noteq> n" "n \<noteq> st_parent T0 b" "st_left T0 b \<noteq> n" "st_right T0 b \<noteq> n" "n \<noteq> st_sentinel T0"
    using bn upk lr n2(4) by (simp_all add: pb f0(1) kid)
  note tp = take_place_fields [OF ne]
  show f3: "st_block T3 = st_block T0" "st_sentinel T3 = st_sentinel T1" "st_red T3 = (st_red T1)(n := st_red T1 b)"
    by (simp_all add: T3_def clear_fields tp f0(1,3))
  show "st_parent T3 (st_sentinel T1) = st_parent T0 (st_sentinel T1)" using bn(1) at(4) by (simp add: T3_def clear_fields tp f0(1))
  show "seen T3 n (Node l n r) k"
  proof (rule replace_law [OF sb n1])
    show "\<not> st_red T3 (st_sentinel T1)" using bn(1) at(5) by (simp add: f3)
  next
    fix f x assume x: "x \<noteq> b"
    have "child f T3 x = (if x = n then child f T1 b else if k \<noteq> [] \<and> x = up k \<and> f = (b = st_left T1 (up k)) then n else child f T1 x)"
      using x seen_root [OF sb] by (simp add: T3_def clear_fields tp f0(2,4) kid pb)
    moreover have "k \<noteq> [] \<Longrightarrow> (f = (b = st_left T1 (up k))) = (child f T1 (up k) = b)"
    proof (cases k rule: ctx_set.cases)
      case (2 e z v k2)
      then show ?thesis using seen_child [OF sb [unfolded 2]] seen_side [OF sb [unfolded 2]] by auto
    qed simp
    ultimately show "child f T3 x = (if x = n then child f T1 b else if k \<noteq> [] \<and> x = up k \<and> child f T1 x = b then n else child f T1 x)" by auto
  next
    fix x assume x: "x \<noteq> b" "x \<noteq> st_sentinel T1"
    then show "st_parent T3 x = (if x = n then st_parent T1 b else if x = st_left T1 b \<or> x = st_right T1 b then n else st_parent T1 x)"
      using lr f0(5) [of x] by (auto simp: T3_def clear_fields tp f0(1) kid pb at(1))
  qed (simp_all add: f3 bn T3_def clear_fields tp f0(1,2))
qed

text \<open>A node \<open>b\<close> with two children, the first node \<open>n\<close> of its right subtree and that node's subtree \<open>u\<close>: \<open>n\<close> is unlinked and takes the place of \<open>b\<close>.\<close>

lemma double_link:
  assumes s: "seen T n (nd True Leaf n u) (kr @ (False, b, l) # k)"
  defines "T3 \<equiv> clear_block b (remove_link b n (st_right T n) T)"
  shows "gap T3 (st_right T n) u (kr @ (False, n, l) # k)" and "same_blocks T T3" and "st_red T3 = (st_red T)(n := st_red T b)"
    and "n \<notin> ctx_set (kr @ (False, b, l) # k)" "n \<notin> set_tree u"
proof -
  let ?temp = "st_right T n" and ?K = "kr @ (False, b, l) # k" and ?K' = "kr @ (False, n, l) # k"
  obtain d a w K2 where K: "?K = (d, a, w) # K2" by (cases ?K rule: ctx_set.cases) auto
  have pn: "st_parent T n = a" using seen_parent [OF s] K by simp
  have dist: "distinct (inorder (plug (nd True Leaf n u) ?K))" using s by (simp add: seen_def)
  show nK: "n \<notin> ctx_set ?K" "n \<notin> set_tree u" using dist by (simp_all only: distinct_plug) auto
  have bn: "b \<noteq> n" "n \<noteq> st_sentinel T" "n \<noteq> NULL" using s nK(1) by (simp_all add: seen_def nd_def ctx_set_append)
  have side: "(n = st_left T a) = d" using seen_side [of T n _ d a w K2] s K by simp
  define T1 where "T1 = set_parent ?temp a (set_child d a ?temp T)"
  have f1: "st_block T1 = st_block T" "st_sentinel T1 = st_sentinel T" "st_root T1 = st_root T" "st_red T1 = st_red T" by (simp_all add: T1_def)
  have g1: "gap T1 ?temp u ?K"
    unfolding K by (rule unlink_law [OF s [unfolded K] _ f1(2-4)]) (simp_all add: T1_def child_def [of False])
  define P where "P = (if a = b then n else a)"
  define T0 where "T0 = set_parent ?temp P (set_child d a ?temp T)"
  have "seen T1 (st_root T1) (plug u ?K) []" using g1 seen_plug by (auto simp: gap_def)
  then have "seen T1 (st_root T1) (plug (Node l b (plug u kr)) k) []" by (simp add: plug_append nd_def)
  then obtain b' where b': "seen T1 b' (Node l b (plug u kr)) k" using seen_unplug by blast
  then have "b' = b" by (simp add: seen_def)
  then have sb: "seen T1 b (Node l b (plug u kr)) k" using b' by simp
  have n1: "n \<notin> set_tree (plug (Node l b (plug u kr)) k)"
  proof -
    have "plug (Node l b (plug u kr)) k = plug u ?K" by (simp add: plug_append nd_def)
    then show ?thesis using nK by (simp only: plug_set) simp
  qed
  have f0: "st_block T0 = st_block T" "st_sentinel T0 = st_sentinel T" "st_root T0 = st_root T" "st_red T0 = st_red T" "child f T0 x = child f T1 x"
    "st_parent T0 x = (if x = ?temp then P else st_parent T1 x)" for f x by (simp_all add: T0_def T1_def)
  have par: "st_parent T0 x = st_parent T1 x" if "x \<noteq> st_left T1 b" "x \<noteq> st_right T1 b" for x
  proof (cases "x = ?temp")
    case True
    have "child d T1 a = ?temp" by (simp add: T1_def)
    then have "a \<noteq> b" using that True by (cases d) (auto simp: child_def)
    then show ?thesis using True by (simp add: f0 P_def T1_def)
  qed (simp add: f0)
  have link: "remove_link b n ?temp T = take_place b n T0"
    using side bn(1) by (simp add: remove_link_def pn T0_def P_def set_child_def Let_def set_left_def set_right_def)
  have T3: "T3 = clear_block b (take_place b n T0)" by (simp add: T3_def link)
  note tp = take_place_law [of T1 b l "plug u kr" k n T0, OF sb n1, folded T3]
  have "n \<noteq> st_sentinel T1" using bn(2) by (simp add: f1)
  note tp = tp [OF this bn(3) _ _ _ f0(5) par]
  have tp: "seen T3 n (Node l n (plug u kr)) k" "st_block T3 = st_block T0" "st_sentinel T3 = st_sentinel T" "st_red T3 = (st_red T)(n := st_red T b)"
    "st_parent T3 (st_sentinel T) = st_parent T0 (st_sentinel T)"
    using tp by (simp_all add: f0(2-4) f1)
  show "same_blocks T T3" "st_red T3 = (st_red T)(n := st_red T b)" by (simp_all add: same_blocks_def tp f0(1))
  have "plug (Node l n (plug u kr)) k = plug u ?K'" by (simp add: plug_append nd_def)
  then have "seen T3 (st_root T3) (plug u ?K') []" using seen_plug [OF tp(1)] by simp
  then obtain q3 where q3: "seen T3 q3 u ?K'" using seen_unplug by blast
  have tu: "is_tree T1 (up ?K) ?temp u" using g1 by (simp add: gap_def seen_def)
  have "is_tree T3 (up ?K') q3 u" using q3 by (simp add: seen_def)
  from tree_addr [OF tu this] have "q3 = ?temp" by (simp add: f1 tp)
  then have s4: "seen T3 ?temp u ?K'" using q3 by simp
  have uK: "up ?K' = P"
  proof (cases kr rule: ctx_set.cases)
    case (2 e z v k2)
    have "b \<notin> ctx_set kr" using dist by (simp only: distinct_plug plug_append) (auto simp: nd_def distinct_plug plug_set)
    then show ?thesis using K 2 by (auto simp: P_def)
  qed (use K in \<open>simp add: P_def\<close>)
  show "gap T3 ?temp u ?K'"
  proof (cases "u = Leaf")
    case True
    then have "?temp = st_sentinel T" using tu by (simp add: f1)
    then have "st_parent T3 ?temp = P" using tp(5) by (simp add: f0(6))
    then show ?thesis using s4 uK by (simp add: gap_def)
  qed (rule gap_node [OF s4])
qed

lemma remove_double:
  assumes tr: "sack_tree T (plug (Node l b r) k)" and r: "r = plug (Node Leaf n u) kr" and ch: "remove_choice T b = Some (n, st_right T n)"
  shows "mended T (inorder (plug (plug u kr) ((False, n, l) # k))) (udx_sack_tree_remove T b)"
proof -
  let ?temp = "st_right T n" and ?c = "st_red T" and ?K = "kr @ (False, b, l) # k" and ?K' = "kr @ (False, n, l) # k"
  have pl: "plug (Node l b r) k = plug (nd True Leaf n u) ?K" by (simp add: plug_append r nd_def)
  note nn = sack_tree_node [OF tr [unfolded pl] nd_simps(2)]
  obtain q where q: "seen T q (nd True Leaf n u) ?K" using nn(1) by blast
  then have "q = n" by (simp add: seen_def nd_def)
  then have s: "seen T n (nd True Leaf n u) ?K" using q by simp
  define T3 where "T3 = clear_block b (remove_link b n ?temp T)"
  note dl = double_link [OF s, folded T3_def]
  have root: "n \<noteq> st_root T" using seen_root [OF s] by simp
  have res: "udx_sack_tree_remove T b = (if ?c n then Some T3 else remove_fixup ?temp T3)"
    using root by (simp add: udx_sack_tree_remove_def ch T3_def Let_def)
  have o: "\<forall>x. x \<notin> {n} \<longrightarrow> st_red T3 x = ?c x" by (simp add: dl(3))
  have cu: "bh (st_red T3) u = bh ?c u" "rooted (st_red T3) u = rooted ?c u" "bal (st_red T3) u" "nored (st_red T3) u"
    using colours_off [OF o, of u] dl(5) nn(2,3) by auto
  note rc = renamed_ctx [of n "st_red T3" ?c b kr False l k, OF _ _ dl(4)]
  have ck: "cbal (st_red T3) m ?K' = cbal ?c m ?K" "cnored (st_red T3) ?K' = cnored ?c ?K" for m
    using rc(1) [of m] rc(2) by (simp_all add: dl(3))
  have hb: "bh ?c u = 0" "bh ?c (nd True Leaf n u) = (if ?c n then 0 else 1)" using nn(2) by (auto simp: nd_def)
  have "mended T3 (inorder (plug u ?K')) (if ?c n then Some T3 else remove_fixup ?temp T3)"
  proof (rule remove_close [OF dl(1)])
    show "cbal (st_red T3) (bh (st_red T3) u + (if ?c n then 0 else 1)) ?K'" using nn(4) by (simp add: ck cu hb)
    show "\<not> rooted (st_red T3) u" if "?c n" using that nn(3) by (simp add: cu)
  qed (use cu nn(5) in \<open>simp_all add: ck\<close>)
  then show ?thesis using mended_trans [OF dl(2)] by (simp add: res plug_append)
qed

text \<open>Any node.\<close>

lemma before_distinct: "distinct (inorder (plug t k)) \<Longrightarrow> x \<in> set_tree t \<Longrightarrow> x \<notin> set (before k) \<and> x \<notin> set (behind k)"
  by (auto simp: inorder_plug set_inorder [symmetric] simp del: set_inorder)

lemma sack_tree_remove_law:
  assumes tr: "sack_tree T t" and b: "b \<in> set_tree t"
  shows "mended T (filter (\<lambda>x. x \<noteq> b) (inorder t)) (udx_sack_tree_remove T b)"
proof -
  obtain l r k where t: "t = plug (Node l b r) k" using tree_split [OF b] by blast
  note tr' = tr [unfolded t]
  obtain q where q: "seen T q (Node l b r) k" using sack_tree_node(1) [OF tr'] by blast
  then have s: "is_tree T b (st_left T b) l" "is_tree T b (st_right T b) r" "distinct (inorder (plug (Node l b r) k))"
    by (auto simp: seen_def)
  have fil: "filter (\<lambda>x. x \<noteq> b) (inorder t) = before k @ inorder l @ inorder r @ behind k"
  proof -
    have "b \<notin> set (before k)" "b \<notin> set (behind k)" "b \<notin> set_tree l" "b \<notin> set_tree r"
      using s(3) before_distinct [OF s(3), of b] by (simp_all add: distinct_plug)
    then have "filter (\<lambda>x. x \<noteq> b) xs = xs" if "xs \<in> {before k, inorder l, inorder r, behind k}" for xs
      using that by (intro filter_True) (auto simp: set_inorder)
    then show ?thesis by (simp add: t inorder_plug)
  qed
  consider "l = Leaf" | "l \<noteq> Leaf" "r = Leaf" | "l \<noteq> Leaf" "r \<noteq> Leaf" by blast
  then show ?thesis
  proof cases
    case 1
    have "remove_choice T b = Some (b, child (\<not> True) T b)" using s(1) 1 by (simp add: remove_choice_def child_def)
    moreover have "Node l b r = nd True Leaf b r" by (simp add: 1 nd_def)
    ultimately show ?thesis using remove_single [of T True b r k] tr' by (simp add: fil 1 inorder_plug)
  next
    case 2
    have "st_left T b \<noteq> st_sentinel T" using tree_root [OF s(1)] 2(1) by simp
    then have "remove_choice T b = Some (b, child (\<not> False) T b)" using s(2) 2(2) by (simp add: remove_choice_def child_def)
    moreover have "Node l b r = nd False Leaf b l" by (simp add: 2(2) nd_def)
    ultimately show ?thesis using remove_single [of T False b l k] tr' by (simp add: fil 2(2) inorder_plug)
  next
    case 3
    let ?n = "hd (inorder r)"
    have nr: "inorder r \<noteq> []" using 3(2) by (cases r) simp_all
    then have "?n \<in> set_tree r" by (metis hd_in_set set_inorder)
    then obtain l' u kr where r: "r = plug (Node l' ?n u) kr" using tree_split by metis
    have ir: "inorder r = before kr @ inorder l' @ ?n # inorder u @ behind kr" using arg_cong [OF r, of inorder] by (simp add: inorder_plug)
    have "distinct (inorder r)" using s(3) by (simp add: distinct_plug)
    then have "before kr @ inorder l' = []" using ir by (metis append_assoc distinct_append distinct.simps(2) hd_append2 hd_in_set append_is_Nil_conv in_set_conv_decomp disjoint_iff list.set_intros(1) set_append Un_iff)
    then have e: "before kr = []" "l' = Leaf" by (cases l'; simp)+
    have "st_left T b \<noteq> st_sentinel T" "st_right T b \<noteq> st_sentinel T" using tree_root [OF s(1)] tree_root [OF s(2)] 3 by simp_all
    then have "remove_choice T b = Some (?n, st_right T ?n)" using rbtree_min_law [OF s(2) 3(2)] by (simp add: remove_choice_def)
    note rd = remove_double [OF tr' r [unfolded e(2)] this]
    have "inorder (plug (plug u kr) ((False, ?n, l) # k)) = before k @ inorder l @ inorder r @ behind k"
      using ir e by (simp add: inorder_plug nd_def)
    then show ?thesis using rd by (simp add: fil)
  qed
qed

end
