(* ===== verification/Udx_Sack_Store.thy ===== *)
theory Udx_Sack_Store
  imports Udx_Sack_Remove
begin

text \<open>
  The tree of blocks against the list of blocks that the receive path of the model uses: every operation, the out-of-order path of
  \<open>process_data_packet\<close> and \<open>clear_incoming_packets\<close> (\<open>src/udx.c\<close>) on the pointer tree, each shown to do what its list version does.
\<close>

section \<open>The tree and the list of blocks\<close>

lemma sack_tree_init_law:
  "sentinel \<noteq> NULL \<Longrightarrow> sack_tree (udx_sack_tree_init sentinel T) Leaf"
  by (simp add: sack_tree_def seen_def coloured_def udx_sack_tree_init_def Let_def set_red_def set_parent_def set_left_def set_right_def)

text \<open>The number of nodes grows with two to half the height.\<close>

lemma bh_size: "bal c t \<Longrightarrow> 2 ^ bh c t \<le> size1 t"
proof (induction t)
  case (Node l a r)
  then have "2 ^ bh c l \<le> size1 l" "2 ^ bh c r \<le> size1 r" "bh c l = bh c r" by simp_all
  then show ?case by simp
qed simp

lemma height_bh: "bal c t \<Longrightarrow> nored c t \<Longrightarrow> height t \<le> 2 * bh c t + (if rooted c t then 1 else 0)"
proof (induction t)
  case (Node l a r)
  then have i: "height l \<le> 2 * bh c l + (if rooted c l then 1 else 0)" "height r \<le> 2 * bh c r + (if rooted c r then 1 else 0)"
    "bh c l = bh c r" "c a \<Longrightarrow> \<not> rooted c l \<and> \<not> rooted c r" by simp_all
  show ?case
  proof (cases "c a")
    case True
    then show ?thesis using i by simp
  next
    case False
    have "height l \<le> 2 * bh c l + 1" "height r \<le> 2 * bh c l + 1" using i(1-3) by (simp_all split: if_splits)
    then show ?thesis using False by simp
  qed
qed simp

lemma sack_tree_height: "sack_tree T t \<Longrightarrow> 2 ^ height t \<le> (length (tree_blocks T t) + 1) ^ 2"
proof -
  assume "sack_tree T t"
  then have c: "bal (st_red T) t" "nored (st_red T) t" "\<not> rooted (st_red T) t" by (simp_all add: sack_tree_def coloured_def)
  have "(2::nat) ^ height t \<le> 2 ^ (bh (st_red T) t * 2)" using height_bh [OF c(1,2)] c(3) by (intro power_increasing) simp_all
  also have "\<dots> = (2 ^ bh (st_red T) t) ^ 2" by (simp add: power_mult)
  also have "\<dots> \<le> size1 t ^ 2" by (intro power_mono bh_size c(1)) simp
  also have "size1 t = length (tree_blocks T t) + 1" by (simp add: tree_blocks_def size1_size)
  finally show ?thesis .
qed

text \<open>Changing what a block holds leaves the tree as it is.\<close>

lemma sack_tree_block: "sack_tree (T\<lparr>st_block := f\<rparr>) t = sack_tree T t"
proof -
  have "is_tree (T\<lparr>st_block := f\<rparr>) q p t = is_tree T q p t" for q p by (rule tree_frame) (simp_all add: child_def)
  then show ?thesis by (simp add: sack_tree_def seen_def coloured_def)
qed

lemma tree_blocks_update:
  assumes "distinct (inorder t)" "i < length (inorder t)"
  shows "tree_blocks (T\<lparr>st_block := (st_block T)(inorder t ! i := b)\<rparr>) t = (tree_blocks T t)[i := b]"
  using assms by (intro nth_equalityI) (auto simp: tree_blocks_def nth_list_update nth_eq_iff_index_eq)

lemma sack_tree_facts:
  assumes "sack_tree T t"
  shows "seen T (st_root T) t []" "distinct (inorder t)" "a \<in> set_tree t \<Longrightarrow> a \<noteq> NULL \<and> a \<noteq> st_sentinel T"
  using assms tree_nodes [of T NULL "st_root T" t a] by (simp_all add: sack_tree_def seen_def)

lemma filter_nth: "distinct xs \<Longrightarrow> i < length xs \<Longrightarrow> filter (\<lambda>x. x \<noteq> xs ! i) xs = take i xs @ drop (Suc i) xs"
proof -
  assume d: "distinct xs" and i: "i < length xs"
  have e: "xs = take i xs @ xs ! i # drop (Suc i) xs" by (rule id_take_nth_drop [OF i])
  have "xs ! i \<notin> set (take i xs)" "xs ! i \<notin> set (drop (Suc i) xs)"
    using d by (subst (asm) e, simp)+
  then have "filter (\<lambda>x. x \<noteq> xs ! i) (take i xs) = take i xs" "filter (\<lambda>x. x \<noteq> xs ! i) (drop (Suc i) xs) = drop (Suc i) xs"
    by (auto intro!: filter_True)
  then show ?thesis by (subst e) simp
qed

lemma sack_tree_remove_nth:
  assumes "sack_tree T t" "i < length (inorder t)"
  shows "\<exists>T' t'. udx_sack_tree_remove T (inorder t ! i) = Some T' \<and> sack_tree T' t' \<and> same_blocks T T'
    \<and> inorder t' = take i (inorder t) @ drop (Suc i) (inorder t)"
  using sack_tree_remove_law [OF assms(1), of "inorder t ! i"] filter_nth [OF sack_tree_facts(2) [OF assms(1)] assms(2)] assms(2)
  by (auto simp: mended_def set_inorder [symmetric] simp del: set_inorder)

section \<open>Storing a packet\<close>

text \<open>The slow path of \<open>process_data_packet\<close> on the tree; \<open>fresh\<close> is the address \<open>calloc\<close> gives, \<open>pkt\<close> the copied packet.\<close>

definition tree_append :: "addr \<Rightarrow> udx_buf \<Rightarrow> udx_sack_tree \<Rightarrow> udx_sack_tree option" where
  "tree_append block pkt T =
    (let b = (st_block T block)\<lparr>sb_packets := sb_packets (st_block T block) @ [pkt], sb_end := sb_end (st_block T block) + 1\<rparr>;
         T = T\<lparr>st_block := (st_block T)(block := b)\<rparr>
     in do {
       next \<leftarrow> udx_sack_tree_next T block;
       if next \<noteq> NULL \<and> sb_start (st_block T next) = sb_end (st_block T block) then do {
         T \<leftarrow> udx_sack_tree_remove T next;
         let b = (st_block T block)\<lparr>sb_end := sb_end (st_block T next), sb_packets := sb_packets (st_block T block) @ sb_packets (st_block T next)\<rparr>;
         Some (T\<lparr>st_block := (st_block T)(block := b)\<rparr>)
       } else Some T
     })"

definition tree_store :: "u32 \<Rightarrow> udx_buf \<Rightarrow> addr \<Rightarrow> udx_sack_tree \<Rightarrow> udx_sack_tree option" where
  "tree_store seq pkt fresh T = do {
     block \<leftarrow> udx_sack_tree_find T seq;
     if block \<noteq> NULL \<and> sb_end (st_block T block) \<noteq> seq then Some T
     else if block = NULL then do {
       let T = T\<lparr>st_block := (st_block T)(fresh := \<lparr>sb_start = seq, sb_end = seq, sb_packets = []\<rparr>)\<rparr>;
       T \<leftarrow> udx_sack_tree_insert T fresh;
       tree_append fresh pkt T
     } else tree_append block pkt T
   }"

text \<open>\<open>clear_incoming_packets\<close>: the root goes until the tree is empty.\<close>

partial_function (option) clear_tree :: "udx_sack_tree \<Rightarrow> udx_sack_tree option" where
  "clear_tree T =
    (if st_root T \<noteq> st_sentinel T then do { T \<leftarrow> udx_sack_tree_remove T (st_root T); clear_tree T } else Some T)"

declare clear_tree.simps [code]

lemma tree_append_law:
  assumes tr: "sack_tree T t" and i: "i < length (inorder t)"
  shows "\<exists>T' t'. tree_append (inorder t ! i) pkt T = Some T' \<and> sack_tree T' t' \<and> tree_blocks T' t' = sack_append i pkt (tree_blocks T t)"
proof -
  let ?a = "inorder t ! i" and ?n = "inorder t ! Suc i"
  let ?b = "(st_block T ?a)\<lparr>sb_packets := sb_packets (st_block T ?a) @ [pkt], sb_end := sb_end (st_block T ?a) + 1\<rparr>"
  define T1 where "T1 = T\<lparr>st_block := (st_block T)(?a := ?b)\<rparr>"
  have tr1: "sack_tree T1 t" using tr by (simp add: T1_def sack_tree_block)
  note f = sack_tree_facts [OF tr1]
  have bs: "tree_blocks T1 t = (tree_blocks T t)[i := ?b]" unfolding T1_def by (rule tree_blocks_update [OF f(2) i])
  have ai: "tree_blocks T t ! i = st_block T ?a" "length (tree_blocks T t) = length (inorder t)" using i by (simp_all add: tree_blocks_def)
  have sa: "sack_append i pkt (tree_blocks T t) = (case sack_next i (tree_blocks T1 t) of None \<Rightarrow> tree_blocks T1 t
    | Some n \<Rightarrow> if sb_start (tree_blocks T1 t ! n) = sb_end ?b then (sack_remove n (tree_blocks T1 t))[i := ?b\<lparr>sb_end := sb_end (tree_blocks T1 t ! n),
        sb_packets := sb_packets ?b @ sb_packets (tree_blocks T1 t ! n)\<rparr>] else tree_blocks T1 t)"
    unfolding sack_append_def Let_def ai(1) bs ..
  have nx: "udx_sack_tree_next T1 ?a = Some (if Suc i < length (inorder t) then ?n else NULL)" by (rule next_law [OF f(1) i])
  have ta: "st_block T1 ?a = ?b" by (simp add: T1_def)
  have go: "tree_append ?a pkt T = (if Suc i < length (inorder t) \<and> sb_start (st_block T1 ?n) = sb_end ?b then do {
      T \<leftarrow> udx_sack_tree_remove T1 ?n;
      Some (T\<lparr>st_block := (st_block T)(?a := (st_block T ?a)\<lparr>sb_end := sb_end (st_block T ?n), sb_packets := sb_packets (st_block T ?a) @ sb_packets (st_block T ?n)\<rparr>)\<rparr>)
    } else Some T1)"
  proof -
    have "Suc i < length (inorder t) \<Longrightarrow> ?n \<noteq> NULL" using f(3) by (metis nth_mem set_inorder)
    then show ?thesis unfolding tree_append_def Let_def T1_def [symmetric] nx by (simp add: ta)
  qed
  show ?thesis
  proof (cases "Suc i < length (inorder t) \<and> sb_start (st_block T1 ?n) = sb_end ?b")
    case False
    have "sack_append i pkt (tree_blocks T t) = tree_blocks T1 t"
    proof -
      have "sack_next i (tree_blocks T1 t) = (if Suc i < length (inorder t) then Some (Suc i) else None)" by (simp add: sack_next_def tree_blocks_def)
      moreover have "Suc i < length (inorder t) \<Longrightarrow> tree_blocks T1 t ! Suc i = st_block T1 ?n" by (simp add: tree_blocks_def)
      ultimately show ?thesis unfolding sa using False by (cases "Suc i < length (inorder t)") simp_all
    qed
    then show ?thesis using False tr1 by (auto simp: go)
  next
    case True
    then have si: "Suc i < length (inorder t)" by simp
    obtain T2 t2 where T2: "udx_sack_tree_remove T1 ?n = Some T2" "sack_tree T2 t2" "same_blocks T1 T2" "inorder t2 = take (Suc i) (inorder t) @ drop (Suc (Suc i)) (inorder t)"
      using sack_tree_remove_nth [OF tr1 si] by blast
    let ?b2 = "?b\<lparr>sb_end := sb_end (st_block T1 ?n), sb_packets := sb_packets ?b @ sb_packets (st_block T1 ?n)\<rparr>"
    have b2: "st_block T2 = st_block T1" using T2(3) by (simp add: same_blocks_def)
    have i2: "inorder t2 ! i = ?a" "i < length (inorder t2)" using si by (simp_all add: T2(4) nth_append)
    have bs2: "tree_blocks T2 t2 = sack_remove (Suc i) (tree_blocks T1 t)"
      by (simp add: tree_blocks_def T2(4) b2 sack_remove_def take_map drop_map)
    have "tree_blocks (T2\<lparr>st_block := (st_block T2)(?a := ?b2)\<rparr>) t2 = (tree_blocks T2 t2)[i := ?b2]"
      using tree_blocks_update [OF sack_tree_facts(2) [OF T2(2)] i2(2), of T2 ?b2] by (simp only: i2(1))
    also have "\<dots> = sack_append i pkt (tree_blocks T t)"
    proof -
      have "tree_blocks T1 t ! Suc i = st_block T1 ?n" "sack_next i (tree_blocks T1 t) = Some (Suc i)" using si by (simp_all add: tree_blocks_def sack_next_def)
      then show ?thesis using True by (simp add: sa bs2)
    qed
    finally have fin: "tree_blocks (T2\<lparr>st_block := (st_block T2)(?a := ?b2)\<rparr>) t2 = sack_append i pkt (tree_blocks T t)" .
    have "tree_append ?a pkt T = Some (T2\<lparr>st_block := (st_block T2)(?a := ?b2)\<rparr>)" using True by (simp add: go T2(1) b2 ta)
    then show ?thesis using fin T2(2) sack_tree_block by blast
  qed
qed

lemma sack_insert_length: "fst (sack_insert b xs) < length (snd (sack_insert b xs))"
  by (induction xs) (auto simp: Let_def split: prod.split)

lemma tree_store_law:
  assumes tr: "sack_tree T t" and bs: "sacks_at base lo (tree_blocks T t)" and sq: "seq_off base seq < 2 ^ 31"
    and fr: "fresh \<notin> set_tree t" "fresh \<noteq> NULL" "fresh \<noteq> st_sentinel T"
  shows "\<exists>T' t'. tree_store seq pkt fresh T = Some T' \<and> sack_tree T' t' \<and> tree_blocks T' t' = sack_store seq pkt (tree_blocks T t)"
proof -
  note f = sack_tree_facts [OF tr]
  have "is_tree T NULL (st_root T) t" using f(1) by (simp add: seen_def)
  from find_from_law [OF this, of base lo seq] have find: "udx_sack_tree_find T seq
      = Some (case sack_find seq (tree_blocks T t) of None \<Rightarrow> NULL | Some i \<Rightarrow> inorder t ! i)"
    using bs sq by (simp add: udx_sack_tree_find_def tree_blocks_def)
  show ?thesis
  proof (cases "sack_find seq (tree_blocks T t)")
    case (Some i)
    have i: "i < length (inorder t)" using find_length [OF Some] by (simp add: tree_blocks_def)
    have ai: "tree_blocks T t ! i = st_block T (inorder t ! i)" "inorder t ! i \<noteq> NULL"
      using i f(3) [of "inorder t ! i"] nth_mem [OF i] by (simp_all add: tree_blocks_def)
    show ?thesis
    proof (cases "sb_end (st_block T (inorder t ! i)) = seq")
      case True
      then show ?thesis using tree_append_law [OF tr i, of pkt] by (simp add: tree_store_def find Some ai sack_store_def)
    next
      case False
      then show ?thesis using tr by (auto simp: tree_store_def find Some ai sack_store_def)
    qed
  next
    case None
    let ?b = "\<lparr>sb_start = seq, sb_end = seq, sb_packets = []\<rparr>"
    define T1 where "T1 = T\<lparr>st_block := (st_block T)(fresh := ?b)\<rparr>"
    have tr1: "sack_tree T1 t" using tr by (simp add: T1_def sack_tree_block)
    have bl: "tree_blocks T1 t = tree_blocks T t" using fr(1) by (auto simp: T1_def tree_blocks_def)
    have b: "st_block T1 fresh = ?b" "st_sentinel T1 = st_sentinel T" by (simp_all add: T1_def)
    obtain T2 t2 where T2: "udx_sack_tree_insert T1 fresh = Some T2" "sack_tree T2 t2" "same_blocks T1 T2"
      "(fst (sack_insert ?b (tree_blocks T t)), tree_blocks T2 t2) = sack_insert ?b (tree_blocks T t)"
      "inorder t2 ! fst (sack_insert ?b (tree_blocks T t)) = fresh"
      using sack_tree_insert_law [OF tr1 _ fr(1,2), of base lo] bs sq fr(3) unfolding b bl by auto
    obtain i bs' where si: "sack_insert ?b (tree_blocks T t) = (i, bs')" by (cases "sack_insert ?b (tree_blocks T t)")
    have t2: "tree_blocks T2 t2 = bs'" "inorder t2 ! i = fresh" using T2(4,5) by (simp_all add: si)
    have "i < length bs'" using sack_insert_length [of ?b "tree_blocks T t"] by (simp add: si)
    then have i: "i < length (inorder t2)" using t2(1) by (auto simp: tree_blocks_def)
    obtain T3 t3 where T3: "tree_append fresh pkt T2 = Some T3" "sack_tree T3 t3" "tree_blocks T3 t3 = sack_append i pkt bs'"
      using tree_append_law [OF T2(2) i, of pkt] by (auto simp: t2)
    have "tree_store seq pkt fresh T = Some T3" by (simp add: tree_store_def find None T1_def [symmetric] T2(1) T3(1) Let_def)
    moreover have "sack_store seq pkt (tree_blocks T t) = sack_append i pkt bs'" by (simp add: sack_store_def None si)
    ultimately show ?thesis using T3(2,3) by auto
  qed
qed

lemma clear_tree_law: "sack_tree T t \<Longrightarrow> \<exists>T'. clear_tree T = Some T' \<and> sack_tree T' Leaf"
proof (induction "size t" arbitrary: T t rule: less_induct)
  case less
  have tr: "is_tree T NULL (st_root T) t" using less.prems by (simp add: sack_tree_def seen_def)
  show ?case
  proof (cases "t = Leaf")
    case True
    then have "clear_tree T = Some T" using tr by (subst clear_tree.simps) simp
    then show ?thesis using less.prems True by auto
  next
    case False
    then have r: "st_root T \<in> set_tree t" "st_root T \<noteq> st_sentinel T" using tree_root [OF tr] by auto
    obtain T1 t1 where T1: "udx_sack_tree_remove T (st_root T) = Some T1" "sack_tree T1 t1" "inorder t1 = filter (\<lambda>x. x \<noteq> st_root T) (inorder t)"
      using sack_tree_remove_law [OF less.prems r(1)] by (auto simp: mended_def)
    have "length (inorder t1) < length (inorder t)" unfolding T1(3) using r(1) by (intro length_filter_less) auto
    then have "size t1 < size t" by simp
    from less.hyps [OF this T1(2)] show ?thesis by (subst clear_tree.simps) (simp add: r(2) T1(1))
  qed
qed

section \<open>Properties\<close>

text \<open>A tree of three blocks: \<open>[10, 12)\<close>, \<open>[20, 21)\<close> at the root and \<open>[30, 31)\<close>.\<close>

definition demo_buf :: udx_buf where
  "demo_buf = \<lparr>ub_type = 1, ub_data = [7]\<rparr>"

definition demo_tree :: udx_sack_tree where
  "demo_tree = \<lparr>st_block = (\<lambda>_. \<lparr>sb_start = 25, sb_end = 25, sb_packets = []\<rparr>)
       (2 := \<lparr>sb_start = 10, sb_end = 12, sb_packets = [demo_buf, demo_buf]\<rparr>,
        3 := \<lparr>sb_start = 20, sb_end = 21, sb_packets = [demo_buf]\<rparr>,
        4 := \<lparr>sb_start = 30, sb_end = 31, sb_packets = [demo_buf]\<rparr>),
     st_left = (\<lambda>_. 1)(3 := 2), st_right = (\<lambda>_. 1)(3 := 4), st_parent = (\<lambda>_. 0)(2 := 3, 4 := 3),
     st_red = (\<lambda>_. False)(2 := True, 4 := True), st_root = 3, st_sentinel = 1\<rparr>"

abbreviation demo_nodes :: "addr tree" where
  "demo_nodes \<equiv> Node (Node Leaf 2 Leaf) 3 (Node Leaf 4 Leaf)"

lemma demo_tree_law: "sack_tree demo_tree demo_nodes"
  by (simp add: sack_tree_def seen_def coloured_def demo_tree_def)

lemma demo_blocks: "sacks_at 5 1 (tree_blocks demo_tree demo_nodes)"
  by (simp add: tree_blocks_def demo_tree_def seq_off_def)

text \<open>C17. On a heap that holds a red-black tree of blocks in sequence order: searching gives the block that the list of blocks gives, the
  first block and the next one are those of the list (or \<open>NULL\<close> behind the last), and two to the height is at most the square of one more than the number of blocks,
  so that no search follows more than twice the logarithm of that number.\<close>

theorem sack_tree_reads:
  assumes "sack_tree T t" "sacks_at base lo (tree_blocks T t)" "seq_off base seq < 2 ^ 31"
  shows "udx_sack_tree_find T seq = Some (case sack_find seq (tree_blocks T t) of None \<Rightarrow> NULL | Some i \<Rightarrow> inorder t ! i)
    \<and> udx_sack_tree_min T = Some (if inorder t = [] then NULL else hd (inorder t))
    \<and> (\<forall>i < length (inorder t). udx_sack_tree_next T (inorder t ! i) = Some (if Suc i < length (inorder t) then inorder t ! Suc i else NULL))
    \<and> 2 ^ height t \<le> (length (tree_blocks T t) + 1) ^ 2"
proof -
  note f = sack_tree_facts [OF assms(1)]
  have tr: "is_tree T NULL (st_root T) t" using f(1) by (simp add: seen_def)
  have "udx_sack_tree_find T seq = Some (case sack_find seq (tree_blocks T t) of None \<Rightarrow> NULL | Some i \<Rightarrow> inorder t ! i)"
    using find_from_law [OF tr, of base lo seq] assms(2,3) by (simp add: udx_sack_tree_find_def tree_blocks_def)
  moreover have "udx_sack_tree_min T = Some (if inorder t = [] then NULL else hd (inorder t))"
  proof (cases "t = Leaf")
    case False
    then have "st_root T \<noteq> st_sentinel T" "inorder t \<noteq> []" using tree_root [OF tr] by (cases t; simp)+
    then show ?thesis using rbtree_min_law [OF tr False] by (simp add: udx_sack_tree_min_def)
  qed (use tr in \<open>simp add: udx_sack_tree_min_def\<close>)
  ultimately show ?thesis using next_law [OF f(1)] sack_tree_height [OF assms(1)] by blast
qed

theorem sack_tree_reads_witness:
  "udx_sack_tree_find demo_tree 30 = Some 4 \<and> udx_sack_tree_min demo_tree = Some 2 \<and> udx_sack_tree_next demo_tree 4 = Some NULL"
proof -
  note r = sack_tree_reads [OF demo_tree_law demo_blocks, of 30]
  have "sack_find 30 (tree_blocks demo_tree demo_nodes) = Some 2"
    by (simp add: tree_blocks_def demo_tree_def seq_diff_def)
  moreover have "udx_sack_tree_next demo_tree (inorder demo_nodes ! 2) = Some NULL" using r by (auto simp: seq_off_def)
  ultimately show ?thesis using r by (simp add: seq_off_def)
qed

text \<open>C16. Inserting a new node into a red-black tree ends and gives a red-black tree again (balanced, no red node below a red one, a black root,
  parent pointers and sentinels right), whose blocks in order are those the insertion into the list of blocks gives; no block changes.\<close>

theorem sack_tree_inserts:
  assumes "sack_tree T t" "sacks_at base lo (tree_blocks T t)"
    and "block \<notin> set_tree t" "block \<noteq> NULL" "block \<noteq> st_sentinel T" "seq_off base (sb_start (st_block T block)) < 2 ^ 31"
  shows "\<exists>T' t'. udx_sack_tree_insert T block = Some T' \<and> sack_tree T' t' \<and> same_blocks T T'
    \<and> (fst (sack_insert (st_block T block) (tree_blocks T t)), tree_blocks T' t') = sack_insert (st_block T block) (tree_blocks T t)
    \<and> inorder t' ! fst (sack_insert (st_block T block) (tree_blocks T t)) = block"
  by (rule sack_tree_insert_law [OF assms])

theorem sack_tree_inserts_witness:
  "\<exists>T' t'. udx_sack_tree_insert demo_tree 5 = Some T' \<and> sack_tree T' t' \<and> map sb_start (tree_blocks T' t') = [10, 20, 25, 30]"
proof -
  have b: "st_block demo_tree 5 = \<lparr>sb_start = 25, sb_end = 25, sb_packets = []\<rparr>" "st_sentinel demo_tree = 1" by (simp_all add: demo_tree_def)
  have "\<exists>bs. snd (sack_insert (st_block demo_tree 5) (tree_blocks demo_tree demo_nodes)) = bs \<and> map sb_start bs = [10, 20, 25, 30]"
    by (simp add: tree_blocks_def demo_tree_def seq_diff_def)
  moreover obtain T' t' where "udx_sack_tree_insert demo_tree 5 = Some T'" "sack_tree T' t'"
    "tree_blocks T' t' = snd (sack_insert (st_block demo_tree 5) (tree_blocks demo_tree demo_nodes))"
    using sack_tree_inserts [OF demo_tree_law demo_blocks, of 5] by (auto simp: b seq_off_def prod_eq_iff)
  ultimately show ?thesis by metis
qed

text \<open>C15. Removing a node of a red-black tree ends, whatever the number of its children, and gives a red-black tree again with exactly the other
  nodes in the same order; no block changes.\<close>

theorem sack_tree_removes:
  assumes "sack_tree T t" "block \<in> set_tree t"
  shows "\<exists>T' t'. udx_sack_tree_remove T block = Some T' \<and> sack_tree T' t' \<and> inorder t' = filter (\<lambda>a. a \<noteq> block) (inorder t) \<and> same_blocks T T'"
  using sack_tree_remove_law [OF assms] by (simp add: mended_def)

theorem sack_tree_removes_witness:
  "\<exists>T' t'. udx_sack_tree_remove demo_tree 3 = Some T' \<and> sack_tree T' t' \<and> inorder t' = [2, 4]"
  using sack_tree_removes [OF demo_tree_law, of 3] by auto

text \<open>C14. Storing a packet that arrived out of order, with the pointer tree (search, a new node or the one found, the packet appended, the next
  block merged and removed when the two meet), gives a red-black tree whose blocks in order are those of the list model the receive path uses.\<close>

theorem tree_store_refines:
  assumes "sack_tree T t" "sacks_at base lo (tree_blocks T t)" "seq_off base seq < 2 ^ 31"
    and "fresh \<notin> set_tree t" "fresh \<noteq> NULL" "fresh \<noteq> st_sentinel T"
  shows "\<exists>T' t'. tree_store seq pkt fresh T = Some T' \<and> sack_tree T' t' \<and> tree_blocks T' t' = sack_store seq pkt (tree_blocks T t)"
  by (rule tree_store_law [OF assms])

theorem tree_store_refines_witness:
  "\<exists>T' t'. tree_store 12 demo_buf 5 demo_tree = Some T' \<and> sack_tree T' t' \<and> map sb_end (tree_blocks T' t') = [13, 21, 31]"
proof -
  have "map sb_end (sack_store 12 demo_buf (tree_blocks demo_tree demo_nodes)) = [13, 21, 31]"
    by (simp add: tree_blocks_def demo_tree_def seq_diff_def sack_store_def sack_append_0)
  moreover have "st_sentinel demo_tree = 1" by (simp add: demo_tree_def)
  moreover from this obtain T' t' where "tree_store 12 demo_buf 5 demo_tree = Some T'" "sack_tree T' t'"
    "tree_blocks T' t' = sack_store 12 demo_buf (tree_blocks demo_tree demo_nodes)"
    using tree_store_refines [OF demo_tree_law demo_blocks, of 12 5 demo_buf] by (auto simp: seq_off_def)
  ultimately show ?thesis by metis
qed

text \<open>C18. Closing a stream empties its tree: the loop that removes the root until the tree is empty ends, with the empty tree.\<close>

theorem clear_incoming_ends:
  assumes "sack_tree T t"
  shows "\<exists>T'. clear_tree T = Some T' \<and> sack_tree T' Leaf"
  by (rule clear_tree_law [OF assms])

theorem clear_incoming_ends_witness: "\<exists>T'. clear_tree demo_tree = Some T' \<and> st_root T' = st_sentinel T'"
  using clear_incoming_ends [OF demo_tree_law] by (auto simp: sack_tree_def seen_def)

end
