(* ===== verification/Spec2Isabelle.thy ===== *)
theory Spec2Isabelle
  imports Udx_Link Udx_Cirbuf Udx_Stream_Table Udx_Life Udx_Interface Udx_Instance Udx_Lookup Udx_Sack_Store
begin

text \<open>
  A verification development for libudx, a reliable, multiplexed and congestion-controlled transport over UDP, written in C
  (\<open>src/*.c\<close>, \<open>src/*.h\<close>, \<open>include/udx.h\<close>).

  The program.  An instance (\<open>udx_t\<close>) has sockets and streams.  The user writes buffers to a stream; the send path cuts them into packets
  numbered modulo 2 to the 32, keeps them until they are acknowledged, and sends as much as congestion control, pacing and the peer's window allow.
  The handler of a datagram finds its stream in the table of ids, takes data in order to the user and data out of order to a red-black tree,
  settles what the datagram acknowledges, samples the delivery rate for congestion control, marks packets as lost and sends again.
  Everything runs in the callbacks of one libuv loop; there are no threads, so that the order of callbacks is the only interleaving.

  How the model is built.  A \<open>world\<close> (\<open>Udx_Stream\<close>) is a stream with the packets, writes and buffers it owns, its timers and the list of what it
  sent and told the user; the functions of \<open>src/udx.c\<close> on one stream are functions on it with the same names.  A failing \<open>assert\<close> is \<open>None\<close>,
  an error result a negative number.  Integers are words of the width the code gives them.  What is not in the repository is a parameter: an \<open>env\<close>
  holds the results of libuv's sends, the user's callbacks and the host's byte order.  Objects are addresses into stores; the packet queues of a stream
  are lists, which \<open>Udx_Queue\<close> shows the pointer rings to implement (the locale \<open>node_queue\<close> is interpreted on both), the tree of blocks is a list,
  which \<open>Udx_Sack_Store\<close> shows the pointer tree to implement, and the circular buffer and the stream table are maps, which \<open>Udx_Cirbuf\<close> and
  \<open>Udx_Stream_Table\<close> show them to implement (the locale \<open>keyed_map\<close>).

  Containers and arithmetic.
  \<^item> \<open>Udx_Prelude\<close>: types, assertions, shared lemmas.  \<open>Udx_Internal\<close>: \<open>internal.h\<close>; inside a window of 2 to the 31 numbers the wrapping comparison
    is an order (locale \<open>window_order\<close>).
  \<^item> \<open>Udx_Queue\<close>, \<open>Udx_Link\<close>, \<open>Udx_Cirbuf\<close>, \<open>Udx_Stream_Table\<close>: \<open>queue.c\<close>, \<open>link.h\<close>, \<open>cirbuf.c\<close>, \<open>udx_stream_table.c\<close> on pointer heaps and arrays, each with its
    abstract sequence or map, and frame properties for the rest of the heap.
  \<^item> \<open>Udx_Sack_Tree\<close>, \<open>Udx_Sack_Insert\<close>, \<open>Udx_Sack_Remove\<close>, \<open>Udx_Sack_Store\<close>: \<open>udx_sack_tree.c\<close>, every operation on a heap of coloured nodes with
    parent pointers and a sentinel.  Insertion and removal end, keep the invariants of red-black trees and change the sequence of blocks as they should;
    height and walking follow.  \<open>Udx_Sack_List\<close> has the same operations on the list of blocks.
  \<^item> \<open>Udx_Win_Filter\<close>: \<open>win_filter.c\<close> and \<open>win_filter_f64.c\<close>, exact over a run of recent samples (locale \<open>extremum\<close>).
  \<^item> \<open>Udx_Wire\<close>: \<open>endian.c\<close> and the bytes of headers, acknowledgement packets and probes, with their round trips.  \<open>Udx_Addr\<close>: mapped addresses.

  One stream.
  \<^item> \<open>Udx_Stream\<close>, \<open>Udx_Stream_Ops\<close>: the data model, windows, path MTU search, timers, round trip times, pacing.
  \<^item> \<open>Udx_Rate\<close> (\<open>udx_rate.c\<close>), \<open>Udx_Double\<close> and \<open>Udx_Bbr\<close> (\<open>udx_bbr.c\<close>): rate samples and the congestion window.
  \<^item> \<open>Udx_Send\<close>, \<open>Udx_Close\<close>, \<open>Udx_Ack\<close>, \<open>Udx_Process\<close>, \<open>Udx_Recv\<close>, \<open>Udx_Api\<close>: the functions of \<open>udx.c\<close> that send, close, detect losses and settle, handle
    a packet, deliver data, and that the user calls.

  The instance.  \<open>Udx_Socket\<close>, \<open>Udx_Instance\<close>, \<open>Udx_Interface\<close>, \<open>Udx_Lookup\<close>: sockets with their requests and time-wait records, dispatch, closing with
  the lists, the table and the relays, teardown, the polling of network interfaces, name lookup.

  What is shown of a stream.
  \<^item> \<open>Udx_Account\<close>: the account; the chunks of bytes in the queue, the packet under construction and the packets in flight add up to the counters.
    \<open>Udx_Flight\<close>, \<open>Udx_Sender\<close>: the invariant of the packets in flight (\<open>sending\<close>), kept by every part of the send path.
  \<^item> \<open>Udx_Transfer\<close>, \<open>Udx_Session\<close>: writing and sending never fail an assertion, lose or reorder bytes; with the receive path the reader gets the bytes
    written, in order and once, whatever the network does (C1, C6 to C9).
  \<^item> \<open>Udx_Cancel\<close>, \<open>Udx_Settle\<close>, \<open>Udx_Loss\<close>, \<open>Udx_Handler\<close>, \<open>Udx_Life\<close>: closing and acknowledging answer writes; the loops over losses and ranges; the whole handler;
    and the step relation \<open>life\<close> of everything that can happen to a stream, with the law that each write is answered exactly once (C2 to C5).

  Bounds.  Loops of the code whose end is not structural are \<open>partial_function (option)\<close> and have no fuel: \<open>None\<close> is a failing assertion or a loop that does not
  end.  The laws of the send path, of closing and of acknowledging prove that a result is there; the law of the packet handler is about a handler that
  returns, because congestion control and the assertion on rates in \<open>Udx_Bbr\<close> can stop it (C11).  Numbers live in windows: \<open>room n w\<close> says that what is
  outstanding and queued needs fewer than 2 to the 31 sequence numbers, which the wrapping comparison of \<open>internal.h\<close> cannot do without.  User
  callbacks do nothing to the stream in the laws of a life (\<open>silent\<close>); in the receive path they may do anything that keeps its invariant.

  Not modelled.
  \<^item> \<open>io_posix.c\<close>, \<open>io_win.c\<close>, \<open>debug.h\<close>, the examples: system calls, printing and programs that use the library.
  \<^item> Calls that only hand their arguments to libuv (names of sockets, membership, multicast, reading buffer sizes), allocation sizes, and the freeing of memory
    of packets, blocks and requests.
  \<^item> Doubles are rationals rounded to 53 bits, floats to 24, without infinities, NaN or subnormal numbers.
  \<^item> In \<open>life\<close>: relays, a firewall that rejects, a destroy packet that has to wait for the socket, \<open>udx_stream_write_end\<close> and the tail loss probe's timer, which are
    modelled and not part of that law.  A write of an empty buffer beside others is outside of it too, and answered twice (\<open>empty_buffer_answered_twice\<close>).
\<close>

end
